(* ===== verification/Fw_Prelude.thy ===== *)
theory Fw_Prelude
  imports Main "HOL-Library.Word" "HOL-Library.Sublist" "HOL-Library.Monad_Syntax"
begin

unbundle bit_operations_syntax

text \<open>
  Shared vocabulary of the development: the machine integers of the firmware, C strings and the
  C library calls the policy headers use on them, and the lemmas about both that several
  components need.

  A \<open>const char*\<close> that may be null is a \<open>string option\<close>; a C string is the HOL string of the
  bytes before its terminator. Sizes and indices (\<open>size_t\<close>, 32 bits on the target) are \<open>nat\<close>:
  every one of them is bounded by the size of an object in memory, so no sum of two of them wraps.
  Integers whose wrap-around the code depends on (\<open>millis()\<close>, counters, packed words) are words.
\<close>

section \<open>Types and collections\<close>

type_synonym u8 = "8 word"
type_synonym u16 = "16 word"
type_synonym u32 = "32 word"
type_synonym u64 = "64 word"
type_synonym cstr = "string option"

named_theorems policy_defs \<open>definitions of the pure predicates, unfolded by component proofs\<close>

section \<open>Characters\<close>

abbreviation ccode :: "char \<Rightarrow> nat" where
  "ccode c \<equiv> of_char c"

definition isDigit :: "char \<Rightarrow> bool" where
  "isDigit c \<longleftrightarrow> 48 \<le> ccode c \<and> ccode c \<le> 57"

definition isUpper :: "char \<Rightarrow> bool" where
  "isUpper c \<longleftrightarrow> 65 \<le> ccode c \<and> ccode c \<le> 90"

definition isLower :: "char \<Rightarrow> bool" where
  "isLower c \<longleftrightarrow> 97 \<le> ccode c \<and> ccode c \<le> 122"

definition digitVal :: "char \<Rightarrow> nat" where
  "digitVal c = ccode c - 48"

text \<open>\<open>(c >= 'A' && c <= 'Z') ? c + 32 : c\<close>, the ASCII lower-casing the headers write inline.\<close>

definition toLower :: "char \<Rightarrow> char" where
  "toLower c = (if isUpper c then char_of (ccode c + 32) else c)"

definition isHexLower :: "char \<Rightarrow> bool" where
  "isHexLower c \<longleftrightarrow> isDigit c \<or> (97 \<le> ccode c \<and> ccode c \<le> 102)"

lemma ccode_less [simp]: "ccode c < 256"
  by (metis of_char_mod_256 mod_less_divisor zero_less_numeral)

lemma ccode_inject: "ccode c = ccode d \<longleftrightarrow> c = d"
  by (rule of_char_eq_iff)

lemma toLower_idem [simp]: "toLower (toLower c) = toLower c"
  by (auto simp: toLower_def isUpper_def)

lemma toLower_not_upper [simp]: "\<not> isUpper (toLower c)"
  by (auto simp: toLower_def isUpper_def)

section \<open>Decimal numbers\<close>

text \<open>The value of a run of digits, and the digits of a value as \<open>%u\<close> prints them.\<close>

definition decVal :: "nat \<Rightarrow> string \<Rightarrow> nat" where
  "decVal v ds = foldl (\<lambda>a c. a * 10 + digitVal c) v ds"

definition digits :: "string \<Rightarrow> bool" where
  "digits ds \<longleftrightarrow> ds \<noteq> [] \<and> list_all isDigit ds"

fun dec :: "nat \<Rightarrow> string" where
  "dec n = (if n < 10 then [char_of (48 + n)] else dec (n div 10) @ [char_of (48 + n mod 10)])"

declare dec.simps [simp del]

lemma decVal_simps [simp]:
  "decVal v [] = v"
  "decVal v (c # cs) = decVal (v * 10 + digitVal c) cs"
  "decVal v (xs @ ys) = decVal (decVal v xs) ys"
  by (simp_all add: decVal_def)

lemma decVal_ge: "v \<le> decVal v ds"
proof (induction ds arbitrary: v)
  case (Cons c cs)
  from Cons.IH [of "v * 10 + digitVal c"] show ?case by simp
qed simp

lemma digit_char [simp]:
  assumes "n < 10"
  shows "isDigit (char_of (48 + n))" and "digitVal (char_of (48 + n)) = n"
  using assms by (simp_all add: isDigit_def digitVal_def)

lemma dec_digits: "digits (dec n)"
proof (induction n rule: dec.induct)
  case (1 n)
  then show ?case by (subst dec.simps) (auto simp: digits_def)
qed

lemma decVal_dec: "decVal 0 (dec n) = n"
proof (induction n rule: dec.induct)
  case (1 n)
  then show ?case by (subst dec.simps) simp
qed

lemma decVal_bound: "list_all isDigit ds \<Longrightarrow> decVal v ds < (v + 1) * 10 ^ length ds"
proof (induction ds arbitrary: v)
  case (Cons c cs)
  have "digitVal c < 10" using Cons.prems by (auto simp: isDigit_def digitVal_def)
  then have "v * 10 + digitVal c + 1 \<le> (v + 1) * 10" by simp
  then have le: "(v * 10 + digitVal c + 1) * 10 ^ length cs \<le> (v + 1) * 10 * 10 ^ length cs" by (rule mult_right_mono) simp
  have "decVal v (c # cs) < (v * 10 + digitVal c + 1) * 10 ^ length cs" using Cons.IH [of "v * 10 + digitVal c"] Cons.prems by simp
  also note le
  finally show ?case by (simp only: length_Cons power_Suc mult.assoc)
qed simp

lemma dec_length: "n < 10 ^ k \<Longrightarrow> 0 < k \<Longrightarrow> length (dec n) \<le> k"
proof (induction n arbitrary: k rule: dec.induct)
  case (1 n)
  show ?case
  proof (cases "n < 10")
    case False
    then obtain j where j: "k = Suc j" "0 < j" using "1.prems" by (cases k; cases "k - 1") auto
    then have "n div 10 < 10 ^ j" using "1.prems" by (simp add: less_mult_imp_div_less mult.commute)
    then show ?thesis using "1.IH" [of j] False j by (subst dec.simps) simp
  qed (use "1.prems" in \<open>subst dec.simps, simp\<close>)
qed

section \<open>C library calls on strings\<close>

text \<open>\<open>strncmp(a, b, n) == 0\<close>, \<open>strchr\<close>, \<open>strrchr\<close> (the index) and \<open>strstr\<close> (the rest of the string
  from the first match) on strings without embedded terminators.\<close>

definition strncmp0 :: "string \<Rightarrow> string \<Rightarrow> nat \<Rightarrow> bool" where
  "strncmp0 a b n \<longleftrightarrow> take n a = take n b"

definition c_strchr :: "string \<Rightarrow> char \<Rightarrow> string option" where
  "c_strchr s c = (if c \<in> set s then Some (dropWhile (\<lambda>x. x \<noteq> c) s) else None)"

fun c_strrchr :: "string \<Rightarrow> char \<Rightarrow> nat option" where
  "c_strrchr [] c = None"
| "c_strrchr (x # xs) c =
     (case c_strrchr xs c of Some i \<Rightarrow> Some (Suc i) | None \<Rightarrow> (if x = c then Some 0 else None))"

fun c_strstr :: "string \<Rightarrow> string \<Rightarrow> string option" where
  "c_strstr [] pat = (if pat = [] then Some [] else None)"
| "c_strstr (x # xs) pat =
     (if take (length pat) (x # xs) = pat then Some (x # xs) else c_strstr xs pat)"

lemma strncmp0_prefix: "strncmp0 s lit (length lit) \<longleftrightarrow> prefix lit s"
  by (auto simp: strncmp0_def prefix_def) (metis append_take_drop_id)

lemma strncmp0_lit: "length lit = n \<Longrightarrow> strncmp0 s lit n \<longleftrightarrow> prefix lit s"
  using strncmp0_prefix by blast

lemma c_strrchr_None: "c_strrchr s c = None \<longleftrightarrow> c \<notin> set s"
  by (induction s) (auto split: option.splits)

lemma c_strrchr_Some:
  "c_strrchr s c = Some i \<Longrightarrow> i < length s \<and> s ! i = c \<and> c \<notin> set (drop (Suc i) s)"
proof (induction s arbitrary: i)
  case (Cons x xs)
  then show ?case by (auto simp: c_strrchr_None split: option.splits if_splits)
qed simp

lemma c_strstr_Some_iff: "(\<exists>r. c_strstr s pat = Some r) \<longleftrightarrow> sublist pat s"
proof (induction s)
  case (Cons x xs)
  have "take (length pat) (x # xs) = pat \<longleftrightarrow> prefix pat (x # xs)"
    by (metis append_take_drop_id prefix_def take_all_iff append_eq_conv_conj prefixI)
  then show ?case using Cons.IH by (auto simp: sublist_Cons_right)
qed (auto simp: sublist_def)

lemma c_strstr_suffix: "c_strstr s pat = Some r \<Longrightarrow> suffix r s \<and> prefix pat r"
proof (induction s)
  case (Cons x xs)
  then show ?case
    by (auto simp: suffix_Cons split: if_splits) (metis append_take_drop_id length_Cons prefixI take_Cons')
qed (auto split: if_splits)

text \<open>\<open>snprintf(out, cap, ...)\<close> of a finished text: what it leaves in \<open>out\<close>.\<close>

definition c_snprintf :: "nat \<Rightarrow> string \<Rightarrow> string" where
  "c_snprintf cap txt = take (cap - 1) txt"

lemma c_snprintf_fits [simp]: "length txt < cap \<Longrightarrow> c_snprintf cap txt = txt"
  by (simp add: c_snprintf_def)

section \<open>Lists\<close>

lemma count_update:
  "i < length xs \<Longrightarrow> length (filter P (xs[i := w])) + (if P (xs ! i) then 1 else 0) = length (filter P xs) + (if P w then 1 else 0)"
proof (induction xs arbitrary: i)
  case (Cons a xs)
  show ?case
  proof (cases i)
    case (Suc j)
    then show ?thesis using Cons.IH [of j] Cons.prems by (cases "P a") auto
  qed auto
qed simp

section \<open>Words\<close>

lemma bit_small_word: "unat (w :: 'a::len word) < 2 ^ k \<Longrightarrow> k \<le> n \<Longrightarrow> \<not> bit w n"
proof -
  assume a: "unat w < 2 ^ k" and b: "k \<le> n"
  have "unat w < 2 ^ n" using a power_increasing [OF b, of "2::nat"] by linarith
  then have "\<not> bit (unat w) n" by (simp add: bit_iff_odd)
  then show ?thesis by (simp add: bit_unsigned_iff)
qed

lemma unat_of_nat_small: "n < 2 ^ LENGTH('a) \<Longrightarrow> unat (of_nat n :: 'a::len word) = n"
  by (simp add: unsigned_of_nat take_bit_nat_eq_self)

lemma word_of_nat_unat: "of_nat (unat w) = (w :: 'a::len word)"
  by simp

lemma unat_less_8 [simp]: "unat (w :: u8) < 256"
  using unsigned_less [of w] by simp

lemma unat_less_32: "unat (w :: u32) < 4294967296"
  using unsigned_less [of w] by simp

lemma sint_u32: "sint (w :: u32) = (if 2147483648 \<le> uint w then uint w - 4294967296 else uint w)"
proof -
  have s: "sint w = (uint w + 2147483648) mod 4294967296 - 2147483648"
    by (simp add: sint_uint signed_take_bit_eq_take_bit_shift take_bit_eq_mod)
  have b: "0 \<le> uint w" "uint w < 4294967296" using uint_bounded [of w] by simp_all
  show ?thesis
  proof (cases "2147483648 \<le> uint w")
    case True
    have "uint w + 2147483648 = (uint w - 2147483648) + 4294967296" by simp
    then have "(uint w + 2147483648) mod 4294967296 = (uint w - 2147483648) mod 4294967296" by (metis mod_add_self2)
    also have "\<dots> = uint w - 2147483648" using b True by (intro mod_pos_pos_trivial) simp_all
    finally show ?thesis using s True by simp
  next
    case False
    then show ?thesis using s b by simp
  qed
qed

text \<open>The signed difference of two clock readings at most half the range apart.\<close>

lemma sint_diff_before: "uint (a :: u32) < uint b \<Longrightarrow> uint b - uint a \<le> 2147483648 \<Longrightarrow> sint (a - b) < 0"
proof -
  assume a: "uint a < uint b" "uint b - uint a \<le> 2147483648"
  have "uint (a - b) = uint a - uint b + 4294967296" using a(1) by (simp add: uint_sub_if')
  then show ?thesis using a uint_bounded [of "a - b"] by (simp add: sint_u32)
qed

lemma unat_Suc_small: "n + 1 < 2 ^ LENGTH('a) \<Longrightarrow> unat (of_nat n + 1 :: 'a::len word) = Suc n"
  using unat_of_nat_small [of "Suc n", where 'a = 'a] by (simp add: add.commute)

lemma le32_join:
  fixes v :: u32
  shows "((ucast (ucast v :: u8) OR push_bit 8 (ucast (ucast (drop_bit 8 v) :: u8)))
     OR push_bit 16 (ucast (ucast (drop_bit 16 v) :: u8)))
     OR push_bit 24 (ucast (ucast (drop_bit 24 v) :: u8)) = v" (is "?L = v")
proof (rule bit_word_eqI)
  fix n assume "n < LENGTH(32)"
  then consider "n < 8" | "8 \<le> n" "n < 16" | "16 \<le> n" "n < 24" | "24 \<le> n" "n < 32" by fastforce
  then show "bit ?L n = bit v n"
    by cases (auto simp: bit_simps)
qed
lemma upt4: "[0..<4] = [0, 1, 2, 3::nat]" by (simp add: upt_rec)

end
