(* ===== verification/Ota_Verify.thy ===== *)
theory Ota_Verify
  imports Fw_Prelude
begin

unbundle bit_operations_syntax

text \<open>
  \<open>lib/thesada-core/src/ota_verify_policy.h\<close>: the decisions on the OTA verification path. The TLS
  footing, manifest validation, the strict \<open>N.N.N\<close> version parser and the update predicate over it,
  the skip of a release the crash guard fled from, the digest compare and the URL scheme gates.
  The three out parameters of the parser are the triple of its \<open>Some\<close> result.
\<close>

section \<open>Definitions\<close>

subsection \<open>TLS footing and manifest\<close>

definition OTA_MANIFEST_CAP :: nat where
  "OTA_MANIFEST_CAP = 8 * 1024"

definition OTA_SHA256_HEX_LEN :: nat where
  "OTA_SHA256_HEX_LEN = 64"

datatype OtaTlsMode = OTA_TLS_REFUSED | OTA_TLS_INSECURE | OTA_TLS_VERIFIED

definition otaTlsMode :: "bool \<Rightarrow> bool \<Rightarrow> OtaTlsMode" where
  "otaTlsMode haveCaCert allowInsecure =
     (if haveCaCert then OTA_TLS_VERIFIED
      else if allowInsecure then OTA_TLS_INSECURE else OTA_TLS_REFUSED)"

definition otaManifestValid :: "cstr \<Rightarrow> cstr \<Rightarrow> cstr \<Rightarrow> bool" where
  "otaManifestValid version url sha256 =
     (case (version, url, sha256) of
        (Some v, Some u, Some s) \<Rightarrow> v \<noteq> [] \<and> u \<noteq> [] \<and> s \<noteq> []
      | _ \<Rightarrow> False)"

definition otaManifestSizeOk :: "nat \<Rightarrow> nat \<Rightarrow> bool" where
  "otaManifestSizeOk haveLen incomingLen \<longleftrightarrow> haveLen + incomingLen \<le> OTA_MANIFEST_CAP"

subsection \<open>Versions\<close>

definition INT_MAX :: nat where
  "INT_MAX = 2147483647"

fun otaVersionLoop :: "nat \<Rightarrow> string \<Rightarrow> (nat \<times> string) option" where
  "otaVersionLoop v [] = Some (v, [])"
| "otaVersionLoop v (c # cs) =
     (if isDigit c
      then (let v' = v * 10 + digitVal c in if v' > INT_MAX then None else otaVersionLoop v' cs)
      else Some (v, c # cs))"

definition otaParseVersionField :: "string \<Rightarrow> (nat \<times> string) option" where
  "otaParseVersionField p =
     (case p of [] \<Rightarrow> None | c # _ \<Rightarrow> if isDigit c then otaVersionLoop 0 p else None)"

definition skipDot :: "string \<Rightarrow> string option" where
  "skipDot p = (case p of [] \<Rightarrow> None | c # cs \<Rightarrow> if c = CHR ''.'' then Some cs else None)"

definition otaParseVersion :: "cstr \<Rightarrow> (nat \<times> nat \<times> nat) option" where
  "otaParseVersion s = do {
     p \<leftarrow> s;
     (major, p) \<leftarrow> otaParseVersionField p;
     p \<leftarrow> skipDot p;
     (minor, p) \<leftarrow> otaParseVersionField p;
     p \<leftarrow> skipDot p;
     (patch, p) \<leftarrow> otaParseVersionField p;
     (if p = [] then Some (major, minor, patch) else None)
   }"

definition otaIsNewer :: "cstr \<Rightarrow> cstr \<Rightarrow> bool" where
  "otaIsNewer remote local =
     (case (otaParseVersion remote, otaParseVersion local) of
        (Some (rMajor, rMinor, rPatch), Some (lMajor, lMinor, lPatch)) \<Rightarrow>
          (if rMajor \<noteq> lMajor then rMajor > lMajor
           else if rMinor \<noteq> lMinor then rMinor > lMinor
           else rPatch > lPatch)
      | _ \<Rightarrow> False)"

definition otaShouldUpdate :: "cstr \<Rightarrow> cstr \<Rightarrow> bool \<Rightarrow> bool" where
  "otaShouldUpdate remote local force \<longleftrightarrow> force \<or> otaIsNewer remote local"

definition otaSameVersion :: "cstr \<Rightarrow> cstr \<Rightarrow> bool" where
  "otaSameVersion a b =
     (case (otaParseVersion a, otaParseVersion b) of
        (Some (aMajor, aMinor, aPatch), Some (bMajor, bMinor, bPatch)) \<Rightarrow>
          aMajor = bMajor \<and> aMinor = bMinor \<and> aPatch = bPatch
      | _ \<Rightarrow> False)"

subsection \<open>The fled-release skip\<close>

definition OTA_FLED_SKIP_S :: u32 where
  "OTA_FLED_SKIP_S = 24 * 60 * 60"

definition OTA_FLED_TRIES :: nat where
  "OTA_FLED_TRIES = 2"

definition OTA_FLED_SAVE_S :: u32 where
  "OTA_FLED_SAVE_S = 10 * 60"

definition OTA_FLED_GAP_MAX_S :: u32 where
  "OTA_FLED_GAP_MAX_S = 60 * 60"

record OtaFledAge =
  ageS :: u32
  fledTries :: u8
  seenEpoch :: u32

definition otaFledPack :: "OtaFledAge \<Rightarrow> u64" where
  "otaFledPack a =
     (let age = (if ageS a < OTA_FLED_SKIP_S then ageS a else OTA_FLED_SKIP_S)
      in (push_bit 32 (ucast (seenEpoch a)) OR push_bit 24 (ucast (fledTries a))) OR ucast age)"

definition otaFledUnpack :: "u64 \<Rightarrow> OtaFledAge" where
  "otaFledUnpack v =
     \<lparr>ageS = ucast (v AND 0xFFFFFF), fledTries = ucast (drop_bit 24 v),
      seenEpoch = ucast (drop_bit 32 v)\<rparr>"

definition otaFledCarry :: "u32 \<Rightarrow> u32 \<Rightarrow> u32" where
  "otaFledCarry value check =
     (if check \<noteq> NOT value then 0
      else if value < 2 * OTA_FLED_SAVE_S then value else 2 * OTA_FLED_SAVE_S)"

definition otaFledElapsed :: "u32 \<Rightarrow> bool \<Rightarrow> u32 \<Rightarrow> u32 \<Rightarrow> u32" where
  "otaFledElapsed upS firstThisBoot seen nowEpoch =
     (if \<not> firstThisBoot \<or> seen = 0 \<or> nowEpoch \<le> seen then upS
      else (let gap = nowEpoch - seen
            in if gap \<le> upS then upS
               else (let off = gap - upS
                     in upS + (if off < OTA_FLED_GAP_MAX_S then off else OTA_FLED_GAP_MAX_S))))"

definition otaFledSaveDue :: "u32 \<Rightarrow> bool \<Rightarrow> bool" where
  "otaFledSaveDue unsavedS firstThisBoot \<longleftrightarrow> firstThisBoot \<or> unsavedS \<ge> OTA_FLED_SAVE_S"

definition otaFledAdvance :: "u32 \<Rightarrow> u32 \<Rightarrow> u32" where
  "otaFledAdvance age elapsedS =
     (if age \<ge> OTA_FLED_SKIP_S \<or> elapsedS \<ge> OTA_FLED_SKIP_S - age then OTA_FLED_SKIP_S
      else age + elapsedS)"

definition otaFledAges :: "cstr \<Rightarrow> cstr \<Rightarrow> u32 \<Rightarrow> bool" where
  "otaFledAges fled running age \<longleftrightarrow>
     otaParseVersion fled \<noteq> None \<and> age < OTA_FLED_SKIP_S \<and> \<not> otaSameVersion fled running"

datatype OtaFledAction =
  OTA_FLED_NONE | OTA_FLED_SKIP | OTA_FLED_RETRY | OTA_FLED_LAST | OTA_FLED_FORCED

definition otaFledAction :: "cstr \<Rightarrow> cstr \<Rightarrow> u32 \<Rightarrow> u8 \<Rightarrow> bool \<Rightarrow> OtaFledAction" where
  "otaFledAction remote fled age tries force =
     (if \<not> otaSameVersion remote fled then OTA_FLED_NONE
      else if force then OTA_FLED_FORCED
      else if age < OTA_FLED_SKIP_S then OTA_FLED_SKIP
      else if unat tries + 1 < OTA_FLED_TRIES then OTA_FLED_RETRY else OTA_FLED_LAST)"

definition otaFledMayDownload :: "OtaFledAction \<Rightarrow> bool \<Rightarrow> bool" where
  "otaFledMayDownload action saved \<longleftrightarrow>
     saved \<or> (action \<noteq> OTA_FLED_RETRY \<and> action \<noteq> OTA_FLED_LAST)"

definition otaFledAfterTry :: "OtaFledAction \<Rightarrow> u32 \<Rightarrow> u8 \<Rightarrow> bool \<Rightarrow> OtaFledAge" where
  "otaFledAfterTry action age tries saved =
     (if saved \<and> action = OTA_FLED_LAST then \<lparr>ageS = 0, fledTries = 0, seenEpoch = 0\<rparr>
      else if saved \<and> action = OTA_FLED_RETRY
        then \<lparr>ageS = age, fledTries = tries + 1, seenEpoch = 0\<rparr>
      else \<lparr>ageS = age, fledTries = tries, seenEpoch = 0\<rparr>)"

definition otaFledRecordsInstall :: "cstr \<Rightarrow> cstr \<Rightarrow> bool" where
  "otaFledRecordsInstall fled installing \<longleftrightarrow>
     otaParseVersion installing \<noteq> None \<and> \<not> otaSameVersion fled installing"

subsection \<open>Digest and URL gates\<close>

definition otaShaMatches :: "cstr \<Rightarrow> cstr \<Rightarrow> bool" where
  "otaShaMatches computedHex expectedHex =
     (case (computedHex, expectedHex) of
        (Some c, Some e) \<Rightarrow>
          length c = OTA_SHA256_HEX_LEN \<and> length e = OTA_SHA256_HEX_LEN \<and>
          map toLower c = map toLower e
      | _ \<Rightarrow> False)"

definition otaUrlAllowed :: "cstr \<Rightarrow> bool \<Rightarrow> bool" where
  "otaUrlAllowed url allowInsecure =
     (case url of None \<Rightarrow> False
      | Some u \<Rightarrow> strncmp0 u ''https://'' 8 \<or> (allowInsecure \<and> strncmp0 u ''http://'' 7))"

definition OTA_REDIRECT_MAX :: nat where
  "OTA_REDIRECT_MAX = 5"

definition otaIsRedirect :: "int \<Rightarrow> bool" where
  "otaIsRedirect code \<longleftrightarrow> code = 301 \<or> code = 302 \<or> code = 303 \<or> code = 307 \<or> code = 308"

definition otaScheme :: "string \<Rightarrow> string option" where
  "otaScheme from =
     (if strncmp0 from ''https://'' 8 then Some ''https://''
      else if strncmp0 from ''http://'' 7 then Some ''http://'' else None)"

definition otaRedirectAllowed :: "cstr \<Rightarrow> cstr \<Rightarrow> bool" where
  "otaRedirectAllowed from to =
     (case (from, to) of
        (Some f, Some t) \<Rightarrow>
          (case otaScheme f of None \<Rightarrow> False
           | Some scheme \<Rightarrow>
               (let n = length scheme
                in strncmp0 t scheme n \<and> n < length t \<and> t ! n \<noteq> CHR ''/''))
      | _ \<Rightarrow> False)"

lemmas ota_fled_consts = OTA_FLED_SKIP_S_def OTA_FLED_TRIES_def OTA_FLED_SAVE_S_def OTA_FLED_GAP_MAX_S_def

lemmas ota_parse_eval = otaParseVersion_def otaParseVersionField_def skipDot_def isDigit_def
  digitVal_def INT_MAX_def Let_def

section \<open>The version parser against its grammar\<close>

lemma otaVersionLoop_append:
  assumes "list_all isDigit ds" and "decVal v ds \<le> INT_MAX"
    and "rest = [] \<or> \<not> isDigit (hd rest)"
  shows "otaVersionLoop v (ds @ rest) = Some (decVal v ds, rest)"
  using assms(1,2)
proof (induction ds arbitrary: v)
  case Nil
  then show ?case using assms(3) by (cases rest) auto
next
  case (Cons c cs)
  have "v * 10 + digitVal c \<le> INT_MAX"
    using decVal_ge [of "v * 10 + digitVal c" cs] Cons.prems(2) by simp
  with Cons show ?case by (simp add: Let_def)
qed

lemma otaVersionLoop_Some:
  assumes "otaVersionLoop v p = Some (w, rest)" and "v \<le> INT_MAX"
  shows "\<exists>ds. p = ds @ rest \<and> list_all isDigit ds \<and> decVal v ds = w \<and> w \<le> INT_MAX \<and>
           (rest = [] \<or> \<not> isDigit (hd rest))"
  using assms
proof (induction v p rule: otaVersionLoop.induct)
  case (1 v)
  then show ?case by (intro exI [of _ "[]"]) auto
next
  case (2 v c cs)
  show ?case
  proof (cases "isDigit c")
    case True
    with 2 obtain ds where "cs = ds @ rest" "list_all isDigit ds"
      "decVal (v * 10 + digitVal c) ds = w" "w \<le> INT_MAX" "rest = [] \<or> \<not> isDigit (hd rest)"
      by (auto simp: Let_def split: if_splits)
    with True show ?thesis by (intro exI [of _ "c # ds"]) auto
  next
    case False
    with 2 show ?thesis by (intro exI [of _ "[]"]) auto
  qed
qed

lemma otaParseVersionField_iff:
  "otaParseVersionField p = Some (w, rest) \<longleftrightarrow>
     (\<exists>ds. p = ds @ rest \<and> digits ds \<and> decVal 0 ds = w \<and> w \<le> INT_MAX \<and>
           (rest = [] \<or> \<not> isDigit (hd rest)))"  (is "?L \<longleftrightarrow> ?R")
proof
  assume L: ?L
  then obtain c cs where p: "p = c # cs" "isDigit c" and lp: "otaVersionLoop 0 p = Some (w, rest)"
    by (auto simp: otaParseVersionField_def split: list.splits if_splits)
  from otaVersionLoop_Some [OF lp] obtain ds where
    ds: "p = ds @ rest" "list_all isDigit ds" "decVal 0 ds = w" "w \<le> INT_MAX"
        "rest = [] \<or> \<not> isDigit (hd rest)" by auto
  with p have "ds \<noteq> []" by (cases ds) auto
  with ds show ?R by (auto simp: digits_def)
next
  assume ?R
  then obtain ds where ds: "p = ds @ rest" "digits ds" "decVal 0 ds = w" "w \<le> INT_MAX"
    "rest = [] \<or> \<not> isDigit (hd rest)" by blast
  with otaVersionLoop_append [of ds 0 rest] have "otaVersionLoop 0 p = Some (w, rest)"
    by (auto simp: digits_def)
  moreover from ds obtain c cs where "p = c # cs" "isDigit c"
    by (cases ds) (auto simp: digits_def)
  ultimately show ?L by (simp add: otaParseVersionField_def)
qed

lemma skipDot_iff [simp]: "skipDot p = Some r \<longleftrightarrow> p = CHR ''.'' # r"
  by (auto simp: skipDot_def split: list.splits)

lemma skipDot_Cons [simp]: "skipDot (CHR ''.'' # r) = Some r"
  by simp

lemma not_digit_dot [simp]: "\<not> isDigit (CHR ''.'')"
  by (simp add: isDigit_def)

definition versionText :: "string \<Rightarrow> string \<Rightarrow> string \<Rightarrow> string" where
  "versionText a b c = a @ ''.'' @ b @ ''.'' @ c"

text \<open>The parser accepts exactly the strings of three dotted digit runs whose values fit an \<open>int\<close>,
  and returns those values.\<close>

lemma otaParseVersion_iff:
  "otaParseVersion (Some s) = Some (x, y, z) \<longleftrightarrow>
     (\<exists>a b c. s = versionText a b c \<and> digits a \<and> digits b \<and> digits c \<and>
        decVal 0 a = x \<and> decVal 0 b = y \<and> decVal 0 c = z \<and>
        x \<le> INT_MAX \<and> y \<le> INT_MAX \<and> z \<le> INT_MAX)"
  (is "?L \<longleftrightarrow> ?R")
proof
  assume ?L
  then obtain p1 p2 p3 where
    "otaParseVersionField s = Some (x, CHR ''.'' # p1)"
    "otaParseVersionField p1 = Some (y, CHR ''.'' # p2)"
    "otaParseVersionField p2 = Some (z, p3)" "p3 = []"
    by (auto simp: otaParseVersion_def bind_eq_Some_conv split: if_splits)
  then show ?R unfolding otaParseVersionField_iff versionText_def by auto
next
  assume ?R
  then obtain a b c where d: "s = versionText a b c" "digits a" "digits b" "digits c"
    "decVal 0 a = x" "decVal 0 b = y" "decVal 0 c = z"
    "x \<le> INT_MAX" "y \<le> INT_MAX" "z \<le> INT_MAX" by blast
  from d have
    "otaParseVersionField s = Some (x, ''.'' @ b @ ''.'' @ c)"
    "otaParseVersionField (b @ ''.'' @ c) = Some (y, ''.'' @ c)"
    "otaParseVersionField c = Some (z, [])"
    unfolding otaParseVersionField_iff versionText_def by auto
  then show ?L by (simp add: otaParseVersion_def)
qed

lemma versionText_parse [simp]:
  assumes "a \<le> INT_MAX" and "b \<le> INT_MAX" and "c \<le> INT_MAX"
  shows "otaParseVersion (Some (versionText (dec a) (dec b) (dec c))) = Some (a, b, c)"
  using assms unfolding otaParseVersion_iff by (metis dec_digits decVal_dec)

lemma otaParseVersion_null [simp]: "otaParseVersion None = None"
  by (simp add: otaParseVersion_def)

section \<open>The update predicate is a strict order\<close>

definition versionLess :: "nat \<times> nat \<times> nat \<Rightarrow> nat \<times> nat \<times> nat \<Rightarrow> bool" where
  "versionLess v w \<longleftrightarrow>
     (v, w) \<in> less_than <*lex*> (less_than <*lex*> less_than)"

lemma otaIsNewer_iff:
  "otaIsNewer remote local \<longleftrightarrow>
     (\<exists>r l. otaParseVersion remote = Some r \<and> otaParseVersion local = Some l \<and> versionLess l r)"
  by (auto simp: otaIsNewer_def versionLess_def split: option.splits)

lemma versionLess_irrefl [simp]: "\<not> versionLess v v"
  by (cases v) (auto simp: versionLess_def)

lemma versionLess_trans: "versionLess u v \<Longrightarrow> versionLess v w \<Longrightarrow> versionLess u w"
  by (cases u; cases v; cases w) (auto simp: versionLess_def)

lemma versionLess_total: "versionLess u v \<or> u = v \<or> versionLess v u"
  by (cases u; cases v) (auto simp: versionLess_def)

lemma otaIsNewer_trans: "otaIsNewer c b \<Longrightarrow> otaIsNewer b a \<Longrightarrow> otaIsNewer c a"
  unfolding otaIsNewer_iff by (metis option.inject versionLess_trans)

lemma otaSameVersion_iff:
  "otaSameVersion a b \<longleftrightarrow> (\<exists>v. otaParseVersion a = Some v \<and> otaParseVersion b = Some v)"
  by (auto simp: otaSameVersion_def split: option.splits)

text \<open>A fleet that installs what a check offers without \<open>force\<close> climbs: each version of a run of
  installs is newer than every earlier one, so no build is ever installed twice.\<close>

fun installRun :: "string \<Rightarrow> string list \<Rightarrow> bool" where
  "installRun v [] = True"
| "installRun v (w # ws) = (otaShouldUpdate (Some w) (Some v) False \<and> installRun w ws)"

lemma installRun_newer:
  "installRun v ws \<Longrightarrow> w \<in> set ws \<Longrightarrow> otaIsNewer (Some w) (Some v)"
proof (induction ws arbitrary: v)
  case (Cons u us)
  from Cons.prems(1) have u: "otaIsNewer (Some u) (Some v)" and us: "installRun u us"
    by (auto simp: otaShouldUpdate_def)
  from Cons.prems(2) consider "w = u" | "w \<in> set us" by auto
  then show ?case
  proof cases
    case 2
    then have "otaIsNewer (Some w) (Some u)" using Cons.IH us by blast
    then show ?thesis using u otaIsNewer_trans by blast
  qed (use u in simp)
qed simp

text \<open>Without \<open>force\<close>, a run of installs never installs a version twice and never returns to
  the version it started from.\<close>

lemma installRun_distinct:
  assumes "installRun v ws"
  shows "distinct (v # ws)"
  using assms
proof (induction ws arbitrary: v)
  case (Cons u us)
  then have "distinct (u # us)" unfolding installRun.simps by blast
  moreover have "v \<notin> set (u # us)"
  proof
    assume "v \<in> set (u # us)"
    then have "otaIsNewer (Some v) (Some v)" using installRun_newer Cons.prems by blast
    then show False by (auto simp: otaIsNewer_iff)
  qed
  ultimately show ?case by simp
qed simp

section \<open>The skip record\<close>

lemma and_FFFFFF: "v AND 0xFFFFFF = take_bit 24 (v :: u64)"
  by (simp add: take_bit_eq_mask mask_eq_exp_minus_1)

definition fledClamp :: "OtaFledAge \<Rightarrow> OtaFledAge" where
  "fledClamp a = a\<lparr>ageS := min (ageS a) OTA_FLED_SKIP_S\<rparr>"

lemma ageS_clamp_small: "unat (min a OTA_FLED_SKIP_S) < 2 ^ 24"
proof -
  have "unat (min a OTA_FLED_SKIP_S) \<le> unat OTA_FLED_SKIP_S"
    by (simp add: word_le_nat_alt [symmetric])
  then show ?thesis by (simp add: OTA_FLED_SKIP_S_def)
qed

text \<open>The one stored word keeps the fled record: unpacking what was packed returns the tries
  and the epoch unchanged and the age held at the length of the skip.\<close>

lemma otaFledUnpack_pack: "otaFledUnpack (otaFledPack a) = fledClamp a"
proof -
  define age where "age = min (ageS a) OTA_FLED_SKIP_S"
  have small: "bit age n \<Longrightarrow> n < 24" for n
    using bit_small_word [of age 24 n] ageS_clamp_small by (auto simp: age_def not_less [symmetric])
  have pack: "otaFledPack a = (push_bit 32 (ucast (seenEpoch a)) OR push_bit 24 (ucast (fledTries a))) OR ucast age"
    by (auto simp: otaFledPack_def age_def min_def Let_def)
  have 1: "ucast (otaFledPack a AND 0xFFFFFF) = age"
    by (rule bit_word_eqI) (use small in \<open>auto simp: and_FFFFFF pack bit_simps\<close>)
  have 2: "ucast (drop_bit 24 (otaFledPack a)) = fledTries a"
    by (rule bit_word_eqI) (use small in \<open>auto simp: pack bit_simps\<close>)
  have 3: "ucast (drop_bit 32 (otaFledPack a)) = seenEpoch a"
    by (rule bit_word_eqI) (use small in \<open>fastforce simp: pack bit_simps dest: bit_imp_le_length\<close>)
  from 1 2 3 show ?thesis by (simp add: otaFledUnpack_def fledClamp_def age_def)
qed

text \<open>Advancing the age is addition that saturates at the skip; no sum wraps.\<close>

lemma unat_otaFledAdvance:
  "unat (otaFledAdvance a e) = min (unat a + unat e) 86400"
proof (cases "a \<ge> OTA_FLED_SKIP_S")
  case True
  then show ?thesis by (simp add: otaFledAdvance_def ota_fled_consts word_le_nat_alt)
next
  case False
  then have a: "unat a < 86400" by (simp add: ota_fled_consts word_le_nat_alt)
  then have s: "unat (86400 - a) = 86400 - unat a"
    by (subst unat_sub) (simp_all add: word_le_nat_alt)
  show ?thesis
  proof (cases "e \<ge> 86400 - a")
    case True
    with a s show ?thesis by (simp add: otaFledAdvance_def ota_fled_consts word_le_nat_alt)
  next
    case F: False
    with a s have "unat a + unat e < 86400" by (simp add: word_le_nat_alt)
    moreover from this have "unat (a + e) = unat a + unat e"
      by (simp add: unat_word_ariths)
    ultimately show ?thesis using F a s
      by (simp add: otaFledAdvance_def ota_fled_consts word_le_nat_alt)
  qed
qed
lemma otaFledAdvance_le: "otaFledAdvance a e \<le> OTA_FLED_SKIP_S"
  by (simp add: word_le_nat_alt unat_otaFledAdvance OTA_FLED_SKIP_S_def)

lemma otaFledCarry_bound: "unat (otaFledCarry v c) \<le> 1200"
  by (simp add: otaFledCarry_def ota_fled_consts word_less_nat_alt)

lemma otaFledAction_install:
  "otaFledAction remote fled age tries False \<in> {OTA_FLED_RETRY, OTA_FLED_LAST} \<longleftrightarrow>
     otaSameVersion remote fled \<and> OTA_FLED_SKIP_S \<le> age"
  by (auto simp: otaFledAction_def)

section \<open>Digest and scheme gates\<close>

lemma otaShaMatches_iff:
  "otaShaMatches a b \<longleftrightarrow>
     (\<exists>c e. a = Some c \<and> b = Some e \<and> length c = 64 \<and> length e = 64 \<and> map toLower c = map toLower e)"
  by (auto simp: otaShaMatches_def OTA_SHA256_HEX_LEN_def split: option.splits)

lemma https_prefix: "strncmp0 u ''https://'' 8 \<longleftrightarrow> prefix ''https://'' u"
  by (rule strncmp0_lit) simp

lemma http_prefix: "strncmp0 u ''http://'' 7 \<longleftrightarrow> prefix ''http://'' u"
  by (rule strncmp0_lit) simp

lemma otaScheme_prefix: "otaScheme f = Some sch \<Longrightarrow> prefix sch f"
  by (auto simp: otaScheme_def https_prefix http_prefix split: if_splits)

lemma otaRedirectAllowed_scheme:
  assumes "otaRedirectAllowed (Some f) (Some t)"
  shows "otaScheme t = otaScheme f"
proof -
  from assms obtain sch where f: "otaScheme f = Some sch" and t: "strncmp0 t sch (length sch)"
    by (auto simp: otaRedirectAllowed_def Let_def split: option.splits)
  have "prefix sch t" using t by (simp add: strncmp0_prefix)
  moreover have "sch = ''https://'' \<or> sch = ''http://''"
    using f by (auto simp: otaScheme_def split: if_splits)
  moreover have "prefix ''http://'' t \<Longrightarrow> \<not> prefix ''https://'' t" by (auto simp: prefix_def)
  ultimately have "otaScheme t = Some sch" by (auto simp: otaScheme_def https_prefix http_prefix)
  with f show ?thesis by simp
qed

end
