(* ===== verification/Ota_Fled.thy ===== *)
theory Ota_Fled
  imports Ota_Verify
begin

unbundle bit_operations_syntax

text \<open>
  The state of \<open>OTAUpdate.cpp\<close> that survives or spans a boot, and the fled-release record kept in it:
  a release the crash guard fled from, or one installed and not yet confirmed, is refused for a day.
  NVS, RTC memory and RAM are the fields of one record. Whether an NVS session opens and whether a
  write lands are inputs (\<open>nvs_io\<close>): no theorem assumes that flash writes succeed unless it says so.
  The clock is an input too.
\<close>

section \<open>State and environment\<close>

record nvs_io =
  nvsInit :: bool                  \<comment> \<open>\<open>nvs_flash_init\<close> succeeds\<close>
  nvsRw :: bool                    \<comment> \<open>a read-write session on the boot namespace opens\<close>
  nvsRo :: bool                    \<comment> \<open>a read-only session opens\<close>
  nvsPut :: "string \<Rightarrow> bool"       \<comment> \<open>a write of this key lands\<close>
  nvsRemove :: "string \<Rightarrow> bool"    \<comment> \<open>a removal of this key lands\<close>

record clock =
  clkMillis :: u32                 \<comment> \<open>\<open>millis()\<close>, wraps\<close>
  clkUptimeMs :: u64               \<comment> \<open>\<open>esp_timer_get_time() / 1000\<close>\<close>
  clkNtpSynced :: bool
  clkEpoch :: u32                  \<comment> \<open>\<open>(uint32_t)time(nullptr)\<close>\<close>

record ota =
  nv_rescue :: "u8 option"
  nv_crash_n :: "u32 option"
  nv_brownout_n :: "u32 option"
  nv_proven_id :: "u8 list option"
  nv_left_id :: "u8 list option"
  nv_fled_ver :: "string option"
  nv_fled_age :: "u64 option"
  rtcPlannedRestart :: u32
  rtcFledUnsaved :: "u32 \<times> u32"
  otaBootRescue :: u8
  otaBootPending :: bool
  otaMqttUp :: bool
  otaPending :: bool
  otaStateKnown :: bool
  otaRunState :: u32
  otaImageSettled :: bool
  otaCrashStreak :: u32
  otaStreakKnown :: bool
  otaSettleFailMs :: u64
  otaProvenDone :: bool
  fledLoaded :: bool
  fledSavedThisBoot :: bool
  fledVer :: string
  fledSaved :: OtaFledAge
  fledCarry :: u32
  fledMarkMs :: u32

text \<open>RAM as the static initialisers leave it at the start of a boot; NVS and RTC memory persist.\<close>

definition bootRam :: "ota \<Rightarrow> ota" where
  "bootRam o' = o'\<lparr>otaBootRescue := 0, otaBootPending := False, otaMqttUp := False, otaPending := False,
     otaStateKnown := False, otaRunState := 0, otaImageSettled := False, otaCrashStreak := 0,
     otaStreakKnown := False, otaSettleFailMs := 0, otaProvenDone := False, fledLoaded := False,
     fledSavedThisBoot := False, fledVer := [], fledSaved := \<lparr>ageS = 0, fledTries = 0, seenEpoch = 0\<rparr>,
     fledCarry := 0, fledMarkMs := 0\<rparr>"

text \<open>A unit with an erased NVS, and an environment in which every flash operation lands.\<close>

definition blankOta :: ota where
  "blankOta = \<lparr>nv_rescue = None, nv_crash_n = None, nv_brownout_n = None, nv_proven_id = None,
     nv_left_id = None, nv_fled_ver = None, nv_fled_age = None, rtcPlannedRestart = 0,
     rtcFledUnsaved = (0, 0), otaBootRescue = 0, otaBootPending = False, otaMqttUp = False,
     otaPending = False, otaStateKnown = False, otaRunState = 0, otaImageSettled = False,
     otaCrashStreak = 0, otaStreakKnown = False, otaSettleFailMs = 0, otaProvenDone = False,
     fledLoaded = False, fledSavedThisBoot = False, fledVer = [],
     fledSaved = \<lparr>ageS = 0, fledTries = 0, seenEpoch = 0\<rparr>, fledCarry = 0, fledMarkMs = 0\<rparr>"

definition ioOk :: nvs_io where
  "ioOk = \<lparr>nvsInit = True, nvsRw = True, nvsRo = True, nvsPut = (\<lambda>_. True), nvsRemove = (\<lambda>_. True)\<rparr>"

section \<open>Operations\<close>

definition putFledUnsaved :: "u32 \<Rightarrow> ota \<Rightarrow> ota" where
  "putFledUnsaved s o' = o'\<lparr>rtcFledUnsaved := (s, NOT s)\<rparr>"

definition putFledRecord :: "nvs_io \<Rightarrow> string \<Rightarrow> ota \<Rightarrow> bool \<times> ota" where
  "putFledRecord io version o' =
     (let fresh = otaFledPack \<lparr>ageS = 0, fledTries = 0, seenEpoch = 0\<rparr>;
          aged = nvsRw io \<and> nvsPut io ''fled_age'';
          o1 = (if aged then o'\<lparr>nv_fled_age := Some fresh\<rparr> else o');
          wrote = aged \<and> nvsPut io ''fled_ver'';
          o2 = (if wrote then o1\<lparr>nv_fled_ver := Some version\<rparr> else o1)
      in (wrote, putFledUnsaved 0 o2))"

definition recordFledRelease :: "nvs_io \<Rightarrow> string \<Rightarrow> ota \<Rightarrow> ota" where
  "recordFledRelease io fw o' = snd (putFledRecord io fw o')"

definition loadFled :: "nvs_io \<Rightarrow> ota \<Rightarrow> ota" where
  "loadFled io o' =
     (if fledLoaded o' then o'
      else (let o1 = o'\<lparr>fledLoaded := True,
                        fledCarry := otaFledCarry (fst (rtcFledUnsaved o')) (snd (rtcFledUnsaved o'))\<rparr>;
                o2 = putFledUnsaved 0 o1
            in if \<not> nvsRo io then o2
               else (let o3 = (case nv_fled_ver o2 of None \<Rightarrow> o2
                               | Some v \<Rightarrow> if length v < 32 then o2\<lparr>fledVer := v\<rparr> else o2)
                     in case nv_fled_age o3 of None \<Rightarrow> o3
                        | Some w \<Rightarrow> o3\<lparr>fledSaved := otaFledUnpack w\<rparr>)))"

definition syncedEpoch :: "clock \<Rightarrow> u32" where
  "syncedEpoch clk = (if clkNtpSynced clk then clkEpoch clk else 0)"

definition fledUnsavedS :: "clock \<Rightarrow> ota \<Rightarrow> u32" where
  "fledUnsavedS clk o' = fledCarry o' + (clkMillis clk - fledMarkMs o') div 1000"

definition fledAgeNow :: "clock \<Rightarrow> ota \<Rightarrow> u32" where
  "fledAgeNow clk o' =
     (let elapsed = otaFledElapsed (fledUnsavedS clk o') (\<not> fledSavedThisBoot o')
                      (seenEpoch (fledSaved o')) (syncedEpoch clk)
      in otaFledAdvance (ageS (fledSaved o')) elapsed)"

definition saveFled :: "nvs_io \<Rightarrow> clock \<Rightarrow> u32 \<Rightarrow> u8 \<Rightarrow> ota \<Rightarrow> bool \<times> ota" where
  "saveFled io clk age tries o' =
     (let next = \<lparr>ageS = age, fledTries = tries, seenEpoch = syncedEpoch clk\<rparr>;
          wrote = nvsRw io \<and> nvsPut io ''fled_age'';
          o1 = (if wrote then o'\<lparr>nv_fled_age := Some (otaFledPack next)\<rparr> else o')
      in (wrote, putFledUnsaved 0
            (o1\<lparr>fledSaved := next, fledSavedThisBoot := True, fledCarry := 0,
               fledMarkMs := clkMillis clk\<rparr>)))"

definition recordInstalledBuild :: "nvs_io \<Rightarrow> string \<Rightarrow> ota \<Rightarrow> ota" where
  "recordInstalledBuild io version o' =
     (let o1 = loadFled io o'
      in if \<not> otaFledRecordsInstall (Some (fledVer o1)) (Some version) then o1
         else snd (putFledRecord io version o1))"

definition dropOwnFledRecord :: "nvs_io \<Rightarrow> string \<Rightarrow> ota \<Rightarrow> ota" where
  "dropOwnFledRecord io fw o' =
     (if \<not> otaSameVersion (Some (fledVer o')) (Some fw) then o'
      else (let o1 = (if nvsRw io \<and> nvsRemove io ''fled_ver'' then o'\<lparr>nv_fled_ver := None\<rparr> else o')
            in o1\<lparr>fledVer := []\<rparr>))"

definition ageFledRelease :: "nvs_io \<Rightarrow> clock \<Rightarrow> string \<Rightarrow> ota \<Rightarrow> ota" where
  "ageFledRelease io clk fw o' =
     (let o1 = loadFled io o'
      in if \<not> otaFledAges (Some (fledVer o1)) (Some fw) (ageS (fledSaved o1)) then o1
         else (let unsaved = fledUnsavedS clk o1
               in if \<not> otaFledSaveDue unsaved False then putFledUnsaved unsaved o1
                  else snd (saveFled io clk (fledAgeNow clk o1) (fledTries (fledSaved o1)) o1)))"

text \<open>The fled gate of \<open>OTAUpdate::check\<close>: what happens to a manifest version between the version
  compare and the download. The first component says whether the download starts.\<close>

definition fledGate :: "nvs_io \<Rightarrow> clock \<Rightarrow> string \<Rightarrow> bool \<Rightarrow> ota \<Rightarrow> bool \<times> ota" where
  "fledGate io clk remoteVersion force o' =
     (let o1 = loadFled io o';
          fledAge = fledAgeNow clk o1;
          tries = fledTries (fledSaved o1);
          fled = otaFledAction (Some remoteVersion) (Some (fledVer o1)) fledAge tries force
      in if fled = OTA_FLED_SKIP
         then (False,
               (if otaFledSaveDue (fledUnsavedS clk o1) (\<not> fledSavedThisBoot o1)
                then snd (saveFled io clk fledAge tries o1) else o1))
         else if fled = OTA_FLED_RETRY \<or> fled = OTA_FLED_LAST
         then (let spent = otaFledAfterTry fled fledAge tries True;
                   result = saveFled io clk (ageS spent) (fledTries spent) o1;
                   saved = fst result; o2 = snd result
               in if \<not> otaFledMayDownload fled saved
                  then (let kept = otaFledAfterTry fled fledAge tries False
                        in (False, o2\<lparr>fledSaved := (fledSaved o2)
                                        \<lparr>ageS := ageS kept, fledTries := fledTries kept\<rparr>\<rparr>))
                  else (True, o2))
         else (True, o1))"

section \<open>An abstract skip counter\<close>

text \<open>What the record promises, without NVS, RTC memory or epochs: an age in seconds and the
  installs since it expired. Time passes, and a check of the fled release either is refused or
  installs it. \<open>saved\<close> says whether NVS took the spent try.\<close>

datatype fled_event = Elapse u32 | FledCheck bool

fun skipStep :: "fled_event \<Rightarrow> u32 \<times> u8 \<Rightarrow> bool \<times> u32 \<times> u8" where
  "skipStep (Elapse e) (age, tries) = (False, otaFledAdvance age e, tries)"
| "skipStep (FledCheck saved) (age, tries) =
     (if age < OTA_FLED_SKIP_S then (False, age, tries)
      else (let fled = (if unat tries + 1 < OTA_FLED_TRIES then OTA_FLED_RETRY else OTA_FLED_LAST);
                after = otaFledAfterTry fled age tries saved
            in (otaFledMayDownload fled saved, ageS after, fledTries after)))"

fun skipRun :: "fled_event list \<Rightarrow> u32 \<times> u8 \<Rightarrow> nat \<times> nat \<times> u32 \<times> u8" where
  "skipRun [] s = (0, 0, s)"
| "skipRun (e # es) s =
     (let (inst, s1) = skipStep e s;
          (n, t, s2) = skipRun es s1
      in (n + (if inst then 1 else 0),
          t + (case e of Elapse d \<Rightarrow> unat d | FledCheck _ \<Rightarrow> 0), s2))"

definition skipInv :: "u32 \<times> u8 \<Rightarrow> bool" where
  "skipInv s \<longleftrightarrow> fst s \<le> OTA_FLED_SKIP_S \<and> (snd s = 0 \<or> (snd s = 1 \<and> fst s = OTA_FLED_SKIP_S))"

lemma skipStep_Elapse:
  assumes "skipInv (age, tries)"
  shows "skipInv (snd (skipStep (Elapse e) (age, tries)))"
proof -
  have "otaFledAdvance OTA_FLED_SKIP_S e = OTA_FLED_SKIP_S" by (simp add: otaFledAdvance_def)
  with assms show ?thesis by (auto simp: skipInv_def otaFledAdvance_le)
qed

lemma skipStep_FledCheck:
  assumes "skipInv (age, tries)"
  shows "skipStep (FledCheck saved) (age, tries) =
     (if age = OTA_FLED_SKIP_S \<and> saved
      then (True, if tries = 0 then (age, 1) else (0, 0)) else (False, age, tries))"
  using assms
  by (auto simp: skipInv_def otaFledAfterTry_def otaFledMayDownload_def OTA_FLED_TRIES_def Let_def)

lemma skipInv_step: "skipInv s \<Longrightarrow> skipInv (snd (skipStep e s))"
proof (cases s; cases e)
  fix age tries d
  assume "skipInv s" "s = (age, tries)" "e = Elapse d"
  then show "skipInv (snd (skipStep e s))" using skipStep_Elapse by blast
next
  fix age tries saved
  assume "skipInv s" "s = (age, tries)" "e = FledCheck saved"
  then show "skipInv (snd (skipStep e s))"
    by (simp add: skipStep_FledCheck del: skipStep.simps) (auto simp: skipInv_def)
qed

text \<open>Every pair of installs uses up one full skip of elapsed time.\<close>

lemma skipRun_cycles:
  assumes "skipInv s" and "skipRun es s = (n, t, s')"
  shows "skipInv s' \<and> (\<exists>c. n + unat (snd s) = 2 * c + unat (snd s') \<and>
           86400 * c + unat (fst s') \<le> t + unat (fst s))"
  using assms
proof (induction es arbitrary: s n t)
  case Nil
  then show ?case by auto
next
  case (Cons e es)
  obtain inst s1 where st: "skipStep e s = (inst, s1)" by (cases "skipStep e s")
  obtain n1 t1 where r: "skipRun es s1 = (n1, t1, s')"
    and n: "n = n1 + (if inst then 1 else 0)"
    and t: "t = t1 + (case e of Elapse d \<Rightarrow> unat d | FledCheck _ \<Rightarrow> 0)"
    using Cons.prems(2) st by (auto split: prod.splits)
  have inv1: "skipInv s1" using skipInv_step [OF Cons.prems(1), of e] st by simp
  from Cons.IH [OF inv1 r] obtain c where
    c: "skipInv s'" "n1 + unat (snd s1) = 2 * c + unat (snd s')"
       "86400 * c + unat (fst s') \<le> t1 + unat (fst s1)" by blast
  obtain age tries where s: "s = (age, tries)" by (cases s)
  show ?case
  proof (cases e)
    case (Elapse d)
    with st s have s1: "inst = False" "s1 = (otaFledAdvance age d, tries)" by auto
    then show ?thesis using c n t s Elapse
      by (intro conjI exI [of _ c]) (auto simp: unat_otaFledAdvance)
  next
    case (FledCheck saved)
    have inv: "skipInv (age, tries)" using Cons.prems(1) s by simp
    show ?thesis
    proof (cases "age = OTA_FLED_SKIP_S \<and> saved")
      case True
      then have s1: "inst" "s1 = (if tries = 0 then (age, 1) else (0, 0))"
        using st s FledCheck skipStep_FledCheck [OF inv, of saved] by auto
      have age: "unat age = 86400" using True by (simp add: OTA_FLED_SKIP_S_def)
      show ?thesis
      proof (cases "tries = 0")
        case T0: True
        then show ?thesis using c n t s FledCheck s1 age by (intro conjI exI [of _ c]) auto
      next
        case False
        then have "tries = 1" using inv by (auto simp: skipInv_def)
        then show ?thesis using c n t s FledCheck s1 age False
          by (intro conjI exI [of _ "Suc c"]) auto
      qed
    next
      case False
      then have "\<not> inst" "s1 = s"
        using st s FledCheck skipStep_FledCheck [OF inv, of saved] by auto
      then show ?thesis using c n t FledCheck by (intro conjI exI [of _ c]) auto
    qed
  qed
qed



section \<open>The gate refines the counter\<close>

text \<open>A loaded record against the counter: one gate call on the fled release is one \<open>FledCheck\<close> at the
  current age.\<close>

lemma loadFled_loaded [simp]: "fledLoaded (loadFled io o')"
  by (auto simp: loadFled_def putFledUnsaved_def Let_def split: option.splits)

lemma saveFled_fst [simp]: "fst (saveFled io clk a t o') = (nvsRw io \<and> nvsPut io ''fled_age'')"
  by (simp add: saveFled_def Let_def)

lemma saveFled_saved [simp]:
  "fledSaved (snd (saveFled io clk a t o')) = \<lparr>ageS = a, fledTries = t, seenEpoch = syncedEpoch clk\<rparr>"
  by (simp add: saveFled_def putFledUnsaved_def Let_def)

text \<open>The fled gate of an unforced check starts the download of the recorded release exactly when
  the counter would install it, and leaves the counter's age and tries in the record.\<close>

lemma fledGate_refines:
  assumes "fledLoaded o'" and "otaSameVersion (Some remote) (Some (fledVer o'))"
    and "saved = (nvsRw io \<and> nvsPut io ''fled_age'')"
    and "skipStep (FledCheck saved) (fledAgeNow clk o', fledTries (fledSaved o')) = (inst, age', tries')"
    and "fledGate io clk remote False o' = (download, o2)"
  shows "download = inst \<and> fledTries (fledSaved o2) = tries' \<and>
     (fledAgeNow clk o' \<ge> OTA_FLED_SKIP_S \<longrightarrow> ageS (fledSaved o2) = age')"
proof -
  have ld: "loadFled io o' = o'" using assms(1) by (simp add: loadFled_def)
  show ?thesis
  proof (cases "fledAgeNow clk o' < OTA_FLED_SKIP_S")
    case True
    with ld assms(2-5) show ?thesis
      by (auto simp: fledGate_def otaFledAction_def Let_def split: if_splits)
  next
    case False
    then show ?thesis
      using ld assms(2-5)
      by (cases "unat (fledTries (fledSaved o')) + 1 < OTA_FLED_TRIES"; cases saved)
         (auto simp: fledGate_def otaFledAction_def otaFledMayDownload_def otaFledAfterTry_def Let_def)
  qed
qed

end
