(* ===== verification/Ota_Health.thy ===== *)
theory Ota_Health
  imports Fw_Prelude
begin

unbundle bit_operations_syntax

text \<open>
  \<open>lib/thesada-core/src/ota_health_policy.h\<close>: when a pending image may be marked valid, how a
  reset counts towards the crash streak, when a streak abandons the image, and the 36-byte image
  ids the proven and left records hold. Byte arrays are lists of \<open>u8\<close>; a pointer with a length is
  an optional list with the length beside it.
\<close>

section \<open>Definitions\<close>

definition OTA_HEALTH_MIN_MS :: u32 where
  "OTA_HEALTH_MIN_MS = 5 * 60 * 1000"

definition OTA_HEALTH_CRASH_LIMIT :: u32 where
  "OTA_HEALTH_CRASH_LIMIT = 3"

definition OTA_HEALTH_SETTLE_MS :: u64 where
  "OTA_HEALTH_SETTLE_MS = 60 * 60 * 1000"

definition OTA_RST_POWERON :: int where "OTA_RST_POWERON = 1"
definition OTA_RST_SW :: int where "OTA_RST_SW = 3"
definition OTA_RST_PANIC :: int where "OTA_RST_PANIC = 4"
definition OTA_RST_INT_WDT :: int where "OTA_RST_INT_WDT = 5"
definition OTA_RST_TASK_WDT :: int where "OTA_RST_TASK_WDT = 6"
definition OTA_RST_WDT :: int where "OTA_RST_WDT = 7"
definition OTA_RST_DEEPSLEEP :: int where "OTA_RST_DEEPSLEEP = 8"
definition OTA_RST_BROWNOUT :: int where "OTA_RST_BROWNOUT = 9"

definition OTA_IMG_PENDING_VERIFY :: u32 where "OTA_IMG_PENDING_VERIFY = 1"
definition OTA_IMG_VALID :: u32 where "OTA_IMG_VALID = 2"
definition OTA_IMG_UNDEFINED :: u32 where "OTA_IMG_UNDEFINED = 0xFFFFFFFF"

datatype OtaResetClass = OTA_RESET_CLEAR | OTA_RESET_HOLD | OTA_RESET_CRASH | OTA_RESET_FRESH

definition otaHealthResetClass :: "int \<Rightarrow> OtaResetClass" where
  "otaHealthResetClass reason =
     (if reason = OTA_RST_POWERON \<or> reason = OTA_RST_DEEPSLEEP then OTA_RESET_CLEAR
      else if reason = OTA_RST_SW \<or> reason = OTA_RST_PANIC \<or> reason = OTA_RST_INT_WDT
           \<or> reason = OTA_RST_TASK_WDT \<or> reason = OTA_RST_WDT then OTA_RESET_CRASH
      else OTA_RESET_HOLD)"

definition OTA_PLANNED_RESTART_MAGIC :: u32 where "OTA_PLANNED_RESTART_MAGIC = 0x504C4E44"
definition OTA_PLANNED_BROKER_MAGIC :: u32 where "OTA_PLANNED_BROKER_MAGIC = 0x4D515454"

datatype OtaPlanned = OTA_PLANNED_NONE | OTA_PLANNED_OPERATOR | OTA_PLANNED_BROKER

text \<open>The marker is read and cleared: the second component is the marker left behind.\<close>

definition otaHealthTakePlanned :: "u32 \<Rightarrow> OtaPlanned \<times> u32" where
  "otaHealthTakePlanned marker =
     (if marker = OTA_PLANNED_RESTART_MAGIC then OTA_PLANNED_OPERATOR
      else if marker = OTA_PLANNED_BROKER_MAGIC then OTA_PLANNED_BROKER
      else OTA_PLANNED_NONE, 0)"

definition otaHealthStateConfirmed :: "u32 \<Rightarrow> bool" where
  "otaHealthStateConfirmed state \<longleftrightarrow> state = OTA_IMG_VALID \<or> state = OTA_IMG_UNDEFINED"

definition otaHealthBootClass :: "int \<Rightarrow> OtaPlanned \<Rightarrow> bool \<Rightarrow> bool \<Rightarrow> bool \<Rightarrow> OtaResetClass" where
  "otaHealthBootClass reason planned confirmed proven pending =
     (if reason = OTA_RST_SW \<and> planned \<noteq> OTA_PLANNED_NONE \<and> pending then OTA_RESET_FRESH
      else if reason = OTA_RST_SW \<and> confirmed \<and>
              (planned = OTA_PLANNED_OPERATOR \<or> (planned = OTA_PLANNED_BROKER \<and> proven))
        then OTA_RESET_HOLD
      else otaHealthResetClass reason)"

definition OTA_IMAGE_ID_LEN :: nat where
  "OTA_IMAGE_ID_LEN = 36"

definition otaHealthImageId :: "u32 \<Rightarrow> u8 list \<Rightarrow> u8 list option" where
  "otaHealthImageId slotAddr elfSha =
     (if foldl (OR) 0 (take 32 elfSha) = 0 then None
      else Some (map (\<lambda>i. ucast (drop_bit (8 * i) slotAddr)) [0..<4] @ take 32 elfSha))"

definition otaHealthImageProven :: "u8 list option \<Rightarrow> nat \<Rightarrow> u8 list option \<Rightarrow> bool" where
  "otaHealthImageProven stored storedLen ident =
     (case (stored, ident) of
        (Some s, Some i) \<Rightarrow>
          storedLen = OTA_IMAGE_ID_LEN \<and> take OTA_IMAGE_ID_LEN s = take OTA_IMAGE_ID_LEN i
      | _ \<Rightarrow> False)"

definition otaHealthNextCrashStreak :: "u32 \<Rightarrow> OtaResetClass \<Rightarrow> u32" where
  "otaHealthNextCrashStreak previous kind =
     (if kind = OTA_RESET_CLEAR then 0
      else if kind = OTA_RESET_FRESH then 1
      else if kind = OTA_RESET_CRASH then previous + 1
      else previous)"

definition otaHealthShouldMark :: "bool \<Rightarrow> bool \<Rightarrow> u32 \<Rightarrow> u32 \<Rightarrow> bool" where
  "otaHealthShouldMark pending mqttUp uptimeMs crashStreak =
     (if \<not> pending then False
      else if crashStreak \<ge> OTA_HEALTH_CRASH_LIMIT then False
      else if mqttUp then True
      else uptimeMs \<ge> OTA_HEALTH_MIN_MS)"

definition otaHealthSettleDue :: "u64 \<Rightarrow> u64 \<Rightarrow> bool" where
  "otaHealthSettleDue uptimeMs lastFailMs =
     (if uptimeMs < OTA_HEALTH_SETTLE_MS then False
      else if lastFailMs = 0 then True
      else uptimeMs \<ge> lastFailMs \<and> uptimeMs - lastFailMs \<ge> OTA_HEALTH_SETTLE_MS)"

definition otaHealthShouldClearValid :: "bool \<Rightarrow> u64 \<Rightarrow> u32 \<Rightarrow> u64 \<Rightarrow> bool" where
  "otaHealthShouldClearValid pending uptimeMs crashStreak lastFailMs =
     (if pending \<or> crashStreak = 0 then False else otaHealthSettleDue uptimeMs lastFailMs)"

definition otaHealthShouldMarkUsbValid :: "u32 \<Rightarrow> bool \<Rightarrow> u64 \<Rightarrow> u64 \<Rightarrow> bool" where
  "otaHealthShouldMarkUsbValid state streakKnown uptimeMs lastFailMs =
     (if state \<noteq> OTA_IMG_UNDEFINED \<or> \<not> streakKnown then False
      else otaHealthSettleDue uptimeMs lastFailMs)"

definition otaHealthShouldRollback :: "u32 \<Rightarrow> bool" where
  "otaHealthShouldRollback crashStreak \<longleftrightarrow> crashStreak \<ge> OTA_HEALTH_CRASH_LIMIT"

definition otaHealthIsAbandoned :: "u8 list option \<Rightarrow> nat \<Rightarrow> u32 \<Rightarrow> u8 list option \<Rightarrow> bool" where
  "otaHealthIsAbandoned stored storedLen slotAddr elfSha =
     (case elfSha of None \<Rightarrow> False
      | Some sha \<Rightarrow>
          (case otaHealthImageId slotAddr sha of None \<Rightarrow> False
           | Some ident \<Rightarrow> otaHealthImageProven stored storedLen (Some ident)))"

definition OTA_RESCUE_ID :: u8 where
  "OTA_RESCUE_ID = 2"

definition otaHealthRescue :: "u8 \<Rightarrow> u32 \<Rightarrow> u8" where
  "otaHealthRescue stored marker =
     (if marker = OTA_PLANNED_RESTART_MAGIC \<or> marker = OTA_PLANNED_BROKER_MAGIC then 0 else stored)"

definition otaHealthIsArrival :: "u8 \<Rightarrow> bool \<Rightarrow> bool" where
  "otaHealthIsArrival rescue pending \<longleftrightarrow> rescue \<noteq> 0 \<and> pending"

definition otaHealthRecordArrival :: "u8 \<Rightarrow> bool \<Rightarrow> bool" where
  "otaHealthRecordArrival rescue sameStrings \<longleftrightarrow> rescue = OTA_RESCUE_ID \<or> \<not> sameStrings"

definition otaHealthLeftIsStale :: "u8 list option \<Rightarrow> nat \<Rightarrow> u32 \<Rightarrow> bool" where
  "otaHealthLeftIsStale stored storedLen runningAddr =
     (case stored of None \<Rightarrow> False
      | Some s \<Rightarrow>
          (if storedLen \<noteq> OTA_IMAGE_ID_LEN then False
           else foldl (OR) 0 (map (\<lambda>i. push_bit (8 * i) (ucast (s ! i))) [0..<4]) = runningAddr))"

lemmas ota_rst_defs = OTA_RST_POWERON_def OTA_RST_SW_def OTA_RST_PANIC_def OTA_RST_INT_WDT_def
  OTA_RST_TASK_WDT_def OTA_RST_WDT_def OTA_RST_DEEPSLEEP_def OTA_RST_BROWNOUT_def

lemmas ota_img_defs = OTA_IMG_PENDING_VERIFY_def OTA_IMG_VALID_def OTA_IMG_UNDEFINED_def

lemmas ota_magic_defs = OTA_PLANNED_RESTART_MAGIC_def OTA_PLANNED_BROKER_MAGIC_def

section \<open>Image ids\<close>

lemma le32_bytes:
  "foldl (OR) 0 (map (\<lambda>i. push_bit (8 * i) (ucast ((ucast (drop_bit (8 * i) v)) :: u8))) [0..<4])
     = (v :: u32)"
  using le32_join [of v] by (simp add: upt4)

lemma otaHealthImageId_Some:
  assumes "otaHealthImageId addr sha = Some ident"
  shows "ident = map (\<lambda>i. ucast (drop_bit (8 * i) addr)) [0..<4] @ take 32 sha"
  using assms by (auto simp: otaHealthImageId_def split: if_splits)

lemma otaHealthImageId_length:
  "otaHealthImageId addr sha = Some ident \<Longrightarrow> length sha = 32 \<Longrightarrow> length ident = OTA_IMAGE_ID_LEN"
  by (auto dest!: otaHealthImageId_Some simp: OTA_IMAGE_ID_LEN_def)

lemma otaHealthLeftIsStale_id:
  assumes "otaHealthImageId addr sha = Some ident"
  shows "otaHealthLeftIsStale (Some ident) OTA_IMAGE_ID_LEN running \<longleftrightarrow> addr = running"
proof -
  have "foldl (OR) 0 (map (\<lambda>i. push_bit (8 * i) (ucast (ident ! i))) [0..<4]) = addr"
    using otaHealthImageId_Some [OF assms] le32_bytes [of addr] by (simp add: upt4)
  then show ?thesis by (simp add: otaHealthLeftIsStale_def)
qed

text \<open>An id names one slot and one build.\<close>

lemma otaHealthImageId_inject:
  assumes "otaHealthImageId a1 s1 = Some ident" and "otaHealthImageId a2 s2 = Some ident"
    and "length s1 = 32" and "length s2 = 32"
  shows "a1 = a2 \<and> s1 = s2"
proof -
  have "a1 = a2" using otaHealthLeftIsStale_id [OF assms(1)] otaHealthLeftIsStale_id [OF assms(2)] by blast
  moreover have "s1 = s2"
    using otaHealthImageId_Some [OF assms(1)] otaHealthImageId_Some [OF assms(2)] assms(3,4) by simp
  ultimately show ?thesis by simp
qed

lemma otaHealthIsAbandoned_iff:
  assumes "length sha = 32" and "length s = OTA_IMAGE_ID_LEN"
  shows "otaHealthIsAbandoned (Some s) OTA_IMAGE_ID_LEN addr (Some sha) \<longleftrightarrow>
           otaHealthImageId addr sha = Some s"
  using assms otaHealthImageId_length
  by (auto simp: otaHealthIsAbandoned_def otaHealthImageProven_def split: option.splits)

lemma otaHealthIsAbandoned_self:
  assumes "otaHealthImageId addr sha = Some ident"
  shows "otaHealthIsAbandoned (Some ident) OTA_IMAGE_ID_LEN addr (Some sha)"
  using assms by (simp add: otaHealthIsAbandoned_def otaHealthImageProven_def)

section \<open>The crash streak counts crashes\<close>

text \<open>Crash resets since the last reset that cleared or restarted the streak; the restart into a
  freshly written image is the first of its own streak.\<close>

fun crashesSince :: "OtaResetClass list \<Rightarrow> nat \<Rightarrow> nat" where
  "crashesSince [] n = n"
| "crashesSince (OTA_RESET_CLEAR # ks) n = crashesSince ks 0"
| "crashesSince (OTA_RESET_FRESH # ks) n = crashesSince ks 1"
| "crashesSince (OTA_RESET_CRASH # ks) n = crashesSince ks (Suc n)"
| "crashesSince (OTA_RESET_HOLD # ks) n = crashesSince ks n"

lemma crashesSince_le: "crashesSince ks n \<le> n + length ks"
proof (induction ks n rule: crashesSince.induct)
  case (3 ks n)
  then show ?case by (cases ks) auto
qed auto

lemma foldl_streak_of_nat:
  "foldl otaHealthNextCrashStreak (of_nat n) ks = of_nat (crashesSince ks n)"
  by (induction ks n rule: crashesSince.induct)
     (simp_all add: otaHealthNextCrashStreak_def add.commute)



text \<open>A boot whose streak is at the limit never confirms a pending image.\<close>

lemma otaHealthShouldMark_below_limit:
  "otaHealthShouldMark pending mqttUp up streak \<Longrightarrow> pending \<and> \<not> otaHealthShouldRollback streak"
  by (auto simp: otaHealthShouldMark_def otaHealthShouldRollback_def split: if_splits)

end
