(* ===== verification/Ota_Guard.thy ===== *)
theory Ota_Guard
  imports Ota_Fled Ota_Health
begin

unbundle bit_operations_syntax

text \<open>
  The boot guard of \<open>lib/thesada-core/src/OTAUpdate.cpp\<close>: the rescue flag read before \<open>setup()\<close>, the
  crash streak and the proven and left records, the switch to the other image, and the confirmation
  of a pending one. What the ESP-IDF answers (partitions, their otadata states and descriptions,
  the results of its calls) is an input; the calls the guard makes that change otadata or reset the
  chip are returned in order as a list.
\<close>

section \<open>The IDF as the guard sees it\<close>

record partition =
  address :: u32
  imgState :: "u32 option"               \<comment> \<open>\<open>esp_ota_get_state_partition\<close>, None when it fails\<close>
  appSha :: "u8 list option"             \<comment> \<open>\<open>app_elf_sha256\<close>, None when the description is unreadable\<close>
  descStrings :: "string \<times> string \<times> string" \<comment> \<open>version, date, time of the description\<close>
  imgVerifies :: bool                    \<comment> \<open>\<open>esp_image_verify\<close> accepts the slot\<close>

record idf =
  runningPart :: "partition option"      \<comment> \<open>\<open>esp_ota_get_running_partition\<close>\<close>
  nextPart :: "partition option"         \<comment> \<open>\<open>esp_ota_get_next_update_partition(NULL)\<close>\<close>
  bootIsRunning :: bool                  \<comment> \<open>\<open>esp_ota_get_boot_partition\<close> is the running one\<close>
  markValidOk :: bool                    \<comment> \<open>\<open>esp_ota_mark_app_valid_cancel_rollback\<close> succeeds\<close>
  setBootOk :: bool                      \<comment> \<open>\<open>esp_ota_set_boot_partition\<close> succeeds\<close>

datatype idf_call =
    MarkValid bool                       \<comment> \<open>confirm the running image, and whether that worked\<close>
  | InvalidateReboot                     \<comment> \<open>\<open>esp_ota_mark_app_invalid_rollback_and_reboot\<close>\<close>
  | SetBoot u32 bool                     \<comment> \<open>boot this address next, and whether that worked\<close>
  | Restart

section \<open>Reading the image and the records\<close>

definition runningImageIs :: "idf \<Rightarrow> u32 \<Rightarrow> bool" where
  "runningImageIs i want =
     (case runningPart i of None \<Rightarrow> False | Some r \<Rightarrow> imgState r = Some want)"

definition runningImageConfirmed :: "idf \<Rightarrow> bool" where
  "runningImageConfirmed i =
     (case runningPart i of None \<Rightarrow> False
      | Some r \<Rightarrow> (case imgState r of None \<Rightarrow> False | Some st \<Rightarrow> otaHealthStateConfirmed st))"

definition verifyRollbackLater :: "idf \<Rightarrow> nvs_io \<Rightarrow> ota \<Rightarrow> bool \<times> ota" where
  "verifyRollbackLater i io o' =
     (if \<not> nvsInit io then (True, o')
      else if \<not> nvsRw io then (True, o')
      else (let stored = (case nv_rescue o' of None \<Rightarrow> 0 | Some v \<Rightarrow> v);
                o1 = o'\<lparr>otaBootRescue := otaHealthRescue stored (rtcPlannedRestart o'),
                        otaBootPending := runningImageIs i OTA_IMG_PENDING_VERIFY\<rparr>
            in if stored \<noteq> 0 \<and> nvsPut io ''rescue''
               then (otaBootRescue o1 = 0, o1\<lparr>nv_rescue := Some 0\<rparr>)
               else (True, o1)))"

definition plannedRestart :: "ota \<Rightarrow> idf_call list \<times> ota" where
  "plannedRestart o' = ([Restart], o'\<lparr>rtcPlannedRestart := OTA_PLANNED_RESTART_MAGIC\<rparr>)"

definition brokerRestart :: "ota \<Rightarrow> idf_call list \<times> ota" where
  "brokerRestart o' = ([Restart], o'\<lparr>rtcPlannedRestart := OTA_PLANNED_BROKER_MAGIC\<rparr>)"

definition noteMqttUp :: "ota \<Rightarrow> ota" where
  "noteMqttUp o' = o'\<lparr>otaMqttUp := True\<rparr>"

definition runningImageId :: "idf \<Rightarrow> u8 list option" where
  "runningImageId i =
     (case runningPart i of None \<Rightarrow> None
      | Some r \<Rightarrow> (case appSha r of None \<Rightarrow> None | Some sha \<Rightarrow> otaHealthImageId (address r) sha))"

definition markProvenOnBroker :: "idf \<Rightarrow> nvs_io \<Rightarrow> ota \<Rightarrow> ota" where
  "markProvenOnBroker i io o' =
     (if otaProvenDone o' \<or> \<not> otaMqttUp o' then o'
      else (let o1 = o'\<lparr>otaProvenDone := True\<rparr>
            in case runningImageId i of None \<Rightarrow> o1
               | Some ident \<Rightarrow>
                   (if \<not> nvsRw io then o1
                    else if nvsPut io ''proven_id'' then o1\<lparr>nv_proven_id := Some ident\<rparr> else o1)))"

definition armRescue :: "nvs_io \<Rightarrow> ota \<Rightarrow> bool \<times> ota" where
  "armRescue io o' =
     (if \<not> nvsRw io then (False, o')
      else (let crash = nvsPut io ''crash_n'';
                o1 = (if crash then o'\<lparr>nv_crash_n := Some 0, otaCrashStreak := 0\<rparr> else o');
                rescue = crash \<and> nvsPut io ''rescue'';
                o2 = (if rescue then o1\<lparr>nv_rescue := Some OTA_RESCUE_ID\<rparr> else o1)
            in (rescue, o2)))"

definition disarmRescue :: "nvs_io \<Rightarrow> ota \<Rightarrow> ota" where
  "disarmRescue io o' = (if nvsRw io \<and> nvsPut io ''rescue'' then o'\<lparr>nv_rescue := Some 0\<rparr> else o')"

text \<open>\<open>prefs.getBytes\<close> of an image id into a zeroed 36-byte buffer: the buffer and the length read. A
  blob that does not fit reads as nothing.\<close>

definition readId :: "u8 list option \<Rightarrow> u8 list \<times> nat" where
  "readId blob =
     (case blob of None \<Rightarrow> (replicate OTA_IMAGE_ID_LEN 0, 0)
      | Some b \<Rightarrow>
          (if length b \<le> OTA_IMAGE_ID_LEN
           then (b @ replicate (OTA_IMAGE_ID_LEN - length b) 0, length b)
           else (replicate OTA_IMAGE_ID_LEN 0, 0)))"

definition imageAbandoned :: "nvs_io \<Rightarrow> ota \<Rightarrow> partition \<Rightarrow> bool" where
  "imageAbandoned io o' part =
     (case appSha part of None \<Rightarrow> True
      | Some sha \<Rightarrow>
          (if \<not> nvsRo io then True
           else (let (left, leftLen) = readId (nv_left_id o')
                 in otaHealthIsAbandoned (Some left) leftLen (address part) (Some sha))))"

definition imageVerifies :: "partition \<Rightarrow> bool" where
  "imageVerifies part \<longleftrightarrow> imgVerifies part"

definition rollbackTarget :: "idf \<Rightarrow> nvs_io \<Rightarrow> ota \<Rightarrow> partition option" where
  "rollbackTarget i io o' =
     (case nextPart i of None \<Rightarrow> None
      | Some other \<Rightarrow>
          (if (case runningPart i of None \<Rightarrow> False | Some r \<Rightarrow> address other = address r) then None
           else if imgState other \<noteq> Some OTA_IMG_VALID then None
           else if imageAbandoned io o' other then None
           else if \<not> imageVerifies other then None
           else Some other))"

definition sameDescStrings :: "partition \<Rightarrow> partition \<Rightarrow> bool" where
  "sameDescStrings a b \<longleftrightarrow> descStrings a = descStrings b"

definition updateLeftRecord :: "idf \<Rightarrow> nvs_io \<Rightarrow> ota \<Rightarrow> ota" where
  "updateLeftRecord i io o' =
     (let (stored, len) = readId (nv_left_id o');
          o1 = (case runningPart i of None \<Rightarrow> o'
                | Some r \<Rightarrow>
                    (if otaHealthLeftIsStale (Some stored) len (address r) \<and> nvsRemove io ''left_id''
                     then o'\<lparr>nv_left_id := None\<rparr> else o'))
      in if \<not> otaHealthIsArrival (otaBootRescue o') (otaBootPending o') then o1
         else (case (runningPart i, nextPart i) of
                 (Some r, Some other) \<Rightarrow>
                   (if address other = address r then o1
                    else (case appSha other of None \<Rightarrow> o1
                          | Some sha \<Rightarrow>
                              (case otaHealthImageId (address other) sha of None \<Rightarrow> o1
                               | Some ident \<Rightarrow>
                                   (let same = appSha r \<noteq> None \<and> sameDescStrings other r
                                    in if \<not> otaHealthRecordArrival (otaBootRescue o') same then o1
                                       else if nvsPut io ''left_id'' then o1\<lparr>nv_left_id := Some ident\<rparr>
                                       else o1))))
               | _ \<Rightarrow> o1))"

section \<open>The streak\<close>

definition streakUnread :: "ota \<Rightarrow> u32 \<times> u32 \<times> ota" where
  "streakUnread o' =
     (OTA_HEALTH_CRASH_LIMIT, 0,
      o'\<lparr>otaStreakKnown := False, otaCrashStreak := OTA_HEALTH_CRASH_LIMIT\<rparr>)"

text \<open>The result is the streak, the brownout total handed out, and the state.\<close>

definition recordBootStreak :: "idf \<Rightarrow> nvs_io \<Rightarrow> int \<Rightarrow> ota \<Rightarrow> u32 \<times> u32 \<times> ota" where
  "recordBootStreak i io resetReason o0 =
     (let (planned, marker) = otaHealthTakePlanned (rtcPlannedRestart o0);
          o1 = o0\<lparr>rtcPlannedRestart := marker\<rparr>;
          confirmed = planned \<noteq> OTA_PLANNED_NONE \<and> runningImageConfirmed i;
          pending = planned \<noteq> OTA_PLANNED_NONE \<and> runningImageIs i OTA_IMG_PENDING_VERIFY
      in if \<not> nvsRw io then streakUnread o1
         else (let o2 = updateLeftRecord i io o1;
                   old = (case nv_brownout_n o2 of None \<Rightarrow> 0 | Some n \<Rightarrow> n);
                   brown = (resetReason = OTA_RST_BROWNOUT);
                   brownouts = (if brown then old + 1 else old)
               in if brown \<and> \<not> nvsPut io ''brownout_n'' then streakUnread o2
                  else (let o3 = (if brown then o2\<lparr>nv_brownout_n := Some brownouts\<rparr> else o2);
                            (stored, storedLen) = readId (nv_proven_id o3);
                            proven = otaHealthImageProven (Some stored) storedLen (runningImageId i);
                            o4 = o3\<lparr>otaProvenDone := proven\<rparr>;
                            kind = otaHealthBootClass resetReason planned confirmed proven pending;
                            previous = (case nv_crash_n o4 of None \<Rightarrow> 0 | Some n \<Rightarrow> n);
                            crashes = otaHealthNextCrashStreak previous kind
                        in if \<not> nvsPut io ''crash_n'' then streakUnread o4
                           else (crashes, brownouts,
                                 o4\<lparr>nv_crash_n := Some crashes, otaStreakKnown := True,
                                    otaCrashStreak := crashes\<rparr>))))"

definition clearCrashStreak :: "nvs_io \<Rightarrow> ota \<Rightarrow> bool \<times> ota" where
  "clearCrashStreak io o' =
     (if nvsRw io \<and> nvsPut io ''crash_n'' then (True, o'\<lparr>nv_crash_n := Some 0\<rparr>) else (False, o'))"

section \<open>Abandoning and confirming an image\<close>

definition rollbackIfCrashLoop :: "idf \<Rightarrow> nvs_io \<Rightarrow> string \<Rightarrow> ota \<Rightarrow> idf_call list \<times> ota" where
  "rollbackIfCrashLoop i io fw o' =
     (if \<not> otaStreakKnown o' \<or> \<not> otaHealthShouldRollback (otaCrashStreak o') then ([], o')
      else (case runningPart i of None \<Rightarrow> ([], o')
            | Some running \<Rightarrow>
                (case imgState running of None \<Rightarrow> ([], o')
                 | Some state \<Rightarrow>
                     (if state = OTA_IMG_PENDING_VERIFY
                      then (if rollbackTarget i io o' = None
                            then (let (cleared, o1) = clearCrashStreak io o';
                                      o2 = (if cleared then o1\<lparr>otaCrashStreak := 0\<rparr> else o1)
                                  in ([MarkValid (markValidOk i)], o2))
                            else (let (cleared, o1) = clearCrashStreak io o'
                                  in if \<not> cleared then ([], o1) else ([InvalidateReboot], o1)))
                      else if state \<noteq> OTA_IMG_VALID then ([], o')
                      else (case rollbackTarget i io o' of None \<Rightarrow> ([], o')
                            | Some other \<Rightarrow>
                                (if runningImageId i = None then ([], o')
                                 else (let (armed, o1) = armRescue io o'
                                       in if \<not> armed then ([], o1)
                                          else if \<not> setBootOk i
                                          then ([SetBoot (address other) False], disarmRescue io o1)
                                          else ([SetBoot (address other) True, Restart],
                                                recordFledRelease io fw o1))))))))"

definition markUsbImageValid :: "idf \<Rightarrow> bool \<times> idf_call list" where
  "markUsbImageValid i =
     (if runningPart i = None \<or> \<not> bootIsRunning i then (False, [])
      else (markValidOk i, [MarkValid (markValidOk i)]))"

text \<open>The part of \<open>confirmIfHealthy\<close> for an image that is not pending.\<close>

definition settleValid :: "idf \<Rightarrow> nvs_io \<Rightarrow> clock \<Rightarrow> ota \<Rightarrow> idf_call list \<times> ota" where
  "settleValid i io clk o' =
     (let usb = (otaRunState o' = OTA_IMG_UNDEFINED)
      in if \<not> otaStreakKnown o' \<or> (otaCrashStreak o' = 0 \<and> \<not> usb) then ([], o'\<lparr>otaImageSettled := True\<rparr>)
         else (let upMs = clkUptimeMs clk;
                   clears = (otaCrashStreak o' \<noteq> 0);
                   due = otaHealthShouldClearValid False upMs (otaCrashStreak o') (otaSettleFailMs o');
                   (cleared, o1) = clearCrashStreak io o'
               in if clears \<and> \<not> due then ([], o')
                  else if clears \<and> \<not> cleared then ([], o1\<lparr>otaSettleFailMs := upMs\<rparr>)
                  else (let o2 = (if clears then o1\<lparr>otaCrashStreak := 0\<rparr> else o')
                        in if \<not> usb then ([], o2\<lparr>otaImageSettled := True\<rparr>)
                           else if \<not> otaHealthShouldMarkUsbValid (otaRunState o2) (otaStreakKnown o2) upMs
                                       (otaSettleFailMs o2)
                           then ([], o2)
                           else (let (marked, calls) = markUsbImageValid i
                                 in if \<not> marked then (calls, o2\<lparr>otaSettleFailMs := upMs\<rparr>)
                                    else (calls, o2\<lparr>otaImageSettled := True\<rparr>)))))"

text \<open>The other parts: reading the running image's state once a boot, and confirming a pending one.\<close>

definition learnState :: "idf \<Rightarrow> nvs_io \<Rightarrow> string \<Rightarrow> ota \<Rightarrow> ota option" where
  "learnState i io fw o' =
     (if otaStateKnown o' then Some o'
      else (case runningPart i of None \<Rightarrow> None
            | Some r \<Rightarrow>
                (case imgState r of None \<Rightarrow> None
                 | Some state \<Rightarrow>
                     (let o1 = o'\<lparr>otaPending := (state = OTA_IMG_PENDING_VERIFY),
                                 otaRunState := state, otaStateKnown := True\<rparr>
                      in Some (if otaPending o1 then o1 else dropOwnFledRecord io fw o1)))))"

definition confirmPending :: "idf \<Rightarrow> nvs_io \<Rightarrow> clock \<Rightarrow> string \<Rightarrow> ota \<Rightarrow> idf_call list \<times> ota" where
  "confirmPending i io clk fw o' =
     (if \<not> otaStreakKnown o' then ([], o')
      else if \<not> otaHealthShouldMark True (otaMqttUp o') (clkMillis clk) (otaCrashStreak o') then ([], o')
      else (let (cleared, o1) = clearCrashStreak io o'
            in if \<not> cleared then ([], o1)
               else if \<not> markValidOk i then ([MarkValid False], o1)
               else ([MarkValid True], dropOwnFledRecord io fw (o1\<lparr>otaImageSettled := True\<rparr>))))"

definition confirmIfHealthy :: "idf \<Rightarrow> nvs_io \<Rightarrow> clock \<Rightarrow> string \<Rightarrow> ota \<Rightarrow> idf_call list \<times> ota" where
  "confirmIfHealthy i io clk fw o0 =
     (let o1 = markProvenOnBroker i io (ageFledRelease io clk fw o0)
      in if otaImageSettled o1 then ([], o1)
         else (case learnState i io fw o1 of None \<Rightarrow> ([], o1)
               | Some o2 \<Rightarrow>
                   (if \<not> otaPending o2 then settleValid i io clk o2 else confirmPending i io clk fw o2)))"

text \<open>A boot: RAM is fresh, the core asks \<open>verifyRollbackLater\<close> (the IDF then reads as \<open>i0\<close>) and confirms
  the image when told to, then \<open>setup()\<close> records the boot and may abandon the image (the IDF reads
  as \<open>i\<close>).\<close>

definition bootGuard :: "idf \<Rightarrow> idf \<Rightarrow> nvs_io \<Rightarrow> int \<Rightarrow> string \<Rightarrow> ota \<Rightarrow> idf_call list \<times> ota" where
  "bootGuard i0 i io reason fw o0 =
     (let (later, o1) = verifyRollbackLater i0 io (bootRam o0);
          (streak, brownouts, o2) = recordBootStreak i io reason o1
      in rollbackIfCrashLoop i io fw o2)"

section \<open>What the guard boots\<close>

lemma rollbackTarget_Some:
  assumes "rollbackTarget i io o' = Some p"
  shows "nextPart i = Some p" and "imgState p = Some OTA_IMG_VALID" and "imgVerifies p"
    and "\<not> imageAbandoned io o' p" and "runningPart i = Some r \<Longrightarrow> address p \<noteq> address r"
  using assms
  by (auto simp: rollbackTarget_def imageVerifies_def split: option.splits if_splits)

text \<open>The guard leaves the running image only on a known streak at the limit, and only for a
  different slot whose image is marked valid, verifies, and is not the one a switch came from.\<close>

lemma rollbackIfCrashLoop_target:
  assumes "fst (rollbackIfCrashLoop i io fw o') = calls"
    and "SetBoot a ok \<in> set calls \<or> InvalidateReboot \<in> set calls"
  shows "otaStreakKnown o' \<and> otaCrashStreak o' \<ge> OTA_HEALTH_CRASH_LIMIT \<and>
     (\<exists>r p. runningPart i = Some r \<and> nextPart i = Some p \<and> address p \<noteq> address r \<and>
        imgState p = Some OTA_IMG_VALID \<and> imgVerifies p \<and> \<not> imageAbandoned io o' p \<and>
        (SetBoot a ok \<in> set calls \<longrightarrow> address p = a))"
proof -
  have live: "otaStreakKnown o'" "otaCrashStreak o' \<ge> OTA_HEALTH_CRASH_LIMIT"
    using assms by (auto simp: rollbackIfCrashLoop_def otaHealthShouldRollback_def split: if_splits)
  obtain r where r: "runningPart i = Some r"
    using assms by (auto simp: rollbackIfCrashLoop_def split: if_splits option.splits)
  obtain p where p: "rollbackTarget i io o' = Some p" "SetBoot a ok \<in> set calls \<longrightarrow> address p = a"
    using assms r
    by (auto simp: rollbackIfCrashLoop_def split: if_splits option.splits prod.splits)
  show ?thesis using live r p(2) rollbackTarget_Some [OF p(1)] by blast
qed

section \<open>No return to the image that was left\<close>

text \<open>\<open>leftNames o' pa sha\<close>: the left record is the id of the build with this hash in the slot at this
  address.\<close>

definition leftNames :: "ota \<Rightarrow> u32 \<Rightarrow> u8 list \<Rightarrow> bool" where
  "leftNames o' pa sha \<longleftrightarrow>
     length sha = 32 \<and> (\<exists>ident. otaHealthImageId pa sha = Some ident \<and> nv_left_id o' = Some ident)"

text \<open>The slots as the IDF reports them while no download rewrites the other one.\<close>

definition slotsAre :: "idf \<Rightarrow> u32 \<Rightarrow> u32 \<Rightarrow> u8 list \<Rightarrow> bool" where
  "slotsAre i ra pa sha \<longleftrightarrow>
     ra \<noteq> pa \<and> (\<exists>r p. runningPart i = Some r \<and> address r = ra \<and>
        nextPart i = Some p \<and> address p = pa \<and> appSha p = Some sha)"

lemma readId_id:
  "length ident = OTA_IMAGE_ID_LEN \<Longrightarrow> readId (Some ident) = (ident, OTA_IMAGE_ID_LEN)"
  by (simp add: readId_def)

lemma leftNames_abandoned:
  assumes "leftNames o' pa sha" and "address p = pa" and "appSha p = Some sha"
  shows "imageAbandoned io o' p"
  using assms otaHealthIsAbandoned_self otaHealthImageId_length
  by (auto simp: leftNames_def imageAbandoned_def readId_id)

lemma leftNames_no_target:
  assumes "leftNames o' pa sha" and "slotsAre i ra pa sha"
  shows "rollbackTarget i io o' = None"
  using assms leftNames_abandoned by (auto simp: slotsAre_def rollbackTarget_def)

lemma clearCrashStreak_left [simp]: "nv_left_id (snd (clearCrashStreak io o')) = nv_left_id o'"
  by (simp add: clearCrashStreak_def)

lemma leftNames_no_switch:
  assumes "leftNames o' pa sha" and "slotsAre i ra pa sha"
    and "rollbackIfCrashLoop i io fw o' = (calls, o2)"
  shows "set calls \<subseteq> {MarkValid True, MarkValid False} \<and> leftNames o2 pa sha"
proof -
  have "rollbackTarget i io o' = None" using leftNames_no_target assms(1,2) by blast
  then have "set calls \<subseteq> {MarkValid True, MarkValid False} \<and> nv_left_id o2 = nv_left_id o'"
    using assms(3)
    by (auto simp: rollbackIfCrashLoop_def clearCrashStreak_def split: if_splits option.splits)
  then show ?thesis using assms(1) by (auto simp: leftNames_def)
qed

lemma leftNames_update:
  assumes "leftNames o' pa sha" and "slotsAre i ra pa sha"
  shows "leftNames (updateLeftRecord i io o') pa sha"
proof -
  from assms(1) obtain ident where ident: "length sha = 32" "otaHealthImageId pa sha = Some ident"
    "nv_left_id o' = Some ident" by (auto simp: leftNames_def)
  have len: "length ident = OTA_IMAGE_ID_LEN" using ident otaHealthImageId_length by blast
  from assms(2) obtain r p where sl: "runningPart i = Some r" "address r = ra" "nextPart i = Some p"
    "address p = pa" "appSha p = Some sha" "ra \<noteq> pa" by (auto simp: slotsAre_def)
  have "\<not> otaHealthLeftIsStale (Some ident) OTA_IMAGE_ID_LEN ra"
    using otaHealthLeftIsStale_id [OF ident(2)] sl(6) by simp
  then have "nv_left_id (updateLeftRecord i io o') = Some ident"
    using sl ident len by (simp add: updateLeftRecord_def readId_id Let_def)
  then show ?thesis using ident by (simp add: leftNames_def)
qed

lemma leftNames_cong: "nv_left_id o2 = nv_left_id o1 \<Longrightarrow> leftNames o2 pa sha = leftNames o1 pa sha"
  by (simp add: leftNames_def)

lemma recordBootStreak_left:
  assumes "recordBootStreak i io reason o' = (n, b, o2)"
  shows "nv_left_id o2 = (if nvsRw io
           then nv_left_id (updateLeftRecord i io (o'\<lparr>rtcPlannedRestart := 0\<rparr>)) else nv_left_id o')"
  using assms
  by (auto simp: recordBootStreak_def streakUnread_def otaHealthTakePlanned_def Let_def
           split: if_splits prod.splits)

lemma verifyRollbackLater_left [simp]:
  "nv_left_id (snd (verifyRollbackLater i io o')) = nv_left_id o'"
  by (simp add: verifyRollbackLater_def Let_def)

lemma leftNames_boot:
  assumes "leftNames o' pa sha" and "slotsAre i ra pa sha"
    and "bootGuard i0 i io reason fw o' = (calls, o2)"
  shows "set calls \<subseteq> {MarkValid True, MarkValid False} \<and> leftNames o2 pa sha"
proof -
  define o1 where "o1 = snd (verifyRollbackLater i0 io (bootRam o'))"
  obtain n b o3 where rec: "recordBootStreak i io reason o1 = (n, b, o3)"
    by (cases "recordBootStreak i io reason o1")
  have "nv_left_id o1 = nv_left_id o'" by (simp add: o1_def bootRam_def)
  then have l1: "leftNames (o1\<lparr>rtcPlannedRestart := 0\<rparr>) pa sha" "leftNames o1 pa sha"
    using assms(1) by (simp_all add: leftNames_def)
  have "leftNames o3 pa sha"
    using recordBootStreak_left [OF rec] leftNames_update [OF l1(1) assms(2), of io] l1(2)
    by (auto simp: leftNames_def split: if_splits)
  moreover have "rollbackIfCrashLoop i io fw o3 = (calls, o2)"
    using assms(3) rec by (simp add: bootGuard_def o1_def split_beta)
  ultimately show ?thesis using leftNames_no_switch assms(2) by blast
qed

lemma fled_ops_left [simp]:
  "nv_left_id (putFledUnsaved x o') = nv_left_id o'"
  "nv_left_id (snd (putFledRecord io v o')) = nv_left_id o'"
  "nv_left_id (loadFled io o') = nv_left_id o'"
  "nv_left_id (snd (saveFled io clk a t o')) = nv_left_id o'"
  "nv_left_id (dropOwnFledRecord io fw o') = nv_left_id o'"
  by (auto simp: putFledUnsaved_def putFledRecord_def loadFled_def saveFled_def dropOwnFledRecord_def
             Let_def split: option.splits)

lemma ageFledRelease_left [simp]: "nv_left_id (ageFledRelease io clk fw o') = nv_left_id o'"
  by (auto simp: ageFledRelease_def Let_def)

lemma markProvenOnBroker_left [simp]: "nv_left_id (markProvenOnBroker i io o') = nv_left_id o'"
  by (auto simp: markProvenOnBroker_def Let_def split: option.splits)

lemma settleValid_left:
  "settleValid i io clk o' = (calls, o2) \<Longrightarrow>
     nv_left_id o2 = nv_left_id o' \<and> set calls \<subseteq> {MarkValid True, MarkValid False}"
  by (cases "markValidOk i")
     (auto simp: settleValid_def clearCrashStreak_def markUsbImageValid_def Let_def split: if_splits)

lemma learnState_left: "learnState i io fw o' = Some o2 \<Longrightarrow> nv_left_id o2 = nv_left_id o'"
  by (auto simp: learnState_def Let_def split: if_splits option.splits)

lemma confirmPending_left:
  "confirmPending i io clk fw o' = (calls, o2) \<Longrightarrow>
     nv_left_id o2 = nv_left_id o' \<and> set calls \<subseteq> {MarkValid True, MarkValid False}"
  by (auto simp: confirmPending_def clearCrashStreak_def split: if_splits)

lemma confirmIfHealthy_left:
  assumes "confirmIfHealthy i io clk fw o' = (calls, o2)"
  shows "nv_left_id o2 = nv_left_id o' \<and> set calls \<subseteq> {MarkValid True, MarkValid False}"
proof -
  define o1 where "o1 = markProvenOnBroker i io (ageFledRelease io clk fw o')"
  have o1: "nv_left_id o1 = nv_left_id o'" by (simp add: o1_def)
  show ?thesis
  proof (cases "otaImageSettled o1 \<or> learnState i io fw o1 = None")
    case True
    then show ?thesis using assms o1 unfolding confirmIfHealthy_def o1_def [symmetric] Let_def
      by (auto split: if_splits)
  next
    case False
    then obtain o3 where o3: "learnState i io fw o1 = Some o3" "\<not> otaImageSettled o1" by blast
    then have "(if \<not> otaPending o3 then settleValid i io clk o3 else confirmPending i io clk fw o3)
        = (calls, o2)"
      using assms unfolding confirmIfHealthy_def o1_def [symmetric] Let_def by simp
    then show ?thesis
      using settleValid_left [of i io clk o3] confirmPending_left [of i io clk fw o3]
        learnState_left [OF o3(1)] o1 by (auto split: if_splits)
  qed
qed

text \<open>A run of the guard in one slot: any number of boots, main-loop turns, broker sessions and
  restarts, with every IDF answer and every NVS failure free, until the other slot is rewritten.\<close>

inductive guardRun :: "u32 \<Rightarrow> u32 \<Rightarrow> u8 list \<Rightarrow> ota \<Rightarrow> idf_call list \<Rightarrow> ota \<Rightarrow> bool"
  for ra pa sha where
  run_start: "guardRun ra pa sha o1 [] o1"
| run_boot: "guardRun ra pa sha o1 cs o2 \<Longrightarrow> slotsAre i ra pa sha \<Longrightarrow>
     bootGuard i0 i io reason fw o2 = (calls, o3) \<Longrightarrow> guardRun ra pa sha o1 (cs @ calls) o3"
| run_turn: "guardRun ra pa sha o1 cs o2 \<Longrightarrow>
     confirmIfHealthy i io clk fw o2 = (calls, o3) \<Longrightarrow> guardRun ra pa sha o1 (cs @ calls) o3"
| run_mqtt: "guardRun ra pa sha o1 cs o2 \<Longrightarrow> guardRun ra pa sha o1 cs (noteMqttUp o2)"
| run_planned: "guardRun ra pa sha o1 cs o2 \<Longrightarrow> plannedRestart o2 = (calls, o3) \<Longrightarrow>
     guardRun ra pa sha o1 (cs @ calls) o3"
| run_broker: "guardRun ra pa sha o1 cs o2 \<Longrightarrow> brokerRestart o2 = (calls, o3) \<Longrightarrow>
     guardRun ra pa sha o1 (cs @ calls) o3"

lemma guardRun_stays:
  assumes "guardRun ra pa sha o1 cs o2" and "leftNames o1 pa sha"
  shows "leftNames o2 pa sha \<and> set cs \<subseteq> {MarkValid True, MarkValid False, Restart}"
  using assms
proof (induction rule: guardRun.induct)
  case (run_boot o1 cs o2 i i0 io reason fw calls o3)
  then show ?case using leftNames_boot [of o2 pa sha i ra i0 io reason fw calls o3] by auto
next
  case (run_turn o1 cs o2 i io clk fw calls o3)
  then show ?case
    using confirmIfHealthy_left [of i io clk fw o2 calls o3] leftNames_cong [of o3 o2] by auto
qed (auto simp: leftNames_def noteMqttUp_def plannedRestart_def brokerRestart_def)

section \<open>A switch records what it left\<close>

lemma rollback_switch:
  assumes "rollbackIfCrashLoop i io fw o' = (calls, o2)" and "SetBoot a True \<in> set calls"
  shows "nv_rescue o2 = Some OTA_RESCUE_ID \<and> rtcPlannedRestart o2 = rtcPlannedRestart o' \<and>
     runningImageId i \<noteq> None"
  using assms
  by (auto simp: rollbackIfCrashLoop_def armRescue_def recordFledRelease_def putFledRecord_def
             putFledUnsaved_def clearCrashStreak_def Let_def split: if_splits option.splits)

lemma updateLeftRecord_planned [simp]:
  "rtcPlannedRestart (updateLeftRecord i io o') = rtcPlannedRestart o'"
  by (simp add: updateLeftRecord_def Let_def split_beta split: option.split)

lemma recordBootStreak_planned:
  "recordBootStreak i io reason o' = (n, b, o2) \<Longrightarrow> rtcPlannedRestart o2 = 0"
  by (auto simp: recordBootStreak_def streakUnread_def otaHealthTakePlanned_def Let_def split_beta
           split: if_splits)

lemma bootGuard_switch:
  assumes "bootGuard i0 i io reason fw o' = (calls, o2)" and "SetBoot a True \<in> set calls"
  shows "nv_rescue o2 = Some OTA_RESCUE_ID \<and> rtcPlannedRestart o2 = 0 \<and> runningImageId i \<noteq> None"
proof -
  define o1 where "o1 = snd (verifyRollbackLater i0 io (bootRam o'))"
  obtain n b o3 where rec: "recordBootStreak i io reason o1 = (n, b, o3)"
    by (cases "recordBootStreak i io reason o1")
  have "rollbackIfCrashLoop i io fw o3 = (calls, o2)"
    using assms(1) rec by (simp add: bootGuard_def o1_def split_beta)
  from rollback_switch [OF this assms(2)] recordBootStreak_planned [OF rec] show ?thesis by simp
qed

text \<open>The boot after a switch: the flag is set, the image is pending, no planned restart is marked.\<close>

lemma arrival_records:
  assumes "nv_rescue o' = Some OTA_RESCUE_ID" and "rtcPlannedRestart o' = 0"
    and "nvsInit io" and "nvsRw io" and "nvsPut io ''left_id''"
    and "runningImageIs i0 OTA_IMG_PENDING_VERIFY"
    and "slotsAre i ra pa sha" and "length sha = 32" and "otaHealthImageId pa sha = Some ident"
    and "bootGuard i0 i io reason fw o' = (calls, o2)"
  shows "set calls \<subseteq> {MarkValid True, MarkValid False} \<and> leftNames o2 pa sha"
proof -
  define o1 where "o1 = snd (verifyRollbackLater i0 io (bootRam o'))"
  have o1: "otaBootRescue o1 = OTA_RESCUE_ID" "otaBootPending o1"
    using assms(1-6)
    by (auto simp: o1_def verifyRollbackLater_def bootRam_def otaHealthRescue_def ota_magic_defs Let_def)
  obtain n b o3 where rec: "recordBootStreak i io reason o1 = (n, b, o3)"
    by (cases "recordBootStreak i io reason o1")
  from assms(7) obtain r p where sl: "runningPart i = Some r" "address r = ra" "nextPart i = Some p"
    "address p = pa" "appSha p = Some sha" "ra \<noteq> pa" by (auto simp: slotsAre_def)
  have "nv_left_id (updateLeftRecord i io (o1\<lparr>rtcPlannedRestart := 0\<rparr>)) = Some ident"
    using sl o1 assms(5,9)
    by (simp add: updateLeftRecord_def otaHealthIsArrival_def otaHealthRecordArrival_def
          OTA_RESCUE_ID_def Let_def split_beta)
  then have "leftNames o3 pa sha"
    using recordBootStreak_left [OF rec] assms(4,8,9) by (simp add: leftNames_def)
  moreover have "rollbackIfCrashLoop i io fw o3 = (calls, o2)"
    using assms(10) rec by (simp add: bootGuard_def o1_def split_beta)
  ultimately show ?thesis using leftNames_no_switch assms(7) by blast
qed

text \<open>C2: after a switch whose arrival boot can write NVS, the guard in the new image never boots the
  image it left: no later boot, broker session, restart or main-loop turn sets the boot slot or
  invalidates the running image while the other slot still holds what was left.\<close>

theorem no_return_to_left_image:
  assumes "bootGuard i0 i io reason fw o1 = (calls, o2)" and "SetBoot na True \<in> set calls"
    and "runningPart i = Some r" and "appSha r = Some sha" and "length sha = 32"
    and "slotsAre i' na (address r) sha" and "runningImageIs i0' OTA_IMG_PENDING_VERIFY"
    and "nvsInit io'" and "nvsRw io'" and "nvsPut io' ''left_id''"
    and "bootGuard i0' i' io' reason' fw' o2 = (calls', o3)"
    and "guardRun na (address r) sha o3 cs o4"
  shows "set (calls' @ cs) \<subseteq> {MarkValid True, MarkValid False, Restart}"
proof -
  note sw = bootGuard_switch [OF assms(1,2)]
  from sw assms(3,4) obtain ident where ident: "otaHealthImageId (address r) sha = Some ident"
    by (auto simp: runningImageId_def)
  have left: "set calls' \<subseteq> {MarkValid True, MarkValid False} \<and> leftNames o3 (address r) sha"
    using arrival_records [OF _ _ assms(8-10) assms(7) assms(6) assms(5) ident assms(11)] sw by blast
  with guardRun_stays [OF assms(12)] show ?thesis by auto
qed

text \<open>Two slots at work: the image at \<open>0x10000\<close> panics for the third time, the one at \<open>0x200000\<close> is valid.\<close>

definition slotA :: partition where
  "slotA = \<lparr>address = 0x10000, imgState = Some OTA_IMG_VALID, appSha = Some (replicate 32 1),
     descStrings = (''a'', ''d'', ''t''), imgVerifies = True\<rparr>"

definition slotB :: partition where
  "slotB = \<lparr>address = 0x200000, imgState = Some OTA_IMG_VALID, appSha = Some (replicate 32 2),
     descStrings = (''b'', ''d'', ''t''), imgVerifies = True\<rparr>"

definition inA :: idf where
  "inA = \<lparr>runningPart = Some slotA, nextPart = Some slotB, bootIsRunning = True, markValidOk = True,
     setBootOk = True\<rparr>"

definition inB :: idf where
  "inB = \<lparr>runningPart = Some (slotB\<lparr>imgState := Some OTA_IMG_PENDING_VERIFY\<rparr>), nextPart = Some slotA,
     bootIsRunning = True, markValidOk = True, setBootOk = True\<rparr>"

definition loopingOta :: ota where
  "loopingOta = blankOta\<lparr>nv_crash_n := Some 2\<rparr>"

lemma inA_has_id: "\<exists>ident. runningImageId inA = Some ident"
proof -
  have "foldl (OR) 0 (replicate 32 (1 :: u8)) \<noteq> 0" by (simp add: numeral_eq_Suc)
  then show ?thesis by (simp add: runningImageId_def inA_def slotA_def otaHealthImageId_def)
qed

lemma readId_None [simp]: "readId None = (replicate OTA_IMAGE_ID_LEN 0, 0)"
  by (simp add: readId_def)

lemma record_id_short [simp]:
  "n \<noteq> OTA_IMAGE_ID_LEN \<Longrightarrow> \<not> otaHealthImageProven s n t"
  "n \<noteq> OTA_IMAGE_ID_LEN \<Longrightarrow> \<not> otaHealthLeftIsStale s n a"
  "n \<noteq> OTA_IMAGE_ID_LEN \<Longrightarrow> \<not> otaHealthIsAbandoned s n a h"
  by (auto simp: otaHealthImageProven_def otaHealthLeftIsStale_def otaHealthIsAbandoned_def
           split: option.splits)

lemma inA_switches:
  assumes "otaStreakKnown o2" and "otaCrashStreak o2 = 3" and "nv_left_id o2 = None"
  shows "SetBoot 0x200000 True \<in> set (fst (rollbackIfCrashLoop inA ioOk fw o2))"
proof -
  have len: "OTA_IMAGE_ID_LEN \<noteq> 0" by (simp add: OTA_IMAGE_ID_LEN_def)
  have "rollbackTarget inA ioOk o2 = Some slotB"
    using assms len by (simp add: rollbackTarget_def imageAbandoned_def imageVerifies_def inA_def slotA_def
      slotB_def ioOk_def)
  then show ?thesis
    using assms inA_has_id
    by (auto simp: rollbackIfCrashLoop_def otaHealthShouldRollback_def OTA_HEALTH_CRASH_LIMIT_def
          armRescue_def ioOk_def inA_def slotA_def slotB_def ota_img_defs Let_def)
qed

lemma loopingOta_switches:
  "SetBoot 0x200000 True \<in> set (fst (bootGuard inA inA ioOk OTA_RST_PANIC ''1.0.1'' loopingOta))"
proof -
  have len: "OTA_IMAGE_ID_LEN \<noteq> 0" by (simp add: OTA_IMAGE_ID_LEN_def)
  define o1 where "o1 = snd (verifyRollbackLater inA ioOk (bootRam loopingOta))"
  have o1: "nv_left_id o1 = None" "nv_proven_id o1 = None" "nv_crash_n o1 = Some 2"
    "nv_brownout_n o1 = None" "otaBootRescue o1 = 0" "rtcPlannedRestart o1 = 0"
    by (simp_all add: o1_def verifyRollbackLater_def bootRam_def loopingOta_def blankOta_def ioOk_def
          otaHealthRescue_def Let_def)
  have up: "updateLeftRecord inA ioOk (o1\<lparr>rtcPlannedRestart := 0\<rparr>) = o1\<lparr>rtcPlannedRestart := 0\<rparr>"
    using o1 len by (simp add: updateLeftRecord_def otaHealthIsArrival_def inA_def)
  have "\<exists>o2 n b. recordBootStreak inA ioOk OTA_RST_PANIC o1 = (n, b, o2) \<and>
      otaStreakKnown o2 \<and> otaCrashStreak o2 = 3 \<and> nv_left_id o2 = None"
    using o1 up len
    by (simp add: recordBootStreak_def otaHealthTakePlanned_def ota_magic_defs ota_rst_defs ioOk_def
          otaHealthBootClass_def otaHealthResetClass_def otaHealthNextCrashStreak_def Let_def)
  then obtain o2 n b where o2: "recordBootStreak inA ioOk OTA_RST_PANIC o1 = (n, b, o2)"
      "otaStreakKnown o2" "otaCrashStreak o2 = 3" "nv_left_id o2 = None" by blast
  then show ?thesis using o2 inA_switches [of o2] by (simp add: bootGuard_def o1_def split_beta)
qed

theorem no_return_to_left_image_witness:
  "let o2 = snd (bootGuard inA inA ioOk OTA_RST_PANIC ''1.0.1'' loopingOta);
       b3 = bootGuard inB inB ioOk OTA_RST_SW ''1.0.0'' o2;
       b4 = bootGuard inB inB ioOk OTA_RST_TASK_WDT ''1.0.0'' (snd b3)
   in set (fst b3 @ fst b4) \<subseteq> {MarkValid True, MarkValid False, Restart}"
proof -
  let ?b2 = "bootGuard inA inA ioOk OTA_RST_PANIC ''1.0.1'' loopingOta"
  let ?b3 = "bootGuard inB inB ioOk OTA_RST_SW ''1.0.0'' (snd ?b2)"
  let ?b4 = "bootGuard inB inB ioOk OTA_RST_TASK_WDT ''1.0.0'' (snd ?b3)"
  have run: "runningPart inA = Some slotA" "appSha slotA = Some (replicate 32 1)"
    by (simp_all add: inA_def slotA_def)
  have slots: "slotsAre inB 0x200000 (address slotA) (replicate 32 1)"
    by (simp add: slotsAre_def inB_def slotA_def slotB_def)
  have pend: "runningImageIs inB OTA_IMG_PENDING_VERIFY" by (simp add: runningImageIs_def inB_def)
  have b4: "guardRun 0x200000 (address slotA) (replicate 32 1) (snd ?b3) (fst ?b4) (snd ?b4)"
    using run_boot [OF run_start slots prod.collapse [symmetric]] by (metis append_Nil)
  have io: "nvsInit ioOk" "nvsRw ioOk" "nvsPut ioOk ''left_id''" by (simp_all add: ioOk_def)
  show ?thesis
    using no_return_to_left_image [OF prod.collapse [symmetric] loopingOta_switches run _ slots pend io
            prod.collapse [symmetric] b4]
    by (simp add: Let_def)
qed

end
