(* ===== verification/Cli_Authz.thy ===== *)
theory Cli_Authz
  imports Fw_Prelude
begin

unbundle bit_operations_syntax

text \<open>
  \<open>lib/thesada-core/src/cli_authz_policy.h\<close> and the \<open>secret_keymap.h\<close> it consults: whether an inbound
  MQTT CLI command may run. A session that authenticated with the pairing password gets what pairing
  and recovery need; a session on the client certificate gets everything except a port value the
  device could not come back from.
\<close>

section \<open>Definitions\<close>

subsection \<open>The secret key map\<close>

definition hexDigit :: "nat \<Rightarrow> char" where
  "hexDigit n = (if n < 10 then char_of (48 + n) else char_of (87 + n))"

definition hex6 :: "nat \<Rightarrow> string" where
  "hex6 h = map (\<lambda>i. hexDigit (h div 16 ^ i mod 16)) [5, 4, 3, 2, 1, 0]"

definition fnvStep :: "u32 \<Rightarrow> char \<Rightarrow> u32" where
  "fnvStep h c = (h XOR of_nat (ccode c)) * 16777619"

definition secretWifiKey :: "string \<Rightarrow> string" where
  "secretWifiKey ssid = ''wifi_pw_'' @ hex6 (unat (foldl fnvStep 2166136261 ssid AND 0xFFFFFF))"

definition kMap :: "(string \<times> string) list" where
  "kMap = [(''enroll.claim_code'', ''claim_code''), (''mqtt.password'', ''mqtt_password''),
           (''telegram.bot_token'', ''telegram_token''), (''web.password'', ''web_password''),
           (''wifi.ap_password'', ''ap_password'')]"

definition kWifiPrefix :: string where
  "kWifiPrefix = ''wifi.password:''"

text \<open>\<open>Some key\<close> for a return of true with the key in \<open>keyOut[maxLen]\<close>, None for false.\<close>

definition secretNvsKeyFor :: "cstr \<Rightarrow> nat \<Rightarrow> string option" where
  "secretNvsKeyFor field maxLen =
     (case field of None \<Rightarrow> None
      | Some f \<Rightarrow>
          (if maxLen = 0 then None
           else (case map_of kMap f of
                   Some key \<Rightarrow> if 0 < length key \<and> length key < maxLen then Some key else None
                 | None \<Rightarrow>
                     (let plen = length kWifiPrefix
                      in if strncmp0 f kWifiPrefix plen \<and> plen < length f
                         then (let key = secretWifiKey (drop plen f)
                               in if length key < maxLen then Some key else None)
                         else None))))"

subsection \<open>The gate\<close>

datatype CliAuthMode = CLI_AUTH_PASSWORD | CLI_AUTH_MTLS

fun cliCmdEqLoop :: "string \<Rightarrow> string \<Rightarrow> bool" where
  "cliCmdEqLoop (a # as) (b # bs) = (if toLower a \<noteq> toLower b then False else cliCmdEqLoop as bs)"
| "cliCmdEqLoop [] [] = True"
| "cliCmdEqLoop _ _ = False"

definition cliAuthzCmdEq :: "cstr \<Rightarrow> cstr \<Rightarrow> bool" where
  "cliAuthzCmdEq a b = (case (a, b) of (Some x, Some y) \<Rightarrow> cliCmdEqLoop x y | _ \<Rightarrow> False)"

definition CLI_AUTHZ_PW_CONFIG_KEY :: string where
  "CLI_AUTHZ_PW_CONFIG_KEY = ''mqtt.port''"

definition isBlank :: "char \<Rightarrow> bool" where
  "isBlank c \<longleftrightarrow> c = CHR '' '' \<or> c = CHR 0x09"

definition isSep :: "char \<Rightarrow> bool" where
  "isSep c \<longleftrightarrow> isBlank c \<or> c = CHR 0x0A \<or> c = CHR 0x0D"

definition cliAuthzFirstTokenIs :: "cstr \<Rightarrow> string \<Rightarrow> bool" where
  "cliAuthzFirstTokenIs payload key =
     (case payload of None \<Rightarrow> False
      | Some p0 \<Rightarrow>
          (let p = dropWhile isBlank p0; klen = length key
           in if klen = 0 then False
              else if \<not> strncmp0 p key klen then False
              else (case drop klen p of [] \<Rightarrow> True | after # _ \<Rightarrow> isSep after)))"

definition kAllowed :: "string list" where
  "kAllowed = [''cert.set'', ''cert.apply'', ''cert.info'', ''secret.set'', ''restart'', ''version'',
               ''chip.info'', ''heap'']"

definition cliAuthzPasswordCmdAllowed :: "cstr \<Rightarrow> bool \<Rightarrow> bool" where
  "cliAuthzPasswordCmdAllowed cmd storedCertBroken =
     (if cmd = None then False
      else if storedCertBroken \<and> cliAuthzCmdEq cmd (Some ''cert.clear'') then True
      else list_ex (\<lambda>k. cliAuthzCmdEq cmd (Some k)) kAllowed)"

definition cliAuthzSecretFieldAllowed :: "cstr \<Rightarrow> bool" where
  "cliAuthzSecretFieldAllowed payload =
     (case payload of None \<Rightarrow> True
      | Some p \<Rightarrow>
          (let field = takeWhile (\<lambda>c. \<not> isSep c) (dropWhile isBlank p)
           in if length field + 1 > 48 then False
              else if field = [] then True
              else if field = ''enroll.claim_code'' then False
              else secretNvsKeyFor (Some field) 16 \<noteq> None))"

fun cliPortLoop :: "nat \<Rightarrow> nat \<Rightarrow> string \<Rightarrow> (nat \<times> string) option" where
  "cliPortLoop port n [] = Some (port, [])"
| "cliPortLoop port n (c # cs) =
     (if isDigit c
      then (if Suc n > 5 then None else cliPortLoop (port * 10 + digitVal c) (Suc n) cs)
      else Some (port, c # cs))"

definition cliPortToken :: "string \<Rightarrow> bool" where
  "cliPortToken v =
     (case v of [] \<Rightarrow> False
      | d # _ \<Rightarrow>
          (if \<not> isDigit d then False
           else (case cliPortLoop 0 0 v of None \<Rightarrow> False
                 | Some (port, rest) \<Rightarrow> dropWhile isSep rest = [] \<and> 1 \<le> port \<and> port \<le> 65535)))"

definition cliAuthzPortValueOk :: "cstr \<Rightarrow> string \<Rightarrow> bool" where
  "cliAuthzPortValueOk payload key =
     (if \<not> cliAuthzFirstTokenIs payload key then False
      else (case payload of None \<Rightarrow> False
            | Some p0 \<Rightarrow>
                cliPortToken (dropWhile isBlank (drop (length key) (dropWhile isBlank p0)))))"

definition cliAuthzPortValueBad :: "cstr \<Rightarrow> bool" where
  "cliAuthzPortValueBad payload =
     (if \<not> cliAuthzFirstTokenIs payload CLI_AUTHZ_PW_CONFIG_KEY then False
      else (case payload of None \<Rightarrow> False
            | Some p0 \<Rightarrow>
                (let v = dropWhile isSep (drop (length CLI_AUTHZ_PW_CONFIG_KEY) (dropWhile isBlank p0))
                 in if v = [] then False else \<not> cliAuthzPortValueOk payload CLI_AUTHZ_PW_CONFIG_KEY)))"

definition cliAuthzAllowed :: "CliAuthMode \<Rightarrow> cstr \<Rightarrow> cstr \<Rightarrow> bool \<Rightarrow> bool" where
  "cliAuthzAllowed mode cmd payload storedCertBroken =
     (if cmd = None \<or> cmd = Some [] then False
      else (let isConfigSet = cliAuthzCmdEq cmd (Some ''config.set'')
            in if isConfigSet \<and> cliAuthzPortValueBad payload then False
               else if mode = CLI_AUTH_MTLS then True
               else if isConfigSet then cliAuthzPortValueOk payload CLI_AUTHZ_PW_CONFIG_KEY
               else if cliAuthzCmdEq cmd (Some ''secret.set'') then cliAuthzSecretFieldAllowed payload
               else cliAuthzPasswordCmdAllowed cmd storedCertBroken))"

section \<open>Command names compare without case\<close>

lemma cliCmdEqLoop_iff: "cliCmdEqLoop a b \<longleftrightarrow> map toLower a = map toLower b"
  by (induction a b rule: cliCmdEqLoop.induct) auto

lemma cliAuthzCmdEq_iff:
  "cliAuthzCmdEq (Some a) (Some b) \<longleftrightarrow> map toLower a = map toLower b"
  by (simp add: cliAuthzCmdEq_def cliCmdEqLoop_iff)

lemma cliAuthzCmdEq_lower: "cliAuthzCmdEq (Some (map toLower a)) b = cliAuthzCmdEq (Some a) b"
  by (cases b) (simp_all add: cliAuthzCmdEq_def cliCmdEqLoop_iff comp_def)

text \<open>The literals the gate compares against are lower case already.\<close>

lemma lower_literals:
  "k \<in> set (''config.set'' # ''secret.set'' # ''cert.clear'' # kAllowed) \<Longrightarrow> map toLower k = k"
  by (auto simp: kAllowed_def toLower_def isUpper_def)

text \<open>Upper-casing a command changes no verdict: the gate sees every spelling the shell dispatches.\<close>

lemma cliAuthzAllowed_case:
  "cliAuthzAllowed mode (Some cmd) payload broken =
     cliAuthzAllowed mode (Some (map toLower cmd)) payload broken"
  by (simp add: cliAuthzAllowed_def cliAuthzPasswordCmdAllowed_def cliAuthzCmdEq_lower)

section \<open>The port value against its grammar\<close>

lemma cliPortLoop_Some:
  "cliPortLoop v n s = Some (port, rest) \<Longrightarrow>
     \<exists>ds. s = ds @ rest \<and> list_all isDigit ds \<and> decVal v ds = port \<and> n + length ds \<le> max n 5 \<and>
          (rest = [] \<or> \<not> isDigit (hd rest))"
proof (induction v n s rule: cliPortLoop.induct)
  case (1 port n)
  then show ?case by (intro exI [of _ "[]"]) auto
next
  case (2 v n c cs)
  show ?case
  proof (cases "isDigit c")
    case True
    with 2 obtain ds where "cs = ds @ rest" "list_all isDigit ds" "decVal (v * 10 + digitVal c) ds = port"
      "Suc n + length ds \<le> max (Suc n) 5" "rest = [] \<or> \<not> isDigit (hd rest)" and n: "Suc n \<le> 5"
      by (auto split: if_splits)
    with True show ?thesis by (intro exI [of _ "c # ds"]) auto
  next
    case False
    with 2 show ?thesis by (intro exI [of _ "[]"]) auto
  qed
qed

lemma cliPortLoop_digits:
  assumes "list_all isDigit ds" and "n + length ds \<le> 5" and "rest = [] \<or> \<not> isDigit (hd rest)"
  shows "cliPortLoop v n (ds @ rest) = Some (decVal v ds, rest)"
  using assms
proof (induction ds arbitrary: v n)
  case Nil
  then show ?case by (cases rest) auto
qed simp

lemma isSep_digit [simp]: "isSep c \<Longrightarrow> \<not> isDigit c" "isBlank c \<Longrightarrow> \<not> isDigit c"
  by (auto simp: isSep_def isBlank_def isDigit_def)

definition portPayload :: "string \<Rightarrow> string \<Rightarrow> bool" where
  "portPayload p ds \<longleftrightarrow>
     (\<exists>w1 w2 w3. p = w1 @ ''mqtt.port'' @ w2 @ ds @ w3 \<and> list_all isBlank w1 \<and> list_all isBlank w2 \<and>
        w2 \<noteq> [] \<and> digits ds \<and> length ds \<le> 5 \<and> list_all isSep w3 \<and>
        1 \<le> decVal 0 ds \<and> decVal 0 ds \<le> 65535)"


lemma dropWhile_all_append:
  "list_all P w \<Longrightarrow> (rest = [] \<or> \<not> P (hd rest)) \<Longrightarrow> dropWhile P (w @ rest) = rest"
  by (induction w) (auto simp: dropWhile_eq_self_iff)

lemma dropWhile_split: "list_all P (takeWhile P s) \<and> s = takeWhile P s @ dropWhile P s"
  by (simp add: list_all_iff) (meson set_takeWhileD)

lemma cliAuthzFirstTokenIs_iff:
  assumes "key \<noteq> []"
  shows "cliAuthzFirstTokenIs (Some p) key \<longleftrightarrow>
     (\<exists>q. dropWhile isBlank p = key @ q \<and> (q = [] \<or> isSep (hd q)))"
proof -
  have "strncmp0 (dropWhile isBlank p) key (length key) \<longleftrightarrow> (\<exists>q. dropWhile isBlank p = key @ q)"
    by (simp add: strncmp0_prefix prefix_def)
  then show ?thesis using assms
    by (auto simp: cliAuthzFirstTokenIs_def Let_def split: list.splits)
qed

lemma cliPortToken_iff:
  "cliPortToken v \<longleftrightarrow>
     (\<exists>ds w. v = ds @ w \<and> digits ds \<and> length ds \<le> 5 \<and> list_all isSep w \<and>
        1 \<le> decVal 0 ds \<and> decVal 0 ds \<le> 65535)" (is "?L \<longleftrightarrow> ?R")
proof
  assume L: ?L
  then obtain port rest where v: "v \<noteq> []" "isDigit (hd v)" "cliPortLoop 0 0 v = Some (port, rest)"
    "list_all isSep rest" "1 \<le> port" "port \<le> 65535"
    by (cases v; cases "cliPortLoop 0 0 v")
       (auto simp: cliPortToken_def list_all_iff simp del: cliPortLoop.simps split: if_splits)
  from cliPortLoop_Some [OF v(3)] obtain ds where
    ds: "v = ds @ rest" "list_all isDigit ds" "decVal 0 ds = port" "length ds \<le> 5"
        "rest = [] \<or> \<not> isDigit (hd rest)" by auto
  moreover from this v(1,2) have "ds \<noteq> []" by auto
  ultimately show ?R using v(4-6) unfolding digits_def by blast
next
  assume ?R
  then obtain ds w where w: "v = ds @ w" "digits ds" "length ds \<le> 5" "list_all isSep w"
    "1 \<le> decVal 0 ds" "decVal 0 ds \<le> 65535" by blast
  obtain x xs where x: "ds = x # xs" "isDigit x" "list_all isDigit ds"
    using w(2) by (cases ds) (auto simp: digits_def)
  have "cliPortLoop 0 0 v = Some (decVal 0 ds, w)"
    using cliPortLoop_digits [of ds 0 w 0] w x by (cases w) auto
  then show ?L using w x by (simp add: cliPortToken_def list_all_iff del: cliPortLoop.simps)
qed

text \<open>A \<open>config.set\<close> payload passes the port check exactly when it is the key, blanks, one run of
  at most five digits with a value from 1 to 65535, and nothing but separators after it.\<close>

lemma cliAuthzPortValueOk_iff:
  "cliAuthzPortValueOk (Some p) ''mqtt.port'' \<longleftrightarrow> (\<exists>ds. portPayload p ds)" (is "?L \<longleftrightarrow> ?R")
proof
  assume L: ?L
  then obtain q where q: "dropWhile isBlank p = ''mqtt.port'' @ q" "q = [] \<or> isSep (hd q)"
    using cliAuthzFirstTokenIs_iff [of "''mqtt.port''" p] by (auto simp: cliAuthzPortValueOk_def split: if_splits)
  define v where "v = dropWhile isBlank q"
  from L q have "cliPortToken v" by (simp add: cliAuthzPortValueOk_def v_def split: if_splits)
  then obtain ds w where ds: "v = ds @ w" "digits ds" "length ds \<le> 5" "list_all isSep w"
    "1 \<le> decVal 0 ds" "decVal 0 ds \<le> 65535" unfolding cliPortToken_iff by blast
  have "takeWhile isBlank q \<noteq> []"
  proof
    assume "takeWhile isBlank q = []"
    then have "v = q" unfolding v_def by (metis append_Nil takeWhile_dropWhile_id)
    then show False using ds(1,2) q(2) by (cases ds) (auto simp: digits_def)
  qed
  moreover have "p = takeWhile isBlank p @ ''mqtt.port'' @ takeWhile isBlank q @ ds @ w"
    using q(1) ds(1) v_def by (metis takeWhile_dropWhile_id)
  ultimately show ?R using ds dropWhile_split [of isBlank p] dropWhile_split [of isBlank q]
    unfolding portPayload_def by blast
next
  assume ?R
  then obtain ds w1 w2 w3 where w: "p = w1 @ ''mqtt.port'' @ w2 @ ds @ w3" "list_all isBlank w1"
    "list_all isBlank w2" "w2 \<noteq> []" "digits ds" "length ds \<le> 5" "list_all isSep w3"
    "1 \<le> decVal 0 ds" "decVal 0 ds \<le> 65535" unfolding portPayload_def by blast
  have d: "ds \<noteq> []" "isDigit (hd ds)" using w(5) by (cases ds; simp add: digits_def)+
  have p: "dropWhile isBlank p = ''mqtt.port'' @ w2 @ ds @ w3"
    unfolding w(1) using w(2) by (intro dropWhile_all_append) (auto simp: isBlank_def)
  have v: "dropWhile isBlank (w2 @ ds @ w3) = ds @ w3"
    using w(3) d by (intro dropWhile_all_append) (auto simp: hd_append)
  have tok: "cliAuthzFirstTokenIs (Some p) ''mqtt.port''"
    using cliAuthzFirstTokenIs_iff [of "''mqtt.port''" p] p w(3,4) by (cases w2) (auto simp: isSep_def)
  have "cliPortToken (ds @ w3)" using w unfolding cliPortToken_iff by blast
  then show ?L using tok p v by (simp add: cliAuthzPortValueOk_def)
qed

section \<open>What a password session may run\<close>

definition secretPayloadOk :: "string \<Rightarrow> bool" where
  "secretPayloadOk p \<longleftrightarrow>
     (let field = takeWhile (\<lambda>c. \<not> isSep c) (dropWhile isBlank p)
      in field = [] \<or> (field \<noteq> ''enroll.claim_code'' \<and> length field \<le> 47 \<and>
           ((\<exists>k. map_of kMap field = Some k) \<or>
            (prefix kWifiPrefix field \<and> field \<noteq> kWifiPrefix))))"

lemma kMap_keys_fit: "map_of kMap f = Some k \<Longrightarrow> 0 < length k \<and> length k < 16"
  by (auto simp: kMap_def split: if_splits)

lemma length_secretWifiKey [simp]: "length (secretWifiKey s) = 14"
  by (simp add: secretWifiKey_def hex6_def)

lemma secretNvsKeyFor_known:
  "secretNvsKeyFor (Some f) 16 \<noteq> None \<longleftrightarrow>
     (\<exists>k. map_of kMap f = Some k) \<or> (prefix kWifiPrefix f \<and> f \<noteq> kWifiPrefix)"
proof (cases "map_of kMap f")
  case (Some k)
  then show ?thesis using kMap_keys_fit [OF Some] by (simp add: secretNvsKeyFor_def)
next
  case None
  have "strncmp0 f kWifiPrefix (length kWifiPrefix) \<and> length kWifiPrefix < length f \<longleftrightarrow>
      prefix kWifiPrefix f \<and> f \<noteq> kWifiPrefix"
    by (auto simp: strncmp0_prefix prefix_def)
  then show ?thesis using None by (auto simp: secretNvsKeyFor_def Let_def)
qed

lemma cliAuthzSecretFieldAllowed_iff:
  "cliAuthzSecretFieldAllowed (Some p) \<longleftrightarrow> secretPayloadOk p"
proof -
  define field where "field = takeWhile (\<lambda>c. \<not> isSep c) (dropWhile isBlank p)"
  show ?thesis
    unfolding cliAuthzSecretFieldAllowed_def secretPayloadOk_def option.case Let_def field_def [symmetric]
    using secretNvsKeyFor_known [of field] by auto
qed

lemma portValueOk_not_bad: "cliAuthzPortValueOk p CLI_AUTHZ_PW_CONFIG_KEY \<Longrightarrow> \<not> cliAuthzPortValueBad p"
  by (cases p) (auto simp: cliAuthzPortValueBad_def Let_def)

text \<open>The whole gate for a password session, as one list: provisioning and identification commands,
  clearing a certificate that is broken anyway, a valid broker port, and a secret the pairing flow
  provisions other than the claim code. Nothing else runs.\<close>

lemma cliAuthzAllowed_password:
  "cliAuthzAllowed CLI_AUTH_PASSWORD (Some cmd) (Some payload) broken \<longleftrightarrow>
     (let c = map toLower cmd
      in c \<in> {''cert.set'', ''cert.apply'', ''cert.info'', ''restart'', ''version'', ''chip.info'', ''heap''} \<or>
         (c = ''cert.clear'' \<and> broken) \<or>
         (c = ''config.set'' \<and> (\<exists>ds. portPayload payload ds)) \<or>
         (c = ''secret.set'' \<and> secretPayloadOk payload))"
proof -
  define c where "c = map toLower cmd"
  have eq: "cliAuthzCmdEq (Some cmd) (Some k) \<longleftrightarrow> c = k"
    if "k \<in> set (''config.set'' # ''secret.set'' # ''cert.clear'' # kAllowed)" for k
    using lower_literals [OF that] by (simp add: cliAuthzCmdEq_iff c_def)
  have ne: "cmd = [] \<longleftrightarrow> c = []" by (simp add: c_def)
  have pw: "cliAuthzPasswordCmdAllowed (Some cmd) broken \<longleftrightarrow>
      (broken \<and> c = ''cert.clear'') \<or> c \<in> set kAllowed"
    using eq by (auto simp: cliAuthzPasswordCmdAllowed_def list_ex_iff)
  have port: "cliAuthzPortValueOk (Some payload) CLI_AUTHZ_PW_CONFIG_KEY \<longleftrightarrow> (\<exists>ds. portPayload payload ds)"
    unfolding CLI_AUTHZ_PW_CONFIG_KEY_def by (rule cliAuthzPortValueOk_iff)
  have e1: "cliAuthzCmdEq (Some cmd) (Some ''config.set'') \<longleftrightarrow> c = ''config.set''"
    and e2: "cliAuthzCmdEq (Some cmd) (Some ''secret.set'') \<longleftrightarrow> c = ''secret.set''"
    by (rule eq, simp)+
  have nb: "cliAuthzPortValueBad (Some payload) \<Longrightarrow> \<not> (\<exists>ds. portPayload payload ds)"
    using portValueOk_not_bad [of "Some payload"] port by blast
  have gate: "cliAuthzAllowed CLI_AUTH_PASSWORD (Some cmd) (Some payload) broken \<longleftrightarrow>
      c \<noteq> [] \<and> (if c = ''config.set'' then (\<exists>ds. portPayload payload ds)
        else if c = ''secret.set'' then secretPayloadOk payload
        else (broken \<and> c = ''cert.clear'') \<or> c \<in> set kAllowed)"
    unfolding cliAuthzAllowed_def Let_def e1 e2 cliAuthzSecretFieldAllowed_iff pw port
    using nb ne by simp
  show ?thesis
    unfolding c_def [symmetric] Let_def gate
    by (cases "c = ''config.set''"; cases "c = ''secret.set''"; cases "c = ''cert.clear''")
       (simp_all add: kAllowed_def, auto)
qed


text \<open>Whoever sends it, a \<open>config.set\<close> of the broker port that carries a value is dispatched only when the gate reads a
  port there.\<close>

lemma cliAuthzAllowed_port:
  assumes "cliAuthzAllowed mode (Some cmd) (Some p) broken" and "map toLower cmd = ''config.set''"
    and "cliAuthzFirstTokenIs (Some p) ''mqtt.port''"
    and "\<not> list_all isSep (drop 9 (dropWhile isBlank p))"
  shows "\<exists>ds. portPayload p ds"
proof -
  have "cliAuthzCmdEq (Some cmd) (Some ''config.set'')"
    using assms(2) lower_literals [of "''config.set''"] by (simp add: cliAuthzCmdEq_iff)
  then have "\<not> cliAuthzPortValueBad (Some p)" using assms(1)
    by (auto simp: cliAuthzAllowed_def Let_def split: if_splits)
  moreover have "dropWhile isSep (drop 9 (dropWhile isBlank p)) \<noteq> []"
    using assms(4) by (simp add: list_all_iff)
  ultimately have "cliAuthzPortValueOk (Some p) ''mqtt.port''"
    using assms(3)
    by (simp add: cliAuthzPortValueBad_def CLI_AUTHZ_PW_CONFIG_KEY_def Let_def list_all_iff eval_nat_numeral
             split: if_splits)
  then show ?thesis by (simp add: cliAuthzPortValueOk_iff)
qed

section \<open>Secret keys\<close>

text \<open>Every stored key fits the 15 characters NVS allows, and no two provisioned scalars share one.\<close>

lemma secretNvsKeyFor_length: "secretNvsKeyFor f 16 = Some k \<Longrightarrow> length k \<le> 15"
  by (auto simp: secretNvsKeyFor_def Let_def split: option.splits if_splits)

lemma kMap_distinct: "distinct (map snd kMap)" "distinct (map fst kMap)"
  by (simp_all add: kMap_def)

lemma wifi_key_not_scalar: "secretWifiKey ssid \<notin> set (map snd kMap)"
  by (simp add: kMap_def secretWifiKey_def)

end
