(* ===== verification/Mqtt_Topics.thy ===== *)
theory Mqtt_Topics
  imports Fw_Prelude
begin

text \<open>
  The pure headers that build and take apart MQTT topics and command payloads:
  \<open>mqtt_topic_policy.h\<close> (copies that refuse instead of clipping), \<open>cli_topics.h\<close> (the command and
  response topic spaces) and \<open>cli_payload.h\<close> (the field/value split of a binary command).

  A builder writes into a caller's buffer and returns whether the topic fitted. The model returns
  both: the text the buffer holds afterwards (None for a null buffer) and the verdict.
\<close>

section \<open>Definitions\<close>

subsection \<open>Topic and broker-host copies\<close>

definition MQTT_BROKER_HOST_CAP :: nat where
  "MQTT_BROKER_HOST_CAP = 96"

definition c_strnlen :: "string \<Rightarrow> nat \<Rightarrow> nat" where
  "c_strnlen s n = min (length s) n"

definition mqttHostFits :: "cstr \<Rightarrow> nat \<Rightarrow> bool" where
  "mqttHostFits host cap = (case host of None \<Rightarrow> False | Some h \<Rightarrow> c_strnlen h cap < cap)"

definition mqttHostCopy :: "cstr \<Rightarrow> nat \<Rightarrow> cstr \<Rightarrow> cstr \<times> bool" where
  "mqttHostCopy out cap host =
     (case out of None \<Rightarrow> (None, False)
      | Some old \<Rightarrow> (if \<not> mqttHostFits host cap then (Some old, False) else (host, True)))"

text \<open>\<open>mqttTopicVfmt\<close> takes the finished expansion of its format string; None is a null format.\<close>

definition mqttTopicVfmt :: "cstr \<Rightarrow> nat \<Rightarrow> cstr \<Rightarrow> cstr \<times> bool" where
  "mqttTopicVfmt out cap fmt =
     (if out = None \<or> cap = 0 then (out, False)
      else case fmt of None \<Rightarrow> (Some '''', False)
           | Some txt \<Rightarrow> (let n = length txt
                          in if n = 0 \<or> cap \<le> n then (Some '''', False)
                             else (Some (c_snprintf cap txt), True)))"

definition mqttTopicFits :: "cstr \<Rightarrow> nat \<Rightarrow> bool" where
  "mqttTopicFits topic cap =
     (case topic of None \<Rightarrow> False | Some t \<Rightarrow> t \<noteq> [] \<and> c_strnlen t cap < cap)"

definition HA_LEGACY_UID_CAP :: nat where
  "HA_LEGACY_UID_CAP = 48"

definition haLegacyUid :: "cstr \<Rightarrow> nat \<Rightarrow> cstr \<Rightarrow> cstr \<times> bool" where
  "haLegacyUid legacy cap uid =
     (if legacy = None \<or> cap = 0 then (legacy, False)
      else case uid of None \<Rightarrow> (Some '''', False)
           | Some u \<Rightarrow> (if c_strnlen u cap < cap then (Some '''', False)
                        else (Some (take (cap - 1) u), True)))"

subsection \<open>Command and response topics\<close>

definition CLI_TOPIC_INPUT_WILDCARD :: string where
  "CLI_TOPIC_INPUT_WILDCARD = ''/cli/#''"

definition CLI_TOPIC_INPUT_SEGMENT :: string where
  "CLI_TOPIC_INPUT_SEGMENT = ''/cli/''"

definition CLI_TOPIC_RESPONSE :: string where
  "CLI_TOPIC_RESPONSE = ''/cli_response''"

definition CLI_TOPIC_CAP :: nat where
  "CLI_TOPIC_CAP = 160"

definition cliTopicJoin :: "cstr \<Rightarrow> nat \<Rightarrow> cstr \<Rightarrow> cstr \<Rightarrow> cstr \<times> bool" where
  "cliTopicJoin out cap pre suf =
     (case (out, pre, suf) of
        (Some _, Some p, Some s) \<Rightarrow>
          (if cap = 0 then (out, False)
           else (let n = length (p @ s) in (Some (c_snprintf cap (p @ s)), 0 < n \<and> n < cap)))
      | _ \<Rightarrow> (out, False))"

definition cliInputSubscription :: "cstr \<Rightarrow> nat \<Rightarrow> cstr \<Rightarrow> cstr \<times> bool" where
  "cliInputSubscription out cap pre = cliTopicJoin out cap pre (Some CLI_TOPIC_INPUT_WILDCARD)"

definition cliCommandTopic :: "cstr \<Rightarrow> nat \<Rightarrow> cstr \<Rightarrow> cstr \<Rightarrow> cstr \<times> bool" where
  "cliCommandTopic out cap pre command =
     (case (out, pre, command) of
        (Some _, Some p, Some c) \<Rightarrow>
          (if cap = 0 then (out, False)
           else (let txt = p @ CLI_TOPIC_INPUT_SEGMENT @ c; n = length txt
                 in (Some (c_snprintf cap txt), 0 < n \<and> n < cap)))
      | _ \<Rightarrow> (out, False))"

definition cliResponseTopic :: "cstr \<Rightarrow> nat \<Rightarrow> cstr \<Rightarrow> cstr \<times> bool" where
  "cliResponseTopic out cap pre = cliTopicJoin out cap pre (Some CLI_TOPIC_RESPONSE)"

definition cliInputPrefix :: "cstr \<Rightarrow> nat \<Rightarrow> cstr \<Rightarrow> cstr \<times> bool" where
  "cliInputPrefix out cap pre = cliTopicJoin out cap pre (Some CLI_TOPIC_INPUT_SEGMENT)"

text \<open>The loop of \<open>cliTopicMatches\<close> over the two cursors.\<close>

fun cliMatchLoop :: "string \<Rightarrow> string \<Rightarrow> bool" where
  "cliMatchLoop [] t = (t = [])"
| "cliMatchLoop (c # f) t =
     (if c = CHR ''#'' then True
      else if c = CHR ''+''
      then (let t' = dropWhile (\<lambda>x. x \<noteq> CHR ''/'') t
            in if f \<noteq> [] \<and> hd f = CHR ''/'' \<and> t' \<noteq> [] \<and> hd t' = CHR ''/''
               then cliMatchLoop (tl f) (tl t') else cliMatchLoop f t')
      else if t = [] \<or> c \<noteq> hd t then False
      else cliMatchLoop f (tl t))"

definition cliTopicMatches :: "cstr \<Rightarrow> cstr \<Rightarrow> bool" where
  "cliTopicMatches flt topic =
     (case (flt, topic) of (Some f, Some t) \<Rightarrow> cliMatchLoop f t | _ \<Rightarrow> False)"

subsection \<open>Binary command payloads\<close>

datatype CliSplit = CliSplit_Ok | CliSplit_NoNewline | CliSplit_FieldTooLong

text \<open>The result of the split: the status, the field copied out (untouched unless Ok) and the
  value as the offset and length of the bytes it points at. The payload may hold any byte.\<close>

record cliSplitOut =
  status :: CliSplit
  fieldOut :: string
  valueOff :: nat
  valueLen :: nat

fun c_memchr :: "string \<Rightarrow> char \<Rightarrow> nat \<Rightarrow> nat option" where
  "c_memchr (x # xs) c (Suc n) = (if x = c then Some 0 else map_option Suc (c_memchr xs c n))"
| "c_memchr xs c n = None"

definition cliSplitFieldValue :: "cstr \<Rightarrow> nat \<Rightarrow> string \<Rightarrow> nat \<Rightarrow> cliSplitOut" where
  "cliSplitFieldValue payload plen field0 fieldCap =
     (let fail = \<lambda>st. \<lparr>status = st, fieldOut = field0, valueOff = 0, valueLen = 0\<rparr>
      in case payload of None \<Rightarrow> fail CliSplit_NoNewline
         | Some p \<Rightarrow>
             (if fieldCap = 0 then fail CliSplit_NoNewline
              else case c_memchr p (CHR 0x0A) plen of
                     None \<Rightarrow> fail CliSplit_NoNewline
                   | Some fieldLen \<Rightarrow>
                       (if fieldCap \<le> fieldLen then fail CliSplit_FieldTooLong
                        else \<lparr>status = CliSplit_Ok, fieldOut = take fieldLen p,
                              valueOff = fieldLen + 1, valueLen = plen - fieldLen - 1\<rparr>)))"

section \<open>Builders never publish a clipped topic\<close>

lemma c_strnlen_less [simp]: "c_strnlen s n < n \<longleftrightarrow> length s < n"
  by (auto simp: c_strnlen_def)

lemma cliTopicJoin_ok:
  "snd (cliTopicJoin out cap pre suf) \<longleftrightarrow>
     (\<exists>p s. out \<noteq> None \<and> pre = Some p \<and> suf = Some s \<and> p @ s \<noteq> [] \<and> length (p @ s) < cap)"
  by (auto simp: cliTopicJoin_def Let_def split: option.splits)

lemma cliTopicJoin_text:
  "snd (cliTopicJoin out cap (Some p) (Some s)) \<Longrightarrow> fst (cliTopicJoin out cap (Some p) (Some s)) = Some (p @ s)"
  by (auto simp: cliTopicJoin_def Let_def split: option.splits if_splits)

lemma cliCommandTopic_ok:
  "snd (cliCommandTopic out cap pre cmd) \<Longrightarrow>
     \<exists>p c. pre = Some p \<and> cmd = Some c \<and>
           fst (cliCommandTopic out cap pre cmd) = Some (p @ CLI_TOPIC_INPUT_SEGMENT @ c)"
  by (auto simp: cliCommandTopic_def Let_def split: option.splits if_splits)

lemmas cli_topic_defs = cliInputSubscription_def cliResponseTopic_def cliInputPrefix_def
  CLI_TOPIC_INPUT_WILDCARD_def CLI_TOPIC_INPUT_SEGMENT_def CLI_TOPIC_RESPONSE_def

lemma mqttTopicVfmt_ok:
  "snd (mqttTopicVfmt out cap fmt) \<Longrightarrow> fmt \<noteq> None \<and> fst (mqttTopicVfmt out cap fmt) = fmt"
  by (auto simp: mqttTopicVfmt_def Let_def split: option.splits if_splits)

lemma mqttTopicVfmt_refused:
  "\<not> snd (mqttTopicVfmt (Some b) cap fmt) \<Longrightarrow> 0 < cap \<Longrightarrow> fst (mqttTopicVfmt (Some b) cap fmt) = Some ''''"
  by (auto simp: mqttTopicVfmt_def Let_def split: option.splits if_splits)

lemma mqttHostCopy_keeps: "\<not> snd (mqttHostCopy out cap host) \<Longrightarrow> fst (mqttHostCopy out cap host) = out"
  by (auto simp: mqttHostCopy_def split: option.splits if_splits)

text \<open>The uid an old release clipped is recognised exactly, and it is the clipped text.\<close>

lemma haLegacyUid_iff:
  "haLegacyUid (Some b) cap (Some u) =
     (if 0 < cap \<and> cap \<le> length u then (Some (c_snprintf cap u), True)
      else (if cap = 0 then Some b else Some '''', False))"
  by (auto simp: haLegacyUid_def c_snprintf_def)

section \<open>The wildcard matcher\<close>

lemma cliMatchLoop_literal:
  "\<forall>c \<in> set lit. c \<noteq> CHR ''#'' \<and> c \<noteq> CHR ''+'' \<Longrightarrow>
   cliMatchLoop (lit @ f) t \<longleftrightarrow> prefix lit t \<and> cliMatchLoop f (drop (length lit) t)"
proof (induction lit arbitrary: t)
  case (Cons c lit)
  then show ?case by (cases t) auto
qed simp

section \<open>Splitting a payload\<close>

lemma c_memchr_Some:
  "c_memchr p c n = Some i \<Longrightarrow> i < n \<and> i < length p \<and> p ! i = c \<and> c \<notin> set (take i p)"
  by (induction p c n arbitrary: i rule: c_memchr.induct) (auto split: if_splits)

lemma c_memchr_append: "c \<notin> set f \<Longrightarrow> length f < n \<Longrightarrow> c_memchr (f @ c # v) c n = Some (length f)"
proof (induction f arbitrary: n)
  case Nil
  then show ?case by (cases n) auto
next
  case (Cons x f)
  then show ?case by (cases n) auto
qed

text \<open>The field/value split of a binary CLI payload. It succeeds exactly when the payload is a
  field, a newline and a value with a newline-free field shorter than the buffer; then the field copied
  out and the bytes the value points at are those two parts, so no byte is lost and nothing past the
  payload is read.\<close>

lemma cliSplitFieldValue_Ok_iff:
  "status (cliSplitFieldValue (Some p) (length p) field0 cap) = CliSplit_Ok \<longleftrightarrow>
     (\<exists>f v. p = f @ CHR 0x0A # v \<and> CHR 0x0A \<notin> set f \<and> length f < cap \<and>
            (let r = cliSplitFieldValue (Some p) (length p) field0 cap
             in fieldOut r = f \<and> take (valueLen r) (drop (valueOff r) p) = v \<and>
                valueOff r + valueLen r = length p))" (is "?L \<longleftrightarrow> ?R")
proof
  assume ?L
  then obtain i where i: "c_memchr p (CHR 0x0A) (length p) = Some i" and c: "i < cap"
    by (auto simp: cliSplitFieldValue_def Let_def split: option.splits if_splits)
  note m = c_memchr_Some [OF i]
  then have "p = take i p @ CHR 0x0A # drop (Suc i) p" by (metis id_take_nth_drop)
  moreover have "CHR 0x0A \<notin> set (take i p)" "length (take i p) < cap" using m c by auto
  ultimately show ?R using i c m
    by (intro exI [of _ "take i p"] exI [of _ "drop (Suc i) p"]) (auto simp: cliSplitFieldValue_def Let_def)
next
  assume ?R
  then obtain f v where "p = f @ CHR 0x0A # v" "CHR 0x0A \<notin> set f" "length f < cap" by auto
  then show ?L using c_memchr_append [of "CHR 0x0A" f "length p" v]
    by (auto simp: cliSplitFieldValue_def Let_def)
qed

end
