(* ===== verification/Mqtt_Sub.thy ===== *)
theory Mqtt_Sub
  imports Mqtt_Topics
begin

text \<open>
  \<open>lib/thesada-core/src/mqtt_sub_table.h\<close>: the subscription table of the MQTT client and its topic
  filter. The filter is proved equal to a level-by-level definition; the table is proved to implement
  the list of registrations made since the last reset, which is what its clients see through the
  locale \<open>subscriptions\<close>.
\<close>

section \<open>Definitions\<close>

subsection \<open>The filter\<close>

definition mqttSubMatches :: "string \<Rightarrow> string \<Rightarrow> bool" where
  "mqttSubMatches sub topic =
     (let slen = length sub
      in if 2 \<le> slen \<and> sub ! (slen - 1) = CHR ''#'' \<and> sub ! (slen - 2) = CHR ''/''
         then strncmp0 sub topic (slen - 1)
         else if 2 \<le> slen \<and> sub ! (slen - 1) = CHR ''+'' \<and> sub ! (slen - 2) = CHR ''/''
         then (if \<not> strncmp0 sub topic (slen - 1) then False
               else (let rest = drop (slen - 1) topic in rest \<noteq> [] \<and> c_strchr rest (CHR ''/'') = None))
         else sub = topic)"

subsection \<open>The table\<close>

record 'cb slot =
  topic :: string
  callback :: 'cb
  active :: bool

text \<open>\<open>_slots\<close> has the template's \<open>N\<close> entries for good; \<open>_count\<close> (a byte) never exceeds \<open>N\<close>,
  itself a byte, so it does not wrap.\<close>

record 'cb subTable =
  slots :: "'cb slot list"
  count :: nat

definition subCapacity :: "'cb subTable \<Rightarrow> nat" where
  "subCapacity t = length (slots t)"

definition subInit :: "nat \<Rightarrow> 'cb \<Rightarrow> 'cb subTable" where
  "subInit n cb0 = \<lparr>slots = replicate n \<lparr>topic = '''', callback = cb0, active = False\<rparr>, count = 0\<rparr>"

definition subReset :: "'cb subTable \<Rightarrow> 'cb subTable" where
  "subReset t = \<lparr>slots = map (\<lambda>s. s\<lparr>active := False\<rparr>) (slots t), count = 0\<rparr>"

definition subAdd :: "nat \<Rightarrow> cstr \<Rightarrow> 'cb \<Rightarrow> 'cb subTable \<Rightarrow> 'cb subTable \<times> bool" where
  "subAdd TOPIC_CAP tp cb t =
     (if subCapacity t \<le> count t then (t, False)
      else case tp of None \<Rightarrow> (t, False)
           | Some s \<Rightarrow>
               (if s = [] \<or> TOPIC_CAP \<le> c_strnlen s TOPIC_CAP then (t, False)
                else (\<lparr>slots = (slots t)[count t := \<lparr>topic = s, callback = cb, active = True\<rparr>],
                       count = count t + 1\<rparr>, True)))"

definition subIsRegistered :: "'cb subTable \<Rightarrow> string \<Rightarrow> bool" where
  "subIsRegistered t tp = list_ex (\<lambda>i. active (slots t ! i) \<and> topic (slots t ! i) = tp) [0..<count t]"

text \<open>\<open>dispatch\<close>: the callbacks called, in order, each with the topic and the payload.\<close>

definition subDispatch :: "'cb subTable \<Rightarrow> string \<Rightarrow> string \<Rightarrow> ('cb \<times> string \<times> string) list" where
  "subDispatch t tp payload =
     concat (map (\<lambda>i. if \<not> active (slots t ! i) then []
                      else if mqttSubMatches (topic (slots t ! i)) tp
                      then [(callback (slots t ! i), tp, payload)] else []) [0..<count t])"

definition subForEachActive :: "'cb subTable \<Rightarrow> string list" where
  "subForEachActive t =
     concat (map (\<lambda>i. if active (slots t ! i) then [topic (slots t ! i)] else []) [0..<count t])"

section \<open>The filter against a level-by-level definition\<close>

text \<open>The levels of a topic, split at every slash.\<close>

fun levels :: "string \<Rightarrow> string list" where
  "levels [] = [[]]"
| "levels (c # s) = (if c = CHR ''/'' then [] # levels s
                     else (case levels s of l # ls \<Rightarrow> (c # l) # ls | [] \<Rightarrow> [[c]]))"

text \<open>The reference: a trailing \<open>#\<close> takes one or more further levels, a \<open>+\<close> takes one level that
  is not empty, any other level takes itself.\<close>

fun levelMatch :: "string list \<Rightarrow> string list \<Rightarrow> bool" where
  "levelMatch [] ts = (ts = [])"
| "levelMatch (f # fs) [] = False"
| "levelMatch (f # fs) (t # ts) =
     (if f = ''#'' \<and> fs = [] then True
      else if f = ''+'' then t \<noteq> [] \<and> levelMatch fs ts
      else f = t \<and> levelMatch fs ts)"

text \<open>Filters of the forms the firmware registers: literal levels, then possibly one wildcard level.\<close>

definition plainLevel :: "string \<Rightarrow> bool" where
  "plainLevel l \<longleftrightarrow> l \<noteq> ''#'' \<and> l \<noteq> ''+''"

definition trailingWild :: "string \<Rightarrow> bool" where
  "trailingWild f \<longleftrightarrow> list_all plainLevel (butlast (levels f)) \<and>
                     (plainLevel (last (levels f)) \<or> 2 \<le> length (levels f))"

lemma levels_nonempty [simp]: "levels s \<noteq> []"
  by (induction s) (auto split: list.splits)

lemma levels_append: "levels (p @ CHR ''/'' # s) = levels p @ levels s"
  by (induction p) (auto split: list.splits)

lemma levels_no_slash: "CHR ''/'' \<notin> set s \<Longrightarrow> levels s = [s]"
  by (induction s) auto

lemma levels_slash_free: "l \<in> set (levels s) \<Longrightarrow> CHR ''/'' \<notin> set l"
  by (induction s arbitrary: l) (auto split: list.splits if_splits)

lemma levels_inject: "levels s = levels t \<longleftrightarrow> s = t"
proof (induction s arbitrary: t)
  case Nil
  then show ?case by (cases t) (auto split: list.splits)
next
  case (Cons c s)
  show ?case
  proof (cases t)
    case Nil
    then show ?thesis by (auto split: list.splits)
  next
    case (Cons d u)
    then show ?thesis using Cons.IH [of u] levels_nonempty [of s] levels_nonempty [of u]
      by (auto split: list.splits if_splits)
  qed
qed

lemma levels_single: "levels s = [l] \<Longrightarrow> s = l \<and> CHR ''/'' \<notin> set s"
  by (metis levels_inject levels_no_slash levels_slash_free list.set_intros(1))

lemma levels_split:
  "levels t = xs @ ys \<Longrightarrow> xs \<noteq> [] \<Longrightarrow> ys \<noteq> [] \<Longrightarrow>
   \<exists>p s. t = p @ CHR ''/'' # s \<and> levels p = xs \<and> levels s = ys"
proof (induction t arbitrary: xs)
  case Nil
  then show ?case by (auto simp: append_eq_Cons_conv Cons_eq_append_conv)
next
  case (Cons c t)
  show ?case
  proof (cases "c = CHR ''/'' \<and> length xs = 1")
    case True
    then have "xs = [[]]" "levels t = ys" using Cons.prems by (cases xs; auto)+
    with True show ?thesis by (intro exI [of _ "[]"] exI [of _ t]) auto
  next
    case False
    obtain x xs' where x: "xs = x # xs'" using Cons.prems(2) by (cases xs) auto
    show ?thesis
    proof (cases "c = CHR ''/''")
      case True
      then have "levels t = xs' @ ys" "xs' \<noteq> []" "x = []" using Cons.prems x False by auto
      then obtain p s where "t = p @ CHR ''/'' # s" "levels p = xs'" "levels s = ys" using Cons.IH Cons.prems by blast
      then show ?thesis using True x \<open>x = []\<close> by (intro exI [of _ "c # p"] exI [of _ s]) auto
    next
      case nc: False
      then obtain l where l: "levels t = (l # xs') @ ys" "x = c # l"
        using Cons.prems x levels_nonempty [of t] by (auto split: list.splits)
      then obtain p s where "t = p @ CHR ''/'' # s" "levels p = l # xs'" "levels s = ys"
        using Cons.IH [of "l # xs'"] Cons.prems by blast
      then show ?thesis using nc x l by (intro exI [of _ "c # p"] exI [of _ s]) auto
    qed
  qed
qed

lemma levelMatch_plain:
  "list_all plainLevel fs \<Longrightarrow> levelMatch (fs @ gs) ts \<longleftrightarrow> (\<exists>us. ts = fs @ us \<and> levelMatch gs us)"
proof (induction fs arbitrary: ts)
  case (Cons f fs)
  then show ?case by (cases ts) (auto simp: plainLevel_def)
qed auto

lemma ends_iff:
  "2 \<le> length s \<and> s ! (length s - 1) = c \<and> s ! (length s - 2) = d \<longleftrightarrow> (\<exists>p. s = p @ [d, c])" (is "?L \<longleftrightarrow> ?R")
proof
  assume l: ?L
  then obtain q x where q: "s = q @ [x]" by (metis append_butlast_last_id list.size(3) not_numeral_le_zero)
  with l obtain p y where "q = p @ [y]" by (cases q rule: rev_cases) auto
  with q l show ?R by (auto simp: nth_append)
qed (auto simp: nth_append)

lemma mqttSubMatches_hash: "mqttSubMatches (p @ ''/#'') t \<longleftrightarrow> prefix (p @ ''/'') t"
proof -
  have "strncmp0 (p @ ''/#'') t (Suc (length p)) \<longleftrightarrow> prefix (p @ ''/'') t"
    using strncmp0_prefix [of t "p @ ''/''"] by (simp add: strncmp0_def eq_commute)
  then show ?thesis by (simp add: mqttSubMatches_def Let_def nth_append)
qed

lemma mqttSubMatches_plus:
  "mqttSubMatches (p @ ''/+'') t \<longleftrightarrow> (\<exists>l. t = p @ CHR ''/'' # l \<and> l \<noteq> [] \<and> CHR ''/'' \<notin> set l)"
proof -
  have "strncmp0 (p @ ''/+'') t (Suc (length p)) \<longleftrightarrow> prefix (p @ ''/'') t"
    using strncmp0_prefix [of t "p @ ''/''"] by (simp add: strncmp0_def eq_commute)
  then have "mqttSubMatches (p @ ''/+'') t \<longleftrightarrow>
    prefix (p @ ''/'') t \<and> drop (Suc (length p)) t \<noteq> [] \<and> CHR ''/'' \<notin> set (drop (Suc (length p)) t)"
    by (auto simp: mqttSubMatches_def Let_def nth_append c_strchr_def split: if_splits)
  then show ?thesis by (auto simp: prefix_def)
qed

lemma mqttSubMatches_exact:
  "\<nexists>p. s = p @ ''/#'' \<Longrightarrow> \<nexists>p. s = p @ ''/+'' \<Longrightarrow> mqttSubMatches s t \<longleftrightarrow> s = t"
  unfolding mqttSubMatches_def Let_def ends_iff by auto

lemma levels_wild: "levels (p @ [CHR ''/'', c]) = levels p @ levels [c]"
  using levels_append [of p "[c]"] by simp

lemma hash_levels: "prefix (p @ ''/'') t \<longleftrightarrow> (\<exists>us. levels t = levels p @ us \<and> us \<noteq> [])"
proof
  assume "prefix (p @ ''/'') t"
  then show "\<exists>us. levels t = levels p @ us \<and> us \<noteq> []" by (auto simp: prefix_def levels_append)
next
  assume "\<exists>us. levels t = levels p @ us \<and> us \<noteq> []"
  then obtain us where "levels t = levels p @ us" "us \<noteq> []" by auto
  then show "prefix (p @ ''/'') t"
    using levels_split [of t "levels p" us] levels_inject by (auto simp: prefix_def)
qed

lemma plus_levels:
  "(\<exists>l. t = p @ CHR ''/'' # l \<and> l \<noteq> [] \<and> CHR ''/'' \<notin> set l) \<longleftrightarrow> (\<exists>l. levels t = levels p @ [l] \<and> l \<noteq> [])"
proof
  assume "\<exists>l. t = p @ CHR ''/'' # l \<and> l \<noteq> [] \<and> CHR ''/'' \<notin> set l"
  then show "\<exists>l. levels t = levels p @ [l] \<and> l \<noteq> []" by (auto simp: levels_append levels_no_slash)
next
  assume "\<exists>l. levels t = levels p @ [l] \<and> l \<noteq> []"
  then obtain l where l: "levels t = levels p @ [l]" "l \<noteq> []" by auto
  then obtain q s where q: "t = q @ CHR ''/'' # s" "levels q = levels p" "levels s = [l]"
    using levels_split [of t "levels p" "[l]"] by auto
  then have "q = p" "s = l" "CHR ''/'' \<notin> set s" using levels_inject levels_single by blast+
  with q l show "\<exists>l. t = p @ CHR ''/'' # l \<and> l \<noteq> [] \<and> CHR ''/'' \<notin> set l" by blast
qed

text \<open>The device's topic filter. For every filter whose wildcards, if any, are one whole trailing
  level, the byte comparison the client makes agrees with matching level by level: a trailing hash
  takes every topic strictly below, a trailing plus takes exactly one further non-empty level, and any
  other filter takes only itself.\<close>

lemma mqttSubMatches_levels:
  assumes "trailingWild f"
  shows "mqttSubMatches f t \<longleftrightarrow> levelMatch (levels f) (levels t)"
proof (cases "(\<exists>p. f = p @ ''/#'') \<or> (\<exists>p. f = p @ ''/+'')")
  case True
  then obtain p c where p: "f = p @ [CHR ''/'', c]" "c = CHR ''#'' \<or> c = CHR ''+''" by auto
  have pl: "list_all plainLevel (levels p)" using assms p by (auto simp: trailingWild_def levels_wild)
  from p(2) show ?thesis
  proof
    assume c: "c = CHR ''#''"
    have "levelMatch [''#''] us \<longleftrightarrow> us \<noteq> []" for us by (cases us) auto
    then show ?thesis using p c pl mqttSubMatches_hash hash_levels
      by (simp add: levels_wild levelMatch_plain)
  next
    assume c: "c = CHR ''+''"
    have "levelMatch [''+''] us \<longleftrightarrow> (\<exists>l. us = [l] \<and> l \<noteq> [])" for us by (cases us) auto
    then show ?thesis using p c pl mqttSubMatches_plus plus_levels
      by (simp add: levels_wild levelMatch_plain) blast
  qed
next
  case False
  have "list_all plainLevel (levels f)"
  proof -
    have "plainLevel (last (levels f))"
    proof (rule ccontr)
      assume np: "\<not> plainLevel (last (levels f))"
      then have "2 \<le> length (levels f)" using assms by (simp add: trailingWild_def)
      then have "butlast (levels f) \<noteq> []" by (cases "levels f" rule: rev_cases) auto
      then obtain q s where "f = q @ CHR ''/'' # s" "levels s = [last (levels f)]"
        using levels_split [of f "butlast (levels f)" "[last (levels f)]"] by auto
      then have "f = q @ CHR ''/'' # last (levels f)" using levels_single by metis
      then show False using np False unfolding plainLevel_def by metis
    qed
    then show ?thesis using assms levels_nonempty [of f]
      by (cases "levels f" rule: rev_cases) (simp_all add: trailingWild_def)
  qed
  then show ?thesis
    using levelMatch_plain [of "levels f" "[]" "levels t"] False mqttSubMatches_exact [of f t] levels_inject [of f t]
    by auto
qed

section \<open>The interface of the table\<close>

text \<open>What a client of the table relies on: the table stands for a list of registrations, reset
  empties it, add appends exactly when the topic fits and there is room, dispatch calls every
  registration whose filter matches, in registration order.\<close>

datatype 'cb subOp = OpReset | OpAdd cstr 'cb

definition topicFits :: "nat \<Rightarrow> cstr \<Rightarrow> bool" where
  "topicFits cap tp \<longleftrightarrow> mqttTopicFits tp cap"

fun specStep :: "nat \<Rightarrow> nat \<Rightarrow> (string \<times> 'cb) list \<Rightarrow> 'cb subOp \<Rightarrow> (string \<times> 'cb) list" where
  "specStep n cap es OpReset = []"
| "specStep n cap es (OpAdd tp cb) =
     (if length es < n \<and> topicFits cap tp then es @ [(the tp, cb)] else es)"

definition deliveries :: "(string \<times> 'cb) list \<Rightarrow> string \<Rightarrow> string \<Rightarrow> ('cb \<times> string \<times> string) list" where
  "deliveries es tp payload = map (\<lambda>e. (snd e, tp, payload)) (filter (\<lambda>e. mqttSubMatches (fst e) tp) es)"

locale subscriptions =
  fixes ok :: "'t \<Rightarrow> bool"
    and room :: "'t \<Rightarrow> nat"
    and entries :: "'t \<Rightarrow> (string \<times> 'cb) list"
    and reset :: "'t \<Rightarrow> 't"
    and add :: "nat \<Rightarrow> cstr \<Rightarrow> 'cb \<Rightarrow> 't \<Rightarrow> 't \<times> bool"
    and dispatch :: "'t \<Rightarrow> string \<Rightarrow> string \<Rightarrow> ('cb \<times> string \<times> string) list"
    and topics :: "'t \<Rightarrow> string list"
    and registered :: "'t \<Rightarrow> string \<Rightarrow> bool"
  assumes reset_ok: "ok t \<Longrightarrow> ok (reset t) \<and> room (reset t) = room t \<and> entries (reset t) = []"
    and add_ok: "ok t \<Longrightarrow> ok (fst (add cap tp cb t)) \<and> room (fst (add cap tp cb t)) = room t \<and>
                   entries (fst (add cap tp cb t)) = specStep (room t) cap (entries t) (OpAdd tp cb)"
    and add_verdict: "ok t \<Longrightarrow> snd (add cap tp cb t) \<longleftrightarrow> length (entries t) < room t \<and> topicFits cap tp"
    and dispatch_entries: "ok t \<Longrightarrow> dispatch t s p = deliveries (entries t) s p"
    and topics_entries: "ok t \<Longrightarrow> topics t = map fst (entries t)"
    and registered_entries: "ok t \<Longrightarrow> registered t s \<longleftrightarrow> s \<in> fst ` set (entries t)"
begin

definition step :: "nat \<Rightarrow> 't \<Rightarrow> 'cb subOp \<Rightarrow> 't" where
  "step cap t op = (case op of OpReset \<Rightarrow> reset t | OpAdd tp cb \<Rightarrow> fst (add cap tp cb t))"

lemma step_ok: "ok t \<Longrightarrow> ok (step cap t op) \<and> room (step cap t op) = room t \<and>
                entries (step cap t op) = specStep (room t) cap (entries t) op"
  by (cases op) (simp_all add: step_def reset_ok add_ok del: specStep.simps(2))

lemma run_ok: "ok t \<Longrightarrow> ok (foldl (step cap) t ops) \<and> room (foldl (step cap) t ops) = room t \<and>
               entries (foldl (step cap) t ops) = foldl (specStep (room t) cap) (entries t) ops"
  by (induction ops arbitrary: t) (simp_all add: step_ok)

lemma run_dispatch:
  "ok t \<Longrightarrow> dispatch (foldl (step cap) t ops) s p = deliveries (foldl (specStep (room t) cap) (entries t) ops) s p"
  by (simp add: run_ok dispatch_entries)

lemma run_topics:
  "ok t \<Longrightarrow> topics (foldl (step cap) t ops) = map fst (foldl (specStep (room t) cap) (entries t) ops)"
  by (simp add: run_ok topics_entries)

lemma add_registers:
  "ok t \<Longrightarrow> snd (add cap (Some s) cb t) \<Longrightarrow> registered (fst (add cap (Some s) cb t)) s"
  using add_verdict [of t cap "Some s" cb] by (simp add: registered_entries add_ok)

lemma add_delivers:
  assumes "ok t" "snd (add cap (Some f) cb t)" "mqttSubMatches f s"
  shows "dispatch (fst (add cap (Some f) cb t)) s p = dispatch t s p @ [(cb, s, p)]"
  using assms add_verdict [of t cap "Some f" cb]
  by (simp add: dispatch_entries add_ok deliveries_def)

end

section \<open>The table implements the interface\<close>

definition subOk :: "'cb subTable \<Rightarrow> bool" where
  "subOk t \<longleftrightarrow> count t \<le> length (slots t) \<and> (\<forall>i < length (slots t). active (slots t ! i) \<longleftrightarrow> i < count t)"

definition subEntries :: "'cb subTable \<Rightarrow> (string \<times> 'cb) list" where
  "subEntries t = map (\<lambda>s. (topic s, callback s)) (take (count t) (slots t))"

lemma subOk_active: "subOk t \<Longrightarrow> i < count t \<Longrightarrow> active (slots t ! i)"
  by (simp add: subOk_def)

lemma subEntries_upt: "subOk t \<Longrightarrow> subEntries t = map (\<lambda>i. (topic (slots t ! i), callback (slots t ! i))) [0..<count t]"
  by (rule nth_equalityI) (auto simp: subEntries_def subOk_def)

lemma concat_if_filter: "concat (map (\<lambda>i. if Q i then [g i] else []) xs) = map g (filter Q xs)"
  by (induction xs) auto

lemma subDispatch_entries: "subOk t \<Longrightarrow> subDispatch t s p = deliveries (subEntries t) s p"
proof -
  assume ok: "subOk t"
  have "subDispatch t s p = concat (map (\<lambda>i. if mqttSubMatches (topic (slots t ! i)) s
          then [(callback (slots t ! i), s, p)] else []) [0..<count t])"
    unfolding subDispatch_def using ok by (intro arg_cong [where f = concat] map_cong) (auto simp: subOk_active)
  then show ?thesis
    by (simp add: concat_if_filter deliveries_def subEntries_upt [OF ok] filter_map o_def)
qed

lemma subForEachActive_entries: "subOk t \<Longrightarrow> subForEachActive t = map fst (subEntries t)"
proof -
  assume ok: "subOk t"
  have "subForEachActive t = concat (map (\<lambda>i. [topic (slots t ! i)]) [0..<count t])"
    unfolding subForEachActive_def using ok by (intro arg_cong [where f = concat] map_cong) (auto simp: subOk_active)
  then show ?thesis by (simp add: subEntries_upt [OF ok] o_def concat_map_singleton)
qed

lemma subAdd_accepts:
  "snd (subAdd cap tp cb t) \<longleftrightarrow> count t < length (slots t) \<and> topicFits cap tp"
  by (auto simp: subAdd_def subCapacity_def topicFits_def mqttTopicFits_def c_strnlen_def split: option.splits)

lemma subAdd_refused: "\<not> snd (subAdd cap tp cb t) \<Longrightarrow> fst (subAdd cap tp cb t) = t"
  by (auto simp: subAdd_def split: option.splits if_splits)

lemma subAdd_accepted:
  "snd (subAdd cap tp cb t) \<Longrightarrow> fst (subAdd cap tp cb t) =
     \<lparr>slots = (slots t)[count t := \<lparr>topic = the tp, callback = cb, active = True\<rparr>], count = count t + 1\<rparr>"
  by (auto simp: subAdd_def split: option.splits if_splits)

lemma subAdd_ok:
  assumes ok: "subOk t"
  shows "subOk (fst (subAdd cap tp cb t)) \<and> subCapacity (fst (subAdd cap tp cb t)) = subCapacity t \<and>
         subEntries (fst (subAdd cap tp cb t)) = specStep (subCapacity t) cap (subEntries t) (OpAdd tp cb)"
proof (cases "snd (subAdd cap tp cb t)")
  case True
  then have c: "count t < length (slots t)" "topicFits cap tp" by (simp_all add: subAdd_accepts)
  show ?thesis unfolding subAdd_accepted [OF True] using c ok
    by (auto simp: subOk_def subCapacity_def subEntries_def take_Suc_conv_app_nth nth_list_update)
next
  case False
  then have "\<not> (count t < length (slots t) \<and> topicFits cap tp)" by (simp add: subAdd_accepts)
  then show ?thesis unfolding subAdd_refused [OF False] using ok
    by (auto simp: subCapacity_def subEntries_def subOk_def)
qed

interpretation sub: subscriptions subOk subCapacity subEntries subReset subAdd subDispatch subForEachActive subIsRegistered
proof
  fix t :: "'a subTable" and cap tp cb s p
  assume ok: "subOk t"
  show "subOk (subReset t) \<and> subCapacity (subReset t) = subCapacity t \<and> subEntries (subReset t) = []"
    by (simp add: subOk_def subReset_def subCapacity_def subEntries_def)
  show "subOk (fst (subAdd cap tp cb t)) \<and> subCapacity (fst (subAdd cap tp cb t)) = subCapacity t \<and>
        subEntries (fst (subAdd cap tp cb t)) = specStep (subCapacity t) cap (subEntries t) (OpAdd tp cb)"
    using ok by (rule subAdd_ok)
  show "snd (subAdd cap tp cb t) = (length (subEntries t) < subCapacity t \<and> topicFits cap tp)"
    using ok by (auto simp: subAdd_accepts subEntries_def subCapacity_def subOk_def)
  show "subDispatch t s p = deliveries (subEntries t) s p" using ok by (rule subDispatch_entries)
  show "subForEachActive t = map fst (subEntries t)" using ok by (rule subForEachActive_entries)
  show "subIsRegistered t s = (s \<in> fst ` set (subEntries t))"
    using ok by (auto simp: subIsRegistered_def list_ex_iff subEntries_upt subOk_active image_image)
qed

lemma subInit_ok: "subOk (subInit n cb)" "subCapacity (subInit n cb) = n" "subEntries (subInit n cb) = []"
  by (auto simp: subInit_def subOk_def subCapacity_def subEntries_def)

text \<open>The subscription table under any sequence of resets and registrations behaves as the list
  of the registrations accepted since the last reset: a message is handed to exactly the matching ones
  in registration order, and the reconnect resubscribes exactly their topics. In particular no
  registration is stranded behind a cleared slot.\<close>

lemma subTable_refines:
  "let t = foldl (\<lambda>t op. case op of OpReset \<Rightarrow> subReset t | OpAdd tp cb \<Rightarrow> fst (subAdd cap tp cb t)) (subInit n cb0) ops;
       es = foldl (specStep n cap) [] ops
   in subDispatch t s p = deliveries es s p \<and> subForEachActive t = map fst es"
  using sub.run_dispatch [of "subInit n cb0" cap ops s p] sub.run_topics [of "subInit n cb0" cap ops]
  by (simp add: subInit_ok Let_def sub.step_def [abs_def])

section \<open>Commands and responses\<close>

text \<open>The device never hears its own command responses. Whenever the input subscription and the
  response topic of a prefix both fit, the subscription's filter does not match the response topic, for
  any prefix whatever it contains.\<close>

lemma response_never_matches_input:
  assumes "snd (cliInputSubscription (Some b) cap (Some pre))" and "snd (cliResponseTopic (Some b') cap' (Some pre))"
  shows "\<not> mqttSubMatches (the (fst (cliInputSubscription (Some b) cap (Some pre)))) (the (fst (cliResponseTopic (Some b') cap' (Some pre))))"
proof -
  have "fst (cliInputSubscription (Some b) cap (Some pre)) = Some ((pre @ ''/cli'') @ ''/#'')"
    using assms(1) cliTopicJoin_text unfolding cli_topic_defs by fastforce
  moreover have "fst (cliResponseTopic (Some b') cap' (Some pre)) = Some (pre @ ''/cli_response'')"
    using assms(2) cliTopicJoin_text unfolding cli_topic_defs by fastforce
  ultimately show ?thesis by (simp only: option.sel mqttSubMatches_hash) simp
qed

lemma command_matches_input:
  "mqttSubMatches ((pre @ ''/cli'') @ ''/#'') (pre @ CLI_TOPIC_INPUT_SEGMENT @ cmd)"
  by (simp only: mqttSubMatches_hash) (simp add: CLI_TOPIC_INPUT_SEGMENT_def)

end
