(* ===== verification/Fw_Ring.thy ===== *)
theory Fw_Ring
  imports Fw_Prelude
begin

text \<open>
  Circular buffers. Several components keep a fixed array with a head and a count (the publish queue,
  the received-topics ring, the duplicate filter, the deferred command ring). This theory holds what
  their proofs share: the list of entries a buffer stands for, how a store at the tail and a step of
  the head change that list, and the locale of a queue that drops its oldest entry when full.
\<close>

section \<open>The entries of a circular buffer\<close>

definition ringView :: "'a list \<Rightarrow> nat \<Rightarrow> nat \<Rightarrow> 'a list" where
  "ringView buf h n = map (\<lambda>i. buf ! ((h + i) mod length buf)) [0..<n]"

lemma length_ringView [simp]: "length (ringView buf h n) = n"
  by (simp add: ringView_def)

lemma ringView_0 [simp]: "ringView buf h 0 = []"
  by (simp add: ringView_def)

lemma ringView_nth [simp]: "i < n \<Longrightarrow> ringView buf h n ! i = buf ! ((h + i) mod length buf)"
  by (simp add: ringView_def)

lemma ringView_pop:
  "0 < n \<Longrightarrow> ringView buf h n = buf ! (h mod length buf) # ringView buf ((h + 1) mod length buf) (n - 1)"
proof -
  assume "0 < n"
  then obtain m where m: "n = Suc m" using gr0_conv_Suc by auto
  have "(h + Suc i) mod length buf = ((h + 1) mod length buf + i) mod length buf" for i
    by (simp add: mod_add_left_eq)
  then show ?thesis unfolding m ringView_def by (simp add: upt_conv_Cons map_Suc_upt [symmetric] del: upt_Suc)
qed

lemma ringView_snoc: "ringView buf h (Suc n) = ringView buf h n @ [buf ! ((h + n) mod length buf)]"
  by (simp add: ringView_def)

lemma ring_index_inj:
  fixes i j h N :: nat
  assumes "(h + i) mod N = (h + j) mod N" "i < N" "j < N"
  shows "i = j"
proof (cases "i \<le> j")
  case True
  then have "N dvd j - i" using mod_eq_dvd_iff_nat [of "h + i" "h + j" N] assms(1) by simp
  then show ?thesis using assms(3) True by (metis diff_is_0_eq dvd_imp_le le_antisym less_imp_diff_less not_le zero_less_diff)
next
  case False
  then have "N dvd i - j" using mod_eq_dvd_iff_nat [of "h + j" "h + i" N] assms(1) by simp
  then show ?thesis using assms(2) False by (metis dvd_imp_le le_cases less_imp_diff_less not_le zero_less_diff)
qed

lemma ringView_update:
  assumes "n < length buf"
  shows "ringView (buf[(h + n) mod length buf := x]) h n = ringView buf h n"
proof (rule nth_equalityI)
  fix i assume "i < length (ringView (buf[(h + n) mod length buf := x]) h n)"
  then have i: "i < n" by simp
  then have "(h + n) mod length buf \<noteq> (h + i) mod length buf"
    using ring_index_inj [of h n "length buf" i] assms by auto
  then show "ringView (buf[(h + n) mod length buf := x]) h n ! i = ringView buf h n ! i" using i by simp
qed simp

lemma ringView_push:
  assumes "n < length buf"
  shows "ringView (buf[(h + n) mod length buf := x]) h (Suc n) = ringView buf h n @ [x]"
proof -
  have "(h + n) mod length buf < length buf" using assms by (intro mod_less_divisor) linarith
  then show ?thesis using ringView_update [OF assms] by (simp add: ringView_snoc)
qed

lemma ringView_push_full:
  assumes "0 < length buf"
  shows "ringView (buf[h mod length buf := x]) ((h + 1) mod length buf) (length buf) =
         tl (ringView buf h (length buf)) @ [x]"
proof -
  let ?N = "length buf" let ?h = "(h + 1) mod ?N"
  have "h + 1 + (?N - 1) = h + ?N" using assms by simp
  then have "(?h + (?N - 1)) mod ?N = (h + ?N) mod ?N" by (metis mod_add_left_eq)
  then have "h mod ?N = (?h + (?N - 1)) mod ?N" by simp
  then have "ringView (buf[h mod ?N := x]) ?h ?N = ringView buf ?h (?N - 1) @ [x]"
    using ringView_push [of "?N - 1" buf ?h x] assms by simp
  then show ?thesis using ringView_pop [of ?N buf h] assms by simp
qed

section \<open>A queue that keeps the newest entries\<close>

definition pushNewest :: "nat \<Rightarrow> 'a \<Rightarrow> 'a list \<Rightarrow> 'a list" where
  "pushNewest cap x xs = (if length xs = cap then tl xs else xs) @ [x]"

definition newest :: "nat \<Rightarrow> 'a list \<Rightarrow> 'a list" where
  "newest cap xs = drop (length xs - cap) xs"

lemma newest_small: "length xs \<le> cap \<Longrightarrow> newest cap xs = xs"
  by (simp add: newest_def)

lemma length_newest [simp]: "length (newest cap xs) = min cap (length xs)"
  by (auto simp: newest_def)

lemma pushNewest_newest: "0 < cap \<Longrightarrow> pushNewest cap x (newest cap xs) = newest cap (xs @ [x])"
proof -
  assume c: "0 < cap"
  show ?thesis
  proof (cases "length xs < cap")
    case False
    then have "Suc (length xs) - cap = Suc (length xs - cap)" by simp
    then show ?thesis using False c by (simp add: pushNewest_def newest_def tl_drop drop_Suc)
  qed (auto simp: pushNewest_def newest_def)
qed

locale newest_queue =
  fixes ok :: "'q \<Rightarrow> bool"
    and cap :: nat
    and contents :: "'q \<Rightarrow> 'a list"
    and push :: "'a \<Rightarrow> 'q \<Rightarrow> 'q"
    and fits :: "'a \<Rightarrow> bool"
  assumes cap_pos: "0 < cap"
    and contents_bound: "ok q \<Longrightarrow> length (contents q) \<le> cap"
    and push_ok: "ok q \<Longrightarrow> ok (push x q)"
    and push_contents: "ok q \<Longrightarrow> contents (push x q) = (if fits x then pushNewest cap x (contents q) else contents q)"
begin

lemma run_ok: "ok q \<Longrightarrow> ok (fold push xs q)"
  by (induction xs arbitrary: q) (auto simp: push_ok)

lemma run_contents: "ok q \<Longrightarrow> contents (fold push xs q) = newest cap (contents q @ filter fits xs)"
proof (induction xs rule: rev_induct)
  case Nil
  then show ?case using contents_bound by (simp add: newest_small)
next
  case (snoc x xs)
  then show ?case using cap_pos push_contents [OF run_ok [OF snoc.prems]]
    by (simp add: pushNewest_newest)
qed

lemma push_last: "ok q \<Longrightarrow> fits x \<Longrightarrow> last (contents (push x q)) = x"
  by (simp add: push_contents pushNewest_def)

end

section \<open>A bounded work queue\<close>

text \<open>Requests against a bounded first-in first-out queue and turns of its consumer, in any order. The
  run collects the work that was accepted and the work that was taken out.\<close>

datatype 'r queueOp = Put 'r | Take

fun queueRun :: "('r \<Rightarrow> 'q \<Rightarrow> bool \<times> 'q) \<Rightarrow> ('q \<Rightarrow> 'w option \<times> 'q) \<Rightarrow> ('r \<Rightarrow> 'w option) \<Rightarrow> 'r queueOp list \<Rightarrow> 'q
    \<Rightarrow> 'w list \<times> 'w list \<times> 'q" where
  "queueRun put tk work [] q = ([], [], q)"
| "queueRun put tk work (Put r # ops) q =
     (let (ok, q') = put r q; (acc, outs, q'') = queueRun put tk work ops q'
      in ((if ok then the (work r) # acc else acc), outs, q''))"
| "queueRun put tk work (Take # ops) q =
     (let (w, q') = tk q; (acc, outs, q'') = queueRun put tk work ops q'
      in (acc, (case w of None \<Rightarrow> outs | Some x \<Rightarrow> x # outs), q''))"

locale work_queue =
  fixes ok :: "'q \<Rightarrow> bool"
    and cap :: nat
    and contents :: "'q \<Rightarrow> 'w list"
    and work :: "'r \<Rightarrow> 'w option"
    and put :: "'r \<Rightarrow> 'q \<Rightarrow> bool \<times> 'q"
    and tk :: "'q \<Rightarrow> 'w option \<times> 'q"
  assumes put_ok: "ok q \<Longrightarrow> ok (snd (put r q))"
    and tk_ok: "ok q \<Longrightarrow> ok (snd (tk q))"
    and put_accepts: "ok q \<Longrightarrow> fst (put r q) \<longleftrightarrow> work r \<noteq> None \<and> length (contents q) < cap"
    and put_contents: "ok q \<Longrightarrow> contents (snd (put r q)) = contents q @ (if fst (put r q) then [the (work r)] else [])"
    and tk_result: "ok q \<Longrightarrow> fst (tk q) = (case contents q of [] \<Rightarrow> None | w # _ \<Rightarrow> Some w)"
    and tk_contents: "ok q \<Longrightarrow> contents (snd (tk q)) = tl (contents q)"
begin

lemma run_fifo:
  "ok q \<Longrightarrow> queueRun put tk work ops q = (acc, outs, q') \<Longrightarrow> ok q' \<and> contents q @ acc = outs @ contents q'"
proof (induction ops arbitrary: q acc outs)
  case (Cons op ops)
  show ?case
  proof (cases op)
    case (Put r)
    obtain a d s where rec: "queueRun put tk work ops (snd (put r q)) = (a, d, s)" by (metis prod_cases3)
    have "ok q' \<and> contents (snd (put r q)) @ a = d @ contents q'" and acc: "acc = (if fst (put r q) then the (work r) # a else a)" "outs = d"
      using Cons.IH [OF put_ok [OF Cons.prems(1)]] rec Cons.prems(2) Put by (auto simp: case_prod_unfold Let_def)
    then show ?thesis using put_contents [OF Cons.prems(1), of r] by (auto split: if_splits)
  next
    case Take
    obtain a d s where rec: "queueRun put tk work ops (snd (tk q)) = (a, d, s)" by (metis prod_cases3)
    have "ok q' \<and> contents (snd (tk q)) @ a = d @ contents q'"
      and acc: "acc = a" "outs = (case fst (tk q) of None \<Rightarrow> d | Some x \<Rightarrow> x # d)"
      using Cons.IH [OF tk_ok [OF Cons.prems(1)]] rec Cons.prems(2) Take by (auto simp: case_prod_unfold Let_def split: option.splits)
    then show ?thesis using tk_contents [OF Cons.prems(1)] tk_result [OF Cons.prems(1)] by (cases "contents q") auto
  qed
qed simp

lemma drain:
  "ok q \<Longrightarrow> length (contents q) \<le> n \<Longrightarrow> fst (snd (queueRun put tk work (replicate n Take) q)) = contents q"
proof (induction n arbitrary: q)
  case (Suc n)
  have "fst (snd (queueRun put tk work (replicate n Take) (snd (tk q)))) = tl (contents q)"
    using Suc.IH [OF tk_ok [OF Suc.prems(1)]] Suc.prems(2) tk_contents [OF Suc.prems(1)] by (simp add: le_diff_conv)
  then show ?case using tk_result [OF Suc.prems(1)]
    by (cases "contents q") (auto simp: case_prod_unfold Let_def)
qed simp

end

end
