(* ===== verification/Mqtt_Queue.thy ===== *)
theory Mqtt_Queue
  imports Fw_Ring Mqtt_Topics
begin

text \<open>
  The publish path of \<open>MQTTClient.cpp\<close>: the ring of messages kept while no session is up
  (\<open>enqueue\<close>, \<open>flushQueue\<close>, the drain step of \<open>loop\<close>, the handoff to cellular), the publish calls that
  choose between the session and the ring, the ring of received topics and the list of retained topics.

  A call of \<open>PubSubClient::publish\<close> is an entry of the list of attempts an operation returns, with what
  the session answered. Whether the session is up, what it answers, \<open>millis()\<close> and \<open>time()\<close> are the
  record \<open>pubEnv\<close>.
\<close>

section \<open>Definitions\<close>

subsection \<open>State\<close>

definition MQTT_QUEUE_SIZE :: nat where
  "MQTT_QUEUE_SIZE = 8"

definition MQTT_TOPIC_CAP :: nat where
  "MQTT_TOPIC_CAP = 160"

definition MQTT_PAYLOAD_CAP :: nat where
  "MQTT_PAYLOAD_CAP = 256"

record MQTTMessage =
  msgTopic :: string
  msgPayload :: string
  msgValid :: bool

record mqttPub =
  queue :: "MQTTMessage list"
  queueHead :: nat
  queueTail :: nat
  queueCount :: nat
  lastPublishMs :: u32
  minIntervalMs :: u32
  lastPublishTime :: int
  lastSuccessMs :: u32

record pubEnv =
  up :: bool
  takes :: "string \<Rightarrow> string \<Rightarrow> bool"
  nowMs :: u32
  nowT :: int

type_synonym attempt = "string \<times> string \<times> bool"

definition blankMsg :: MQTTMessage where
  "blankMsg = \<lparr>msgTopic = '''', msgPayload = '''', msgValid = False\<rparr>"

definition pubInit :: "u32 \<Rightarrow> mqttPub" where
  "pubInit minMs = \<lparr>queue = replicate MQTT_QUEUE_SIZE blankMsg, queueHead = 0, queueTail = 0, queueCount = 0,
     lastPublishMs = 0, minIntervalMs = minMs, lastPublishTime = 0, lastSuccessMs = 0\<rparr>"

subsection \<open>The queue\<close>

definition msgFits :: "string \<times> string \<Rightarrow> bool" where
  "msgFits m \<longleftrightarrow> length (fst m) < MQTT_TOPIC_CAP \<and> length (snd m) < MQTT_PAYLOAD_CAP"

definition enqueue :: "string \<Rightarrow> string \<Rightarrow> mqttPub \<Rightarrow> mqttPub" where
  "enqueue topic payload q =
     (if MQTT_TOPIC_CAP \<le> length topic \<or> MQTT_PAYLOAD_CAP \<le> length payload then q
      else let q1 = (if queueCount q = MQTT_QUEUE_SIZE
                     then q\<lparr>queueHead := (queueHead q + 1) mod MQTT_QUEUE_SIZE, queueCount := queueCount q - 1\<rparr>
                     else q);
               msg = \<lparr>msgTopic = take (MQTT_TOPIC_CAP - 1) topic,
                      msgPayload = take (MQTT_PAYLOAD_CAP - 1) payload, msgValid = True\<rparr>
           in q1\<lparr>queue := (queue q1)[queueTail q1 := msg],
                 queueTail := (queueTail q1 + 1) mod MQTT_QUEUE_SIZE,
                 queueCount := queueCount q1 + 1\<rparr>)"

text \<open>One turn of the loop of \<open>flushQueue\<close>, then the loop.\<close>

definition flushTurn :: "pubEnv \<Rightarrow> mqttPub \<Rightarrow> mqttPub \<times> attempt list" where
  "flushTurn e q =
     (let msg = queue q ! queueHead q;
          q1 = (if msgValid msg then q\<lparr>queue := (queue q)[queueHead q := msg\<lparr>msgValid := False\<rparr>]\<rparr> else q);
          sent = (if msgValid msg then [(msgTopic msg, msgPayload msg, takes e (msgTopic msg) (msgPayload msg))] else [])
      in (q1\<lparr>queueHead := (queueHead q1 + 1) mod MQTT_QUEUE_SIZE, queueCount := queueCount q1 - 1\<rparr>, sent))"

lemma flushTurn_count [simp]: "queueCount (fst (flushTurn e q)) = queueCount q - 1"
  by (simp add: flushTurn_def Let_def)

function flushQueue :: "pubEnv \<Rightarrow> mqttPub \<Rightarrow> mqttPub \<times> attempt list" where
  "flushQueue e q =
     (if queueCount q > 0
      then let r = flushTurn e q; r' = flushQueue e (fst r) in (fst r', snd r @ snd r')
      else (q, []))"
  by pat_completeness auto
termination by (relation "measure (\<lambda>(e, q). queueCount q)") auto

declare flushQueue.simps [simp del]

text \<open>The drain step of \<open>loop\<close>: at most one message per turn, kept until the session takes it.\<close>

definition drainStep :: "pubEnv \<Rightarrow> mqttPub \<Rightarrow> mqttPub \<times> attempt list" where
  "drainStep e q =
     (if queueCount q > 0 \<and> (minIntervalMs q = 0 \<or> minIntervalMs q \<le> nowMs e - lastPublishMs q)
      then let msg = queue q ! queueHead q
           in if msgValid msg
              then let ok = takes e (msgTopic msg) (msgPayload msg);
                       q1 = (if ok
                             then q\<lparr>lastPublishMs := nowMs e, lastPublishTime := nowT e, lastSuccessMs := nowMs e,
                                    queue := (queue q)[queueHead q := msg\<lparr>msgValid := False\<rparr>],
                                    queueHead := (queueHead q + 1) mod MQTT_QUEUE_SIZE,
                                    queueCount := queueCount q - 1\<rparr>
                             else q)
                   in (q1, [(msgTopic msg, msgPayload msg, ok)])
              else (q, [])
      else (q, []))"

text \<open>The queue part of \<open>setCellularTransport\<close>: on a handoff to cellular the stale queue is dropped.\<close>

definition dropQueue :: "mqttPub \<Rightarrow> mqttPub" where
  "dropQueue q = (if queueCount q > 0
     then q\<lparr>queue := map (\<lambda>m. m\<lparr>msgValid := False\<rparr>) (queue q), queueHead := 0, queueTail := 0, queueCount := 0\<rparr>
     else q)"

subsection \<open>Publishing\<close>

definition mqttPublish :: "pubEnv \<Rightarrow> cstr \<Rightarrow> string \<Rightarrow> mqttPub \<Rightarrow> mqttPub \<times> attempt list" where
  "mqttPublish e topic payload q =
     (case topic of None \<Rightarrow> (q, [])
      | Some t \<Rightarrow>
          (if t = [] then (q, [])
           else if up e
           then (if minIntervalMs q > 0 \<and> nowMs e - lastPublishMs q < minIntervalMs q
                 then (enqueue t payload q, [])
                 else let q1 = (if minIntervalMs q > 0
                                then q\<lparr>lastPublishMs := nowMs e, lastPublishTime := nowT e\<rparr> else q)
                      in (q1\<lparr>lastPublishTime := nowT e\<rparr>, [(t, payload, takes e t payload)]))
           else (enqueue t payload q, [])))"

definition publishNow :: "pubEnv \<Rightarrow> cstr \<Rightarrow> string \<Rightarrow> mqttPub \<Rightarrow> (mqttPub \<times> attempt list) \<times> bool" where
  "publishNow e topic payload q =
     (case topic of None \<Rightarrow> ((q, []), False)
      | Some t \<Rightarrow>
          (if t = [] then ((q, []), False)
           else if \<not> up e then ((enqueue t payload q, []), False)
           else if \<not> takes e t payload then ((q, [(t, payload, False)]), False)
           else ((q\<lparr>lastPublishTime := nowT e\<rparr>, [(t, payload, True)]), True)))"

subsection \<open>Retained topics and received topics\<close>

record retained =
  retainedTopics :: "string list"
  manifestPublished :: bool
  manifestDirty :: bool
  manifestDirtySinceMs :: u32

definition recordRetainedTopic :: "u32 \<Rightarrow> cstr \<Rightarrow> retained \<Rightarrow> retained" where
  "recordRetainedTopic ms topic r =
     (case topic of None \<Rightarrow> r
      | Some t \<Rightarrow>
          (if t = [] then r
           else if t \<in> set (retainedTopics r) then r
           else let r1 = r\<lparr>retainedTopics := retainedTopics r @ [t]\<rparr>
                in if manifestPublished r1 then r1\<lparr>manifestDirty := True, manifestDirtySinceMs := ms\<rparr> else r1))"

definition publishRetained :: "pubEnv \<Rightarrow> cstr \<Rightarrow> string \<Rightarrow> retained \<Rightarrow> retained \<times> attempt list" where
  "publishRetained e topic payload r =
     (case topic of None \<Rightarrow> (r, [])
      | Some t \<Rightarrow> (if t = [] \<or> \<not> up e then (r, [])
                   else (recordRetainedTopic (nowMs e) (Some t) r, [(t, payload, takes e t payload)])))"

text \<open>\<open>publishRetainedManifest\<close>: the topic is \<open>prefix/info/retained_topics\<close>; \<open>ser\<close> is the JSON
  serialisation of the list, which belongs to ArduinoJson.\<close>

definition publishRetainedManifest :: "(string list \<Rightarrow> string) \<Rightarrow> pubEnv \<Rightarrow> string \<Rightarrow> retained \<Rightarrow> retained \<times> attempt list" where
  "publishRetainedManifest ser e pre r =
     (if \<not> up e then (r, [])
      else let fmt = mqttTopicVfmt (Some '''') MQTT_TOPIC_CAP (Some (pre @ ''/info/retained_topics''))
           in if \<not> snd fmt then (r, [])
              else let t = the (fst fmt);
                       r1 = recordRetainedTopic (nowMs e) (Some t) r;
                       payload = ser (retainedTopics r1);
                       ok = takes e t payload
                   in (if ok then r1\<lparr>manifestPublished := True, manifestDirty := False, manifestDirtySinceMs := 0\<rparr>
                       else r1, [(t, payload, ok)]))"

definition manifestReset :: "retained \<Rightarrow> retained" where
  "manifestReset r = r\<lparr>retainedTopics := [], manifestPublished := False, manifestDirty := False, manifestDirtySinceMs := 0\<rparr>"

definition RX_RING_SIZE :: nat where
  "RX_RING_SIZE = 8"

record rxRing =
  rxTopics :: "string list"
  rxTs :: "u32 list"
  rxHead :: nat
  rxCount :: nat

definition rxRecord :: "string \<times> u32 \<Rightarrow> rxRing \<Rightarrow> rxRing" where
  "rxRecord m r =
     r\<lparr>rxTopics := (rxTopics r)[rxHead r := take 95 (fst m)], rxTs := (rxTs r)[rxHead r := snd m],
       rxHead := (rxHead r + 1) mod RX_RING_SIZE,
       rxCount := (if rxCount r < RX_RING_SIZE then rxCount r + 1 else rxCount r)\<rparr>"

section \<open>The queue is a list of waiting messages\<close>

definition waiting :: "mqttPub \<Rightarrow> (string \<times> string) list" where
  "waiting q = map (\<lambda>m. (msgTopic m, msgPayload m)) (ringView (queue q) (queueHead q) (queueCount q))"

definition pubOk :: "mqttPub \<Rightarrow> bool" where
  "pubOk q \<longleftrightarrow> length (queue q) = MQTT_QUEUE_SIZE \<and> queueHead q < MQTT_QUEUE_SIZE \<and>
     queueCount q \<le> MQTT_QUEUE_SIZE \<and> queueTail q = (queueHead q + queueCount q) mod MQTT_QUEUE_SIZE \<and>
     (\<forall>m \<in> set (ringView (queue q) (queueHead q) (queueCount q)). msgValid m)"

lemma queue_size_pos [simp]: "0 < MQTT_QUEUE_SIZE"
  by (simp add: MQTT_QUEUE_SIZE_def)

lemma length_waiting [simp]: "length (waiting q) = queueCount q"
  by (simp add: waiting_def)

lemma pubInit_ok [simp]: "pubOk (pubInit m)" "waiting (pubInit m) = []"
  by (simp_all add: pubInit_def pubOk_def waiting_def)

text \<open>Dropping the head entry: what the drop-oldest step, the flush and the drain have in common.\<close>

definition popHead :: "mqttPub \<Rightarrow> mqttPub" where
  "popHead q = q\<lparr>queueHead := (queueHead q + 1) mod MQTT_QUEUE_SIZE, queueCount := queueCount q - 1\<rparr>"

lemma head_valid:
  assumes "pubOk q" "0 < queueCount q"
  shows "msgValid (queue q ! queueHead q)" "waiting q = (msgTopic (queue q ! queueHead q), msgPayload (queue q ! queueHead q)) # tl (waiting q)"
proof -
  have v: "ringView (queue q) (queueHead q) (queueCount q) =
    queue q ! queueHead q # ringView (queue q) ((queueHead q + 1) mod MQTT_QUEUE_SIZE) (queueCount q - 1)"
    using ringView_pop [of "queueCount q" "queue q" "queueHead q"] assms by (simp add: pubOk_def)
  have "queue q ! queueHead q \<in> set (ringView (queue q) (queueHead q) (queueCount q))" by (subst v) simp
  then show "msgValid (queue q ! queueHead q)" using assms(1) unfolding pubOk_def by blast
  show "waiting q = (msgTopic (queue q ! queueHead q), msgPayload (queue q ! queueHead q)) # tl (waiting q)"
    unfolding waiting_def v by simp
qed

lemma popHead_ok:
  assumes "pubOk q" "0 < queueCount q"
  shows "pubOk (popHead q) \<and> waiting (popHead q) = tl (waiting q)"
proof -
  have v: "ringView (queue q) (queueHead q) (queueCount q) =
    queue q ! queueHead q # ringView (queue q) ((queueHead q + 1) mod MQTT_QUEUE_SIZE) (queueCount q - 1)"
    using ringView_pop [of "queueCount q" "queue q" "queueHead q"] assms by (simp add: pubOk_def)
  have "((queueHead q + 1) mod MQTT_QUEUE_SIZE + (queueCount q - 1)) mod MQTT_QUEUE_SIZE = queueTail q"
  proof -
    have "queueHead q + 1 + (queueCount q - 1) = queueHead q + queueCount q" using assms by simp
    then show ?thesis using assms by (metis pubOk_def mod_add_left_eq)
  qed
  then show ?thesis using assms v by (auto simp: pubOk_def popHead_def waiting_def)
qed

lemma clearHead_ok:
  assumes "pubOk q" "0 < queueCount q"
  shows "popHead (q\<lparr>queue := (queue q)[queueHead q := m]\<rparr>) = (popHead q)\<lparr>queue := (queue q)[queueHead q := m]\<rparr>"
    and "ringView ((queue q)[queueHead q := m]) (queueHead (popHead q)) (queueCount (popHead q)) =
         ringView (queue q) (queueHead (popHead q)) (queueCount (popHead q))"
proof -
  show "popHead (q\<lparr>queue := (queue q)[queueHead q := m]\<rparr>) = (popHead q)\<lparr>queue := (queue q)[queueHead q := m]\<rparr>"
    by (simp add: popHead_def)
  have "queueHead q \<noteq> (Suc (queueHead q) mod MQTT_QUEUE_SIZE + i) mod MQTT_QUEUE_SIZE" if "i < queueCount q - 1" for i
  proof -
    have "Suc i < MQTT_QUEUE_SIZE" using that assms unfolding pubOk_def by linarith
    then show ?thesis using ring_index_inj [of "queueHead q" 0 MQTT_QUEUE_SIZE "Suc i"] assms
      by (auto simp: pubOk_def mod_add_left_eq)
  qed
  then show "ringView ((queue q)[queueHead q := m]) (queueHead (popHead q)) (queueCount (popHead q)) =
         ringView (queue q) (queueHead (popHead q)) (queueCount (popHead q))"
    using assms by (intro nth_equalityI) (auto simp: popHead_def pubOk_def)
qed

lemma takeHead_ok:
  assumes "pubOk q" "0 < queueCount q"
  shows "pubOk ((popHead q)\<lparr>queue := (queue q)[queueHead q := m]\<rparr>) \<and>
         waiting ((popHead q)\<lparr>queue := (queue q)[queueHead q := m]\<rparr>) = tl (waiting q)"
  using popHead_ok [OF assms] clearHead_ok(2) [OF assms, of m]
  by (simp add: pubOk_def waiting_def) (simp add: popHead_def)

lemma enqueue_ok:
  assumes "pubOk q"
  shows "pubOk (enqueue t p q) \<and>
         waiting (enqueue t p q) = (if msgFits (t, p) then pushNewest MQTT_QUEUE_SIZE (t, p) (waiting q) else waiting q)"
proof (cases "msgFits (t, p)")
  case True
  let ?q = "if queueCount q = MQTT_QUEUE_SIZE then popHead q else q"
  let ?m = "\<lparr>msgTopic = t, msgPayload = p, msgValid = True\<rparr>"
  have eq: "enqueue t p q = ?q\<lparr>queue := (queue ?q)[queueTail ?q := ?m],
     queueTail := (queueTail ?q + 1) mod MQTT_QUEUE_SIZE, queueCount := queueCount ?q + 1\<rparr>"
  proof -
    have "take (MQTT_TOPIC_CAP - 1) t = t" "take (MQTT_PAYLOAD_CAP - 1) p = p"
      "\<not> (MQTT_TOPIC_CAP \<le> length t \<or> MQTT_PAYLOAD_CAP \<le> length p)"
      using True by (auto simp: msgFits_def)
    then show ?thesis unfolding enqueue_def Let_def popHead_def by (simp only: if_False)
  qed
  have ok: "pubOk ?q" and w: "waiting ?q @ [(t, p)] = pushNewest MQTT_QUEUE_SIZE (t, p) (waiting q)"
    using assms popHead_ok [OF assms] by (simp_all add: pushNewest_def)
  have lt: "queueCount ?q < MQTT_QUEUE_SIZE" using assms by (auto simp: popHead_def pubOk_def)
  have v: "ringView ((queue ?q)[queueTail ?q := ?m]) (queueHead ?q) (Suc (queueCount ?q)) =
           ringView (queue ?q) (queueHead ?q) (queueCount ?q) @ [?m]"
    using ringView_push [of "queueCount ?q" "queue ?q" "queueHead ?q" ?m] ok lt by (simp add: pubOk_def)
  have "pubOk (enqueue t p q)" "waiting (enqueue t p q) = waiting ?q @ [(t, p)]"
    unfolding eq using ok lt v by (auto simp: pubOk_def waiting_def mod_Suc_eq)
  then show ?thesis using True w by simp
qed (use assms in \<open>auto simp: enqueue_def msgFits_def\<close>)

interpretation outbox: newest_queue pubOk MQTT_QUEUE_SIZE waiting "\<lambda>m. enqueue (fst m) (snd m)" msgFits
proof
  show "length (waiting q) \<le> MQTT_QUEUE_SIZE" if "pubOk q" for q using that by (simp add: pubOk_def)
qed (simp_all add: enqueue_ok)

lemma flushTurn_ok:
  assumes "pubOk q" "0 < queueCount q"
  shows "pubOk (fst (flushTurn e q)) \<and> waiting (fst (flushTurn e q)) = tl (waiting q) \<and>
         snd (flushTurn e q) = [(fst (hd (waiting q)), snd (hd (waiting q)), takes e (fst (hd (waiting q))) (snd (hd (waiting q))))]"
proof -
  have f: "fst (flushTurn e q) = (popHead q)\<lparr>queue := (queue q)[queueHead q := (queue q ! queueHead q)\<lparr>msgValid := False\<rparr>]\<rparr>"
    using head_valid(1) [OF assms] by (simp add: flushTurn_def Let_def popHead_def)
  have h: "hd (waiting q) = (msgTopic (queue q ! queueHead q), msgPayload (queue q ! queueHead q))"
    using head_valid(2) [OF assms] by (metis list.sel(1))
  have s: "snd (flushTurn e q) = [(fst (hd (waiting q)), snd (hd (waiting q)), takes e (fst (hd (waiting q))) (snd (hd (waiting q))))]"
    using head_valid(1) [OF assms] h by (simp add: flushTurn_def Let_def)
  show ?thesis using takeHead_ok [OF assms] s unfolding f by simp
qed

lemma flushQueue_ok:
  "pubOk q \<Longrightarrow> pubOk (fst (flushQueue e q)) \<and> waiting (fst (flushQueue e q)) = [] \<and>
     snd (flushQueue e q) = map (\<lambda>m. (fst m, snd m, takes e (fst m) (snd m))) (waiting q)"
proof (induction e q rule: flushQueue.induct)
  case (1 e q)
  show ?case
  proof (cases "0 < queueCount q")
    case True
    have ft: "pubOk (fst (flushTurn e q))" and w: "waiting (fst (flushTurn e q)) = tl (waiting q)"
      and s: "snd (flushTurn e q) = [(fst (hd (waiting q)), snd (hd (waiting q)), takes e (fst (hd (waiting q))) (snd (hd (waiting q))))]"
      using flushTurn_ok [OF "1.prems" True] by blast+
    have cons: "waiting q = hd (waiting q) # tl (waiting q)" using True by (metis length_0_conv length_waiting list.collapse less_irrefl)
    note ih = "1.IH" [OF True refl ft]
    have f: "flushQueue e q = (fst (flushQueue e (fst (flushTurn e q))), snd (flushTurn e q) @ snd (flushQueue e (fst (flushTurn e q))))"
      using True by (subst flushQueue.simps) (simp add: Let_def)
    have "snd (flushQueue e q) = map (\<lambda>m. (fst m, snd m, takes e (fst m) (snd m))) (hd (waiting q) # tl (waiting q))"
      unfolding f using ih s w by simp
    then show ?thesis using ih f cons by simp
  next
    case False
    then have "waiting q = []" by (metis length_0_conv length_waiting not_gr0)
    then show ?thesis using False "1.prems" by (simp add: flushQueue.simps)
  qed
qed

lemma drainStep_ok:
  assumes "pubOk q"
  shows "pubOk (fst (drainStep e q)) \<and>
         waiting (fst (drainStep e q)) = drop (length (filter (\<lambda>a. snd (snd a)) (snd (drainStep e q)))) (waiting q) \<and>
         map (\<lambda>a. (fst a, fst (snd a))) (snd (drainStep e q)) = take (length (snd (drainStep e q))) (waiting q)"
proof (cases "queueCount q > 0 \<and> (minIntervalMs q = 0 \<or> minIntervalMs q \<le> nowMs e - lastPublishMs q)")
  case True
  let ?m = "queue q ! queueHead q"
  let ?q = "(popHead q)\<lparr>queue := (queue q)[queueHead q := ?m\<lparr>msgValid := False\<rparr>]\<rparr>"
  have c: "0 < queueCount q" using True by simp
  have h: "waiting q = (msgTopic ?m, msgPayload ?m) # tl (waiting q)" by (rule head_valid(2) [OF assms c])
  have tk: "pubOk ?q" "waiting ?q = tl (waiting q)" using takeHead_ok [OF assms c] by blast+
  have eq: "drainStep e q = (if takes e (msgTopic ?m) (msgPayload ?m)
      then ?q\<lparr>lastPublishMs := nowMs e, lastPublishTime := nowT e, lastSuccessMs := nowMs e\<rparr> else q,
      [(msgTopic ?m, msgPayload ?m, takes e (msgTopic ?m) (msgPayload ?m))])"
    using True head_valid(1) [OF assms c] by (simp add: drainStep_def Let_def popHead_def)
  have up: "pubOk (?q\<lparr>lastPublishMs := a, lastPublishTime := b, lastSuccessMs := d\<rparr>)"
    "waiting (?q\<lparr>lastPublishMs := a, lastPublishTime := b, lastSuccessMs := d\<rparr>) = tl (waiting q)" for a b d
    using tk by (simp_all add: pubOk_def waiting_def)
  have t1: "take (Suc 0) (waiting q) = [(msgTopic ?m, msgPayload ?m)]" "drop (Suc 0) (waiting q) = tl (waiting q)"
    by (subst h, simp) (simp add: drop_Suc)
  show ?thesis unfolding eq using assms up t1 by auto
qed (use assms in \<open>auto simp: drainStep_def\<close>)

lemma dropQueue_ok: "pubOk q \<Longrightarrow> pubOk (dropQueue q) \<and> waiting (dropQueue q) = []"
  by (auto simp: dropQueue_def pubOk_def waiting_def)

lemma pubOk_stamps [simp]:
  "pubOk (q\<lparr>lastPublishMs := a\<rparr>) = pubOk q" "pubOk (q\<lparr>lastPublishTime := b\<rparr>) = pubOk q"
  by (simp_all add: pubOk_def)

lemma mqttPublish_ok: "pubOk q \<Longrightarrow> pubOk (fst (mqttPublish e t p q))"
  by (cases t) (auto simp: mqttPublish_def enqueue_ok Let_def)

lemma publishNow_ok: "pubOk q \<Longrightarrow> pubOk (fst (fst (publishNow e t p q)))"
  by (cases t) (auto simp: publishNow_def enqueue_ok)

text \<open>A run of the publish path: calls from anywhere in the firmware, interleaved with turns of the
  loop, reconnects and handoffs, each under its own environment.\<close>

datatype pubOp = OpPublish pubEnv cstr string | OpPublishNow pubEnv cstr string | OpDrain pubEnv
  | OpFlush pubEnv | OpHandoff

fun pubStep :: "pubOp \<Rightarrow> mqttPub \<Rightarrow> mqttPub" where
  "pubStep (OpPublish e t p) q = fst (mqttPublish e t p q)"
| "pubStep (OpPublishNow e t p) q = fst (fst (publishNow e t p q))"
| "pubStep (OpDrain e) q = fst (drainStep e q)"
| "pubStep (OpFlush e) q = fst (flushQueue e q)"
| "pubStep OpHandoff q = dropQueue q"

lemma pubStep_ok: "pubOk q \<Longrightarrow> pubOk (pubStep op q)"
  by (cases op) (simp_all add: mqttPublish_ok publishNow_ok drainStep_ok flushQueue_ok dropQueue_ok)

lemma pubRun_ok: "pubOk q \<Longrightarrow> pubOk (fold pubStep ops q)"
  by (induction ops arbitrary: q) (auto simp: pubStep_ok)

text \<open>C8: The drain of the publish queue never wedges. After any interleaving of publishes, drains,
  flushes and handoffs, a loop turn that finds messages waiting past the send interval offers the oldest
  one to the session, and the message leaves the queue exactly when the session takes it.\<close>

theorem drain_progress:
  assumes "q = fold pubStep ops (pubInit ms)" and "waiting q = (t, p) # rest"
    and "minIntervalMs q = 0 \<or> minIntervalMs q \<le> nowMs e - lastPublishMs q"
  shows "snd (drainStep e q) = [(t, p, takes e t p)] \<and>
         waiting (fst (drainStep e q)) = (if takes e t p then rest else (t, p) # rest)"
proof -
  have ok: "pubOk q" unfolding assms(1) by (rule pubRun_ok) simp
  have c: "0 < queueCount q" using assms(2) by (metis length_waiting length_greater_0_conv list.distinct(1))
  have m: "msgTopic (queue q ! queueHead q) = t" "msgPayload (queue q ! queueHead q) = p"
    using head_valid(2) [OF ok c] assms(2) by auto
  have s: "snd (drainStep e q) = [(t, p, takes e t p)]"
    using c assms(3) head_valid(1) [OF ok c] m by (simp add: drainStep_def Let_def)
  then show ?thesis using drainStep_ok [OF ok, of e] assms(2) by simp
qed

theorem drain_progress_witness:
  "let e = \<lparr>up = True, takes = \<lambda>_ _. True, nowMs = 5, nowT = 0\<rparr>;
       q = fold pubStep [OpPublish (e\<lparr>up := False\<rparr>) (Some ''t'') ''p''] (pubInit 0)
   in snd (drainStep e q) = [(''t'', ''p'', True)] \<and> waiting (fst (drainStep e q)) = []"
proof -
  let ?e = "\<lparr>up = True, takes = \<lambda>_ _. True, nowMs = 5, nowT = 0\<rparr>"
  let ?q = "fold pubStep [OpPublish (?e\<lparr>up := False\<rparr>) (Some ''t'') ''p''] (pubInit 0)"
  have w: "waiting ?q = [(''t'', ''p'')]"
    by (simp add: mqttPublish_def enqueue_ok msgFits_def MQTT_TOPIC_CAP_def MQTT_PAYLOAD_CAP_def pushNewest_def MQTT_QUEUE_SIZE_def)
  have i: "minIntervalMs ?q = 0"
    by (simp add: mqttPublish_def enqueue_def pubInit_def Let_def)
  show ?thesis unfolding Let_def using drain_progress [OF refl w, of ?e] i by simp
qed

text \<open>C7: An outage loses only what had to be lost. If a run of publishes happens while no session is
  up, the reconnect's flush offers the session the newest eight of the messages that fit a slot, oldest
  first, each once, and leaves the queue empty.\<close>

theorem outage_replay:
  assumes "pubOk q" and "\<not> up e0"
  shows "snd (flushQueue e (fold (\<lambda>m q. fst (mqttPublish e0 (Some (fst m)) (snd m) q)) ms q)) =
           map (\<lambda>m. (fst m, snd m, takes e (fst m) (snd m)))
             (newest MQTT_QUEUE_SIZE (waiting q @ filter msgFits (filter (\<lambda>m. fst m \<noteq> '''') ms)))"
proof -
  have "fold (\<lambda>m q. fst (mqttPublish e0 (Some (fst m)) (snd m) q)) ms q = fold (\<lambda>m. enqueue (fst m) (snd m)) (filter (\<lambda>m. fst m \<noteq> '''') ms) q"
    using assms(2) by (induction ms arbitrary: q) (simp_all add: mqttPublish_def)
  then show ?thesis
    using outbox.run_ok [OF assms(1)] outbox.run_contents [OF assms(1)] by (simp add: flushQueue_ok)
qed

theorem outage_replay_witness:
  "snd (flushQueue \<lparr>up = True, takes = \<lambda>_ _. True, nowMs = 0, nowT = 0\<rparr>
     (fold (\<lambda>m q. fst (mqttPublish \<lparr>up = False, takes = \<lambda>_ _. False, nowMs = 0, nowT = 0\<rparr> (Some (fst m)) (snd m) q))
        [(''a'', ''1''), (''b'', ''2'')] (pubInit 0))) = [(''a'', ''1'', True), (''b'', ''2'', True)]"
  by (subst outage_replay)
     (simp_all add: newest_def msgFits_def MQTT_TOPIC_CAP_def MQTT_PAYLOAD_CAP_def MQTT_QUEUE_SIZE_def)

section \<open>Retained topics and the receive ring\<close>

lemma recordRetainedTopic_distinct: "distinct (retainedTopics r) \<Longrightarrow> distinct (retainedTopics (recordRetainedTopic ms t r))"
  by (auto simp: recordRetainedTopic_def Let_def split: option.splits)

lemma publishRetained_recorded:
  "up e \<Longrightarrow> t \<noteq> [] \<Longrightarrow> t \<in> set (retainedTopics (fst (publishRetained e (Some t) p r)))"
  by (auto simp: publishRetained_def recordRetainedTopic_def Let_def)

text \<open>The manifest a session takes names itself, so a sweep by it also clears it.\<close>

lemma manifest_self:
  "(t, p, ok) \<in> set (snd (publishRetainedManifest ser e pre r)) \<Longrightarrow>
     \<exists>ts. p = ser ts \<and> t \<in> set ts \<and> set (retainedTopics r) \<subseteq> set ts"
  by (fastforce simp: publishRetainedManifest_def recordRetainedTopic_def mqttTopicVfmt_def Let_def split: if_splits)

definition rxOk :: "rxRing \<Rightarrow> bool" where
  "rxOk r \<longleftrightarrow> length (rxTopics r) = RX_RING_SIZE \<and> length (rxTs r) = RX_RING_SIZE \<and> rxHead r < RX_RING_SIZE \<and>
             rxCount r \<le> RX_RING_SIZE \<and> (rxCount r < RX_RING_SIZE \<longrightarrow> rxHead r = rxCount r)"

text \<open>The entries, oldest first: from the start until the ring has filled, then from the head.\<close>

definition rxEntries :: "rxRing \<Rightarrow> (string \<times> u32) list" where
  "rxEntries r = ringView (zip (rxTopics r) (rxTs r)) (if rxCount r < RX_RING_SIZE then 0 else rxHead r) (rxCount r)"

lemma rxRecord_ok:
  assumes "rxOk r"
  shows "rxOk (rxRecord m r) \<and> rxEntries (rxRecord m r) = pushNewest RX_RING_SIZE (take 95 (fst m), snd m) (rxEntries r)"
proof -
  have z: "zip ((rxTopics r)[i := a]) ((rxTs r)[i := b]) = (zip (rxTopics r) (rxTs r))[i := (a, b)]" for i a b
    by (simp add: update_zip)
  show ?thesis
  proof (cases "rxCount r < RX_RING_SIZE")
    case True
    let ?n = "rxCount r" let ?b = "zip (rxTopics r) (rxTs r)"
    have p: "ringView (?b[?n := (take 95 (fst m), snd m)]) 0 (Suc ?n) = ringView ?b 0 ?n @ [(take 95 (fst m), snd m)]"
      using ringView_push [of ?n ?b 0 "(take 95 (fst m), snd m)"] True assms by (simp add: rxOk_def)
    have full: "Suc ?n = RX_RING_SIZE \<Longrightarrow> Suc ?n mod RX_RING_SIZE = 0" by simp
    show ?thesis using True assms p full
      by (cases "Suc ?n = RX_RING_SIZE")
         (simp_all add: rxOk_def rxEntries_def rxRecord_def z pushNewest_def RX_RING_SIZE_def)
  next
    case False
    then have n: "rxCount r = RX_RING_SIZE" using assms by (simp add: rxOk_def)
    let ?b = "zip (rxTopics r) (rxTs r)"
    have "ringView (?b[rxHead r := (take 95 (fst m), snd m)]) ((rxHead r + 1) mod RX_RING_SIZE) RX_RING_SIZE =
          tl (ringView ?b (rxHead r) RX_RING_SIZE) @ [(take 95 (fst m), snd m)]"
    proof -
      have l: "length ?b = RX_RING_SIZE" using assms by (simp add: rxOk_def)
      then have "0 < length ?b" unfolding l by (simp add: RX_RING_SIZE_def)
      then show ?thesis using ringView_push_full [of ?b "rxHead r" "(take 95 (fst m), snd m)"] assms
        unfolding l rxOk_def by simp
    qed
    then show ?thesis using n assms by (simp add: rxOk_def rxEntries_def rxRecord_def z pushNewest_def RX_RING_SIZE_def)
  qed
qed

end
