(* ===== verification/Mqtt_Rollback.thy ===== *)
theory Mqtt_Rollback
  imports Ota_Fled Mqtt_Topics
begin

text \<open>
  \<open>mqtt_rollback_policy.h\<close> and the parts of \<open>MQTTClient.cpp\<close> around a connect attempt that outlive it:
  the last-good snapshot of the broker settings and its boot-time restore, the budget of restarts a
  failing broker may cause, and the retry back-off. The NVS namespace \<open>thesada-boot\<close> is the record
  \<open>mqttNvs\<close>; as in \<open>Ota_Fled\<close> every open and every write may fail.

  Serialisation of the four settings is ArduinoJson's: \<open>ser\<close> gives the text, \<open>deser\<close> reads it back, and
  theorems that need it assume that reading back a written text gives the settings written.
\<close>

section \<open>Definitions\<close>

subsection \<open>The pure predicates\<close>

definition mqttRollbackShould :: "cstr \<Rightarrow> bool \<Rightarrow> cstr \<Rightarrow> cstr \<Rightarrow> bool" where
  "mqttRollbackShould lg haveLg rb cur =
     (if \<not> haveLg \<or> lg = None \<or> lg = Some '''' then False
      else if rb = None \<or> rb = Some '''' then False
      else if cur = None then False
      else if cur \<noteq> rb then False
      else if cur = lg then False
      else True)"

definition mqttSnapshotProven :: "cstr \<Rightarrow> nat \<Rightarrow> cstr \<Rightarrow> nat \<Rightarrow> bool" where
  "mqttSnapshotProven cfgHost cfgPort liveHost livePort =
     (if cfgHost = None \<or> liveHost = None \<or> liveHost = Some '''' then False
      else cfgPort = livePort \<and> cfgHost = liveHost)"

definition mqttDefragRebootDue :: "nat \<Rightarrow> bool \<Rightarrow> int \<Rightarrow> nat \<Rightarrow> bool \<Rightarrow> bool" where
  "mqttDefragRebootDue retries resolved rc maxAllocHeap halted \<longleftrightarrow>
     3 \<le> retries \<and> resolved \<and> rc = -2 \<and> maxAllocHeap < 40000 \<and> \<not> halted"

subsection \<open>State\<close>

record mqttNvs =
  nvReboots :: "u8 option"
  nvRbAt :: "u32 option"
  nvLg :: "string option"
  nvLgSet :: "u8 option"
  nvRbCfg :: "string option"

text \<open>The \<open>mqtt\<close> object of the configuration: None is a missing or mistyped key.\<close>

record mqttCfg =
  cBroker :: "string option"
  cPort :: "nat option"
  cUser :: "string option"
  cPassword :: "string option"

record crit =
  crBroker :: string
  crPort :: nat
  crUser :: string
  crPassword :: string

definition cfgOr :: "'a \<Rightarrow> 'a option \<Rightarrow> 'a" where
  "cfgOr d v = (case v of None \<Rightarrow> d | Some x \<Rightarrow> x)"

definition LG_MAX_LEN :: nat where
  "LG_MAX_LEN = 384"

definition RB_STALE_WINDOW_S :: u32 where
  "RB_STALE_WINDOW_S = 21600"

definition CLOCK_FLOOR_SANE_EPOCH :: nat where
  "CLOCK_FLOOR_SANE_EPOCH = 1700000000"

definition RETRY_MIN_MS :: u32 where
  "RETRY_MIN_MS = 2000"

definition RETRY_MAX_MS :: u32 where
  "RETRY_MAX_MS = 60000"

subsection \<open>The restart counter\<close>

text \<open>\<open>now\<close> is \<open>time(nullptr)\<close>, seconds since the epoch.\<close>

definition mqttRebootCount :: "nvs_io \<Rightarrow> nat \<Rightarrow> mqttNvs \<Rightarrow> u8" where
  "mqttRebootCount io now nv =
     (if \<not> nvsRo io then 0
      else let count = cfgOr 0 (nvReboots nv); epoch = cfgOr 0 (nvRbAt nv)
           in if count > 0 \<and> CLOCK_FLOOR_SANE_EPOCH < now \<and> epoch > 0 \<and> RB_STALE_WINDOW_S < of_nat now - epoch
              then 0 else count)"

definition mqttRebootCountBump :: "nvs_io \<Rightarrow> nat \<Rightarrow> u8 \<Rightarrow> mqttNvs \<Rightarrow> mqttNvs" where
  "mqttRebootCountBump io now newCount nv =
     (if \<not> nvsRw io then nv
      else let nv1 = (if nvsPut io ''mqtt_reboots'' then nv\<lparr>nvReboots := Some newCount\<rparr> else nv)
           in if nvsPut io ''mqtt_rb_at''
              then nv1\<lparr>nvRbAt := Some (if CLOCK_FLOOR_SANE_EPOCH < now then of_nat now else 0)\<rparr> else nv1)"

definition mqttRebootCountClear :: "nvs_io \<Rightarrow> mqttNvs \<Rightarrow> mqttNvs" where
  "mqttRebootCountClear io nv =
     (if \<not> nvsRw io \<or> cfgOr 0 (nvReboots nv) = 0 then nv
      else let nv1 = (if nvsRemove io ''mqtt_reboots'' then nv\<lparr>nvReboots := None\<rparr> else nv)
           in if nvsRemove io ''mqtt_rb_at'' then nv1\<lparr>nvRbAt := None\<rparr> else nv1)"

definition mqttWriteRbCfg :: "nvs_io \<Rightarrow> string \<Rightarrow> mqttNvs \<Rightarrow> mqttNvs" where
  "mqttWriteRbCfg io json nv = (if nvsRw io \<and> nvsPut io ''mqtt_rb_cfg'' then nv\<lparr>nvRbCfg := Some json\<rparr> else nv)"

definition mqttClearRbCfg :: "nvs_io \<Rightarrow> mqttNvs \<Rightarrow> mqttNvs" where
  "mqttClearRbCfg io nv = (if nvsRw io \<and> nvRbCfg nv \<noteq> None \<and> nvsRemove io ''mqtt_rb_cfg'' then nv\<lparr>nvRbCfg := None\<rparr> else nv)"

subsection \<open>Snapshot and restore\<close>

definition critOf :: "mqttCfg \<Rightarrow> crit" where
  "critOf m = \<lparr>crBroker = cfgOr '''' (cBroker m), crPort = cfgOr 0 (cPort m), crUser = cfgOr '''' (cUser m),
               crPassword = cfgOr '''' (cPassword m)\<rparr>"

definition mqttCriticalJson :: "(crit \<Rightarrow> string) \<Rightarrow> mqttCfg \<Rightarrow> string option" where
  "mqttCriticalJson ser m = (let s = ser (critOf m) in if s \<noteq> [] \<and> length s < LG_MAX_LEN then Some s else None)"

text \<open>\<open>getString\<close> into a \<open>LG_MAX_LEN\<close> buffer: a missing or longer value leaves it empty.\<close>

definition nvString :: "string option \<Rightarrow> string" where
  "nvString v = (case v of None \<Rightarrow> '''' | Some s \<Rightarrow> if length s < LG_MAX_LEN then s else '''')"

definition snapshotGoodConfig :: "(crit \<Rightarrow> string) \<Rightarrow> nvs_io \<Rightarrow> mqttCfg \<Rightarrow> string \<Rightarrow> nat \<Rightarrow> mqttNvs \<Rightarrow> mqttNvs" where
  "snapshotGoodConfig ser io m brokerHost brokerPort nv =
     (if \<not> mqttSnapshotProven (Some (cfgOr '''' (cBroker m))) (cfgOr 8883 (cPort m)) (Some brokerHost) brokerPort then nv
      else case mqttCriticalJson ser m of None \<Rightarrow> nv
           | Some cur \<Rightarrow>
               (if \<not> nvsRw io then nv
                else if cur = nvString (nvLg nv) then nv
                else let nv1 = (if nvsPut io ''mqtt_lg'' then nv\<lparr>nvLg := Some cur\<rparr> else nv)
                     in if nvsPut io ''mqtt_lg_set'' then nv1\<lparr>nvLgSet := Some 1\<rparr> else nv1))"

text \<open>The result of the boot-time check: the configuration in memory, what was saved to the file
  system (None when nothing was), and NVS.\<close>

definition rollbackIfUncommitted ::
    "(crit \<Rightarrow> string) \<Rightarrow> (string \<Rightarrow> crit option) \<Rightarrow> nvs_io \<Rightarrow> bool \<Rightarrow> mqttCfg \<Rightarrow> mqttNvs \<Rightarrow> mqttCfg \<times> mqttCfg option \<times> mqttNvs" where
  "rollbackIfUncommitted ser deser io saveOk m nv =
     (if \<not> nvsRo io then (m, None, nv)
      else let haveLg = cfgOr 0 (nvLgSet nv);
               lgJson = (if haveLg \<noteq> 0 then nvString (nvLg nv) else '''');
               rbJson = nvString (nvRbCfg nv)
           in case mqttCriticalJson ser m of None \<Rightarrow> (m, None, nv)
              | Some cur \<Rightarrow>
                  (if \<not> mqttRollbackShould (Some lgJson) (haveLg \<noteq> 0) (Some rbJson) (Some cur) then (m, None, nv)
                   else case deser lgJson of None \<Rightarrow> (m, None, nv)
                        | Some lg \<Rightarrow>
                            (let m1 = \<lparr>cBroker = Some (crBroker lg), cPort = Some (crPort lg),
                                       cUser = Some (crUser lg), cPassword = Some (crPassword lg)\<rparr>
                             in if saveOk then (m1, Some m1, mqttClearRbCfg io (mqttRebootCountClear io nv))
                                else (m1, None, nv))))"

subsection \<open>The outcome of a connect attempt\<close>

record mqttRetry =
  retryInterval :: u32
  retryCount :: u8
  rebootHalted :: bool

definition retryBoot :: mqttRetry where
  "retryBoot = \<lparr>retryInterval = RETRY_MIN_MS, retryCount = 0, rebootHalted = False\<rparr>"

record connFail =
  cfResolved :: bool
  cfRc :: int
  cfMaxAlloc :: nat
  cfNow :: nat

record rebootCfg =
  maxExhaustReboots :: u8
  rebootAfterFails :: u8

text \<open>The failing branch of \<open>connect\<close>. The first component is true when it ends in
  \<open>OTAUpdate::brokerRestart\<close>, which does not return.\<close>

definition countFailure :: "mqttRetry \<Rightarrow> mqttRetry" where
  "countFailure st = st\<lparr>retryCount := retryCount st + 1, retryInterval := min (retryInterval st * 2) RETRY_MAX_MS\<rparr>"

definition exhaustionCheck :: "(crit \<Rightarrow> string) \<Rightarrow> nvs_io \<Rightarrow> rebootCfg \<Rightarrow> mqttCfg \<Rightarrow> nat \<Rightarrow> mqttRetry \<times> mqttNvs \<Rightarrow> bool \<times> mqttRetry \<times> mqttNvs" where
  "exhaustionCheck ser io rc m now s =
     (let st = fst s; nv = snd s
      in if rebootAfterFails rc \<le> retryCount st \<and> \<not> rebootHalted st
         then let count = mqttRebootCount io now nv
              in if count < maxExhaustReboots rc
                 then let nv1 = (case mqttCriticalJson ser m of None \<Rightarrow> nv | Some f \<Rightarrow> mqttWriteRbCfg io f nv)
                      in (True, st, mqttRebootCountBump io now (count + 1) nv1)
                 else (False, st\<lparr>rebootHalted := True\<rparr>, nv)
         else (False, st, nv))"

definition connectFailed :: "(crit \<Rightarrow> string) \<Rightarrow> nvs_io \<Rightarrow> rebootCfg \<Rightarrow> mqttCfg \<Rightarrow> connFail \<Rightarrow> mqttRetry \<times> mqttNvs \<Rightarrow> bool \<times> mqttRetry \<times> mqttNvs" where
  "connectFailed ser io rc m f s =
     (let st = countFailure (fst s); nv = snd s; count = mqttRebootCount io (cfNow f) nv
      in if mqttDefragRebootDue (unat (retryCount st)) (cfResolved f) (cfRc f) (cfMaxAlloc f) (rebootHalted st)
              \<and> count < maxExhaustReboots rc
         then (True, st, mqttRebootCountBump io (cfNow f) (count + 1) nv)
         else exhaustionCheck ser io rc m (cfNow f) (st, nv))"

text \<open>What the succeeding branch does to the same state.\<close>

definition connectSucceeded :: "(crit \<Rightarrow> string) \<Rightarrow> nvs_io \<Rightarrow> mqttCfg \<Rightarrow> string \<Rightarrow> nat \<Rightarrow> mqttRetry \<times> mqttNvs \<Rightarrow> mqttRetry \<times> mqttNvs" where
  "connectSucceeded ser io m host port s =
     ((fst s)\<lparr>retryInterval := RETRY_MIN_MS, retryCount := 0, rebootHalted := False\<rparr>,
      snapshotGoodConfig ser io m host port (mqttClearRbCfg io (mqttRebootCountClear io (snd s))))"

section \<open>The restart budget\<close>

text \<open>A streak of failing attempts. A restart wipes the retry state; NVS stays. The result counts the
  restarts.\<close>

fun failRun :: "(crit \<Rightarrow> string) \<Rightarrow> nvs_io \<Rightarrow> rebootCfg \<Rightarrow> mqttCfg \<Rightarrow> connFail list \<Rightarrow> mqttRetry \<times> mqttNvs \<Rightarrow> nat \<times> mqttRetry \<times> mqttNvs" where
  "failRun ser io rc m [] s = (0, s)"
| "failRun ser io rc m (f # fs) s =
     (let r = connectFailed ser io rc m f s;
          s' = (if fst r then (retryBoot, snd (snd r)) else snd r);
          r' = failRun ser io rc m fs s'
      in (if fst r then fst r' + 1 else fst r', snd r'))"

text \<open>The stored epoch is a reading of the clock no later than \<open>t\<close> and no earlier than \<open>t0\<close>, or the
  marker for an unset clock.\<close>

definition streakOk :: "nat \<Rightarrow> nat \<Rightarrow> nat \<Rightarrow> mqttNvs \<Rightarrow> bool" where
  "streakOk t0 t k nv \<longleftrightarrow> unat (cfgOr 0 (nvReboots nv)) = k \<and>
     (0 < k \<longrightarrow> cfgOr 0 (nvRbAt nv) = 0 \<or> (\<exists>e. cfgOr 0 (nvRbAt nv) = of_nat e \<and> t0 \<le> e \<and> e \<le> t))"

lemma mqttRebootCount_streak:
  assumes "streakOk t0 t k nv" "nvsRo io" "t \<le> now" "now < 2 ^ 32" "now \<le> t0 + 21600"
  shows "unat (mqttRebootCount io now nv) = k"
proof (cases "0 < k \<and> cfgOr 0 (nvRbAt nv) \<noteq> 0")
  case True
  then obtain e where e: "cfgOr 0 (nvRbAt nv) = of_nat e" "t0 \<le> e" "e \<le> t" using assms(1) by (auto simp: streakOk_def)
  have "of_nat now - of_nat e = (of_nat (now - e) :: u32)" using e assms(3) by (simp add: of_nat_diff)
  moreover have "(of_nat (now - e) :: u32) \<le> 21600"
  proof -
    have "now - e \<le> 21600" "now - e < 2 ^ 32" using e assms(4,5) by auto
    then show ?thesis by (simp add: word_le_nat_alt unat_of_nat_small)
  qed
  ultimately have "\<not> RB_STALE_WINDOW_S < of_nat now - cfgOr 0 (nvRbAt nv)" using e by (simp add: RB_STALE_WINDOW_S_def not_less)
  then show ?thesis using assms(1,2) by (simp add: mqttRebootCount_def streakOk_def Let_def)
next
  case False
  then have "k = 0 \<or> cfgOr 0 (nvRbAt nv) = 0" by simp
  then show ?thesis using assms(1,2) by (auto simp: mqttRebootCount_def streakOk_def Let_def)
qed

lemma bump_streak:
  assumes "streakOk t0 t k nv" "k < unat (mx :: u8)" "t0 \<le> now" "nvsRw io" "nvsPut io = (\<lambda>_. True)"
  shows "streakOk t0 now (Suc k) (mqttRebootCountBump io now (of_nat k + 1) nv)"
proof -
  have "Suc k < 256" using assms(2) unat_less_8 [of mx] by linarith
  then have "unat (of_nat k + 1 :: u8) = Suc k" by (simp add: unat_Suc_small)
  then show ?thesis using assms by (auto simp: streakOk_def mqttRebootCountBump_def cfgOr_def Let_def)
qed

lemma streakOk_mono: "streakOk t0 t k nv \<Longrightarrow> t \<le> t' \<Longrightarrow> streakOk t0 t' k nv"
  by (auto simp: streakOk_def)

lemma streakOk_rbCfg [simp]: "streakOk t0 t k (mqttWriteRbCfg io f nv) = streakOk t0 t k nv"
  by (simp add: streakOk_def mqttWriteRbCfg_def)

definition nvsLands :: "nvs_io \<Rightarrow> bool" where
  "nvsLands io \<longleftrightarrow> nvsRo io \<and> nvsRw io \<and> nvsPut io = (\<lambda>_. True)"

lemma connectFailed_streak:
  assumes s: "streakOk t0 t k nv" and io: "nvsLands io" and w: "t0 \<le> t" "t \<le> cfNow f" "cfNow f \<le> t0 + 21600" "cfNow f < 2 ^ 32"
    and r: "connectFailed ser io rc m f (st, nv) = (b, st', nv')"
  shows "if b then k < unat (maxExhaustReboots rc) \<and> streakOk t0 (cfNow f) (Suc k) nv' else nv' = nv"
proof -
  have cnt: "mqttRebootCount io (cfNow f) nv = of_nat k"
    using mqttRebootCount_streak [OF s, of io "cfNow f"] io w unfolding nvsLands_def
    by (metis word_of_nat_unat)
  have k: "unat (of_nat k :: u8) = k" using s unfolding streakOk_def by (metis word_of_nat_unat)
  have bump: "k < unat (maxExhaustReboots rc) \<Longrightarrow> streakOk t0 t k nv2 \<Longrightarrow>
      streakOk t0 (cfNow f) (Suc k) (mqttRebootCountBump io (cfNow f) (of_nat k + 1) nv2)" for nv2
    using bump_streak [of t0 t k nv2 "maxExhaustReboots rc" "cfNow f" io] io w by (simp add: nvsLands_def)
  have lt: "of_nat k < maxExhaustReboots rc \<longleftrightarrow> k < unat (maxExhaustReboots rc)"
    by (simp add: word_less_nat_alt k)
  have sj: "streakOk t0 t k (case mqttCriticalJson ser m of None \<Rightarrow> nv | Some f \<Rightarrow> mqttWriteRbCfg io f nv)"
    using s by (simp split: option.split)
  show ?thesis using r bump [OF _ s] bump [OF _ sj]
    by (auto simp: connectFailed_def exhaustionCheck_def Let_def cnt lt split: if_splits)
qed

lemma failRun_budget:
  assumes io: "nvsLands io"
  shows "streakOk t0 t k (snd s) \<Longrightarrow> k \<le> unat (maxExhaustReboots rc) \<Longrightarrow> t0 \<le> t \<Longrightarrow>
    sorted (t # map cfNow fs) \<Longrightarrow> (\<forall>f \<in> set fs. cfNow f \<le> t0 + 21600 \<and> cfNow f < 2 ^ 32) \<Longrightarrow>
    k + fst (failRun ser io rc m fs s) \<le> unat (maxExhaustReboots rc)"
proof (induction fs arbitrary: t k s)
  case (Cons f fs)
  obtain b st' nv' where r: "connectFailed ser io rc m f (fst s, snd s) = (b, st', nv')"
    by (metis surj_pair)
  have w: "t \<le> cfNow f" "cfNow f \<le> t0 + 21600" "cfNow f < 2 ^ 32" using Cons.prems by auto
  have st: "if b then k < unat (maxExhaustReboots rc) \<and> streakOk t0 (cfNow f) (Suc k) nv' else nv' = snd s"
    by (rule connectFailed_streak [OF Cons.prems(1) io Cons.prems(3) w r])
  have srt: "t0 \<le> cfNow f" "sorted (cfNow f # map cfNow fs)" "\<forall>f \<in> set fs. cfNow f \<le> t0 + 21600 \<and> cfNow f < 2 ^ 32"
    using Cons.prems by auto
  have ih: "streakOk t0 (cfNow f) k' nv' \<Longrightarrow> k' \<le> unat (maxExhaustReboots rc) \<Longrightarrow>
     k' + fst (failRun ser io rc m fs (u, nv')) \<le> unat (maxExhaustReboots rc)" for k' u
    using Cons.IH [of "cfNow f" k' "(u, nv')"] srt by simp
  show ?case
  proof (cases b)
    case True
    then show ?thesis using st r ih [of "Suc k" retryBoot] by (simp add: Let_def)
  next
    case False
    then have "streakOk t0 (cfNow f) k nv'" using st streakOk_mono [OF Cons.prems(1) w(1)] by simp
    then show ?thesis using False r ih [of k st'] Cons.prems(2) by (simp add: Let_def)
  qed
qed simp



section \<open>What a rollback restores\<close>

text \<open>The device as the rollback sees it: the configuration in memory and on disk, the retry state, NVS,
  and the settings under which a session to the configured broker has come up so far.\<close>

record mqttDev =
  dRam :: mqttCfg
  dDisk :: mqttCfg
  dRetry :: mqttRetry
  dNv :: mqttNvs
  dProven :: "crit set"

inductive devStep :: "(crit \<Rightarrow> string) \<Rightarrow> (string \<Rightarrow> crit option) \<Rightarrow> mqttDev \<Rightarrow> mqttDev \<Rightarrow> bool" for ser deser where
  Connected: "devStep ser deser d (d\<lparr>dRetry := fst (connectSucceeded ser io (dRam d) host port (dRetry d, dNv d)),
      dNv := snd (connectSucceeded ser io (dRam d) host port (dRetry d, dNv d)),
      dProven := (if cfgOr '''' (cBroker (dRam d)) = host \<and> cfgOr 8883 (cPort (dRam d)) = port
                  then insert (critOf (dRam d)) (dProven d) else dProven d)\<rparr>)"
| Failed: "devStep ser deser d (d\<lparr>dRetry := fst (snd (connectFailed ser io rc (dRam d) f (dRetry d, dNv d))),
      dNv := snd (snd (connectFailed ser io rc (dRam d) f (dRetry d, dNv d)))\<rparr>)"
| Edited: "devStep ser deser d (d\<lparr>dRam := m, dDisk := m\<rparr>)"
| Booted: "rollbackIfUncommitted ser deser io saveOk (dDisk d) (dNv d) = (m, saved, nv) \<Longrightarrow>
    devStep ser deser d (d\<lparr>dRam := m, dDisk := (case saved of None \<Rightarrow> dDisk d | Some x \<Rightarrow> x), dRetry := retryBoot, dNv := nv\<rparr>)"

lemma connectFailed_lg [simp]: "nvLg (snd (snd (connectFailed ser io rc m f s))) = nvLg (snd s)"
  by (auto simp: connectFailed_def exhaustionCheck_def mqttRebootCountBump_def mqttWriteRbCfg_def Let_def split: option.splits)

lemma clears_lg [simp]: "nvLg (mqttClearRbCfg io nv) = nvLg nv" "nvLg (mqttRebootCountClear io nv) = nvLg nv"
  by (auto simp: mqttClearRbCfg_def mqttRebootCountClear_def Let_def)

lemma snapshot_lg:
  "nvLg (snapshotGoodConfig ser io m host port nv) = nvLg nv \<or>
   (nvLg (snapshotGoodConfig ser io m host port nv) = Some (ser (critOf m)) \<and>
    cfgOr '''' (cBroker m) = host \<and> cfgOr 8883 (cPort m) = port)"
  by (auto simp: snapshotGoodConfig_def mqttCriticalJson_def mqttSnapshotProven_def Let_def split: option.splits if_splits)

lemma rollback_lg: "rollbackIfUncommitted ser deser io saveOk m nv = (m', saved, nv') \<Longrightarrow> nvLg nv' = nvLg nv"
  by (auto simp: rollbackIfUncommitted_def Let_def split: option.splits if_splits)

definition lgProven :: "(crit \<Rightarrow> string) \<Rightarrow> mqttDev \<Rightarrow> bool" where
  "lgProven ser d \<longleftrightarrow> (\<forall>s. nvLg (dNv d) = Some s \<longrightarrow> s \<in> ser ` dProven d)"

lemma devStep_lgProven: "devStep ser deser d d' \<Longrightarrow> lgProven ser d \<Longrightarrow> lgProven ser d'"
proof (induction rule: devStep.induct)
  case (Connected d host port io)
  then show ?case
    using snapshot_lg [of ser io "dRam d" host port "mqttClearRbCfg io (mqttRebootCountClear io (dNv d))"]
    by (auto simp: lgProven_def connectSucceeded_def)
qed (auto simp: lgProven_def dest: rollback_lg)

lemma devRun_lgProven: "(devStep ser deser)\<^sup>*\<^sup>* d d' \<Longrightarrow> lgProven ser d \<Longrightarrow> lgProven ser d'"
  by (induction rule: rtranclp_induct) (auto intro: devStep_lgProven)

lemma rollback_restores:
  assumes "rollbackIfUncommitted ser deser io saveOk m nv = (m', saved, nv')" and "m' \<noteq> m"
  shows "\<exists>s lg. nvLg nv = Some s \<and> deser s = Some lg \<and> critOf m' = lg \<and> nvRbCfg nv = Some (ser (critOf m)) \<and>
                s \<noteq> ser (critOf m) \<and> saved = (if saveOk then Some m' else None)"
proof -
  let ?lg = "if cfgOr 0 (nvLgSet nv) \<noteq> 0 then nvString (nvLg nv) else ''''"
  obtain cur lg where cur: "mqttCriticalJson ser m = Some cur" and dec: "deser ?lg = Some lg"
    and sh: "mqttRollbackShould (Some ?lg) (cfgOr 0 (nvLgSet nv) \<noteq> 0) (Some (nvString (nvRbCfg nv))) (Some cur)"
    and m': "m' = \<lparr>cBroker = Some (crBroker lg), cPort = Some (crPort lg), cUser = Some (crUser lg), cPassword = Some (crPassword lg)\<rparr>"
    and sv: "saved = (if saveOk then Some m' else None)"
    using assms unfolding rollbackIfUncommitted_def Let_def by (auto split: option.splits if_splits)
  have c: "cur = ser (critOf m)" using cur by (simp add: mqttCriticalJson_def Let_def split: if_splits)
  have s: "nvString v = x \<Longrightarrow> x \<noteq> '''' \<Longrightarrow> v = Some x" for v x by (auto simp: nvString_def split: option.splits if_splits)
  have "cfgOr 0 (nvLgSet nv) \<noteq> 0" "nvString (nvLg nv) \<noteq> ''''" "nvString (nvRbCfg nv) = cur" "cur \<noteq> ''''" "nvString (nvLg nv) \<noteq> cur"
    using sh by (auto simp: mqttRollbackShould_def split: if_splits)
  moreover have "critOf m' = lg" by (simp add: m' critOf_def cfgOr_def)
  ultimately have "nvLg nv = Some ?lg" "nvRbCfg nv = Some cur" "?lg \<noteq> cur" "critOf m' = lg"
    using s [of "nvLg nv"] s [of "nvRbCfg nv"] by simp_all
  then show ?thesis using dec c sv by blast
qed

text \<open>C5: A rollback only ever restores settings that worked. On a device that has run from an erased
  NVS through any sequence of connects, failures, edits and boots with any flash failures, when a boot
  changes the broker settings then the old ones are exactly those recorded as failing, and the new ones
  are settings under which a session to the configured broker came up before.\<close>

theorem rollback_to_proven:
  assumes "\<forall>c. deser (ser c) = Some c" and "nvLg (dNv d0) = None" and "(devStep ser deser)\<^sup>*\<^sup>* d0 d"
    and "rollbackIfUncommitted ser deser io saveOk (dDisk d) (dNv d) = (m', saved, nv')" and "m' \<noteq> dDisk d"
  shows "critOf m' \<in> dProven d \<and> nvRbCfg (dNv d) = Some (ser (critOf (dDisk d))) \<and> critOf m' \<noteq> critOf (dDisk d)"
proof -
  have "lgProven ser d" by (rule devRun_lgProven [OF assms(3)]) (simp add: lgProven_def assms(2))
  moreover obtain s lg where s: "nvLg (dNv d) = Some s" "deser s = Some lg" "critOf m' = lg"
      "nvRbCfg (dNv d) = Some (ser (critOf (dDisk d)))" "s \<noteq> ser (critOf (dDisk d))"
    using rollback_restores [OF assms(4,5)] by auto
  ultimately obtain c where c: "c \<in> dProven d" "s = ser c" by (auto simp: lgProven_def)
  then have "lg = c" using s assms(1) by simp
  then show ?thesis using s c by auto
qed

text \<open>A concrete serialisation that reads back, each text behind its length in unary.\<close>

definition lenEnc :: "string \<Rightarrow> string" where
  "lenEnc s = replicate (length s) (CHR ''x'') @ CHR ''|'' # s"

definition lenDec :: "string \<Rightarrow> string \<times> string" where
  "lenDec s = (let n = length (takeWhile (\<lambda>c. c = CHR ''x'') s); r = drop (Suc n) s in (take n r, drop n r))"

definition lenSer :: "crit \<Rightarrow> string" where
  "lenSer c = lenEnc (crBroker c) @ lenEnc (crUser c) @ lenEnc (crPassword c) @ lenEnc (replicate (crPort c) (CHR ''x''))"

definition lenDeser :: "string \<Rightarrow> crit option" where
  "lenDeser s = (let a = lenDec s; b = lenDec (snd a); c = lenDec (snd b); d = lenDec (snd c)
                 in Some \<lparr>crBroker = fst a, crPort = length (fst d), crUser = fst b, crPassword = fst c\<rparr>)"

lemma lenDec_lenEnc [simp]: "lenDec (lenEnc s @ t) = (s, t)"
proof -
  have "takeWhile (\<lambda>c. c = CHR ''x'') (lenEnc s @ t) = replicate (length s) (CHR ''x'')"
    by (simp add: lenEnc_def takeWhile_append)
  then show ?thesis by (simp add: lenDec_def Let_def lenEnc_def)
qed

lemma lenDeser_lenSer: "lenDeser (lenSer c) = Some c"
  using lenDec_lenEnc [of "replicate (crPort c) (CHR ''x'')" "[]"]
  by (simp add: lenDeser_def lenSer_def Let_def)

definition goodCfg :: mqttCfg where
  "goodCfg = \<lparr>cBroker = Some ''a'', cPort = Some 1, cUser = None, cPassword = None\<rparr>"

definition badCfg :: mqttCfg where
  "badCfg = \<lparr>cBroker = Some ''b'', cPort = Some 1, cUser = None, cPassword = None\<rparr>"

definition freshDev :: mqttDev where
  "freshDev = \<lparr>dRam = goodCfg, dDisk = goodCfg, dRetry = retryBoot,
     dNv = \<lparr>nvReboots = None, nvRbAt = None, nvLg = None, nvLgSet = None, nvRbCfg = None\<rparr>, dProven = {}\<rparr>"

definition wentBad :: mqttDev where
  "wentBad = \<lparr>dRam = badCfg, dDisk = badCfg, dRetry = \<lparr>retryInterval = 4000, retryCount = 1, rebootHalted = False\<rparr>,
     dNv = \<lparr>nvReboots = Some 1, nvRbAt = Some 0, nvLg = Some (lenSer (critOf goodCfg)), nvLgSet = Some 1,
            nvRbCfg = Some (lenSer (critOf badCfg))\<rparr>, dProven = {critOf goodCfg}\<rparr>"

lemmas rollback_eval = goodCfg_def badCfg_def freshDev_def wentBad_def ioOk_def critOf_def cfgOr_def lenSer_def lenEnc_def
  mqttCriticalJson_def LG_MAX_LEN_def nvString_def mqttSnapshotProven_def

lemma wentBad_reachable: "(devStep lenSer lenDeser)\<^sup>*\<^sup>* freshDev wentBad"
proof -
  let ?d1 = "freshDev\<lparr>dRetry := retryBoot, dNv := (dNv freshDev)\<lparr>nvLg := Some (lenSer (critOf goodCfg)), nvLgSet := Some 1\<rparr>,
     dProven := {critOf goodCfg}\<rparr>"
  have 1: "devStep lenSer lenDeser freshDev ?d1"
    using devStep.Connected [of lenSer lenDeser freshDev "''a''" 1 ioOk]
    by (simp add: connectSucceeded_def snapshotGoodConfig_def mqttClearRbCfg_def mqttRebootCountClear_def rollback_eval
        retryBoot_def Let_def)
  have 2: "devStep lenSer lenDeser ?d1 (?d1\<lparr>dRam := badCfg, dDisk := badCfg\<rparr>)" by (rule devStep.Edited)
  have 3: "devStep lenSer lenDeser (?d1\<lparr>dRam := badCfg, dDisk := badCfg\<rparr>) wentBad"
    using devStep.Failed [of lenSer lenDeser "?d1\<lparr>dRam := badCfg, dDisk := badCfg\<rparr>" ioOk
        "\<lparr>maxExhaustReboots = 3, rebootAfterFails = 1\<rparr>" "\<lparr>cfResolved = False, cfRc = -2, cfMaxAlloc = 0, cfNow = 5\<rparr>"]
    by (simp add: connectFailed_def countFailure_def exhaustionCheck_def mqttDefragRebootDue_def mqttRebootCount_def
        mqttRebootCountBump_def mqttWriteRbCfg_def rollback_eval retryBoot_def RETRY_MIN_MS_def RETRY_MAX_MS_def
        CLOCK_FLOOR_SANE_EPOCH_def Let_def min_def)
  show ?thesis using 1 2 3 by (meson converse_rtranclp_into_rtranclp rtranclp.rtrancl_refl)
qed

theorem rollback_to_proven_witness:
  "\<exists>m' saved nv'. rollbackIfUncommitted lenSer lenDeser ioOk True (dDisk wentBad) (dNv wentBad) = (m', saved, nv') \<and>
     critOf m' \<in> dProven wentBad \<and> critOf m' \<noteq> critOf (dDisk wentBad)"
proof -
  let ?m = "\<lparr>cBroker = Some ''a'', cPort = Some 1, cUser = Some '''', cPassword = Some ''''\<rparr>"
  have r: "rollbackIfUncommitted lenSer lenDeser ioOk True (dDisk wentBad) (dNv wentBad) =
     (?m, Some ?m, mqttClearRbCfg ioOk (mqttRebootCountClear ioOk (dNv wentBad)))"
    unfolding rollbackIfUncommitted_def Let_def
    using lenDeser_lenSer [of "critOf goodCfg"]
    by (simp add: mqttRollbackShould_def rollback_eval)
  have "?m \<noteq> dDisk wentBad" by (simp add: wentBad_def badCfg_def)
  then show ?thesis
    using rollback_to_proven [OF allI [OF lenDeser_lenSer] _ wentBad_reachable r] r by (auto simp: freshDev_def)
qed

text \<open>After a rollback the restored settings are not rolled back again, whatever is in NVS.\<close>

lemma rollback_stable:
  assumes rt: "\<forall>c. deser (ser c) = Some c" and lg: "nvLg nv = Some (ser c)"
    and r: "rollbackIfUncommitted ser deser io saveOk m nv = (m', saved, nv')" and "m' \<noteq> m"
  shows "rollbackIfUncommitted ser deser io2 saveOk2 m' nv' = (m', None, nv')"
proof -
  obtain s lgc where s: "nvLg nv = Some s" "deser s = Some lgc" "critOf m' = lgc" using rollback_restores [OF r \<open>m' \<noteq> m\<close>] by auto
  have "s = ser (critOf m')" using s lg rt by auto
  moreover have "nvLg nv' = Some s" using rollback_lg [OF r] s by simp
  ultimately show ?thesis
    by (auto simp: rollbackIfUncommitted_def mqttCriticalJson_def mqttRollbackShould_def nvString_def Let_def split: option.splits if_splits)
qed

end
