(* ===== verification/Secret_Store.thy ===== *)
theory Secret_Store
  imports Cli_Authz
begin

text \<open>
  \<open>lib/thesada-core/src/Secret.cpp\<close>: per-device secrets in the NVS namespace \<open>thesada-secrets\<close>. The
  namespace is None until the first successful write creates it, then a map from the short keys of
  \<open>secret_keymap.h\<close> to values; a namespace opened for writing and left empty reads like an absent one,
  so it is not told apart. Each NVS call may fail, as the record \<open>secIo\<close> says.

  Clients rely on the locale \<open>secret_values\<close>: a stored value wins over the configured one, and a failed
  operation leaves the other secrets alone.
\<close>

section \<open>Definitions\<close>

definition SECRET_MAX_LEN :: nat where
  "SECRET_MAX_LEN = 160"

type_synonym secretNs = "(string \<rightharpoonup> string) option"

record secIo =
  openRo :: bool      \<comment> \<open>\<open>nvs_open\<close> read-only succeeds on an existing namespace\<close>
  openRw :: bool      \<comment> \<open>\<open>nvs_open\<close> read-write succeeds\<close>
  rwNotFound :: bool  \<comment> \<open>a failing read-write open reports \<open>ESP_ERR_NVS_NOT_FOUND\<close>\<close>
  getOk :: bool       \<comment> \<open>\<open>nvs_get_str\<close> succeeds on a present key that fits\<close>
  setOk :: bool       \<comment> \<open>\<open>nvs_set_str\<close> and its commit succeed\<close>
  eraseOk :: bool     \<comment> \<open>\<open>nvs_erase_key\<close> of a present key and its commit succeed\<close>

text \<open>\<open>nvs_get_str\<close>: the value, when the namespace opens, the key exists and the value fits.\<close>

definition nvsGetStr :: "secIo \<Rightarrow> secretNs \<Rightarrow> string \<Rightarrow> nat \<Rightarrow> string option" where
  "nvsGetStr io ns key maxLen =
     (case ns of None \<Rightarrow> None
      | Some m \<Rightarrow> (if \<not> openRo io then None
                  else case m key of None \<Rightarrow> None
                       | Some v \<Rightarrow> if getOk io \<and> length v < maxLen then Some v else None))"

text \<open>The text \<open>resolve\<close> returns; \<open>out\<close> says whether a buffer was given.\<close>

definition secretResolve :: "secIo \<Rightarrow> secretNs \<Rightarrow> cstr \<Rightarrow> cstr \<Rightarrow> bool \<Rightarrow> nat \<Rightarrow> string" where
  "secretResolve io ns nvsKey fallback out maxLen =
     (let fb = (case fallback of None \<Rightarrow> '''' | Some f \<Rightarrow> f)
      in if \<not> out \<or> maxLen = 0 then fb
         else case (case nvsKey of None \<Rightarrow> None | Some k \<Rightarrow> nvsGetStr io ns k maxLen) of
                Some v \<Rightarrow> if v \<noteq> [] then v else take (maxLen - 1) fb
              | None \<Rightarrow> take (maxLen - 1) fb)"

definition nsPut :: "string \<Rightarrow> string \<Rightarrow> secretNs \<Rightarrow> secretNs" where
  "nsPut k v ns = Some ((case ns of None \<Rightarrow> Map.empty | Some m \<Rightarrow> m)(k \<mapsto> v))"

definition secretClear :: "secIo \<Rightarrow> cstr \<Rightarrow> secretNs \<Rightarrow> bool \<times> secretNs" where
  "secretClear io field ns =
     (case secretNvsKeyFor field 16 of None \<Rightarrow> (False, ns)
      | Some key \<Rightarrow>
          (if \<not> openRw io then (rwNotFound io, ns)
           else let m = (case ns of None \<Rightarrow> Map.empty | Some m \<Rightarrow> m)
                in if m key = None then (True, ns)
                   else if eraseOk io then (True, Some (m(key := None)))
                   else (False, ns)))"

definition secretSet :: "secIo \<Rightarrow> cstr \<Rightarrow> cstr \<Rightarrow> secretNs \<Rightarrow> bool \<times> secretNs" where
  "secretSet io field value ns =
     (case secretNvsKeyFor field 16 of None \<Rightarrow> (False, ns)
      | Some key \<Rightarrow>
          (case value of None \<Rightarrow> secretClear io field ns
           | Some v \<Rightarrow>
               (if v = [] then secretClear io field ns
                else if SECRET_MAX_LEN \<le> length v then (False, ns)
                else if \<not> openRw io then (False, ns)
                else if setOk io then (True, nsPut key v ns) else (False, ns))))"

definition secretHas :: "secIo \<Rightarrow> cstr \<Rightarrow> secretNs \<Rightarrow> bool" where
  "secretHas io field ns =
     (case secretNvsKeyFor field 16 of None \<Rightarrow> False
      | Some key \<Rightarrow> (case ns of None \<Rightarrow> False
                    | Some m \<Rightarrow> openRo io \<and> getOk io \<and> (case m key of None \<Rightarrow> False | Some v \<Rightarrow> v \<noteq> [])))"

section \<open>The interface\<close>

text \<open>The values a client reads through a store: \<open>stored s k\<close> is what the store holds under a key,
  \<open>effective\<close> what a reader with a fallback gets.\<close>

locale secret_values =
  fixes ok :: "'s \<Rightarrow> bool"
    and stored :: "'s \<Rightarrow> string \<Rightarrow> string option"
    and effective :: "'s \<Rightarrow> string \<Rightarrow> string \<Rightarrow> string"
    and put :: "string \<Rightarrow> string \<Rightarrow> 's \<Rightarrow> bool \<times> 's"
    and wipe :: "string \<Rightarrow> 's \<Rightarrow> bool \<times> 's"
    and keyFor :: "string \<Rightarrow> string option"
  assumes put_ok: "ok s \<Longrightarrow> ok (snd (put f v s))"
    and put_stored: "ok s \<Longrightarrow> v \<noteq> [] \<Longrightarrow> fst (put f v s) \<Longrightarrow> \<exists>k. keyFor f = Some k \<and> stored (snd (put f v s)) = (stored s)(k \<mapsto> v)"
    and put_failed: "ok s \<Longrightarrow> v \<noteq> [] \<Longrightarrow> \<not> fst (put f v s) \<Longrightarrow> stored (snd (put f v s)) = stored s"
    and wipe_ok: "ok s \<Longrightarrow> ok (snd (wipe f s))"
    and wipe_stored: "ok s \<Longrightarrow> fst (wipe f s) \<Longrightarrow> keyFor f = Some k \<Longrightarrow> stored (snd (wipe f s)) = (stored s)(k := None)"
    and effective_stored: "ok s \<Longrightarrow> effective s k fb = (case stored s k of Some v \<Rightarrow> v | None \<Rightarrow> fb)"
begin

lemma put_effective: "ok s \<Longrightarrow> v \<noteq> [] \<Longrightarrow> fst (put f v s) \<Longrightarrow> keyFor f = Some k \<Longrightarrow> effective (snd (put f v s)) k fb = v"
  using put_stored [of s v f] effective_stored [OF put_ok] by fastforce

lemma put_other:
  assumes "ok s" "v \<noteq> []" "keyFor f = Some k" "k' \<noteq> k"
  shows "effective (snd (put f v s)) k' fb = effective s k' fb"
proof (cases "fst (put f v s)")
  case True
  then show ?thesis using put_stored [OF assms(1,2) True] assms effective_stored [OF put_ok] effective_stored by auto
next
  case False
  then show ?thesis using put_failed [OF assms(1,2) False] assms(1) effective_stored [OF put_ok] effective_stored by simp
qed

lemma wipe_effective: "ok s \<Longrightarrow> fst (wipe f s) \<Longrightarrow> keyFor f = Some k \<Longrightarrow> effective (snd (wipe f s)) k fb = fb"
  using wipe_stored [of s f k] effective_stored [OF wipe_ok] by simp

end

section \<open>The store implements it\<close>

text \<open>Only non-empty values that every reader's buffer holds are ever stored. The interpretation is on
  a working flash; what a failure leaves behind is stated separately.\<close>

definition nsOk :: "secretNs \<Rightarrow> bool" where
  "nsOk ns \<longleftrightarrow> (\<forall>m k v. ns = Some m \<longrightarrow> m k = Some v \<longrightarrow> v \<noteq> [] \<and> length v < SECRET_MAX_LEN)"

definition nsStored :: "secretNs \<Rightarrow> string \<Rightarrow> string option" where
  "nsStored ns k = (case ns of None \<Rightarrow> None | Some m \<Rightarrow> m k)"

definition secOk :: secIo where
  "secOk = \<lparr>openRo = True, openRw = True, rwNotFound = False, getOk = True, setOk = True, eraseOk = True\<rparr>"

lemma secretSet_nsOk: "nsOk ns \<Longrightarrow> nsOk (snd (secretSet io f v ns))"
  by (auto simp: secretSet_def secretClear_def nsPut_def nsOk_def Let_def split: option.splits if_splits)

lemma secretClear_nsOk: "nsOk ns \<Longrightarrow> nsOk (snd (secretClear io f ns))"
  by (auto simp: secretClear_def nsOk_def Let_def split: option.splits if_splits)

lemma secretSet_failed: "\<not> fst (secretSet io f v ns) \<Longrightarrow> snd (secretSet io f v ns) = ns"
  by (auto simp: secretSet_def secretClear_def Let_def split: option.splits if_splits)

lemma secretSet_True:
  "v \<noteq> [] \<Longrightarrow> fst (secretSet io f (Some v) ns) \<Longrightarrow>
     \<exists>k. secretNvsKeyFor f 16 = Some k \<and> snd (secretSet io f (Some v) ns) = nsPut k v ns"
  by (auto simp: secretSet_def split: option.splits if_splits)

lemma nsStored_put [simp]: "nsStored (nsPut k v ns) = (nsStored ns)(k \<mapsto> v)"
  by (auto simp: nsStored_def nsPut_def split: option.splits)

lemma secretClear_stored:
  "openRw io \<Longrightarrow> fst (secretClear io f ns) \<Longrightarrow> secretNvsKeyFor f 16 = Some k \<Longrightarrow>
     nsStored (snd (secretClear io f ns)) = (nsStored ns)(k := None)"
  by (auto simp: secretClear_def nsStored_def Let_def split: option.splits if_splits)

lemma secretResolve_stored:
  "nsOk ns \<Longrightarrow> length fb < SECRET_MAX_LEN \<Longrightarrow>
     secretResolve secOk ns (Some k) (Some fb) True SECRET_MAX_LEN = (case nsStored ns k of Some v \<Rightarrow> v | None \<Rightarrow> fb)"
  by (auto simp: secretResolve_def nvsGetStr_def nsStored_def nsOk_def secOk_def SECRET_MAX_LEN_def Let_def split: option.splits)

interpretation sec: secret_values nsOk nsStored
  "\<lambda>ns k fb. if length fb < SECRET_MAX_LEN then secretResolve secOk ns (Some k) (Some fb) True SECRET_MAX_LEN
              else (case nsStored ns k of Some v \<Rightarrow> v | None \<Rightarrow> fb)"
  "\<lambda>f v. secretSet secOk (Some f) (Some v)" "\<lambda>f. secretClear secOk (Some f)" "\<lambda>f. secretNvsKeyFor (Some f) 16"
proof
  fix s :: secretNs and f v k fb
  assume ok: "nsOk s"
  show "nsOk (snd (secretSet secOk (Some f) (Some v) s))" using ok by (rule secretSet_nsOk)
  show "\<exists>k. secretNvsKeyFor (Some f) 16 = Some k \<and> nsStored (snd (secretSet secOk (Some f) (Some v) s)) = (nsStored s)(k \<mapsto> v)"
    if "v \<noteq> []" "fst (secretSet secOk (Some f) (Some v) s)"
    using secretSet_True [OF that] by auto
  show "nsStored (snd (secretSet secOk (Some f) (Some v) s)) = nsStored s" if "\<not> fst (secretSet secOk (Some f) (Some v) s)"
    using secretSet_failed [OF that] by simp
  show "nsOk (snd (secretClear secOk (Some f) s))" using ok by (rule secretClear_nsOk)
  show "nsStored (snd (secretClear secOk (Some f) s)) = (nsStored s)(k := None)"
    if "fst (secretClear secOk (Some f) s)" "secretNvsKeyFor (Some f) 16 = Some k"
    using secretClear_stored [OF _ that] by (simp add: secOk_def)
  show "(if length fb < SECRET_MAX_LEN then secretResolve secOk s (Some k) (Some fb) True SECRET_MAX_LEN
         else (case nsStored s k of Some v \<Rightarrow> v | None \<Rightarrow> fb)) = (case nsStored s k of Some v \<Rightarrow> v | None \<Rightarrow> fb)"
    using secretResolve_stored [OF ok] by simp
qed

text \<open>A provisioned secret takes effect and nothing else changes. When storing a non-empty value
  reports success, every reader of that field gets the new value whatever its configured fallback, and
  readers of other fields get what they got before; when it reports failure the store is unchanged.\<close>

lemma secretSet_resolve:
  assumes "nsOk ns" and "v \<noteq> []" and "secretNvsKeyFor (Some f) 16 = Some k" and "length fb < SECRET_MAX_LEN"
  shows "(fst (secretSet secOk (Some f) (Some v) ns) \<longrightarrow>
            secretResolve secOk (snd (secretSet secOk (Some f) (Some v) ns)) (Some k) (Some fb) True SECRET_MAX_LEN = v) \<and>
         (k' \<noteq> k \<longrightarrow>
            secretResolve secOk (snd (secretSet secOk (Some f) (Some v) ns)) (Some k') (Some fb) True SECRET_MAX_LEN =
            secretResolve secOk ns (Some k') (Some fb) True SECRET_MAX_LEN)"
  using sec.put_effective [OF assms(1,2) _ assms(3), of fb] sec.put_other [OF assms(1,2,3), of k' fb] assms(4) by simp

lemma secretHas_iff:
  "nsOk ns \<Longrightarrow> secretHas secOk f ns \<longleftrightarrow> (\<exists>k. secretNvsKeyFor f 16 = Some k \<and> nsStored ns k \<noteq> None)"
  by (auto simp: secretHas_def nsStored_def nsOk_def secOk_def split: option.splits)

end
