(* ===== verification/Login_Rate.thy ===== *)
theory Login_Rate
  imports Fw_Prelude
begin

text \<open>
  \<open>lib/thesada-core/src/login_rate_policy.h\<close>: the lockout table of the web login. Time is the 64-bit
  uptime in milliseconds, which does not wrap in the life of a device, so it is a natural number here.
  The lookups age entries as a side effect, so every operation returns the table it leaves.
\<close>

section \<open>Definitions\<close>

definition LOGIN_RATE_MAX_FAILS :: nat where
  "LOGIN_RATE_MAX_FAILS = 5"

definition LOGIN_RATE_LOCKOUT_MS :: nat where
  "LOGIN_RATE_LOCKOUT_MS = 30000"

definition LOGIN_RATE_QUIET_MS :: nat where
  "LOGIN_RATE_QUIET_MS = 600000"

definition LOGIN_RATE_IP_CAP :: nat where
  "LOGIN_RATE_IP_CAP = 46"

record Entry =
  eIp :: string
  eFails :: nat
  eUntil :: nat
  eLast :: nat

record LoginRateTable =
  rateE :: "Entry list"
  rateOver :: Entry

definition clearEntry :: Entry where
  "clearEntry = \<lparr>eIp = '''', eFails = 0, eUntil = 0, eLast = 0\<rparr>"

definition rateInit :: "nat \<Rightarrow> LoginRateTable" where
  "rateInit n = \<lparr>rateE = replicate n clearEntry, rateOver = clearEntry\<rparr>"

definition age :: "Entry \<Rightarrow> nat \<Rightarrow> Entry" where
  "age c now =
     (if eFails c = 0 then c
      else if eLast c + LOGIN_RATE_QUIET_MS \<le> now then clearEntry
      else if LOGIN_RATE_MAX_FAILS \<le> eFails c \<and> eUntil c \<le> now
      then c\<lparr>eFails := LOGIN_RATE_MAX_FAILS - 1, eUntil := 0\<rparr>
      else c)"

text \<open>The index of the first entry the loop of \<open>find\<close> stops at.\<close>

fun firstIdx :: "(Entry \<Rightarrow> bool) \<Rightarrow> Entry list \<Rightarrow> nat option" where
  "firstIdx P [] = None"
| "firstIdx P (e # es) = (if P e then Some 0 else map_option Suc (firstIdx P es))"

definition rateFind :: "cstr \<Rightarrow> nat \<Rightarrow> LoginRateTable \<Rightarrow> nat option \<times> LoginRateTable" where
  "rateFind ip now t =
     (case ip of None \<Rightarrow> (None, t)
      | Some s \<Rightarrow>
          (if s = [] then (None, t)
           else case firstIdx (\<lambda>e. eIp e \<noteq> [] \<and> strncmp0 (eIp e) s (LOGIN_RATE_IP_CAP - 1)) (rateE t) of
                  None \<Rightarrow> (None, t)
                | Some i \<Rightarrow>
                    (let a = age (rateE t ! i) now; t' = t\<lparr>rateE := (rateE t)[i := a]\<rparr>
                     in (if eIp a \<noteq> [] then Some i else None, t'))))"

fun freeSlot :: "nat \<Rightarrow> Entry list \<Rightarrow> nat \<times> Entry list" where
  "freeSlot now [] = (0, [])"
| "freeSlot now (e # es) =
     (let a = age e now
      in if eIp a = [] then (0, a # es)
         else let r = freeSlot now es in (Suc (fst r), a # snd r))"

definition ageOverflow :: "nat \<Rightarrow> LoginRateTable \<Rightarrow> LoginRateTable" where
  "ageOverflow now t = t\<lparr>rateOver := age (rateOver t) now\<rparr>"

definition rateAllow :: "cstr \<Rightarrow> nat \<Rightarrow> LoginRateTable \<Rightarrow> bool \<times> LoginRateTable" where
  "rateAllow ip now t =
     (let r = rateFind ip now t; t1 = snd r
      in case fst r of
           Some i \<Rightarrow> (eFails (rateE t1 ! i) < LOGIN_RATE_MAX_FAILS, t1)
         | None \<Rightarrow>
             (if ip = None \<or> ip = Some '''' then (True, t1)
              else let fr = freeSlot now (rateE t1); t2 = t1\<lparr>rateE := snd fr\<rparr>
                   in if fst fr = length (rateE t1)
                      then let t3 = ageOverflow now t2 in (eFails (rateOver t3) < LOGIN_RATE_MAX_FAILS, t3)
                      else (True, t2)))"

text \<open>The tail of \<open>fail\<close> on the entry it settled on.\<close>

definition countFail :: "nat \<Rightarrow> Entry \<Rightarrow> Entry" where
  "countFail now s =
     (if LOGIN_RATE_MAX_FAILS \<le> eFails s then s
      else let s1 = s\<lparr>eLast := now, eFails := eFails s + 1\<rparr>
           in if LOGIN_RATE_MAX_FAILS \<le> eFails s1 then s1\<lparr>eUntil := now + LOGIN_RATE_LOCKOUT_MS\<rparr> else s1)"

definition rateFail :: "cstr \<Rightarrow> nat \<Rightarrow> LoginRateTable \<Rightarrow> LoginRateTable" where
  "rateFail ip now t =
     (case ip of None \<Rightarrow> t
      | Some s \<Rightarrow>
          (if s = [] then t
           else let r = rateFind ip now t; t1 = snd r
                in case fst r of
                     Some i \<Rightarrow> t1\<lparr>rateE := (rateE t1)[i := countFail now (rateE t1 ! i)]\<rparr>
                   | None \<Rightarrow>
                       (let fr = freeSlot now (rateE t1); t2 = t1\<lparr>rateE := snd fr\<rparr>; i = fst fr
                        in if i < length (rateE t1)
                           then t2\<lparr>rateE := (rateE t2)[i := countFail now ((rateE t2 ! i)\<lparr>eIp := take (LOGIN_RATE_IP_CAP - 1) s\<rparr>)]\<rparr>
                           else let t3 = ageOverflow now t2 in t3\<lparr>rateOver := countFail now (rateOver t3)\<rparr>)))"

definition rateReset :: "cstr \<Rightarrow> LoginRateTable \<Rightarrow> LoginRateTable" where
  "rateReset ip t =
     (let r = rateFind ip 0 t; t1 = snd r
      in case fst r of None \<Rightarrow> t1 | Some i \<Rightarrow> t1\<lparr>rateE := (rateE t1)[i := clearEntry]\<rparr>)"

section \<open>Ageing\<close>

lemmas rate_consts = LOGIN_RATE_MAX_FAILS_def LOGIN_RATE_LOCKOUT_MS_def LOGIN_RATE_QUIET_MS_def LOGIN_RATE_IP_CAP_def

lemma age_clear [simp]: "age clearEntry now = clearEntry"
  by (simp add: age_def clearEntry_def)

lemma age_idem [simp]: "age (age c now) now = age c now"
  by (auto simp: age_def clearEntry_def rate_consts)

lemma age_ip: "eIp (age c now) = eIp c \<or> age c now = clearEntry"
  by (auto simp: age_def)

text \<open>An entry is blank or counts between one and five failures; only a lockout has an end in the future.\<close>

definition entryOk :: "Entry \<Rightarrow> bool" where
  "entryOk e \<longleftrightarrow> (eIp e = [] \<longrightarrow> eFails e = 0 \<and> e = clearEntry) \<and> eFails e \<le> LOGIN_RATE_MAX_FAILS \<and>
     (eIp e \<noteq> [] \<longrightarrow> 0 < eFails e) \<and> (eFails e = LOGIN_RATE_MAX_FAILS \<longrightarrow> 0 < eUntil e)"

lemma clear_ok [simp]: "entryOk clearEntry" "eIp clearEntry = []" "eFails clearEntry = 0"
  by (simp_all add: entryOk_def clearEntry_def LOGIN_RATE_MAX_FAILS_def)

lemma age_ok [simp]: "entryOk e \<Longrightarrow> entryOk (age e now)"
  by (auto simp: age_def entryOk_def rate_consts clearEntry_def)

section \<open>The entry of one source\<close>

text \<open>What a table holds for a key (the stored part of an address): its slot, or a blank entry.\<close>

definition entryOf :: "string \<Rightarrow> Entry list \<Rightarrow> Entry" where
  "entryOf k es = (case find (\<lambda>e. eIp e = k) es of None \<Rightarrow> clearEntry | Some e \<Rightarrow> e)"

definition tableOk :: "Entry list \<Rightarrow> bool" where
  "tableOk es \<longleftrightarrow> list_all entryOk es \<and> distinct (filter (\<lambda>k. k \<noteq> []) (map eIp es)) \<and>
     (\<forall>e \<in> set es. length (eIp e) \<le> LOGIN_RATE_IP_CAP - 1)"

definition keyOf :: "string \<Rightarrow> string" where
  "keyOf s = take (LOGIN_RATE_IP_CAP - 1) s"

text \<open>One list of entries is another after some of them were aged.\<close>

definition agedList :: "nat \<Rightarrow> Entry list \<Rightarrow> Entry list \<Rightarrow> bool" where
  "agedList now es es' \<longleftrightarrow> list_all2 (\<lambda>e e'. e' = e \<or> e' = age e now) es es'"

lemma entryOf_simps [simp]:
  "entryOf k [] = clearEntry"
  "entryOf k (e # es) = (if eIp e = k then e else entryOf k es)"
  by (simp_all add: entryOf_def)

lemma tableOk_simps [simp]:
  "tableOk []"
  "tableOk (e # es) \<longleftrightarrow> entryOk e \<and> tableOk es \<and> length (eIp e) \<le> LOGIN_RATE_IP_CAP - 1 \<and>
     (eIp e \<noteq> [] \<longrightarrow> (\<forall>x \<in> set es. eIp x \<noteq> eIp e))"
  by (auto simp: tableOk_def image_iff)

lemma key_in [simp]: "k \<in> eIp ` set es \<longleftrightarrow> (\<exists>x \<in> set es. eIp x = k)"
  by auto

lemma entryOf_none: "k \<notin> eIp ` set es \<Longrightarrow> entryOf k es = clearEntry"
  by (induction es) auto

lemma entryOf_ok: "tableOk es \<Longrightarrow> entryOk (entryOf k es)"
  by (induction es) auto

lemma agedList_refl [simp]: "agedList now es es"
  by (simp add: agedList_def list_all2_refl)

lemma agedList_length: "agedList now es es' \<Longrightarrow> length es' = length es"
  by (simp add: agedList_def list_all2_lengthD)

lemma agedList_ips: "agedList now es es' \<Longrightarrow> k \<noteq> [] \<Longrightarrow> k \<in> eIp ` set es' \<Longrightarrow> k \<in> eIp ` set es"
proof (induction es arbitrary: es')
  case (Cons e es)
  then obtain e' es2 where "es' = e' # es2" "e' = e \<or> e' = age e now" "agedList now es es2"
    by (auto simp: agedList_def list_all2_Cons1)
  then show ?case using Cons age_ip [of e now] by (auto simp: image_iff)
qed (simp add: agedList_def)

lemma agedList_ok:
  "agedList now es es' \<Longrightarrow> tableOk es \<Longrightarrow> k \<noteq> [] \<Longrightarrow>
     tableOk es' \<and> (entryOf k es' = entryOf k es \<or> entryOf k es' = age (entryOf k es) now)"
proof (induction es arbitrary: es')
  case (Cons e es)
  then obtain e' es2 where e': "es' = e' # es2" "e' = e \<or> e' = age e now" and ag: "agedList now es es2"
    by (auto simp: agedList_def list_all2_Cons1)
  have ip: "eIp e' = eIp e \<or> e' = clearEntry" using e'(2) age_ip [of e now] by auto
  have ih: "tableOk es2" "entryOf k es2 = entryOf k es \<or> entryOf k es2 = age (entryOf k es) now"
    using Cons.IH [OF ag] Cons.prems by auto
  have fresh: "eIp e \<noteq> [] \<Longrightarrow> eIp e \<notin> eIp ` set es2"
    using agedList_ips [OF ag, of "eIp e"] Cons.prems(2) by fastforce
  have "entryOk e'" "length (eIp e') \<le> LOGIN_RATE_IP_CAP - 1" using e'(2) ip Cons.prems(2) by auto
  moreover have "eIp e' \<noteq> [] \<longrightarrow> eIp e' \<notin> eIp ` set es2" using ip fresh by (metis clear_ok(2))
  ultimately have "tableOk es'" using e'(1) ih(1) by simp
  moreover have "entryOf k es' = entryOf k (e # es) \<or> entryOf k es' = age (entryOf k (e # es)) now"
  proof (cases "eIp e = k")
    case True
    then have "entryOf k es2 = clearEntry" using fresh Cons.prems(3) entryOf_none by blast
    then show ?thesis using True e' ip Cons.prems(3) by auto
  next
    case False
    then show ?thesis using e' ip ih(2) Cons.prems(3) by auto
  qed
  ultimately show ?case by simp
qed (simp add: agedList_def)

section \<open>What the lookups do to it\<close>

lemma firstIdx_Some: "firstIdx P es = Some i \<Longrightarrow> i < length es \<and> P (es ! i)"
  by (induction es arbitrary: i) (auto split: if_splits)

lemma firstIdx_None: "firstIdx P es = None \<longleftrightarrow> (\<forall>e \<in> set es. \<not> P e)"
  by (induction es) auto

lemma agedList_update: "agedList now es (es[i := age (es ! i) now])"
proof -
  have "es[i := age (es ! i) now] ! j = es ! j \<or> es[i := age (es ! i) now] ! j = age (es ! j) now" if "j < length es" for j
    using that by (cases "j = i") auto
  then show ?thesis by (simp add: agedList_def list_all2_conv_all_nth)
qed

lemma slot_matches: "tableOk es \<Longrightarrow> e \<in> set es \<Longrightarrow> strncmp0 (eIp e) s (LOGIN_RATE_IP_CAP - 1) \<longleftrightarrow> eIp e = keyOf s"
  by (auto simp: strncmp0_def keyOf_def tableOk_def)

lemma entryOf_nth: "tableOk es \<Longrightarrow> i < length es \<Longrightarrow> eIp (es ! i) \<noteq> [] \<Longrightarrow> entryOf (eIp (es ! i)) es = es ! i"
  by (induction es arbitrary: i) (auto simp: nth_Cons' split: if_splits)

lemma slot_unique:
  "tableOk es \<Longrightarrow> i < length es \<Longrightarrow> j < length es \<Longrightarrow> eIp (es ! i) = eIp (es ! j) \<Longrightarrow> eIp (es ! i) \<noteq> [] \<Longrightarrow> i = j"
proof (induction es arbitrary: i j)
  case (Cons e es)
  then show ?case by (cases i; cases j) auto
qed simp

lemma entryOf_update:
  "tableOk es \<Longrightarrow> i < length es \<Longrightarrow> k \<noteq> [] \<Longrightarrow> eIp (es ! i) = k \<or> (eIp (es ! i) = [] \<and> k \<notin> eIp ` set es) \<Longrightarrow> eIp e = k \<or> eIp e = [] \<Longrightarrow>
   entryOf k' (es[i := e]) = (if k' = [] then entryOf k' (es[i := e]) else if k' = k then (if eIp e = k then e else clearEntry) else entryOf k' es)"
proof (induction es arbitrary: i)
  case (Cons a es)
  show ?case
  proof (cases i)
    case 0
    then show ?thesis using Cons.prems by (auto intro!: entryOf_none)
  next
    case (Suc j)
    then have j: "j < length es" "es ! j \<in> set es" using Cons.prems(2) by auto
    have "eIp a \<noteq> k"
    proof
      assume "eIp a = k"
      then have "eIp (es ! j) \<noteq> k" "k \<in> eIp ` set (a # es)" using Cons.prems(1,3) j by auto
      then show False using Cons.prems(4) Suc by auto
    qed
    then show ?thesis using Suc Cons.prems Cons.IH [of j] by auto
  qed
qed simp

lemma tableOk_update:
  "tableOk es \<Longrightarrow> i < length es \<Longrightarrow> eIp (es ! i) = eIp e \<or> (eIp (es ! i) = [] \<and> eIp e \<notin> eIp ` set es) \<or> eIp e = [] \<Longrightarrow>
   entryOk e \<Longrightarrow> length (eIp e) \<le> LOGIN_RATE_IP_CAP - 1 \<Longrightarrow> tableOk (es[i := e])"
proof (induction es arbitrary: i)
  case (Cons a es)
  show ?case
  proof (cases i)
    case 0
    then show ?thesis using Cons.prems by auto
  next
    case (Suc j)
    have "eIp a \<noteq> [] \<Longrightarrow> eIp a \<notin> eIp ` set (es[j := e])"
      using Cons.prems Suc set_update_subset_insert [of es j e] by (auto simp: image_iff) (metis nth_mem subsetD insertE)+
    then show ?thesis using Suc Cons.prems Cons.IH [of j] by auto
  qed
qed simp

lemma freeSlot_ok:
  "freeSlot now es = (i, es') \<Longrightarrow> agedList now es es' \<and> i \<le> length es \<and> (i < length es \<longrightarrow> eIp (es' ! i) = [])"
proof (induction es arbitrary: i es')
  case (Cons e es)
  obtain j es2 where r: "freeSlot now es = (j, es2)" by fastforce
  show ?case using Cons.prems Cons.IH [OF r] r by (auto simp: Let_def agedList_def list_all2_refl split: if_splits)
qed (simp add: agedList_def)

lemma rateFind_ok:
  assumes "tableOk (rateE t)" "s \<noteq> []" and f: "rateFind (Some s) now t = (r, t')"
  shows "agedList now (rateE t) (rateE t') \<and> rateOver t' = rateOver t \<and>
         entryOf (keyOf s) (rateE t') = age (entryOf (keyOf s) (rateE t)) now \<and>
         (case r of None \<Rightarrow> keyOf s \<notin> eIp ` set (rateE t')
          | Some i \<Rightarrow> i < length (rateE t') \<and> eIp (rateE t' ! i) = keyOf s)"
proof -
  have k: "keyOf s \<noteq> []" using assms(2) by (simp add: keyOf_def LOGIN_RATE_IP_CAP_def)
  let ?P = "\<lambda>e. eIp e \<noteq> [] \<and> strncmp0 (eIp e) s (LOGIN_RATE_IP_CAP - 1)"
  have P: "e \<in> set (rateE t) \<Longrightarrow> ?P e \<longleftrightarrow> eIp e = keyOf s" for e
    using slot_matches [OF assms(1)] k by auto
  show ?thesis
  proof (cases "firstIdx ?P (rateE t)")
    case None
    then have no: "keyOf s \<notin> eIp ` set (rateE t)" using P unfolding firstIdx_None by (metis imageE)
    have "r = None" "t' = t" using f None assms(2) by (simp_all add: rateFind_def)
    then show ?thesis using no entryOf_none [OF no] by simp
  next
    case (Some i)
    note fi = firstIdx_Some [OF Some]
    let ?e = "rateE t ! i" let ?a = "age ?e now"
    have ip: "eIp ?e = keyOf s" using P [of ?e] fi by simp
    have r: "r = (if eIp ?a \<noteq> [] then Some i else None)" and t': "t' = t\<lparr>rateE := (rateE t)[i := ?a]\<rparr>"
      using f Some assms(2) by (simp_all add: rateFind_def Let_def)
    have ag: "agedList now (rateE t) (rateE t')" unfolding t' using agedList_update by simp
    have aip: "eIp ?a = keyOf s \<or> ?a = clearEntry" using age_ip [of ?e now] ip by auto
    have "entryOf (keyOf s) (rateE t') = (if eIp ?a = keyOf s then ?a else clearEntry)"
      unfolding t' using entryOf_update [OF assms(1) _ k, of i ?a "keyOf s"] fi ip aip k by auto
    moreover have "entryOf (keyOf s) (rateE t) = ?e" using entryOf_nth [OF assms(1), of i] fi ip k by auto
    moreover have "eIp ?a = [] \<Longrightarrow> keyOf s \<notin> eIp ` set (rateE t')"
    proof
      assume blank: "eIp ?a = []" and "keyOf s \<in> eIp ` set (rateE t')"
      then obtain j where j0: "j < length (rateE t')" "eIp (rateE t' ! j) = keyOf s"
        by (metis imageE in_set_conv_nth)
      moreover have "j \<noteq> i" using j0 blank k fi unfolding t' by auto
      ultimately have j: "j < length (rateE t)" "eIp (rateE t' ! j) = keyOf s" "j \<noteq> i" unfolding t' by auto
      then have "eIp (rateE t ! j) = eIp (rateE t ! i)" unfolding t' using ip by simp
      then show False using slot_unique [OF assms(1), of j i] j fi ip k by simp
    qed
    ultimately show ?thesis using ag r aip fi t' k by auto
  qed
qed

section \<open>A wrong guess\<close>

text \<open>A login attempt that offers a wrong credential: refused while locked out, else served and counted.
  The first component says whether it was served.\<close>

definition guess :: "string \<Rightarrow> nat \<Rightarrow> LoginRateTable \<Rightarrow> bool \<times> LoginRateTable" where
  "guess ip now t = (let r = rateAllow (Some ip) now t in if fst r then (True, rateFail (Some ip) now (snd r)) else r)"

text \<open>What one attempt may do, source by source: it is refused and entries only age; or it is served on
  the slot of its source; or it is served on the shared overflow entry.\<close>

definition onlyAged :: "nat \<Rightarrow> Entry \<Rightarrow> Entry \<Rightarrow> bool" where
  "onlyAged now e e' \<longleftrightarrow> e' = e \<or> e' = age e now"

definition guessEffect :: "string \<Rightarrow> nat \<Rightarrow> LoginRateTable \<Rightarrow> bool \<Rightarrow> LoginRateTable \<Rightarrow> bool" where
  "guessEffect k now t served t' \<longleftrightarrow> tableOk (rateE t') \<and>
     ((\<not> served \<and> (\<forall>k' \<noteq> []. onlyAged now (entryOf k' (rateE t)) (entryOf k' (rateE t'))) \<and> onlyAged now (rateOver t) (rateOver t')) \<or>
      (served \<and> eFails (age (entryOf k (rateE t)) now) < LOGIN_RATE_MAX_FAILS \<and>
         (\<exists>a. (a = clearEntry\<lparr>eIp := k\<rparr> \<and> age (entryOf k (rateE t)) now = clearEntry \<or> a = age (entryOf k (rateE t)) now) \<and>
              entryOf k (rateE t') = countFail now a) \<and>
         (\<forall>k' \<noteq> []. k' \<noteq> k \<longrightarrow> onlyAged now (entryOf k' (rateE t)) (entryOf k' (rateE t'))) \<and> onlyAged now (rateOver t) (rateOver t')) \<or>
      (served \<and> eFails (age (rateOver t) now) < LOGIN_RATE_MAX_FAILS \<and> rateOver t' = countFail now (age (rateOver t) now) \<and>
         (\<forall>k' \<noteq> []. onlyAged now (entryOf k' (rateE t)) (entryOf k' (rateE t')))))"

lemma onlyAged_refl [simp]: "onlyAged now e e" "onlyAged now e (age e now)"
  by (simp_all add: onlyAged_def)

lemma onlyAged_trans: "onlyAged now e e' \<Longrightarrow> onlyAged now e' e'' \<Longrightarrow> onlyAged now e e''"
  by (auto simp: onlyAged_def)

lemma agedList_only: "agedList now es es' \<Longrightarrow> tableOk es \<Longrightarrow> k \<noteq> [] \<Longrightarrow> onlyAged now (entryOf k es) (entryOf k es')"
  using agedList_ok unfolding onlyAged_def by blast

lemma agedList_tableOk: "agedList now es es' \<Longrightarrow> tableOk es \<Longrightarrow> tableOk es'"
  using agedList_ok [of now es es' "''a''"] by simp

lemma countFail_ip [simp]: "eIp (countFail now s) = eIp s"
  by (simp add: countFail_def Let_def)

lemma countFail_ok:
  "eIp s \<noteq> [] \<Longrightarrow> eFails s \<le> LOGIN_RATE_MAX_FAILS \<Longrightarrow> (eFails s = LOGIN_RATE_MAX_FAILS \<longrightarrow> 0 < eUntil s) \<Longrightarrow> entryOk (countFail now s)"
  by (auto simp: countFail_def entryOk_def Let_def rate_consts)

lemma rateFail_slot:
  assumes ok: "tableOk (rateE t)" and s: "s \<noteq> []" and f: "rateFind (Some s) now t = (Some i, t1)"
  shows "tableOk (rateE (rateFail (Some s) now t)) \<and> rateOver (rateFail (Some s) now t) = rateOver t \<and>
         entryOf (keyOf s) (rateE (rateFail (Some s) now t)) = countFail now (age (entryOf (keyOf s) (rateE t)) now) \<and>
         (\<forall>k \<noteq> []. k \<noteq> keyOf s \<longrightarrow> onlyAged now (entryOf k (rateE t)) (entryOf k (rateE (rateFail (Some s) now t))))"
proof -
  have k: "keyOf s \<noteq> []" using s by (simp add: keyOf_def LOGIN_RATE_IP_CAP_def)
  have r: "agedList now (rateE t) (rateE t1)" "rateOver t1 = rateOver t"
      "entryOf (keyOf s) (rateE t1) = age (entryOf (keyOf s) (rateE t)) now" "i < length (rateE t1)" "eIp (rateE t1 ! i) = keyOf s"
    using rateFind_ok [OF ok s f] by auto
  have ok1: "tableOk (rateE t1)" by (rule agedList_tableOk [OF r(1) ok])
  have e: "rateE t1 ! i = entryOf (keyOf s) (rateE t1)" using entryOf_nth [OF ok1 r(4)] r(5) k by simp
  let ?c = "countFail now (rateE t1 ! i)"
  have eq: "rateFail (Some s) now t = t1\<lparr>rateE := (rateE t1)[i := ?c]\<rparr>" using f s by (simp add: rateFail_def Let_def)
  have eok: "entryOk (rateE t1 ! i)" using ok1 r(4) by (simp add: tableOk_def list_all_length)
  have "tableOk ((rateE t1)[i := ?c])"
  proof (rule tableOk_update [OF ok1 r(4)])
    show "entryOk ?c" using eok r(5) k by (intro countFail_ok) (auto simp: entryOk_def)
    show "length (eIp ?c) \<le> LOGIN_RATE_IP_CAP - 1" using r(5) by (simp add: keyOf_def)
  qed simp
  moreover have "entryOf k' ((rateE t1)[i := ?c]) = (if k' = keyOf s then ?c else entryOf k' (rateE t1))" if "k' \<noteq> []" for k'
    using entryOf_update [OF ok1 r(4) k, of ?c k'] that r(5) by simp
  ultimately show ?thesis unfolding eq using r e agedList_only [OF r(1) ok] k by auto
qed

lemma freeSlot_full:
  "fst (freeSlot now es) = length es \<longleftrightarrow> (\<forall>e \<in> set es. eIp (age e now) \<noteq> [])"
  "fst (freeSlot now es) = length es \<Longrightarrow> snd (freeSlot now es) = map (\<lambda>e. age e now) es"
  by (induction es) (auto simp: Let_def split: if_splits)

lemma rateFail_new:
  assumes ok: "tableOk (rateE t)" and s: "s \<noteq> []" and f: "rateFind (Some s) now t = (None, t1)"
    and fr: "freeSlot now (rateE t1) = (j, es2)" and j: "j < length (rateE t1)"
  shows "tableOk (rateE (rateFail (Some s) now t)) \<and> rateOver (rateFail (Some s) now t) = rateOver t \<and>
         entryOf (keyOf s) (rateE (rateFail (Some s) now t)) = countFail now (clearEntry\<lparr>eIp := keyOf s\<rparr>) \<and>
         (\<forall>k \<noteq> []. k \<noteq> keyOf s \<longrightarrow> onlyAged now (entryOf k (rateE t)) (entryOf k (rateE (rateFail (Some s) now t))))"
proof -
  have k: "keyOf s \<noteq> []" using s by (simp add: keyOf_def LOGIN_RATE_IP_CAP_def)
  have r: "agedList now (rateE t) (rateE t1)" "rateOver t1 = rateOver t" "keyOf s \<notin> eIp ` set (rateE t1)"
    using rateFind_ok [OF ok s f] by auto
  have fs: "agedList now (rateE t1) es2" "eIp (es2 ! j) = []" using freeSlot_ok [OF fr] j by auto
  have ok1: "tableOk (rateE t1)" by (rule agedList_tableOk [OF r(1) ok])
  have ok2: "tableOk es2" by (rule agedList_tableOk [OF fs(1) ok1])
  have len: "j < length es2" using j agedList_length [OF fs(1)] by simp
  have new: "keyOf s \<notin> eIp ` set es2" using agedList_ips [OF fs(1) k] r(3) by blast
  have bl: "es2 ! j = clearEntry" using ok2 len fs(2) by (simp add: tableOk_def list_all_length entryOk_def)
  let ?c = "countFail now (clearEntry\<lparr>eIp := keyOf s\<rparr>)"
  have eq: "rateFail (Some s) now t = t1\<lparr>rateE := es2[j := ?c]\<rparr>"
    using f s fr j bl by (simp add: rateFail_def Let_def keyOf_def)
  have "tableOk (es2[j := ?c])"
  proof (rule tableOk_update [OF ok2 len])
    show "eIp (es2 ! j) = eIp ?c \<or> eIp (es2 ! j) = [] \<and> eIp ?c \<notin> eIp ` set es2 \<or> eIp ?c = []" using fs(2) new by simp
    show "entryOk ?c" using k by (intro countFail_ok) (auto simp: LOGIN_RATE_MAX_FAILS_def)
    show "length (eIp ?c) \<le> LOGIN_RATE_IP_CAP - 1" by (simp add: keyOf_def)
  qed
  moreover have "entryOf k' (es2[j := ?c]) = (if k' = keyOf s then ?c else entryOf k' es2)" if "k' \<noteq> []" for k'
    using entryOf_update [OF ok2 len k, of ?c k'] that fs(2) new by simp
  ultimately show ?thesis unfolding eq using r k onlyAged_trans [OF agedList_only [OF r(1) ok] agedList_only [OF fs(1) ok1]] by auto
qed

lemma rateFail_over:
  assumes ok: "tableOk (rateE t)" and s: "s \<noteq> []" and f: "rateFind (Some s) now t = (None, t1)"
    and fr: "freeSlot now (rateE t1) = (length (rateE t1), es2)"
  shows "rateFail (Some s) now t = t1\<lparr>rateE := es2, rateOver := countFail now (age (rateOver t) now)\<rparr>"
  using rateFind_ok [OF ok s f] f s fr by (simp add: rateFail_def Let_def ageOverflow_def)

lemma rateFind_again:
  assumes ok: "tableOk (rateE t)" and s: "s \<noteq> []" and f: "rateFind (Some s) now t = (r, t1)"
    and ag: "agedList now (rateE t1) (rateE t2)" "r = None \<or> rateE t2 = rateE t1" and g: "rateFind (Some s) now t2 = (r', t3)"
  shows "(r' = None) = (r = None)"
proof -
  have k: "keyOf s \<noteq> []" using s by (simp add: keyOf_def LOGIN_RATE_IP_CAP_def)
  have a1: "agedList now (rateE t) (rateE t1)" and e1: "entryOf (keyOf s) (rateE t1) = age (entryOf (keyOf s) (rateE t)) now"
    and c1: "case r of None \<Rightarrow> keyOf s \<notin> eIp ` set (rateE t1) | Some i \<Rightarrow> i < length (rateE t1) \<and> eIp (rateE t1 ! i) = keyOf s"
    using rateFind_ok [OF ok s f] by auto
  have ok1: "tableOk (rateE t1)" by (rule agedList_tableOk [OF a1 ok])
  have ok2: "tableOk (rateE t2)" by (rule agedList_tableOk [OF ag(1) ok1])
  have a3: "agedList now (rateE t2) (rateE t3)" and e3: "entryOf (keyOf s) (rateE t3) = age (entryOf (keyOf s) (rateE t2)) now"
    and c3: "case r' of None \<Rightarrow> keyOf s \<notin> eIp ` set (rateE t3) | Some i \<Rightarrow> i < length (rateE t3) \<and> eIp (rateE t3 ! i) = keyOf s"
    using rateFind_ok [OF ok2 s g] by auto
  show ?thesis
  proof (cases r)
    case None
    then have "keyOf s \<notin> eIp ` set (rateE t3)" using c1 agedList_ips [OF ag(1) k] agedList_ips [OF a3 k] by (auto simp del: key_in)
    then have "r' = None" using c3 by (cases r') (auto dest: nth_mem)
    then show ?thesis using None by simp
  next
    case (Some i)
    then have "entryOf (keyOf s) (rateE t1) = rateE t1 ! i" "eIp (rateE t1 ! i) = keyOf s"
      using c1 entryOf_nth [OF ok1, of i] k by auto
    then have "eIp (entryOf (keyOf s) (rateE t3)) = keyOf s" using e3 e1 ag(2) Some by (metis age_idem option.distinct(1))
    then have "keyOf s \<in> eIp ` set (rateE t3)" using entryOf_none [of "keyOf s" "rateE t3"] k by fastforce
    then show ?thesis using c3 Some by (cases r') auto
  qed
qed

lemma agedList_aged: "agedList now (map (\<lambda>e. age e now) es) es' \<Longrightarrow> es' = map (\<lambda>e. age e now) es"
  by (rule nth_equalityI) (auto simp: agedList_def list_all2_conv_all_nth)

lemma keyOf_nonempty: "s \<noteq> [] \<Longrightarrow> keyOf s \<noteq> []"
  by (simp add: keyOf_def LOGIN_RATE_IP_CAP_def)

lemma guess_slot:
  assumes ok: "tableOk (rateE t)" and s: "s \<noteq> []" and f: "rateFind (Some s) now t = (Some i, t1)"
  shows "guessEffect (keyOf s) now t (fst (guess s now t)) (snd (guess s now t))"
proof -
  have r: "agedList now (rateE t) (rateE t1)" "rateOver t1 = rateOver t" "i < length (rateE t1)" "eIp (rateE t1 ! i) = keyOf s"
      "entryOf (keyOf s) (rateE t1) = age (entryOf (keyOf s) (rateE t)) now"
    using rateFind_ok [OF ok s f] by auto
  have ok1: "tableOk (rateE t1)" by (rule agedList_tableOk [OF r(1) ok])
  have ei: "rateE t1 ! i = age (entryOf (keyOf s) (rateE t)) now"
    using entryOf_nth [OF ok1 r(3)] r(4,5) keyOf_nonempty [OF s] by simp
  have al: "rateAllow (Some s) now t = (eFails (rateE t1 ! i) < LOGIN_RATE_MAX_FAILS, t1)"
    using f by (simp add: rateAllow_def Let_def)
  show ?thesis
  proof (cases "eFails (rateE t1 ! i) < LOGIN_RATE_MAX_FAILS")
    case True
    obtain r2 t3 where g: "rateFind (Some s) now t1 = (r2, t3)" by fastforce
    obtain i2 where i2: "r2 = Some i2" using rateFind_again [OF ok s f agedList_refl _ g] by auto
    have gs: "guess s now t = (True, rateFail (Some s) now t1)" using al True by (simp add: guess_def Let_def)
    note rf = rateFail_slot [OF ok1 s g [unfolded i2]]
    have "\<forall>k' \<noteq> []. k' \<noteq> keyOf s \<longrightarrow> onlyAged now (entryOf k' (rateE t)) (entryOf k' (rateE (rateFail (Some s) now t1)))"
      using rf agedList_only [OF r(1) ok] onlyAged_trans by blast
    then show ?thesis unfolding gs guessEffect_def using rf r ei True by auto
  next
    case False
    then have gs: "guess s now t = (False, t1)" using al by (simp add: guess_def Let_def)
    show ?thesis unfolding gs guessEffect_def using ok1 agedList_only [OF r(1) ok] r by simp
  qed
qed

lemma guess_new:
  assumes ok: "tableOk (rateE t)" and s: "s \<noteq> []" and f: "rateFind (Some s) now t = (None, t1)"
    and fr: "freeSlot now (rateE t1) = (j, es2)" and j: "j < length (rateE t1)"
  shows "guessEffect (keyOf s) now t (fst (guess s now t)) (snd (guess s now t))"
proof -
  let ?t2 = "t1\<lparr>rateE := es2\<rparr>"
  have r: "agedList now (rateE t) (rateE t1)" "rateOver t1 = rateOver t" "age (entryOf (keyOf s) (rateE t)) now = clearEntry"
    using rateFind_ok [OF ok s f] entryOf_none by auto
  have ok1: "tableOk (rateE t1)" by (rule agedList_tableOk [OF r(1) ok])
  have a2: "agedList now (rateE t1) es2" using freeSlot_ok [OF fr] by simp
  have ok2: "tableOk es2" by (rule agedList_tableOk [OF a2 ok1])
  obtain r2 t3 where g: "rateFind (Some s) now ?t2 = (r2, t3)" by fastforce
  have r2: "r2 = None" using rateFind_again [OF ok s f _ _ g] a2 by auto
  have a3: "agedList now es2 (rateE t3)" using rateFind_ok [OF _ s g] ok2 by auto
  obtain j3 es4 where fr3: "freeSlot now (rateE t3) = (j3, es4)" by fastforce
  note lens = agedList_length [OF a2] agedList_length [OF a3]
  have "es2 ! j = clearEntry" using ok2 freeSlot_ok [OF fr] j lens by (simp add: tableOk_def list_all_length entryOk_def)
  then have "rateE t3 ! j = clearEntry" using a3 j lens by (auto simp: agedList_def list_all2_conv_all_nth)
  then have j3: "j3 < length (rateE t3)"
    using freeSlot_full(1) [of now "rateE t3"] fr3 freeSlot_ok [OF fr3] j lens
    by (metis age_clear clear_ok(2) fst_conv le_neq_implies_less nth_mem)
  have gs: "guess s now t = (True, rateFail (Some s) now ?t2)"
    using f s fr j by (simp add: guess_def rateAllow_def Let_def)
  have rf: "tableOk (rateE (rateFail (Some s) now ?t2))" "rateOver (rateFail (Some s) now ?t2) = rateOver t1"
     "entryOf (keyOf s) (rateE (rateFail (Some s) now ?t2)) = countFail now (clearEntry\<lparr>eIp := keyOf s\<rparr>)"
     "\<And>k. k \<noteq> [] \<Longrightarrow> k \<noteq> keyOf s \<Longrightarrow> onlyAged now (entryOf k es2) (entryOf k (rateE (rateFail (Some s) now ?t2)))"
    using rateFail_new [OF _ s g [unfolded r2] fr3 j3] ok2 by auto
  have "onlyAged now (entryOf k' (rateE t)) (entryOf k' (rateE (rateFail (Some s) now ?t2)))" if "k' \<noteq> []" "k' \<noteq> keyOf s" for k'
    using onlyAged_trans [OF onlyAged_trans [OF agedList_only [OF r(1) ok that(1)] agedList_only [OF a2 ok1 that(1)]] rf(4) [OF that]] .
  then show ?thesis unfolding gs guessEffect_def using rf r by (auto simp: LOGIN_RATE_MAX_FAILS_def)
qed

lemma guess_over:
  assumes ok: "tableOk (rateE t)" and s: "s \<noteq> []" and f: "rateFind (Some s) now t = (None, t1)"
    and fr: "freeSlot now (rateE t1) = (length (rateE t1), es2)"
  shows "guessEffect (keyOf s) now t (fst (guess s now t)) (snd (guess s now t))"
proof -
  let ?t3 = "t1\<lparr>rateE := es2, rateOver := age (rateOver t) now\<rparr>"
  have r: "agedList now (rateE t) (rateE t1)" "rateOver t1 = rateOver t" using rateFind_ok [OF ok s f] by auto
  have ok1: "tableOk (rateE t1)" by (rule agedList_tableOk [OF r(1) ok])
  have a2: "agedList now (rateE t1) es2" using freeSlot_ok [OF fr] by simp
  have ok2: "tableOk es2" by (rule agedList_tableOk [OF a2 ok1])
  have es2: "es2 = map (\<lambda>e. age e now) (rateE t1)" and full: "\<forall>e \<in> set es2. eIp (age e now) \<noteq> []"
    using freeSlot_full [of now "rateE t1"] fr by auto
  have on2: "onlyAged now (entryOf k' (rateE t)) (entryOf k' es2)" if "k' \<noteq> []" for k'
    using onlyAged_trans [OF agedList_only [OF r(1) ok that] agedList_only [OF a2 ok1 that]] .
  have al: "rateAllow (Some s) now t = (eFails (age (rateOver t) now) < LOGIN_RATE_MAX_FAILS, ?t3)"
    using f s fr r by (simp add: rateAllow_def Let_def ageOverflow_def)
  show ?thesis
  proof (cases "eFails (age (rateOver t) now) < LOGIN_RATE_MAX_FAILS")
    case True
    obtain r4 t4 where g4: "rateFind (Some s) now ?t3 = (r4, t4)" by fastforce
    have r4: "r4 = None" using rateFind_again [OF ok s f _ _ g4] a2 by auto
    have "agedList now es2 (rateE t4)" using rateFind_ok [OF _ s g4] ok2 by simp
    then have t4: "rateE t4 = es2" using agedList_aged es2 by blast
    have fr5: "freeSlot now (rateE t4) = (length (rateE t4), es2)"
      using freeSlot_full [of now es2] full t4 es2 by (metis (mono_tags, lifting) agedList_aged freeSlot_ok prod.collapse)
    have gs: "guess s now t = (True, rateFail (Some s) now ?t3)" using al True by (simp add: guess_def Let_def)
    have rf: "rateFail (Some s) now ?t3 = t4\<lparr>rateE := es2, rateOver := countFail now (age (rateOver ?t3) now)\<rparr>"
      by (rule rateFail_over [OF _ s g4 [unfolded r4] fr5]) (simp add: ok2)
    show ?thesis unfolding gs guessEffect_def rf using True on2 ok2 by simp
  next
    case False
    then have gs: "guess s now t = (False, ?t3)" using al by (simp add: guess_def Let_def)
    show ?thesis unfolding gs guessEffect_def using ok2 on2 by simp
  qed
qed

lemma guess_effect:
  assumes ok: "tableOk (rateE t)" and s: "s \<noteq> []"
  shows "guessEffect (keyOf s) now t (fst (guess s now t)) (snd (guess s now t))"
proof -
  obtain r t1 where f: "rateFind (Some s) now t = (r, t1)" by fastforce
  obtain j es2 where fr: "freeSlot now (rateE t1) = (j, es2)" by fastforce
  show ?thesis
  proof (cases r)
    case None
    then show ?thesis using guess_new [OF ok s _ fr] guess_over [OF ok s] f fr freeSlot_ok [OF fr] by fastforce
  qed (use guess_slot [OF ok s] f in auto)
qed

section \<open>How many guesses a source gets\<close>

text \<open>Accounting for one entry: \<open>n\<close> guesses served on it since \<open>t0\<close> are paid for by the five it may
  start with and one for every lockout period that has passed.\<close>

definition entryInv :: "nat \<Rightarrow> nat \<Rightarrow> Entry \<Rightarrow> nat \<Rightarrow> bool" where
  "entryInv t0 n e now \<longleftrightarrow> eFails e \<le> 5 \<and> t0 \<le> now \<and>
     (eFails e = 0 \<longrightarrow> n \<le> (now - t0) div 30000) \<and>
     (0 < eFails e \<and> 0 < n \<longrightarrow>
        (\<exists>r. t0 \<le> r \<and> r \<le> now \<and> t0 \<le> eLast e \<and> eLast e \<le> now \<and> r \<le> eLast e + 30000 \<and>
             n + (5 - eFails e) \<le> 5 + (r - t0) div 30000 \<and>
             (eFails e = 5 \<longrightarrow> r \<le> eLast e \<and> eUntil e = eLast e + 30000)))"

lemma periods_mono: "r \<le> now \<Longrightarrow> (r - t0) div 30000 \<le> (now - t0) div (30000 :: nat)"
  by (intro div_le_mono) simp

lemma periods_step: "(t0 :: nat) \<le> r \<Longrightarrow> (r + 30000 - t0) div 30000 = (r - t0) div 30000 + 1"
proof -
  assume "t0 \<le> r"
  then have eq: "r + 30000 - t0 = (r - t0) + 30000" by simp
  show ?thesis unfolding eq by (rule div_add_self2) simp
qed

lemma periods_quiet: "(t0 :: nat) \<le> l \<Longrightarrow> l + 600000 \<le> now \<Longrightarrow> 6 + (l - t0) div 30000 \<le> (now - t0) div 30000"
proof -
  assume a: "t0 \<le> l" "l + 600000 \<le> now"
  have "6 + (l - t0) div 30000 = (l - t0 + 6 * 30000) div 30000" by simp
  also have "\<dots> \<le> (now - t0) div 30000" using a by (intro div_le_mono) linarith
  finally show ?thesis .
qed

lemma entryInv_time: "entryInv t0 n e now \<Longrightarrow> now \<le> now' \<Longrightarrow> entryInv t0 n e now'"
  unfolding entryInv_def using periods_mono [of now now' t0] by (meson order_trans)

lemma entryInv_age:
  assumes i: "entryInv t0 n e now"
  shows "entryInv t0 n (age e now) now"
proof (cases "eFails e = 0 \<or> n = 0 \<or> age e now = e")
  case True
  then consider "age e now = e" | "eFails e = 0" | "n = 0" by auto
  then show ?thesis
  proof cases
    case 2
    then have "age e now = e" by (simp add: age_def)
    then show ?thesis using i by simp
  next
    case 3
    then show ?thesis using i by (simp add: entryInv_def age_def rate_consts clearEntry_def)
  qed (use i in simp)
next
  case False
  then obtain r where r: "t0 \<le> r" "r \<le> now" "t0 \<le> eLast e" "eLast e \<le> now" "r \<le> eLast e + 30000"
      "n + (5 - eFails e) \<le> 5 + (r - t0) div 30000" "eFails e = 5 \<longrightarrow> r \<le> eLast e \<and> eUntil e = eLast e + 30000"
    using i by (auto simp: entryInv_def)
  show ?thesis
  proof (cases "eLast e + 600000 \<le> now")
    case True
    have "(r - t0) div 30000 \<le> (eLast e + 30000 - t0) div 30000" using r(5) by (intro div_le_mono) simp
    then have "n \<le> 6 + (eLast e - t0) div 30000" using r(6) periods_step [OF r(3)] by linarith
    then have "n \<le> (now - t0) div 30000" using periods_quiet [OF r(3) True] by linarith
    then show ?thesis using True False i by (simp add: entryInv_def age_def rate_consts clearEntry_def)
  next
    case q: False
    then have f: "eFails e = 5" "eUntil e \<le> now" and a: "age e now = e\<lparr>eFails := 4, eUntil := 0\<rparr>"
      using False i by (auto simp: age_def rate_consts entryInv_def split: if_splits)
    have "n + 1 \<le> 5 + (eLast e + 30000 - t0) div 30000"
      using r(6,7) f periods_step [OF r(3)] periods_mono [of r "eLast e" t0] by simp
    then show ?thesis unfolding a entryInv_def using r f i
      by (auto simp: entryInv_def intro!: exI [of _ "eLast e + 30000"])
  qed
qed

lemma entryInv_count:
  assumes i: "entryInv t0 n a now" and f: "eFails a < 5"
  shows "entryInv t0 (Suc n) (countFail now a) now"
proof -
  have c: "eFails (countFail now a) = Suc (eFails a)" "eLast (countFail now a) = now"
      "Suc (eFails a) = 5 \<Longrightarrow> eUntil (countFail now a) = now + 30000"
    using f by (simp_all add: countFail_def rate_consts Let_def)
  have "n + (5 - eFails a) \<le> 5 + (now - t0) div 30000"
    using i periods_mono [of _ now t0] by (cases "eFails a = 0 \<or> n = 0") (auto simp: entryInv_def intro: order_trans)
  then have "Suc n + (5 - Suc (eFails a)) \<le> 5 + (now - t0) div 30000" using f by linarith
  then show ?thesis unfolding entryInv_def c using i f c(3) by (auto simp: entryInv_def intro!: exI [of _ now])
qed

lemma entryInv_bound: "entryInv t0 n e now \<Longrightarrow> n \<le> 5 + (now - t0) div 30000"
  using periods_mono [of _ now t0] by (cases "eFails e = 0 \<or> n = 0") (auto simp: entryInv_def intro: order_trans)

lemma entryInv_only: "onlyAged now e e' \<Longrightarrow> entryInv t0 n e now \<Longrightarrow> entryInv t0 n e' now"
  by (auto simp: onlyAged_def intro: entryInv_age)

lemma rateAllow_effect:
  assumes ok: "tableOk (rateE t)" and s: "s \<noteq> []"
  shows "tableOk (rateE (snd (rateAllow (Some s) now t))) \<and>
         (\<forall>k \<noteq> []. onlyAged now (entryOf k (rateE t)) (entryOf k (rateE (snd (rateAllow (Some s) now t))))) \<and>
         onlyAged now (rateOver t) (rateOver (snd (rateAllow (Some s) now t)))"
proof -
  obtain r t1 where f: "rateFind (Some s) now t = (r, t1)" by fastforce
  obtain j es2 where fr: "freeSlot now (rateE t1) = (j, es2)" by fastforce
  have a1: "agedList now (rateE t) (rateE t1)" "rateOver t1 = rateOver t" using rateFind_ok [OF ok s f] by auto
  have ok1: "tableOk (rateE t1)" by (rule agedList_tableOk [OF a1(1) ok])
  have a2: "agedList now (rateE t1) es2" using freeSlot_ok [OF fr] by simp
  have on2: "onlyAged now (entryOf k (rateE t)) (entryOf k es2)" if "k \<noteq> []" for k
    using onlyAged_trans [OF agedList_only [OF a1(1) ok that] agedList_only [OF a2 ok1 that]] .
  show ?thesis
    using f fr a1 ok1 agedList_only [OF a1(1) ok] on2 agedList_tableOk [OF a2 ok1] s
    by (cases r) (auto simp: rateAllow_def ageOverflow_def Let_def)
qed

lemma age_zero: "entryOk e \<Longrightarrow> age e 0 = e"
  by (auto simp: age_def entryOk_def rate_consts)

lemma rateReset_effect:
  assumes ok: "tableOk (rateE t)" and s: "s \<noteq> []"
  shows "tableOk (rateE (rateReset (Some s) t)) \<and> rateOver (rateReset (Some s) t) = rateOver t \<and>
         (\<forall>k \<noteq> []. k \<noteq> keyOf s \<longrightarrow> entryOf k (rateE (rateReset (Some s) t)) = entryOf k (rateE t))"
proof -
  obtain r t1 where f: "rateFind (Some s) 0 t = (r, t1)" by fastforce
  have a1: "agedList 0 (rateE t) (rateE t1)" "rateOver t1 = rateOver t"
    and c: "case r of None \<Rightarrow> True | Some i \<Rightarrow> i < length (rateE t1) \<and> eIp (rateE t1 ! i) = keyOf s"
    using rateFind_ok [OF ok s f] by (auto split: option.splits)
  have same: "entryOf k (rateE t1) = entryOf k (rateE t)" if "k \<noteq> []" for k
    using agedList_only [OF a1(1) ok that] entryOf_ok [OF ok] age_zero by (metis onlyAged_def)
  have ok1: "tableOk (rateE t1)" by (rule agedList_tableOk [OF a1(1) ok])
  show ?thesis
  proof (cases r)
    case None
    then show ?thesis using f ok1 a1 same by (simp add: rateReset_def)
  next
    case (Some i)
    then have i: "i < length (rateE t1)" "eIp (rateE t1 ! i) = keyOf s" using c by auto
    have "tableOk ((rateE t1)[i := clearEntry])" by (rule tableOk_update [OF ok1 i(1)]) auto
    moreover have "entryOf k ((rateE t1)[i := clearEntry]) = entryOf k (rateE t)" if "k \<noteq> []" "k \<noteq> keyOf s" for k
      using entryOf_update [OF ok1 i(1) keyOf_nonempty [OF s], of clearEntry k] i(2) that same by simp
    ultimately show ?thesis using f Some a1 by (simp add: rateReset_def)
  qed
qed

text \<open>Login traffic: wrong guesses, successful logins and requests that offer no credential.\<close>

datatype loginEv = Wrong string nat | Right string nat | NoGuess string nat

fun evTime :: "loginEv \<Rightarrow> nat" where
  "evTime (Wrong ip now) = now" | "evTime (Right ip now) = now" | "evTime (NoGuess ip now) = now"

fun evIp :: "loginEv \<Rightarrow> string" where
  "evIp (Wrong ip now) = ip" | "evIp (Right ip now) = ip" | "evIp (NoGuess ip now) = ip"

fun loginStep :: "loginEv \<Rightarrow> LoginRateTable \<Rightarrow> bool \<times> LoginRateTable" where
  "loginStep (Wrong ip now) t = guess ip now t"
| "loginStep (Right ip now) t =
     (let r = rateAllow (Some ip) now t in (False, if fst r then rateReset (Some ip) (snd r) else snd r))"
| "loginStep (NoGuess ip now) t = (False, snd (rateAllow (Some ip) now t))"

text \<open>The wrong guesses from the sources of one key that were served.\<close>

fun servedGuesses :: "string \<Rightarrow> loginEv list \<Rightarrow> LoginRateTable \<Rightarrow> nat" where
  "servedGuesses k [] t = 0"
| "servedGuesses k (ev # evs) t =
     (if fst (loginStep ev t) \<and> keyOf (evIp ev) = k then 1 else 0) + servedGuesses k evs (snd (loginStep ev t))"

definition sourceInv :: "nat \<Rightarrow> string \<Rightarrow> nat \<Rightarrow> nat \<Rightarrow> LoginRateTable \<Rightarrow> nat \<Rightarrow> bool" where
  "sourceInv t0 k a b t now \<longleftrightarrow> tableOk (rateE t) \<and> entryInv t0 a (entryOf k (rateE t)) now \<and> entryInv t0 b (rateOver t) now"

lemma sourceInv_only:
  "sourceInv t0 k a b t now \<Longrightarrow> tableOk (rateE t') \<Longrightarrow> onlyAged now (entryOf k (rateE t)) (entryOf k (rateE t')) \<Longrightarrow>
   onlyAged now (rateOver t) (rateOver t') \<Longrightarrow> sourceInv t0 k a b t' now"
  by (auto simp: sourceInv_def intro: entryInv_only)

lemma entryInv_ip [simp]: "entryInv t0 n (e\<lparr>eIp := x\<rparr>) now = entryInv t0 n e now"
  by (simp add: entryInv_def)

lemma guess_cases:
  assumes i: "sourceInv t0 k a b t now" and s: "s \<noteq> []" and k: "k \<noteq> []"
  obtains (aged) "\<not> (fst (guess s now t) \<and> keyOf s = k)" "onlyAged now (entryOf k (rateE t)) (entryOf k (rateE (snd (guess s now t))))"
      "onlyAged now (rateOver t) (rateOver (snd (guess s now t)))"
    | (slot) e where "entryOf k (rateE (snd (guess s now t))) = countFail now e" "entryInv t0 a e now" "eFails e < 5"
      "onlyAged now (rateOver t) (rateOver (snd (guess s now t)))"
    | (over) "eFails (age (rateOver t) now) < 5" "rateOver (snd (guess s now t)) = countFail now (age (rateOver t) now)"
      "onlyAged now (entryOf k (rateE t)) (entryOf k (rateE (snd (guess s now t))))"
proof (cases "fst (guess s now t)")
  case False
  then show thesis using guess_effect [of t s now] i s k aged unfolding guessEffect_def sourceInv_def by blast
next
  case served: True
  let ?t' = "snd (guess s now t)"
  have ge: "guessEffect (keyOf s) now t True ?t'" using guess_effect [of t s now] i s served by (simp add: sourceInv_def)
  show thesis
  proof (cases "eFails (age (rateOver t) now) < LOGIN_RATE_MAX_FAILS \<and> rateOver ?t' = countFail now (age (rateOver t) now) \<and>
     (\<forall>k' \<noteq> []. onlyAged now (entryOf k' (rateE t)) (entryOf k' (rateE ?t')))")
    case True
    then show thesis using over k unfolding LOGIN_RATE_MAX_FAILS_def by blast
  next
    case False
    then obtain e where e: "eFails (age (entryOf (keyOf s) (rateE t)) now) < 5" "entryOf (keyOf s) (rateE ?t') = countFail now e"
        "e = clearEntry\<lparr>eIp := keyOf s\<rparr> \<and> age (entryOf (keyOf s) (rateE t)) now = clearEntry \<or> e = age (entryOf (keyOf s) (rateE t)) now"
        "\<forall>k' \<noteq> []. k' \<noteq> keyOf s \<longrightarrow> onlyAged now (entryOf k' (rateE t)) (entryOf k' (rateE ?t'))" "onlyAged now (rateOver t) (rateOver ?t')"
      using ge unfolding guessEffect_def LOGIN_RATE_MAX_FAILS_def by blast
    show thesis
    proof (cases "keyOf s = k")
      case True
      have "entryInv t0 a (age (entryOf k (rateE t)) now) now" using entryInv_age i unfolding sourceInv_def by blast
      then have "entryInv t0 a e now" "eFails e < 5" using e(1,3) True by auto
      then show thesis using slot True e by blast
    qed (use aged e k in blast)
  qed
qed

lemma guess_sourceInv:
  assumes i: "sourceInv t0 k a b t now" and s: "s \<noteq> []" and k: "k \<noteq> []"
  shows "\<exists>a' b'. sourceInv t0 k a' b' (snd (guess s now t)) now \<and>
           (if fst (guess s now t) \<and> keyOf s = k then 1 else 0) + a + b \<le> a' + b'"
proof -
  note ti = i [unfolded sourceInv_def]
  let ?t' = "snd (guess s now t)"
  have ok': "tableOk (rateE ?t')" using guess_effect [of t s now] s ti by (simp add: guessEffect_def)
  show ?thesis
  proof (cases rule: guess_cases [OF i s k])
    case 1
    then have "sourceInv t0 k a b ?t' now" using sourceInv_only [OF i ok'] by blast
    then show ?thesis using 1 by (intro exI [of _ a] exI [of _ b]) auto
  next
    case (2 e)
    then have "sourceInv t0 k (Suc a) b ?t' now"
      using ok' ti entryInv_count [OF 2(2,3)] entryInv_only [OF 2(4)] by (simp add: sourceInv_def)
    then show ?thesis by (intro exI [of _ "Suc a"] exI [of _ b]) auto
  next
    case 3
    have "entryInv t0 (Suc b) (rateOver ?t') now" using 3 ti entryInv_count entryInv_age by simp
    then have "sourceInv t0 k a (Suc b) ?t' now" using ok' ti entryInv_only [OF 3(3)] by (simp add: sourceInv_def)
    then show ?thesis by (intro exI [of _ a] exI [of _ "Suc b"]) auto
  qed
qed

lemma loginStep_sourceInv:
  assumes i: "sourceInv t0 k a b t now" and s: "evIp ev \<noteq> []" and k: "k \<noteq> []" and now: "evTime ev = now"
    and r: "\<And>ip n. ev = Right ip n \<Longrightarrow> keyOf ip \<noteq> k"
  shows "\<exists>a' b'. sourceInv t0 k a' b' (snd (loginStep ev t)) now \<and>
           (if fst (loginStep ev t) \<and> keyOf (evIp ev) = k then 1 else 0) + a + b \<le> a' + b'"
proof -
  have ok: "tableOk (rateE t)" using i by (simp add: sourceInv_def)
  let ?t1 = "snd (rateAllow (Some (evIp ev)) now t)"
  have al: "sourceInv t0 k a b ?t1 now"
    using sourceInv_only [OF i] rateAllow_effect [OF ok s, of now] k by blast
  show ?thesis
  proof (cases ev)
    case (Wrong ip n)
    then show ?thesis using guess_sourceInv [OF i _ k, of ip] s now by auto
  next
    case (Right ip n)
    have "sourceInv t0 k a b (rateReset (Some ip) ?t1) now"
      using rateReset_effect [of ?t1 ip] al Right s k r [OF Right] by (auto simp: sourceInv_def)
    then show ?thesis using Right now al by (intro exI [of _ a] exI [of _ b]) (auto simp: Let_def)
  next
    case (NoGuess ip n)
    then show ?thesis using al now by (intro exI [of _ a] exI [of _ b]) auto
  qed
qed

lemma servedGuesses_bound:
  "sourceInv t0 k a b t now \<Longrightarrow> k \<noteq> [] \<Longrightarrow> sorted (now # map evTime evs) \<Longrightarrow> (\<forall>ev \<in> set evs. evIp ev \<noteq> [] \<and> (\<forall>ip n. ev = Right ip n \<longrightarrow> keyOf ip \<noteq> k)) \<Longrightarrow>
   servedGuesses k evs t + a + b \<le> 2 * (5 + (last (now # map evTime evs) - t0) div 30000)"
proof (induction evs arbitrary: a b t now)
  case Nil
  then show ?case using entryInv_bound [of t0 a _ now] entryInv_bound [of t0 b _ now] by (fastforce simp: sourceInv_def)
next
  case (Cons ev evs)
  have "sourceInv t0 k a b t (evTime ev)" using Cons.prems by (auto simp: sourceInv_def intro: entryInv_time)
  then obtain a' b' where s: "sourceInv t0 k a' b' (snd (loginStep ev t)) (evTime ev)"
      "(if fst (loginStep ev t) \<and> keyOf (evIp ev) = k then 1 else 0) + a + b \<le> a' + b'"
    using loginStep_sourceInv [of t0 k a b t "evTime ev" ev] Cons.prems by auto
  have "servedGuesses k evs (snd (loginStep ev t)) + a' + b' \<le> 2 * (5 + (last (evTime ev # map evTime evs) - t0) div 30000)"
    using Cons.IH [OF s(1)] Cons.prems by simp
  then show ?case using s(2) by simp
qed


lemma rateInit_ok: "tableOk (rateE (rateInit n))" "eFails (rateOver (rateInit n)) = 0"
  by (auto simp: rateInit_def tableOk_def list_all_length)


text \<open>The lockout itself: the fifth failure refuses the source until it ends, whatever others do.\<close>

lemma lockout_holds:
  assumes "tableOk (rateE t)" "s \<noteq> []" "eFails (entryOf (keyOf s) (rateE t)) = LOGIN_RATE_MAX_FAILS"
    "now < eUntil (entryOf (keyOf s) (rateE t))" "now < eLast (entryOf (keyOf s) (rateE t)) + LOGIN_RATE_QUIET_MS"
  shows "\<not> fst (rateAllow (Some s) now t)"
proof -
  obtain r t1 where f: "rateFind (Some s) now t = (r, t1)" by fastforce
  let ?e = "entryOf (keyOf s) (rateE t)"
  have e: "age ?e now = ?e" using assms by (simp add: age_def)
  have r: "agedList now (rateE t) (rateE t1)" "entryOf (keyOf s) (rateE t1) = ?e"
      "case r of None \<Rightarrow> keyOf s \<notin> eIp ` set (rateE t1) | Some i \<Rightarrow> i < length (rateE t1) \<and> eIp (rateE t1 ! i) = keyOf s"
    using rateFind_ok [OF assms(1,2) f] e by auto
  have "entryOf (keyOf s) (rateE t1) \<noteq> clearEntry" using r(2) assms(3) by (auto simp: LOGIN_RATE_MAX_FAILS_def)
  then have "r \<noteq> None" using r(3) entryOf_none [of "keyOf s" "rateE t1"] by (cases r) auto
  then obtain i where i: "r = Some i" by auto
  then have "rateE t1 ! i = ?e"
    using r entryOf_nth [OF agedList_tableOk [OF r(1) assms(1)], of i] keyOf_nonempty [OF assms(2)] by simp
  then show ?thesis using f i assms(3) by (simp add: rateAllow_def)
qed

end
