(* ===== verification/Http_Auth.thy ===== *)
theory Http_Auth
  imports Secret_Store Login_Rate Fw_Ring
begin

unbundle bit_operations_syntax

text \<open>
  Authentication of the web server: the pure headers \<open>web_auth_policy.h\<close>, \<open>web_snapshot_policy.h\<close> and
  \<open>ttl_policy.h\<close>, and the parts of \<open>HttpServer.cpp\<close> that use them: Bearer tokens, the one-time WebSocket
  grants, the check every admin route makes and the login routes with their lockout.

  Time is 64-bit uptime in milliseconds, a natural number here. The check of a Basic credential is
  \<open>AsyncWebServerRequest::authenticate\<close>, a parameter of the model.
\<close>

section \<open>Definitions\<close>

subsection \<open>The pure predicates\<close>

definition webAuthPassIsDefault :: "cstr \<Rightarrow> bool" where
  "webAuthPassIsDefault pass = (case pass of None \<Rightarrow> True | Some p \<Rightarrow> p = [] \<or> p = ''changeme'')"

definition webAuthAllowed :: "bool \<Rightarrow> bool \<Rightarrow> bool \<Rightarrow> bool" where
  "webAuthAllowed passIsDefault bearerValid basicOk = (if passIsDefault then False else bearerValid \<or> basicOk)"

definition webAuthMethodChangesState :: "cstr \<Rightarrow> bool" where
  "webAuthMethodChangesState m =
     (case m of None \<Rightarrow> True | Some s \<Rightarrow> \<not> (s = ''GET'' \<or> s = ''HEAD'' \<or> s = ''OPTIONS''))"

definition webAuthCountsAsGuess :: "bool \<Rightarrow> bool \<Rightarrow> bool \<Rightarrow> bool" where
  "webAuthCountsAsGuess allowed basicAllowed credentialOffered \<longleftrightarrow> \<not> allowed \<and> basicAllowed \<and> credentialOffered"

definition webAuthBasicAllowed :: "bool \<Rightarrow> cstr \<Rightarrow> bool" where
  "webAuthBasicAllowed stateChanging site =
     (case site of None \<Rightarrow> True
      | Some s \<Rightarrow> if s = [] then True else if \<not> stateChanging then True else s \<noteq> ''cross-site'')"

definition ttlActive :: "nat \<Rightarrow> nat \<Rightarrow> bool" where
  "ttlActive now expiry \<longleftrightarrow> expiry \<noteq> 0 \<and> now < expiry"

subsection \<open>The credential snapshot\<close>

definition WEB_SNAP_USER_CAP :: nat where "WEB_SNAP_USER_CAP = 64"

definition WEB_SNAP_PASS_CAP :: nat where "WEB_SNAP_PASS_CAP = 160"

definition WEB_SNAP_NAME_CAP :: nat where "WEB_SNAP_NAME_CAP = 64"

definition WEB_SNAP_NAME_DEFAULT :: string where "WEB_SNAP_NAME_DEFAULT = ''thesada-node''"

record WebSnap =
  userFits :: bool
  passFits :: bool
  snapUser :: string
  passCfg :: string
  devName :: string

definition webSnapCopy :: "nat \<Rightarrow> cstr \<Rightarrow> string \<times> bool" where
  "webSnapCopy cap src =
     (let s = (case src of None \<Rightarrow> '''' | Some x \<Rightarrow> x) in if cap \<le> length s then ('''', False) else (s, True))"

definition webSnapFill :: "cstr \<Rightarrow> cstr \<Rightarrow> cstr \<Rightarrow> WebSnap" where
  "webSnapFill user pass dev =
     (let u = webSnapCopy WEB_SNAP_USER_CAP user; p = webSnapCopy WEB_SNAP_PASS_CAP pass;
          d = webSnapCopy WEB_SNAP_NAME_CAP dev;
          d' = (if snd d then d else webSnapCopy WEB_SNAP_NAME_CAP (Some WEB_SNAP_NAME_DEFAULT))
      in \<lparr>userFits = snd u, passFits = snd p, snapUser = fst u, passCfg = fst p, devName = fst d'\<rparr>)"

datatype WebCredState = WEB_CRED_OK | WEB_CRED_DEFAULT | WEB_CRED_TOO_LONG

definition webCredState :: "WebSnap \<Rightarrow> cstr \<Rightarrow> WebCredState" where
  "webCredState s pass =
     (if \<not> userFits s then WEB_CRED_TOO_LONG
      else if \<not> passFits s \<and> (pass = None \<or> pass = Some '''') then WEB_CRED_TOO_LONG
      else if webAuthPassIsDefault pass then WEB_CRED_DEFAULT
      else WEB_CRED_OK)"

text \<open>\<open>_webCred\<close>: the state, the user and the effective password.\<close>

definition webCred :: "secIo \<Rightarrow> secretNs \<Rightarrow> WebSnap \<Rightarrow> WebCredState \<times> string \<times> string" where
  "webCred io ns snap =
     (let p = secretResolve io ns (Some ''web_password'') (Some (passCfg snap)) True SECRET_MAX_LEN
      in (webCredState snap (Some p), fst (webSnapCopy WEB_SNAP_USER_CAP (Some (snapUser snap))), p))"

subsection \<open>Bearer tokens\<close>

definition MAX_TOKENS :: nat where "MAX_TOKENS = 4"

definition TOKEN_TTL_MS :: nat where "TOKEN_TTL_MS = 3600000"

definition TOKEN_LEN :: nat where "TOKEN_LEN = 16"

record TokenEntry =
  tkToken :: string
  tkExpiry :: nat

definition tokensInit :: "TokenEntry list" where
  "tokensInit = replicate MAX_TOKENS \<lparr>tkToken = '''', tkExpiry = 0\<rparr>"

text \<open>The slot loop of \<open>_createToken\<close>: the first dead slot, else the one that expires first.\<close>

fun tokenSlot :: "nat \<Rightarrow> TokenEntry list \<Rightarrow> nat list \<Rightarrow> nat \<Rightarrow> nat" where
  "tokenSlot now ts [] slot = slot"
| "tokenSlot now ts (i # is) slot =
     (if \<not> ttlActive now (tkExpiry (ts ! i)) then i
      else tokenSlot now ts is (if tkExpiry (ts ! i) < tkExpiry (ts ! slot) then i else slot))"

text \<open>\<open>fresh\<close> is the random token \<open>_genToken\<close> wrote.\<close>

definition createToken :: "nat \<Rightarrow> string \<Rightarrow> TokenEntry list \<Rightarrow> TokenEntry list" where
  "createToken now fresh ts = ts[tokenSlot now ts [0..<MAX_TOKENS] 0 := \<lparr>tkToken = fresh, tkExpiry = now + TOKEN_TTL_MS\<rparr>]"

text \<open>The bytes of a token buffer: the text, then zeros.\<close>

definition byteAt :: "string \<Rightarrow> nat \<Rightarrow> u8" where
  "byteAt s i = (if i < length s then of_nat (ccode (s ! i)) else 0)"

definition constTimeEq :: "string \<Rightarrow> string \<Rightarrow> nat \<Rightarrow> bool" where
  "constTimeEq a b len = (foldl (\<lambda>d i. d OR (byteAt a i XOR byteAt b i)) 0 [0..<len] = 0)"

definition validateToken :: "nat \<Rightarrow> cstr \<Rightarrow> TokenEntry list \<Rightarrow> bool" where
  "validateToken now token ts =
     (case token of None \<Rightarrow> False
      | Some s \<Rightarrow>
          (if length s \<noteq> TOKEN_LEN * 2 then False
           else foldl (\<lambda>found i. if ttlActive now (tkExpiry (ts ! i)) \<and> constTimeEq (tkToken (ts ! i)) s (length s)
                                 then True else found) False [0..<MAX_TOKENS]))"

subsection \<open>One-time WebSocket grants\<close>

record WsAuth =
  wsIp :: string
  wsExpiry :: nat

definition wsInit :: "WsAuth list" where
  "wsInit = replicate 4 \<lparr>wsIp = '''', wsExpiry = 0\<rparr>"

fun wsSlot :: "nat \<Rightarrow> WsAuth list \<Rightarrow> nat list \<Rightarrow> nat" where
  "wsSlot now ws [] = 0"
| "wsSlot now ws (i # is) = (if \<not> ttlActive now (wsExpiry (ws ! i)) then i else wsSlot now ws is)"

definition grantWsAuth :: "nat \<Rightarrow> string \<Rightarrow> WsAuth list \<Rightarrow> WsAuth list" where
  "grantWsAuth now ip ws = ws[wsSlot now ws [0..<4] := \<lparr>wsIp = take 19 ip, wsExpiry = now + 30000\<rparr>]"

fun consumeLoop :: "nat \<Rightarrow> string \<Rightarrow> WsAuth list \<Rightarrow> nat list \<Rightarrow> bool \<times> WsAuth list" where
  "consumeLoop now ip ws [] = (False, ws)"
| "consumeLoop now ip ws (i # is) =
     (if ttlActive now (wsExpiry (ws ! i)) \<and> wsIp (ws ! i) = ip
      then (True, ws[i := (ws ! i)\<lparr>wsExpiry := 0\<rparr>]) else consumeLoop now ip ws is)"

definition consumeWsAuth :: "nat \<Rightarrow> string \<Rightarrow> WsAuth list \<Rightarrow> bool \<times> WsAuth list" where
  "consumeWsAuth now ip ws = consumeLoop now ip ws [0..<4]"

subsection \<open>The check\<close>

record httpReq =
  rqAuth :: "string option"       \<comment> \<open>the \<open>Authorization\<close> header\<close>
  rqMethod :: cstr
  rqSecFetchSite :: "string option"
  rqIp :: string

text \<open>Returns the verdict and whether it was a wrong guess. \<open>authenticate\<close> stands for the server
  library's check of the request's Basic credential against a user and a password.\<close>

definition checkAuth ::
    "(httpReq \<Rightarrow> string \<Rightarrow> string \<Rightarrow> bool) \<Rightarrow> WebCredState \<times> string \<times> string \<Rightarrow> nat \<Rightarrow> TokenEntry list \<Rightarrow> bool \<Rightarrow> httpReq \<Rightarrow> bool \<times> bool" where
  "checkAuth authenticate cred now tokens hasSideEffect req =
     (let passIsDefault = (fst cred \<noteq> WEB_CRED_OK);
          bearerOffered = (case rqAuth req of None \<Rightarrow> False | Some h \<Rightarrow> prefix ''Bearer '' h);
          bearerValid = (case rqAuth req of None \<Rightarrow> False
                         | Some h \<Rightarrow> prefix ''Bearer '' h \<and> validateToken now (Some (drop 7 h)) tokens);
          basicOffered = (case rqAuth req of None \<Rightarrow> False
                          | Some h \<Rightarrow> \<not> prefix ''Bearer '' h \<and> prefix ''Basic '' h);
          stateChanging = (hasSideEffect \<or> webAuthMethodChangesState (rqMethod req));
          basicAllowed = webAuthBasicAllowed stateChanging (rqSecFetchSite req);
          basicOk = (\<not> passIsDefault \<and> \<not> bearerValid \<and> basicAllowed \<and> authenticate req (fst (snd cred)) (snd (snd cred)));
          allowed = webAuthAllowed passIsDefault bearerValid basicOk
      in (allowed, webAuthCountsAsGuess allowed (basicAllowed \<and> \<not> passIsDefault) (basicOffered \<or> bearerOffered)))"

subsection \<open>The login routes\<close>

record webState =
  wbTokens :: "TokenEntry list"
  wbRate :: LoginRateTable

datatype loginReply = TooMany | Locked WebCredState | Unauthorized | Granted "string option"

text \<open>\<open>POST /api/login\<close> (\<open>issue\<close> is the fresh token) and \<open>GET /api/auth/check\<close> (no token, counted as
  having a side effect). All clock reads of one request give \<open>now\<close>.\<close>

definition loginRoute ::
    "(httpReq \<Rightarrow> string \<Rightarrow> string \<Rightarrow> bool) \<Rightarrow> WebCredState \<times> string \<times> string \<Rightarrow> nat \<Rightarrow> string option \<Rightarrow> httpReq \<Rightarrow> webState \<Rightarrow> loginReply \<times> webState" where
  "loginRoute authenticate cred now issue req w =
     (let al = rateAllow (Some (rqIp req)) now (wbRate w); w1 = w\<lparr>wbRate := snd al\<rparr>
      in if \<not> fst al then (TooMany, w1)
         else if fst cred \<noteq> WEB_CRED_OK then (Locked (fst cred), w1)
         else let c = checkAuth authenticate cred now (wbTokens w1) (issue = None) req
              in if \<not> fst c
                 then (Unauthorized, if snd c then w1\<lparr>wbRate := rateFail (Some (rqIp req)) now (wbRate w1)\<rparr> else w1)
                 else let w2 = w1\<lparr>wbRate := rateReset (Some (rqIp req)) (wbRate w1)\<rparr>
                      in (Granted issue, case issue of None \<Rightarrow> w2
                                         | Some tok \<Rightarrow> w2\<lparr>wbTokens := createToken now tok (wbTokens w2)\<rparr>))"

section \<open>Constant-time comparison\<close>

lemma or_zero_iff: "(a OR b :: u8) = 0 \<longleftrightarrow> a = 0 \<and> b = 0"
  by (auto simp: bit_eq_iff bit_or_iff)

lemma xor_zero_iff: "(a XOR b :: u8) = 0 \<longleftrightarrow> a = b"
  by (auto simp: bit_eq_iff bit_xor_iff)

lemma foldl_or_zero: "foldl (\<lambda>d i. d OR f i) (d0 :: u8) xs = 0 \<longleftrightarrow> d0 = 0 \<and> (\<forall>i \<in> set xs. f i = 0)"
  by (induction xs arbitrary: d0) (auto simp: or_zero_iff)

lemma ccode_byte: "(of_nat (ccode c) :: u8) = of_nat (ccode d) \<longleftrightarrow> c = d"
proof
  assume "(of_nat (ccode c) :: u8) = of_nat (ccode d)"
  then have "unat (of_nat (ccode c) :: u8) = unat (of_nat (ccode d) :: u8)" by simp
  then have "ccode c = ccode d" by (simp add: unat_of_nat_small)
  then show "c = d" by (simp add: ccode_inject)
qed simp

text \<open>The loop without an early exit computes equality of the two texts.\<close>

lemma constTimeEq_iff:
  assumes "length a = n" "length b = n"
  shows "constTimeEq a b n \<longleftrightarrow> a = b"
proof -
  have "constTimeEq a b n \<longleftrightarrow> (\<forall>i < n. byteAt a i = byteAt b i)"
    by (auto simp: constTimeEq_def foldl_or_zero xor_zero_iff)
  also have "\<dots> \<longleftrightarrow> (\<forall>i < n. a ! i = b ! i)" using assms by (auto simp: byteAt_def ccode_byte)
  also have "\<dots> \<longleftrightarrow> a = b" using assms by (auto simp: list_eq_iff_nth_eq)
  finally show ?thesis .
qed

section \<open>Tokens\<close>

lemma foldl_found: "foldl (\<lambda>found i. if P i then True else found) b xs \<longleftrightarrow> b \<or> (\<exists>i \<in> set xs. P i)"
  by (induction xs arbitrary: b) auto

text \<open>Tokens in slots have the full length, or the slot was never used.\<close>

definition tokLens :: "TokenEntry list \<Rightarrow> bool" where
  "tokLens ts \<longleftrightarrow> length ts = MAX_TOKENS \<and> (\<forall>e \<in> set ts. tkExpiry e \<noteq> 0 \<longrightarrow> length (tkToken e) = TOKEN_LEN * 2)"

lemma validateToken_iff:
  assumes "tokLens ts" "length s = TOKEN_LEN * 2"
  shows "validateToken now (Some s) ts \<longleftrightarrow> (\<exists>i < MAX_TOKENS. ttlActive now (tkExpiry (ts ! i)) \<and> tkToken (ts ! i) = s)"
proof -
  have "ttlActive now (tkExpiry (ts ! i)) \<and> constTimeEq (tkToken (ts ! i)) s (length s) \<longleftrightarrow>
        ttlActive now (tkExpiry (ts ! i)) \<and> tkToken (ts ! i) = s" if "i < MAX_TOKENS" for i
  proof (cases "ttlActive now (tkExpiry (ts ! i))")
    case True
    then have "length (tkToken (ts ! i)) = length s" using assms that by (auto simp: tokLens_def ttlActive_def)
    then show ?thesis using constTimeEq_iff [of "tkToken (ts ! i)" "length s" s] by simp
  qed simp
  then show ?thesis using assms by (auto simp: validateToken_def foldl_found)
qed

text \<open>The slot the loop picks: a dead one, or among live ones the first to expire.\<close>

lemma tokenSlot_cases:
  assumes "slot < n" "set is \<subseteq> {..<n}" "\<forall>i < n. i \<notin> set is \<longrightarrow> ttlActive now (tkExpiry (ts ! i)) \<and> tkExpiry (ts ! slot) \<le> tkExpiry (ts ! i)"
  shows "tokenSlot now ts is slot < n \<and>
         (\<not> ttlActive now (tkExpiry (ts ! tokenSlot now ts is slot)) \<or>
          (\<forall>i < n. ttlActive now (tkExpiry (ts ! i)) \<and> tkExpiry (ts ! tokenSlot now ts is slot) \<le> tkExpiry (ts ! i)))"
  using assms
proof (induction "is" arbitrary: slot)
  case (Cons i "is")
  show ?case
  proof (cases "ttlActive now (tkExpiry (ts ! i))")
    case True
    let ?s = "if tkExpiry (ts ! i) < tkExpiry (ts ! slot) then i else slot"
    have "\<forall>j < n. j \<notin> set is \<longrightarrow> ttlActive now (tkExpiry (ts ! j)) \<and> tkExpiry (ts ! ?s) \<le> tkExpiry (ts ! j)"
      using Cons.prems True by (auto intro: order_trans less_imp_le)
    then show ?thesis using Cons.IH [of ?s] Cons.prems True by auto
  qed (use Cons.prems in auto)
qed auto

definition tokInv :: "(string \<times> nat) list \<Rightarrow> TokenEntry list \<Rightarrow> nat \<Rightarrow> bool" where
  "tokInv iss ts now \<longleftrightarrow> tokLens ts \<and> sorted_wrt (<) (map snd iss) \<and> (\<forall>e \<in> set iss. snd e \<le> now) \<and>
     (\<forall>i < MAX_TOKENS. ttlActive now (tkExpiry (ts ! i)) \<longrightarrow>
        (\<exists>t. (tkToken (ts ! i), t) \<in> set (newest MAX_TOKENS iss) \<and> tkExpiry (ts ! i) = t + TOKEN_TTL_MS)) \<and>
     (\<forall>e \<in> set (newest MAX_TOKENS iss). now < snd e + TOKEN_TTL_MS \<longrightarrow>
        (\<exists>i < MAX_TOKENS. tkToken (ts ! i) = fst e \<and> tkExpiry (ts ! i) = snd e + TOKEN_TTL_MS)) \<and>
     (\<forall>i < MAX_TOKENS. \<forall>j < MAX_TOKENS. i \<noteq> j \<and> ttlActive now (tkExpiry (ts ! i)) \<and> ttlActive now (tkExpiry (ts ! j)) \<longrightarrow>
        tkExpiry (ts ! i) \<noteq> tkExpiry (ts ! j))"

lemma tokInv_validate:
  "tokInv iss ts now \<Longrightarrow> length s = TOKEN_LEN * 2 \<Longrightarrow>
     validateToken now (Some s) ts \<longleftrightarrow> (\<exists>t. (s, t) \<in> set (newest MAX_TOKENS iss) \<and> now < t + TOKEN_TTL_MS)"
  by (fastforce simp: tokInv_def validateToken_iff ttlActive_def)

lemma ttlActive_earlier: "ttlActive now' e \<Longrightarrow> now \<le> now' \<Longrightarrow> ttlActive now e"
  by (simp add: ttlActive_def)

lemma tokInv_time: "tokInv iss ts now \<Longrightarrow> now \<le> now' \<Longrightarrow> tokInv iss ts now'"
  unfolding tokInv_def by (meson ttlActive_earlier le_less_trans order_trans)

lemma tokInv_init: "tokInv [] tokensInit 0"
  by (auto simp: tokInv_def tokensInit_def tokLens_def ttlActive_def newest_def)

abbreviation expOf :: "string \<times> nat \<Rightarrow> nat" where
  "expOf e \<equiv> snd e + TOKEN_TTL_MS"

lemma in_tl: "x \<in> set (tl xs) \<Longrightarrow> x \<in> set xs"
  by (cases xs) auto

lemma newest_sorted: "sorted_wrt (<) (map snd iss) \<Longrightarrow> sorted_wrt (<) (map snd (newest n iss))"
  unfolding newest_def by (metis drop_map sorted_wrt_drop)

lemma strict_expiries:
  assumes "sorted_wrt (<) (map snd (xs :: (string \<times> nat) list))"
  shows "distinct (map expOf xs)" "e \<in> set xs \<Longrightarrow> e' \<in> set xs \<Longrightarrow> snd e = snd e' \<Longrightarrow> e = e'"
proof -
  have "distinct (map snd xs)" using assms strict_sorted_iff by blast
  then show "distinct (map expOf xs)" "e \<in> set xs \<Longrightarrow> e' \<in> set xs \<Longrightarrow> snd e = snd e' \<Longrightarrow> e = e'"
    by (auto simp: distinct_map inj_on_def)
qed

lemma sorted_hd_le: "sorted_wrt (<) (map snd (xs :: (string \<times> nat) list)) \<Longrightarrow> e \<in> set xs \<Longrightarrow> snd (hd xs) \<le> snd e"
  by (cases xs) auto

text \<open>While the oldest of four issued tokens is alive, every slot is taken by one of them.\<close>

lemma all_slots_live:
  assumes inv: "tokInv iss ts now" and n: "length (newest MAX_TOKENS iss) = MAX_TOKENS" and h: "now < expOf (hd (newest MAX_TOKENS iss))"
  shows "\<forall>i < MAX_TOKENS. ttlActive now (tkExpiry (ts ! i))"
proof -
  let ?L = "newest MAX_TOKENS iss" let ?S = "{i. i < MAX_TOKENS \<and> ttlActive now (tkExpiry (ts ! i))}"
  have srt: "sorted_wrt (<) (map snd ?L)" using inv newest_sorted by (auto simp: tokInv_def)
  have "expOf ` set ?L \<subseteq> (\<lambda>i. tkExpiry (ts ! i)) ` ?S"
  proof
    fix x assume "x \<in> expOf ` set ?L"
    then obtain e where e: "e \<in> set ?L" "x = expOf e" by auto
    then have live: "now < expOf e" using sorted_hd_le [OF srt e(1)] h by linarith
    then obtain i where "i < MAX_TOKENS" "tkExpiry (ts ! i) = expOf e" using inv e(1) unfolding tokInv_def by blast
    then show "x \<in> (\<lambda>i. tkExpiry (ts ! i)) ` ?S" using live e(2) by (intro image_eqI [of _ _ i]) (auto simp: ttlActive_def)
  qed
  then have "card (expOf ` set ?L) \<le> card ((\<lambda>i. tkExpiry (ts ! i)) ` ?S)" by (rule card_mono [rotated]) simp
  also have "\<dots> \<le> card ?S" by (rule card_image_le) simp
  finally have "card (expOf ` set ?L) \<le> card ?S" .
  moreover have "card (expOf ` set ?L) = MAX_TOKENS"
    using distinct_card [OF strict_expiries(1) [OF srt]] n by simp
  ultimately have "?S = {..<MAX_TOKENS}" by (intro card_seteq) auto
  then show ?thesis by blast
qed

text \<open>When every slot is alive, they hold exactly the newest four and the slot to expire first holds the
  oldest of them.\<close>

lemma min_slot_oldest:
  assumes inv: "tokInv iss ts now" and all: "\<forall>i < MAX_TOKENS. ttlActive now (tkExpiry (ts ! i))"
    and s: "s < MAX_TOKENS" "\<forall>i < MAX_TOKENS. tkExpiry (ts ! s) \<le> tkExpiry (ts ! i)"
  shows "length (newest MAX_TOKENS iss) = MAX_TOKENS \<and> tkExpiry (ts ! s) = expOf (hd (newest MAX_TOKENS iss))"
proof -
  let ?L = "newest MAX_TOKENS iss" let ?E = "(\<lambda>i. tkExpiry (ts ! i)) ` {..<MAX_TOKENS}"
  have srt: "sorted_wrt (<) (map snd ?L)" using inv newest_sorted by (auto simp: tokInv_def)
  have "inj_on (\<lambda>i. tkExpiry (ts ! i)) {..<MAX_TOKENS}" using inv all unfolding inj_on_def tokInv_def by (metis lessThan_iff)
  then have cE: "card ?E = MAX_TOKENS" by (simp add: card_image)
  have sub: "?E \<subseteq> expOf ` set ?L" using inv all unfolding tokInv_def by (fastforce simp: image_iff)
  have cL: "card (expOf ` set ?L) = length ?L" using distinct_card [OF strict_expiries(1) [OF srt]] by simp
  have len: "length ?L = MAX_TOKENS" using card_mono [OF _ sub] cE cL by simp
  then have eq: "?E = expOf ` set ?L" using card_subset_eq [OF _ sub] cE cL by simp
  have ne: "?L \<noteq> []" using len by (metis MAX_TOKENS_def list.size(3) zero_neq_numeral)
  then have "expOf (hd ?L) \<in> ?E" unfolding eq by simp
  then have le: "tkExpiry (ts ! s) \<le> expOf (hd ?L)" using s(2) by auto
  have "tkExpiry (ts ! s) \<in> expOf ` set ?L" using s(1) eq by blast
  then have "expOf (hd ?L) \<le> tkExpiry (ts ! s)" using sorted_hd_le [OF srt] by auto
  then show ?thesis using le len by simp
qed

text \<open>Whatever slot is reused, the entry it held was dead or was the one that leaves the newest four.\<close>

lemma reused_slot:
  assumes inv: "tokInv iss ts now" and s: "s = tokenSlot now ts [0..<MAX_TOKENS] 0"
  shows "s < MAX_TOKENS"
    and "e \<in> set (tl (newest MAX_TOKENS iss)) \<or> (e \<in> set (newest MAX_TOKENS iss) \<and> length (newest MAX_TOKENS iss) < MAX_TOKENS) \<Longrightarrow>
         now < expOf e \<Longrightarrow> tkExpiry (ts ! s) \<noteq> expOf e"
    and "i < MAX_TOKENS \<Longrightarrow> i \<noteq> s \<Longrightarrow> ttlActive now (tkExpiry (ts ! i)) \<Longrightarrow> length (newest MAX_TOKENS iss) = MAX_TOKENS \<Longrightarrow>
         tkExpiry (ts ! i) \<noteq> expOf (hd (newest MAX_TOKENS iss))"
proof -
  let ?L = "newest MAX_TOKENS iss"
  have srt: "sorted_wrt (<) (map snd ?L)" using inv newest_sorted by (auto simp: tokInv_def)
  have c: "s < MAX_TOKENS" "\<not> ttlActive now (tkExpiry (ts ! s)) \<or> (\<forall>i < MAX_TOKENS. ttlActive now (tkExpiry (ts ! i)) \<and> tkExpiry (ts ! s) \<le> tkExpiry (ts ! i))"
  proof -
    have "(0 :: nat) < MAX_TOKENS" "set [0..<MAX_TOKENS] \<subseteq> {..<MAX_TOKENS}" by (auto simp: MAX_TOKENS_def)
    from tokenSlot_cases [OF this, of now ts]
    show "s < MAX_TOKENS" "\<not> ttlActive now (tkExpiry (ts ! s)) \<or> (\<forall>i < MAX_TOKENS. ttlActive now (tkExpiry (ts ! i)) \<and> tkExpiry (ts ! s) \<le> tkExpiry (ts ! i))"
      unfolding s by auto
  qed
  then show "s < MAX_TOKENS" by simp
  have old: "length ?L = MAX_TOKENS \<and> tkExpiry (ts ! s) = expOf (hd ?L)" if "ttlActive now (tkExpiry (ts ! s))"
    using min_slot_oldest [OF inv _ c(1)] c(2) that by blast
  show "tkExpiry (ts ! s) \<noteq> expOf e"
    if e: "e \<in> set (tl ?L) \<or> (e \<in> set ?L \<and> length ?L < MAX_TOKENS)" and live: "now < expOf e"
  proof
    assume eq: "tkExpiry (ts ! s) = expOf e"
    have "expOf e \<noteq> 0" using live by linarith
    then have "length ?L = MAX_TOKENS" "snd e = snd (hd ?L)" using old eq live by (auto simp: ttlActive_def)
    moreover have "e \<in> set (tl ?L)" using e calculation by auto
    ultimately show False using srt by (cases ?L) auto
  qed
  show "tkExpiry (ts ! i) \<noteq> expOf (hd ?L)"
    if i: "i < MAX_TOKENS" "i \<noteq> s" "ttlActive now (tkExpiry (ts ! i))" and n: "length ?L = MAX_TOKENS"
  proof
    assume eq: "tkExpiry (ts ! i) = expOf (hd ?L)"
    then have "now < expOf (hd ?L)" using i(3) by (simp add: ttlActive_def)
    then have live: "ttlActive now (tkExpiry (ts ! s))" using all_slots_live [OF inv n] c(1) by blast
    then have "tkExpiry (ts ! s) = tkExpiry (ts ! i)" using old eq by simp
    then show False using inv i c(1) live unfolding tokInv_def by blast
  qed
qed

lemma createToken_inv:
  assumes inv: "tokInv iss ts now" and new: "\<forall>e \<in> set iss. snd e < now" and tok: "length tok = TOKEN_LEN * 2"
  shows "tokInv (iss @ [(tok, now)]) (createToken now tok ts) now"
proof -
  define s where "s = tokenSlot now ts [0..<MAX_TOKENS] 0"
  let ?L = "newest MAX_TOKENS iss" let ?L' = "newest MAX_TOKENS (iss @ [(tok, now)])" let ?ts = "createToken now tok ts"
  note rs = reused_slot [OF inv s_def]
  have len: "length ts = MAX_TOKENS" using inv by (simp add: tokInv_def tokLens_def)
  have nth: "?ts ! i = (if i = s then \<lparr>tkToken = tok, tkExpiry = now + TOKEN_TTL_MS\<rparr> else ts ! i)" if "i < MAX_TOKENS" for i
    using that len by (auto simp: createToken_def s_def)
  have L': "?L' = (if length ?L = MAX_TOKENS then tl ?L else ?L) @ [(tok, now)]"
    unfolding pushNewest_def [symmetric] by (rule pushNewest_newest [symmetric]) (simp add: MAX_TOKENS_def)
  have before: "e \<in> set ?L \<Longrightarrow> snd e < now" for e using new by (metis in_set_dropD newest_def)
  have "tokLens ?ts" using inv tok rs(1) len
    by (auto simp: tokInv_def tokLens_def createToken_def s_def dest!: set_update_subset_insert [THEN subsetD])
  moreover have "sorted_wrt (<) (map snd (iss @ [(tok, now)]))" using inv new by (auto simp: tokInv_def sorted_wrt_append)
  moreover have "\<exists>t. (tkToken (?ts ! i), t) \<in> set ?L' \<and> tkExpiry (?ts ! i) = t + TOKEN_TTL_MS"
    if i: "i < MAX_TOKENS" "ttlActive now (tkExpiry (?ts ! i))" for i
  proof (cases "i = s")
    case False
    then have a: "ttlActive now (tkExpiry (ts ! i))" using i nth by simp
    then obtain t where t: "(tkToken (ts ! i), t) \<in> set ?L" "tkExpiry (ts ! i) = t + TOKEN_TTL_MS" using inv i(1) unfolding tokInv_def by blast
    have "length ?L = MAX_TOKENS \<Longrightarrow> (tkToken (ts ! i), t) \<in> set (tl ?L)" using t rs(3) [OF i(1) False a] by (cases ?L) auto
    then show ?thesis using t L' nth [OF i(1)] False by auto
  qed (use L' nth i in auto)
  moreover have "\<exists>i < MAX_TOKENS. tkToken (?ts ! i) = fst e \<and> tkExpiry (?ts ! i) = expOf e" if e: "e \<in> set ?L'" "now < expOf e" for e
  proof (cases "e = (tok, now)")
    case False
    then have e': "e \<in> set (tl ?L) \<or> (e \<in> set ?L \<and> length ?L < MAX_TOKENS)" "e \<in> set ?L"
      using e(1) L' by (auto split: if_splits simp: le_neq_implies_less dest: in_tl)
    then obtain i where "i < MAX_TOKENS" "tkToken (ts ! i) = fst e" "tkExpiry (ts ! i) = expOf e" using inv e(2) unfolding tokInv_def by blast
    then show ?thesis using rs(2) [OF e'(1) e(2)] nth by (intro exI [of _ i]) auto
  qed (use rs(1) nth in \<open>intro exI [of _ s], auto\<close>)
  moreover have "tkExpiry (ts ! i) \<noteq> now + TOKEN_TTL_MS" if i: "i < MAX_TOKENS" "ttlActive now (tkExpiry (ts ! i))" for i
  proof -
    obtain t where "(tkToken (ts ! i), t) \<in> set ?L" "tkExpiry (ts ! i) = t + TOKEN_TTL_MS" using inv i unfolding tokInv_def by blast
    then show ?thesis using before by fastforce
  qed
  then have "\<forall>i < MAX_TOKENS. \<forall>j < MAX_TOKENS. i \<noteq> j \<and> ttlActive now (tkExpiry (?ts ! i)) \<and> ttlActive now (tkExpiry (?ts ! j)) \<longrightarrow>
        tkExpiry (?ts ! i) \<noteq> tkExpiry (?ts ! j)" using inv nth unfolding tokInv_def by (auto simp: eq_commute)
  ultimately show ?thesis using new unfolding tokInv_def by (auto intro: less_imp_le)
qed

fun issueRun :: "(string \<times> nat) list \<Rightarrow> TokenEntry list \<Rightarrow> TokenEntry list" where
  "issueRun [] ts = ts"
| "issueRun (e # es) ts = issueRun es (createToken (snd e) (fst e) ts)"

lemma issueRun_inv:
  "tokInv done ts t0 \<Longrightarrow> sorted_wrt (<) (map snd (done @ es)) \<Longrightarrow> (\<forall>e \<in> set es. length (fst e) = TOKEN_LEN * 2 \<and> t0 \<le> snd e) \<Longrightarrow>
     (\<forall>e \<in> set (done @ es). snd e \<le> now) \<Longrightarrow> t0 \<le> now \<Longrightarrow> tokInv (done @ es) (issueRun es ts) now"
proof (induction es arbitrary: "done" ts t0)
  case Nil
  then show ?case using tokInv_time by simp
next
  case (Cons e es)
  have "tokInv done ts (snd e)" using tokInv_time [OF Cons.prems(1)] Cons.prems(3) by simp
  moreover have "\<forall>d \<in> set done. snd d < snd e" using Cons.prems(2) by (auto simp: sorted_wrt_append)
  ultimately have step: "tokInv (done @ [(fst e, snd e)]) (createToken (snd e) (fst e) ts) (snd e)"
    using createToken_inv [of "done" ts "snd e" "fst e"] Cons.prems(3) by simp
  have "\<forall>x \<in> set es. snd e \<le> snd x" using Cons.prems(2) by (auto simp: sorted_wrt_append less_imp_le)
  then show ?case using Cons.IH [OF step] Cons.prems by simp
qed

text \<open>Bearer tokens. However logins fall in time, a token is accepted exactly when it is one of the
  four issued last and less than an hour old: no other string is, an old token dies on time, and issuing
  a token never drops one that is not the oldest of the four.\<close>

lemma token_accepted_iff:
  assumes "sorted_wrt (<) (map snd iss)" and "\<forall>e \<in> set iss. length (fst e) = TOKEN_LEN * 2 \<and> snd e \<le> now"
  shows "validateToken now (Some s) (issueRun iss tokensInit) \<longleftrightarrow>
           length s = TOKEN_LEN * 2 \<and> (\<exists>t. (s, t) \<in> set (newest MAX_TOKENS iss) \<and> now < t + TOKEN_TTL_MS)"
proof -
  have "tokInv iss (issueRun iss tokensInit) now"
    using issueRun_inv [OF tokInv_init, of iss now] assms by auto
  then show ?thesis using tokInv_validate [of iss _ now s] by (auto simp: validateToken_def)
qed

section \<open>WebSocket grants\<close>

lemma wsSlot_less: "set is \<subseteq> {..<n} \<Longrightarrow> 0 < n \<Longrightarrow> wsSlot now ws is < n"
  by (induction "is") auto

definition liveGrants :: "string \<Rightarrow> WsAuth list \<Rightarrow> nat" where
  "liveGrants ip ws = length (filter (\<lambda>w. wsExpiry w \<noteq> 0 \<and> wsIp w = ip) ws)"

lemma liveGrants_update:
  "i < length ws \<Longrightarrow> liveGrants ip (ws[i := w]) + (if wsExpiry (ws ! i) \<noteq> 0 \<and> wsIp (ws ! i) = ip then 1 else 0) =
     liveGrants ip ws + (if wsExpiry w \<noteq> 0 \<and> wsIp w = ip then 1 else 0)"
  unfolding liveGrants_def using count_update [of i ws "\<lambda>w. wsExpiry w \<noteq> 0 \<and> wsIp w = ip" w] by simp

lemma consumeLoop_grants:
  assumes "set is \<subseteq> {..<length ws}"
  shows "length (snd (consumeLoop now ip ws is)) = length ws \<and>
         liveGrants ip' (snd (consumeLoop now ip ws is)) + (if fst (consumeLoop now ip ws is) \<and> ip = ip' then 1 else 0) = liveGrants ip' ws"
  using assms
proof (induction "is")
  case (Cons i "is")
  then show ?case using liveGrants_update [of i ws ip' "(ws ! i)\<lparr>wsExpiry := 0\<rparr>"] by (auto simp: ttlActive_def)
qed simp

datatype wsEv = WsGrant nat string | WsOpen nat string

text \<open>Sockets admitted for an address, and grants made to it, along a run.\<close>

fun wsOpened :: "string \<Rightarrow> wsEv list \<Rightarrow> WsAuth list \<Rightarrow> nat" where
  "wsOpened ip [] ws = 0"
| "wsOpened ip (WsGrant now x # es) ws = wsOpened ip es (grantWsAuth now x ws)"
| "wsOpened ip (WsOpen now x # es) ws =
     (let r = consumeWsAuth now x ws in (if fst r \<and> x = ip then 1 else 0) + wsOpened ip es (snd r))"

fun wsGranted :: "string \<Rightarrow> wsEv list \<Rightarrow> nat" where
  "wsGranted ip [] = 0"
| "wsGranted ip (WsGrant now x # es) = (if take 19 x = ip then 1 else 0) + wsGranted ip es"
| "wsGranted ip (WsOpen now x # es) = wsGranted ip es"

lemma wsOpened_bound: "length ws = 4 \<Longrightarrow> wsOpened ip es ws \<le> liveGrants ip ws + wsGranted ip es"
proof (induction ip es ws rule: wsOpened.induct)
  case (2 ip now x es ws)
  let ?i = "wsSlot now ws [0..<4]" let ?w = "\<lparr>wsIp = take 19 x, wsExpiry = now + 30000\<rparr>"
  have "set [0..<4] \<subseteq> {..<4 :: nat}" by auto
  then have "?i < length ws" using wsSlot_less [of "[0..<4]" 4 now ws] 2 by simp
  then have "liveGrants ip (grantWsAuth now x ws) \<le> liveGrants ip ws + (if take 19 x = ip then 1 else 0)"
    using liveGrants_update [of ?i ws ip ?w] by (simp add: grantWsAuth_def split: if_splits)
  moreover have "length (grantWsAuth now x ws) = 4" using 2 by (simp add: grantWsAuth_def)
  ultimately show ?case using "2.IH" by fastforce
next
  case (3 ip now x es ws)
  have "set [0..<4] \<subseteq> {..<length ws}" using 3 by auto
  then show ?case using "3.IH" [OF refl] consumeLoop_grants [of "[0..<4]" ws now x ip] "3.prems"
    by (simp add: consumeWsAuth_def Let_def split: if_splits)
qed simp

text \<open>WebSocket grants are one-time. Along any run of token requests and socket opens, the sockets
  admitted for an address never exceed the grants made to it: a grant is used at most once, and nobody
  enters without one.\<close>

lemma ws_one_time: "wsOpened ip es wsInit \<le> wsGranted ip es"
  using wsOpened_bound [of wsInit ip es] by (simp add: wsInit_def liveGrants_def)

section \<open>The check\<close>



text \<open>The login routes issue a token only on an admitted request that was not locked out, and count a
  failure only for a wrong credential.\<close>

lemma loginRoute_grants:
  "fst (loginRoute authenticate cred now issue req w) = Granted issue \<Longrightarrow>
     fst (rateAllow (Some (rqIp req)) now (wbRate w)) \<and> fst cred = WEB_CRED_OK \<and>
     fst (checkAuth authenticate cred now (wbTokens w) (issue = None) req)"
  by (auto simp: loginRoute_def Let_def split: if_splits)

lemma loginRoute_tokens:
  "(\<forall>tok. fst (loginRoute authenticate cred now issue req w) \<noteq> Granted (Some tok)) \<Longrightarrow>
     wbTokens (snd (loginRoute authenticate cred now issue req w)) = wbTokens w"
  by (auto simp: loginRoute_def Let_def split: if_splits option.splits)

lemma loginRoute_rate:
  "fst (loginRoute authenticate cred now issue req w) = Unauthorized \<Longrightarrow>
     wbRate (snd (loginRoute authenticate cred now issue req w)) =
       snd (loginStep (if snd (checkAuth authenticate cred now (wbTokens w) (issue = None) req)
                       then Wrong (rqIp req) now else NoGuess (rqIp req) now) (wbRate w))"
  by (auto simp: loginRoute_def guess_def Let_def split: if_splits)

end
