(* ===== verification/Http_Io.thy ===== *)
theory Http_Io
  imports Fw_Prelude
begin

text \<open>
  The pure headers under the HTTP code: \<open>http_body_policy.h\<close> (assembling a POST body from chunks),
  \<open>http_url_policy.h\<close> (splitting a URL, reading a status line) and \<open>http_fetch_policy.h\<close> (the preview of a
  fetched body and who frees the job that two tasks share), with the protocol \<open>cmd_http\<close> and
  \<open>httpFetchTask\<close> of \<open>Shell.cpp\<close> run over it.
\<close>

section \<open>Definitions\<close>

subsection \<open>Request bodies\<close>

definition SIZE_MAX :: nat where "SIZE_MAX = 4294967295"

record HttpBody =
  bodyLen :: nat
  bodyCap :: nat
  bodyData :: string

definition HTTP_FILE_MAX :: nat where "HTTP_FILE_MAX = 65536"
definition HTTP_BODY_CFG_MAX :: nat where "HTTP_BODY_CFG_MAX = 16384"
definition HTTP_BODY_CMD_MAX :: nat where "HTTP_BODY_CMD_MAX = 2048"
definition HTTP_BODY_FILE_MAX :: nat where "HTTP_BODY_FILE_MAX = HTTP_FILE_MAX"

definition httpBodyBegin :: "nat \<Rightarrow> nat \<Rightarrow> bool \<Rightarrow> HttpBody option" where
  "httpBodyBegin declared maxBytes mallocOk =
     (if declared = 0 \<or> maxBytes < declared then None
      else if \<not> mallocOk then None
      else Some \<lparr>bodyLen = 0, bodyCap = declared, bodyData = ''''\<rparr>)"

definition httpBodyAppend :: "HttpBody option \<Rightarrow> string \<Rightarrow> nat \<Rightarrow> HttpBody option \<times> bool" where
  "httpBodyAppend b chunk index =
     (case b of None \<Rightarrow> (None, False)
      | Some x \<Rightarrow>
          (if bodyLen x = SIZE_MAX then (b, False)
           else if index \<noteq> bodyLen x \<or> bodyCap x - bodyLen x < length chunk
           then (Some (x\<lparr>bodyLen := SIZE_MAX\<rparr>), False)
           else (Some (x\<lparr>bodyLen := bodyLen x + length chunk, bodyData := bodyData x @ chunk\<rparr>), True)))"

definition httpBodyComplete :: "HttpBody option \<Rightarrow> bool" where
  "httpBodyComplete b = (case b of None \<Rightarrow> False | Some x \<Rightarrow> bodyLen x = bodyCap x)"

datatype HttpBodyVerdict = HTTP_BODY_OK | HTTP_BODY_EMPTY | HTTP_BODY_UNAUTHORIZED | HTTP_BODY_LENGTH_REQUIRED
  | HTTP_BODY_TOO_LARGE | HTTP_BODY_INCOMPLETE

definition httpBodyVerdict :: "bool \<Rightarrow> bool \<Rightarrow> nat \<Rightarrow> nat \<Rightarrow> HttpBody option \<Rightarrow> HttpBodyVerdict" where
  "httpBodyVerdict authed chunked contentLength maxBytes b =
     (if \<not> authed then HTTP_BODY_UNAUTHORIZED
      else if chunked then HTTP_BODY_LENGTH_REQUIRED
      else if contentLength = 0 then HTTP_BODY_EMPTY
      else if maxBytes < contentLength then HTTP_BODY_TOO_LARGE
      else if \<not> httpBodyComplete b then HTTP_BODY_INCOMPLETE
      else HTTP_BODY_OK)"

subsection \<open>URLs and status lines\<close>

text \<open>\<open>strtol(s, &end, 10)\<close>: the value, held at the ends of a 32-bit \<open>long\<close>, and what \<open>end\<close> points at.
  Without digits nothing is consumed.\<close>

definition isSpace :: "char \<Rightarrow> bool" where
  "isSpace c \<longleftrightarrow> c = CHR '' '' \<or> (9 \<le> ccode c \<and> ccode c \<le> 13)"

definition LONG_MAX :: int where "LONG_MAX = 2147483647"

definition c_strtol :: "string \<Rightarrow> int \<times> string" where
  "c_strtol s =
     (let s1 = dropWhile isSpace s;
          neg = (s1 \<noteq> [] \<and> hd s1 = CHR ''-'');
          s2 = (if s1 \<noteq> [] \<and> (hd s1 = CHR ''-'' \<or> hd s1 = CHR ''+'') then tl s1 else s1);
          ds = takeWhile isDigit s2; rest = dropWhile isDigit s2; v = int (decVal 0 ds)
      in if ds = [] then (0, s)
         else (if neg then max (- LONG_MAX - 1) (- v) else min LONG_MAX v, rest))"

record urlParts =
  urlHost :: string
  urlPath :: string
  urlPort :: nat
  urlHttps :: bool

text \<open>Where the authority part ends: at the first slash or question mark, else at the end.\<close>

definition authEnd :: "char \<Rightarrow> bool" where
  "authEnd c \<longleftrightarrow> c = CHR ''/'' \<or> c = CHR ''?''"

definition httpUrlSplit :: "cstr \<Rightarrow> nat \<Rightarrow> urlParts option" where
  "httpUrlSplit url hostCap =
     (case url of None \<Rightarrow> None
      | Some u \<Rightarrow>
          (if hostCap = 0 then None
           else let https = strncmp0 u ''https://'' 8; http = strncmp0 u ''http://'' 7
                in if \<not> https \<and> \<not> http then None
                   else let p = drop (if https then 8 else 7) u;
                            hostPart = takeWhile (\<lambda>c. \<not> authEnd c) p; rest = dropWhile (\<lambda>c. \<not> authEnd c) p
                        in if hostPart = [] \<or> hostCap \<le> length hostPart then None
                           else let host = takeWhile (\<lambda>c. c \<noteq> CHR '':'') hostPart;
                                    after = dropWhile (\<lambda>c. c \<noteq> CHR '':'') hostPart;
                                    v = c_strtol (tl after)
                                in if after \<noteq> [] \<and> (snd v = tl after \<or> snd v \<noteq> [] \<or> fst v < 1 \<or> 65535 < fst v) then None
                                   else if host = [] then None
                                   else Some \<lparr>urlHost = host, urlPath = (if rest = [] then ''/'' else rest),
                                              urlPort = (if after \<noteq> [] then nat (fst v) else if https then 443 else 80),
                                              urlHttps = https\<rparr>))"

definition httpTargetLead :: "cstr \<Rightarrow> string" where
  "httpTargetLead path = (case path of None \<Rightarrow> '''' | Some p \<Rightarrow> if p \<noteq> [] \<and> hd p = CHR ''?'' then ''/'' else '''')"

definition httpStatusCode :: "cstr \<Rightarrow> int" where
  "httpStatusCode line =
     (case line of None \<Rightarrow> -1
      | Some l \<Rightarrow>
          (if \<not> strncmp0 l ''HTTP/'' 5 then -1
           else case c_strchr l (CHR '' '') of None \<Rightarrow> -1
                | Some sp \<Rightarrow> (let v = c_strtol (tl sp)
                             in if length (tl sp) - length (snd v) \<noteq> 3 then -1
                                else if 100 \<le> fst v \<and> fst v \<le> 599 then fst v else -1)))"

subsection \<open>The fetch preview\<close>

definition HTTP_PREVIEW_CAP :: nat where "HTTP_PREVIEW_CAP = 1024"
definition HTTP_WAIT_TICK_MS :: u32 where "HTTP_WAIT_TICK_MS = 1000"

definition httpWaitTickDue :: "u32 \<Rightarrow> u32 \<Rightarrow> bool" where
  "httpWaitTickDue lastMs nowMs \<longleftrightarrow> HTTP_WAIT_TICK_MS \<le> nowMs - lastMs"

record HttpPreview =
  pvData :: string
  pvTotal :: nat
  pvCut :: bool

definition httpPreviewKeep :: "HttpPreview \<Rightarrow> string \<Rightarrow> HttpPreview" where
  "httpPreviewKeep p buf =
     (let room = HTTP_PREVIEW_CAP - length (pvData p); copy = (if length buf < room then length buf else room)
      in p\<lparr>pvTotal := pvTotal p + length buf, pvData := pvData p @ take copy buf\<rparr>)"

definition httpReadBudgetSpent :: "u32 \<Rightarrow> u32 \<Rightarrow> bool" where
  "httpReadBudgetSpent elapsedMs budgetMs \<longleftrightarrow> budgetMs \<noteq> 0 \<and> budgetMs \<le> elapsedMs"

subsection \<open>The shared job\<close>

datatype HttpJobState = HTTP_JOB_RUNNING | HTTP_JOB_DONE | HTTP_JOB_ABANDONED

text \<open>The two exchanges: the new state and the answer.\<close>

definition httpJobFinish :: "HttpJobState \<Rightarrow> HttpJobState \<times> bool" where
  "httpJobFinish st = (HTTP_JOB_DONE, st = HTTP_JOB_ABANDONED)"

definition httpJobAbandon :: "HttpJobState \<Rightarrow> HttpJobState \<times> bool" where
  "httpJobAbandon st = (HTTP_JOB_ABANDONED, st = HTTP_JOB_DONE)"

text \<open>Where each side of \<open>net.http\<close> stands. The shell: in its wait loop, at the second look at the state,
  at the exchange, printing the result, returned. The task: fetching, at its exchange, about to delete,
  returned. \<open>frees\<close> counts deletions and \<open>touches\<close> accesses to the job after one.\<close>

datatype shellPc = ShWait | ShLook | ShAbandon | ShPrint | ShReturned
datatype taskPc = TkFetch | TkFinish | TkDelete | TkReturned

record fetch =
  fShell :: shellPc
  fTask :: taskPc
  fState :: HttpJobState
  frees :: nat
  touches :: nat

definition touch :: "fetch \<Rightarrow> fetch" where
  "touch f = (if 0 < frees f then f\<lparr>touches := touches f + 1\<rparr> else f)"

definition fetchInit :: fetch where
  "fetchInit = \<lparr>fShell = ShWait, fTask = TkFetch, fState = HTTP_JOB_RUNNING, frees = 0, touches = 0\<rparr>"

text \<open>One atomic access of either side; the scheduler may pick any enabled one.\<close>

inductive fetchStep :: "fetch \<Rightarrow> fetch \<Rightarrow> bool" where
  wait_again: "fShell f = ShWait \<Longrightarrow> fState f \<noteq> HTTP_JOB_DONE \<Longrightarrow> fetchStep f (touch f)"
| wait_over: "fShell f = ShWait \<Longrightarrow> fetchStep f ((touch f)\<lparr>fShell := ShLook\<rparr>)"
| look: "fShell f = ShLook \<Longrightarrow>
    fetchStep f ((touch f)\<lparr>fShell := (if fState f = HTTP_JOB_DONE then ShPrint else ShAbandon)\<rparr>)"
| abandon: "fShell f = ShAbandon \<Longrightarrow>
    fetchStep f ((touch f)\<lparr>fState := fst (httpJobAbandon (fState f)),
                            fShell := (if snd (httpJobAbandon (fState f)) then ShPrint else ShReturned)\<rparr>)"
| print: "fShell f = ShPrint \<Longrightarrow> fetchStep f ((touch f)\<lparr>fShell := ShReturned, frees := frees f + 1\<rparr>)"
| work: "fTask f = TkFetch \<Longrightarrow> fetchStep f (touch f)"
| work_over: "fTask f = TkFetch \<Longrightarrow> fetchStep f ((touch f)\<lparr>fTask := TkFinish\<rparr>)"
| finish: "fTask f = TkFinish \<Longrightarrow>
    fetchStep f ((touch f)\<lparr>fState := fst (httpJobFinish (fState f)),
                            fTask := (if snd (httpJobFinish (fState f)) then TkDelete else TkReturned)\<rparr>)"
| delete: "fTask f = TkDelete \<Longrightarrow> fetchStep f ((touch f)\<lparr>fTask := TkReturned, frees := frees f + 1\<rparr>)"

text \<open>\<open>HttpSlotClaim\<close>: the constructor's exchange and the destructor's store.\<close>

definition slotClaim :: "nat \<Rightarrow> nat \<times> bool" where
  "slotClaim busy = (1, busy = 0)"

definition slotRelease :: "bool \<Rightarrow> nat \<Rightarrow> nat" where
  "slotRelease held busy = (if held then 0 else busy)"

section \<open>Bodies\<close>

text \<open>Chunks that continue each other from an offset.\<close>

fun contiguous :: "nat \<Rightarrow> (nat \<times> string) list \<Rightarrow> bool" where
  "contiguous n [] = True"
| "contiguous n (c # cs) = (fst c = n \<and> contiguous (n + length (snd c)) cs)"

definition bodyRun :: "HttpBody option \<Rightarrow> (nat \<times> string) list \<Rightarrow> HttpBody option" where
  "bodyRun = foldl (\<lambda>b c. fst (httpBodyAppend b (snd c) (fst c)))"

lemma bodyRun_simps [simp]:
  "bodyRun b [] = b" "bodyRun b (c # cs) = bodyRun (fst (httpBodyAppend b (snd c) (fst c))) cs"
  by (simp_all add: bodyRun_def)

lemma refused_stays: "bodyLen x = SIZE_MAX \<Longrightarrow> bodyRun (Some x) cs = Some x"
  by (induction cs) (auto simp: httpBodyAppend_def)

lemma bodyRun_step:
  assumes "bodyLen x \<le> bodyCap x" "bodyCap x < SIZE_MAX"
  shows "bodyRun (Some x) (c # cs) =
    (if fst c = bodyLen x \<and> length (snd c) \<le> bodyCap x - bodyLen x
     then bodyRun (Some (x\<lparr>bodyLen := bodyLen x + length (snd c), bodyData := bodyData x @ snd c\<rparr>)) cs
     else Some (x\<lparr>bodyLen := SIZE_MAX\<rparr>))"
  using assms refused_stays [of "x\<lparr>bodyLen := SIZE_MAX\<rparr>" cs] by (auto simp: httpBodyAppend_def)

lemma bodyRun_accepted:
  "bodyLen x = length (bodyData x) \<Longrightarrow> bodyLen x \<le> bodyCap x \<Longrightarrow> bodyCap x < SIZE_MAX \<Longrightarrow>
   (httpBodyComplete (bodyRun (Some x) cs) \<longleftrightarrow>
      contiguous (bodyLen x) cs \<and> bodyLen x + length (concat (map snd cs)) = bodyCap x) \<and>
   (httpBodyComplete (bodyRun (Some x) cs) \<longrightarrow> bodyData (the (bodyRun (Some x) cs)) = bodyData x @ concat (map snd cs))"
proof (induction cs arbitrary: x)
  case Nil
  then show ?case by (auto simp: httpBodyComplete_def)
next
  case (Cons c cs)
  let ?x = "x\<lparr>bodyLen := bodyLen x + length (snd c), bodyData := bodyData x @ snd c\<rparr>"
  note st = bodyRun_step [OF Cons.prems(2,3), of c cs]
  show ?case
  proof (cases "fst c = bodyLen x \<and> length (snd c) \<le> bodyCap x - bodyLen x")
    case True
    have "bodyLen ?x = length (bodyData ?x)" "bodyLen ?x \<le> bodyCap ?x" "bodyCap ?x < SIZE_MAX" using Cons.prems True by auto
    note ih = Cons.IH [OF this]
    show ?thesis unfolding st using True ih by (simp add: add.assoc)
  next
    case False
    then show ?thesis unfolding st using Cons.prems by (auto simp: httpBodyComplete_def)
  qed
qed

text \<open>A request body is taken whole or not at all. Whatever chunks arrive, the buffer of an accepted
  request reads as complete exactly when the chunks continue each other from the start and add up to the
  declared length, and then it holds exactly their bytes in order; one misplaced or overlong chunk refuses
  the body for good.\<close>

lemma httpBody_exact:
  assumes "httpBodyBegin declared maxBytes True = Some b" and "maxBytes < SIZE_MAX"
  shows "(httpBodyComplete (bodyRun (Some b) cs) \<longleftrightarrow> contiguous 0 cs \<and> length (concat (map snd cs)) = declared) \<and>
         (httpBodyComplete (bodyRun (Some b) cs) \<longrightarrow> bodyData (the (bodyRun (Some b) cs)) = concat (map snd cs))"
proof -
  have b: "b = \<lparr>bodyLen = 0, bodyCap = declared, bodyData = ''''\<rparr>" and "declared < SIZE_MAX"
    using assms by (auto simp: httpBodyBegin_def split: if_splits)
  then show ?thesis using bodyRun_accepted [of b cs] by auto
qed

section \<open>The preview\<close>

lemma preview_keep:
  "length (pvData p) \<le> HTTP_PREVIEW_CAP \<Longrightarrow> pvData (httpPreviewKeep p buf) = take HTTP_PREVIEW_CAP (pvData p @ buf)"
  by (auto simp: httpPreviewKeep_def Let_def)

lemma preview_run:
  "length (pvData p) \<le> HTTP_PREVIEW_CAP \<Longrightarrow>
     pvData (foldl httpPreviewKeep p bufs) = take HTTP_PREVIEW_CAP (pvData p @ concat bufs) \<and>
     pvTotal (foldl httpPreviewKeep p bufs) = pvTotal p + length (concat bufs)"
proof (induction bufs arbitrary: p)
  case (Cons b bufs)
  have "take HTTP_PREVIEW_CAP (take HTTP_PREVIEW_CAP (pvData p @ b) @ concat bufs) = take HTTP_PREVIEW_CAP ((pvData p @ b) @ concat bufs)"
    using Cons.prems by (cases "length (pvData p @ b) \<le> HTTP_PREVIEW_CAP") (auto simp: min_def)
  moreover have "length (pvData (httpPreviewKeep p b)) \<le> HTTP_PREVIEW_CAP" unfolding preview_keep [OF Cons.prems] by simp
  moreover have "pvTotal (httpPreviewKeep p b) = pvTotal p + length b" by (simp add: httpPreviewKeep_def Let_def)
  ultimately show ?case using Cons.IH [of "httpPreviewKeep p b"] preview_keep [OF Cons.prems, of b] by simp
qed simp

section \<open>The job is freed once\<close>

definition fetchOk :: "fetch \<Rightarrow> bool" where
  "fetchOk f \<longleftrightarrow> touches f = 0 \<and>
     (case fTask f of
        TkFetch \<Rightarrow> frees f = 0 \<and> (if fShell f = ShReturned then fState f = HTTP_JOB_ABANDONED else fState f = HTTP_JOB_RUNNING \<and> fShell f \<noteq> ShPrint)
      | TkFinish \<Rightarrow> frees f = 0 \<and> (if fShell f = ShReturned then fState f = HTTP_JOB_ABANDONED else fState f = HTTP_JOB_RUNNING \<and> fShell f \<noteq> ShPrint)
      | TkDelete \<Rightarrow> frees f = 0 \<and> fShell f = ShReturned
      | TkReturned \<Rightarrow> (if fShell f = ShReturned then frees f = 1 else frees f = 0 \<and> (fShell f = ShPrint \<or> fState f = HTTP_JOB_DONE)))"

lemma fetchStep_ok: "fetchStep f f' \<Longrightarrow> fetchOk f \<Longrightarrow> fetchOk f'"
  by (induction rule: fetchStep.induct)
     (auto simp: fetchOk_def touch_def httpJobAbandon_def httpJobFinish_def split: taskPc.splits if_splits)

text \<open>C18: The fetch job is freed exactly once. Under every interleaving of the waiting shell and the
  fetch task, neither touches the job after it was deleted, it is never deleted twice, and when both have
  returned it has been deleted.\<close>

theorem fetch_job_freed_once:
  assumes "fetchStep\<^sup>*\<^sup>* fetchInit f"
  shows "touches f = 0 \<and> frees f \<le> 1 \<and> (fShell f = ShReturned \<and> fTask f = TkReturned \<longrightarrow> frees f = 1)"
proof -
  have "fetchOk fetchInit" by (simp add: fetchOk_def fetchInit_def)
  with assms have "fetchOk f" by (induction rule: rtranclp_induct) (auto intro: fetchStep_ok)
  then show ?thesis by (auto simp: fetchOk_def split: taskPc.splits if_splits)
qed

theorem fetch_job_freed_once_witness:
  "\<exists>f. fetchStep\<^sup>*\<^sup>* fetchInit f \<and> fShell f = ShReturned \<and> fTask f = TkReturned \<and> frees f = 1"
proof -
  let ?f1 = "fetchInit\<lparr>fShell := ShLook\<rparr>" let ?f2 = "fetchInit\<lparr>fShell := ShAbandon\<rparr>"
  let ?f3 = "fetchInit\<lparr>fShell := ShReturned, fState := HTTP_JOB_ABANDONED\<rparr>" let ?f4 = "?f3\<lparr>fTask := TkFinish\<rparr>"
  let ?f5 = "?f3\<lparr>fState := HTTP_JOB_DONE, fTask := TkDelete\<rparr>" let ?f6 = "?f5\<lparr>fTask := TkReturned, frees := 1\<rparr>"
  note ev = touch_def fetchInit_def httpJobAbandon_def httpJobFinish_def
  have "fetchStep fetchInit ?f1" using fetchStep.wait_over [of fetchInit] by (simp add: ev)
  moreover have "fetchStep ?f1 ?f2" using fetchStep.look [of ?f1] by (simp add: ev)
  moreover have "fetchStep ?f2 ?f3" using fetchStep.abandon [of ?f2] by (simp add: ev)
  moreover have "fetchStep ?f3 ?f4" using fetchStep.work_over [of ?f3] by (simp add: ev)
  moreover have "fetchStep ?f4 ?f5" using fetchStep.finish [of ?f4] by (simp add: ev)
  moreover have "fetchStep ?f5 ?f6" using fetchStep.delete [of ?f5] by (simp add: ev)
  ultimately have "fetchStep\<^sup>*\<^sup>* fetchInit ?f6" by (meson converse_rtranclp_into_rtranclp rtranclp.rtrancl_refl)
  then show ?thesis using fetch_job_freed_once [of ?f6] by (intro exI [of _ ?f6]) simp
qed

section \<open>The shared modem socket\<close>

text \<open>Two users of one claim: while one holds the socket no claim of another succeeds, and a user that
  did not get it does not release it.\<close>

lemma slot_exclusive: "snd (slotClaim busy) \<Longrightarrow> \<not> snd (slotClaim (fst (slotClaim busy)))"
  by (simp add: slotClaim_def)

lemma slot_release_other: "busy = 1 \<Longrightarrow> slotRelease (snd (slotClaim busy)) (fst (slotClaim busy)) = 1"
  by (simp add: slotClaim_def slotRelease_def)

section \<open>Status lines and URLs\<close>

text \<open>A number of \<open>n\<close> consumed characters is below \<open>10^n\<close>, and below \<open>10^(n-1)\<close> unless they are all digits.\<close>

lemma c_strtol_digits:
  assumes "list_all isDigit ds" "ds \<noteq> []" "rest = [] \<or> \<not> isDigit (hd rest)" "int (decVal 0 ds) \<le> LONG_MAX"
  shows "c_strtol (ds @ rest) = (int (decVal 0 ds), rest)"
proof -
  obtain d ds' where d: "ds = d # ds'" using assms(2) by (cases ds) auto
  have nd: "isDigit d" using assms(1) d by simp
  have ns: "\<not> isSpace d" using nd by (auto simp: isSpace_def isDigit_def)
  have sp: "dropWhile isSpace (ds @ rest) = ds @ rest" using d ns by simp
  have sign: "d \<noteq> CHR ''-''" "d \<noteq> CHR ''+''" using nd by (auto simp: isDigit_def)
  have tw: "takeWhile isDigit (ds @ rest) = ds" "dropWhile isDigit (ds @ rest) = rest"
    using assms(1,3) by (induction ds) (cases rest; auto)+
  show ?thesis using sp sign tw assms(2,4) d unfolding c_strtol_def Let_def by auto
qed

lemma httpStatusCode_ok:
  assumes "prefix ''HTTP/'' ver" "CHR '' '' \<notin> set ver" "list_all isDigit ds" "length ds = 3" "rest = [] \<or> \<not> isDigit (hd rest)"
    "100 \<le> decVal 0 ds" "decVal 0 ds \<le> 599"
  shows "httpStatusCode (Some (ver @ CHR '' '' # ds @ rest)) = int (decVal 0 ds)"
proof -
  have p: "strncmp0 (ver @ CHR '' '' # ds @ rest) ''HTTP/'' 5" using assms(1) by (auto simp: strncmp0_def prefix_def)
  have "dropWhile (\<lambda>x. x \<noteq> CHR '' '') (ver @ CHR '' '' # ds @ rest) = CHR '' '' # ds @ rest"
    using assms(2) by (induction ver) auto
  then have sp: "c_strchr (ver @ CHR '' '' # ds @ rest) (CHR '' '') = Some (CHR '' '' # ds @ rest)" by (simp add: c_strchr_def)
  have v: "c_strtol (ds @ rest) = (int (decVal 0 ds), rest)"
  proof -
    have "ds \<noteq> []" using assms(4) by auto
    then show ?thesis using c_strtol_digits [OF assms(3) _ assms(5)] assms(7) by (simp add: LONG_MAX_def)
  qed
  show ?thesis using p sp v assms(4,6,7) by (simp add: httpStatusCode_def Let_def)
qed

lemma httpStatusCode_range: "httpStatusCode l = -1 \<or> (100 \<le> httpStatusCode l \<and> httpStatusCode l \<le> 599)"
  by (auto simp: httpStatusCode_def Let_def split: option.splits)

lemma httpUrlSplit_sound:
  assumes "httpUrlSplit (Some u) cap = Some r"
  shows "urlHost r \<noteq> [] \<and> length (urlHost r) < cap \<and> 1 \<le> urlPort r \<and> urlPort r \<le> 65535 \<and> urlPath r \<noteq> [] \<and>
         (\<forall>c \<in> set (urlHost r). c \<noteq> CHR '':'' \<and> \<not> authEnd c) \<and> prefix (if urlHttps r then ''https://'' else ''http://'') u"
proof -
  define p where "p = drop (if strncmp0 u ''https://'' 8 then 8 else 7) u"
  define hp where "hp = takeWhile (\<lambda>c. \<not> authEnd c) p"
  let ?h = "takeWhile (\<lambda>c. c \<noteq> CHR '':'') hp" let ?a = "dropWhile (\<lambda>c. c \<noteq> CHR '':'') hp"
  have r: "r = \<lparr>urlHost = ?h, urlPath = (if dropWhile (\<lambda>c. \<not> authEnd c) p = [] then ''/'' else dropWhile (\<lambda>c. \<not> authEnd c) p),
      urlPort = (if ?a \<noteq> [] then nat (fst (c_strtol (tl ?a))) else if strncmp0 u ''https://'' 8 then 443 else 80), urlHttps = strncmp0 u ''https://'' 8\<rparr>"
    and len: "length hp < cap" and ne: "?h \<noteq> []" and port: "?a \<noteq> [] \<Longrightarrow> 1 \<le> fst (c_strtol (tl ?a)) \<and> fst (c_strtol (tl ?a)) \<le> 65535"
    and sch: "strncmp0 u ''https://'' 8 \<or> strncmp0 u ''http://'' 7"
    using assms unfolding httpUrlSplit_def Let_def p_def hp_def by (auto split: if_splits)
  have "length ?h \<le> length hp" by (rule length_takeWhile_le)
  moreover have "c \<noteq> CHR '':'' \<and> \<not> authEnd c" if "c \<in> set ?h" for c
    using that set_takeWhileD [of c _ hp] set_takeWhileD [of c _ p] unfolding hp_def by blast
  moreover have "prefix (if strncmp0 u ''https://'' 8 then ''https://'' else ''http://'') u"
    using sch strncmp0_lit [of "''https://''" 8 u] strncmp0_lit [of "''http://''" 7 u] by auto
  ultimately show ?thesis unfolding r using len ne port by auto
qed

end
