(* ===== verification/Shell_Core.thy ===== *)
theory Shell_Core
  imports Fw_Ring
begin

text \<open>
  The command shell: \<open>shell_line_policy.h\<close> (splitting a line into arguments, the nesting limit, the
  result of a command), \<open>shell_mode_policy.h\<close> (which transports a device accepts), and from \<open>Shell.cpp\<close>
  the dispatch of one line, the ring that carries work from other tasks to the main loop and the
  assembly of console lines.
\<close>

section \<open>Definitions\<close>

subsection \<open>Lines\<close>

definition SHELL_LINE_MAX :: nat where "SHELL_LINE_MAX = 1024"
definition SHELL_ARGS_MAX :: nat where "SHELL_ARGS_MAX = 16"

datatype ShellLine = ShellLine_Ok | ShellLine_TooLong | ShellLine_TooManyArgs

definition shellFits :: "cstr \<Rightarrow> nat \<Rightarrow> bool" where
  "shellFits s cap = (case s of None \<Rightarrow> False | Some x \<Rightarrow> length x < cap)"

definition blank :: "char \<Rightarrow> bool" where
  "blank c \<longleftrightarrow> c = CHR '' '' \<or> c = CHR 0x09"

definition trimEnd :: "string \<Rightarrow> string" where
  "trimEnd s = rev (dropWhile blank (rev s))"

text \<open>The splitting loop from the cursor \<open>p\<close> with \<open>n\<close> arguments already stored.\<close>

function splitLoop :: "nat \<Rightarrow> nat \<Rightarrow> nat \<Rightarrow> string \<Rightarrow> ShellLine \<times> string list" where
  "splitLoop maxArgs restFrom n p =
     (let q = dropWhile blank p
      in if q = [] then (ShellLine_Ok, [])
         else if maxArgs \<le> n then (ShellLine_TooManyArgs, [])
         else if n = restFrom \<and> 0 < restFrom then (ShellLine_Ok, [trimEnd q])
         else let r = splitLoop maxArgs restFrom (Suc n) (dropWhile (\<lambda>c. \<not> blank c) q)
              in (fst r, takeWhile (\<lambda>c. \<not> blank c) q # snd r))"
  by pat_completeness auto
termination
proof (relation "measure (\<lambda>(m, r, n, p). length p)")
  fix maxArgs restFrom n :: nat and p q :: string
  assume q: "q = dropWhile blank p" "q \<noteq> []"
  then have "\<not> blank (hd q)" using hd_dropWhile by blast
  with q(2) have "length (dropWhile (\<lambda>c. \<not> blank c) q) < length q"
    by (cases q) (auto simp: le_imp_less_Suc length_dropWhile_le)
  also have "\<dots> \<le> length p" unfolding q(1) by (rule length_dropWhile_le)
  finally show "((maxArgs, restFrom, Suc n, dropWhile (\<lambda>c. \<not> blank c) q), (maxArgs, restFrom, n, p)) \<in> measure (\<lambda>(m, r, n, p). length p)"
    by simp
qed simp

declare splitLoop.simps [simp del]

text \<open>A refused line leaves \<open>argc\<close> at 0, so its arguments are the empty list.\<close>

definition shellSplitLine :: "cstr \<Rightarrow> nat \<Rightarrow> nat \<Rightarrow> nat \<Rightarrow> ShellLine \<times> string list" where
  "shellSplitLine line bufSize maxArgs restFrom =
     (if \<not> shellFits line bufSize then (ShellLine_TooLong, [])
      else let r = splitLoop maxArgs restFrom 0 (the line)
           in if fst r = ShellLine_Ok then r else (fst r, []))"

definition SHELL_NEST_MAX :: int where "SHELL_NEST_MAX = 2"

definition shellParseSlot :: "int \<Rightarrow> int" where
  "shellParseSlot depth = (if 0 \<le> depth \<and> depth < SHELL_NEST_MAX then depth else -1)"

definition shellPumpAllowed :: "nat \<Rightarrow> nat option \<Rightarrow> bool" where
  "shellPumpAllowed task owner \<longleftrightarrow> owner = None \<or> Some task = owner"

datatype ShellResult = ShellResult_Ok | ShellResult_Failed

definition shellDispatchResult :: "ShellLine \<Rightarrow> nat \<Rightarrow> bool \<Rightarrow> bool \<Rightarrow> ShellResult" where
  "shellDispatchResult split argc found handlerFailed =
     (if split \<noteq> ShellLine_Ok then ShellResult_Failed
      else if argc = 0 then ShellResult_Ok
      else if \<not> found \<or> handlerFailed then ShellResult_Failed
      else ShellResult_Ok)"

subsection \<open>Modes\<close>

datatype ShellMode = SHELL_MODE_FULL | SHELL_MODE_SERIAL_ONLY | SHELL_MODE_MQTT_ONLY | SHELL_MODE_OFF

definition shellModeParse :: "cstr \<Rightarrow> ShellMode" where
  "shellModeParse s =
     (case s of None \<Rightarrow> SHELL_MODE_FULL
      | Some x \<Rightarrow> if x = [] then SHELL_MODE_FULL
                  else if x = ''full'' then SHELL_MODE_FULL
                  else if x = ''serial-only'' then SHELL_MODE_SERIAL_ONLY
                  else if x = ''mqtt-only'' then SHELL_MODE_MQTT_ONLY
                  else SHELL_MODE_OFF)"

definition shellModeSerialAllowed :: "ShellMode \<Rightarrow> bool" where
  "shellModeSerialAllowed m \<longleftrightarrow> m = SHELL_MODE_FULL \<or> m = SHELL_MODE_SERIAL_ONLY"

definition shellModeMqttAllowed :: "ShellMode \<Rightarrow> bool" where
  "shellModeMqttAllowed m \<longleftrightarrow> m = SHELL_MODE_FULL \<or> m = SHELL_MODE_MQTT_ONLY"

definition shellModeHttpAllowed :: "ShellMode \<Rightarrow> bool" where
  "shellModeHttpAllowed m \<longleftrightarrow> m = SHELL_MODE_FULL"

datatype HttpSurface = HTTP_SURFACE_CMD | HTTP_SURFACE_TERMINAL | HTTP_SURFACE_FILE_WRITE | HTTP_SURFACE_CONFIG_PUSH | HTTP_SURFACE_OTA

definition shellModeHttpSurfaceAllowed :: "ShellMode \<Rightarrow> HttpSurface \<Rightarrow> bool" where
  "shellModeHttpSurfaceAllowed m s =
     (if s = HTTP_SURFACE_CONFIG_PUSH \<or> s = HTTP_SURFACE_OTA then True else shellModeHttpAllowed m)"

definition shellModeResolve :: "bool \<Rightarrow> cstr \<Rightarrow> ShellMode" where
  "shellModeResolve keyPresent v =
     (if \<not> keyPresent then SHELL_MODE_FULL else if v = None then SHELL_MODE_OFF else shellModeParse v)"

definition shellModeUnrecognised :: "cstr \<Rightarrow> bool" where
  "shellModeUnrecognised s \<longleftrightarrow> s \<noteq> None \<and> s \<noteq> Some '''' \<and> shellModeParse s = SHELL_MODE_OFF \<and> s \<noteq> Some ''off''"

subsection \<open>Dispatch\<close>

record ShellEntry =
  cmdName :: string
  cmdRestFrom :: nat

definition MAX_COMMANDS :: nat where "MAX_COMMANDS = 60"

definition registerCommand :: "ShellEntry \<Rightarrow> ShellEntry list \<Rightarrow> ShellEntry list" where
  "registerCommand e cmds = (if MAX_COMMANDS \<le> length cmds then cmds else cmds @ [e])"

text \<open>\<open>strcasecmp\<close> is equality after lower-casing both. A handler is known by whether it reports failure
  on its arguments. The result: what the transport reports, and the command run with its arguments.\<close>

definition findCommand :: "string \<Rightarrow> ShellEntry list \<Rightarrow> ShellEntry option" where
  "findCommand name cmds = find (\<lambda>e. map toLower (cmdName e) = map toLower name) cmds"

definition execute :: "(string \<Rightarrow> string list \<Rightarrow> bool) \<Rightarrow> ShellEntry list \<Rightarrow> int \<Rightarrow> cstr \<Rightarrow> ShellResult \<times> (string \<times> string list) option" where
  "execute fails cmds depth line =
     (if line = None \<or> line = Some '''' then (ShellResult_Ok, None)
      else if shellParseSlot depth < 0 then (ShellResult_Failed, None)
      else let s1 = shellSplitLine line SHELL_LINE_MAX SHELL_ARGS_MAX 1;
               cmd = (if fst s1 = ShellLine_Ok \<and> snd s1 \<noteq> [] then findCommand (hd (snd s1)) cmds else None);
               s2 = (case cmd of None \<Rightarrow> s1 | Some e \<Rightarrow> shellSplitLine line SHELL_LINE_MAX SHELL_ARGS_MAX (cmdRestFrom e));
               runs = (if fst s2 = ShellLine_Ok then map_option (\<lambda>e. (cmdName e, snd s2)) cmd else None);
               failed = (case runs of None \<Rightarrow> False | Some r \<Rightarrow> fails (fst r) (snd r))
           in (shellDispatchResult (fst s2) (length (snd s2)) (cmd \<noteq> None) failed, runs))"

subsection \<open>The deferred ring\<close>

definition DEFERRED_RING_SIZE :: nat where "DEFERRED_RING_SIZE = 4"
definition DEFERRED_LINE_LEN :: nat where "DEFERRED_LINE_LEN = 256"

text \<open>What a slot carries: a command line with its output sink, or a callable.\<close>

datatype ('s, 'f) work = WorkLine string 's | WorkFn 'f

record ('s, 'f) DeferredSlot =
  slotWork :: "('s, 'f) work option"    \<comment> \<open>None: \<open>SlotMode::Empty\<close>\<close>
  slotActive :: bool

record ('s, 'f) deferred =
  ring :: "('s, 'f) DeferredSlot list"
  ringHead :: nat
  ringTail :: nat

definition ringInit :: "('s, 'f) deferred" where
  "ringInit = \<lparr>ring = replicate DEFERRED_RING_SIZE \<lparr>slotWork = None, slotActive = False\<rparr>, ringHead = 0, ringTail = 0\<rparr>"

text \<open>The critical section both enqueue operations share.\<close>

definition ringPut :: "('s, 'f) work \<Rightarrow> ('s, 'f) deferred \<Rightarrow> bool \<times> ('s, 'f) deferred" where
  "ringPut w d =
     (let next = (ringTail d + 1) mod DEFERRED_RING_SIZE
      in if next \<noteq> ringHead d
         then (True, d\<lparr>ring := (ring d)[ringTail d := \<lparr>slotWork = Some w, slotActive = True\<rparr>], ringTail := next\<rparr>)
         else (False, d))"

definition enqueueLine :: "cstr \<Rightarrow> 's \<Rightarrow> ('s, 'f) deferred \<Rightarrow> bool \<times> ('s, 'f) deferred" where
  "enqueueLine line sink d =
     (case line of None \<Rightarrow> (False, d)
      | Some l \<Rightarrow> if l = [] then (False, d)
                  else if \<not> shellFits line DEFERRED_LINE_LEN then (False, d)
                  else ringPut (WorkLine (take (DEFERRED_LINE_LEN - 1) l) sink) d)"

definition enqueueDeferred :: "'f option \<Rightarrow> ('s, 'f) deferred \<Rightarrow> bool \<times> ('s, 'f) deferred" where
  "enqueueDeferred fn d = (case fn of None \<Rightarrow> (False, d) | Some f \<Rightarrow> ringPut (WorkFn f) d)"

text \<open>The critical section of \<open>Shell::loop\<close>: the work it takes out, to be run afterwards.\<close>

definition shellLoop :: "('s, 'f) deferred \<Rightarrow> ('s, 'f) work option \<times> ('s, 'f) deferred" where
  "shellLoop d =
     (if ringHead d \<noteq> ringTail d \<and> slotActive (ring d ! ringHead d)
      then (slotWork (ring d ! ringHead d),
            d\<lparr>ring := (ring d)[ringHead d := \<lparr>slotWork = None, slotActive = False\<rparr>],
              ringHead := (ringHead d + 1) mod DEFERRED_RING_SIZE\<rparr>)
      else (None, d))"

subsection \<open>The console\<close>

record console =
  conBuf :: string
  conOverflow :: bool

datatype conEvent = ConRun string | ConTooLong

text \<open>One character of \<open>pumpConsole\<close> and what it triggers. The buffer is handed on as a C string, so a
  NUL byte ends the line that runs.\<close>

definition pumpChar :: "char \<Rightarrow> console \<Rightarrow> console \<times> conEvent list" where
  "pumpChar c s =
     (if c = CHR 0x0A \<or> c = CHR 0x0D
      then (\<lparr>conBuf = '''', conOverflow = False\<rparr>,
            if conOverflow s then [ConTooLong] else if conBuf s \<noteq> [] then [ConRun (takeWhile (\<lambda>c. c \<noteq> CHR 0x00) (conBuf s))] else [])
      else if length (conBuf s) < DEFERRED_LINE_LEN - 1 then (s\<lparr>conBuf := conBuf s @ [c]\<rparr>, [])
      else (s\<lparr>conOverflow := True\<rparr>, []))"

fun pumpConsole :: "bool \<Rightarrow> string \<Rightarrow> console \<Rightarrow> console \<times> conEvent list" where
  "pumpConsole allowed [] s = (if allowed then s else \<lparr>conBuf = '''', conOverflow = False\<rparr>, [])"
| "pumpConsole allowed (c # cs) s =
     (if \<not> allowed then (\<lparr>conBuf = '''', conOverflow = False\<rparr>, [])
      else let r = pumpChar c s; r' = pumpConsole allowed cs (fst r) in (fst r', snd r @ snd r'))"

section \<open>Splitting against a reference\<close>

text \<open>Cut a line at every blank; the words are the pieces that are not empty.\<close>

fun fieldsOf :: "string \<Rightarrow> string list" where
  "fieldsOf [] = [[]]"
| "fieldsOf (c # s) = (if blank c then [] # fieldsOf s else (c # hd (fieldsOf s)) # tl (fieldsOf s))"

definition wordsOf :: "string \<Rightarrow> string list" where
  "wordsOf s = filter (\<lambda>w. w \<noteq> []) (fieldsOf s)"

lemma fieldsOf_nonempty [simp]: "fieldsOf s \<noteq> []"
  by (cases s) auto

lemma wordsOf_blanks: "wordsOf (dropWhile blank s) = wordsOf s"
  by (induction s) (auto simp: wordsOf_def)

lemma fieldsOf_prefix:
  "list_all (\<lambda>c. \<not> blank c) w \<Longrightarrow> fieldsOf (w @ r) = (w @ hd (fieldsOf r)) # tl (fieldsOf r)"
  by (induction w) auto

lemma fieldsOf_hd: "r = [] \<or> blank (hd r) \<Longrightarrow> hd (fieldsOf r) = []"
  by (cases r) auto

lemma wordsOf_step:
  assumes "q \<noteq> []" "\<not> blank (hd q)"
  shows "wordsOf q = takeWhile (\<lambda>c. \<not> blank c) q # wordsOf (dropWhile (\<lambda>c. \<not> blank c) q)"
proof -
  let ?w = "takeWhile (\<lambda>c. \<not> blank c) q" let ?r = "dropWhile (\<lambda>c. \<not> blank c) q"
  have "list_all (\<lambda>c. \<not> blank c) ?w" by (auto simp: list_all_iff dest: set_takeWhileD)
  then have f: "fieldsOf q = (?w @ hd (fieldsOf ?r)) # tl (fieldsOf ?r)" using fieldsOf_prefix [of ?w ?r] by simp
  have w: "?w \<noteq> []" using assms by (cases q) auto
  have "?r = [] \<or> blank (hd ?r)" using hd_dropWhile [of "\<lambda>c. \<not> blank c" q] by blast
  then have "hd (fieldsOf ?r) = []" using fieldsOf_hd by blast
  then show ?thesis using f w by (cases "fieldsOf ?r") (auto simp: wordsOf_def)
qed

lemma splitLoop_words:
  "splitLoop maxArgs 0 n p =
     (if n + length (wordsOf p) \<le> max maxArgs n then (ShellLine_Ok, wordsOf p)
      else (ShellLine_TooManyArgs, take (maxArgs - n) (wordsOf p)))"
proof (induction maxArgs "0 :: nat" n p rule: splitLoop.induct)
  case (1 maxArgs n p)
  let ?q = "dropWhile blank p"
  show ?case
  proof (cases "?q = []")
    case True
    have "wordsOf (dropWhile blank p) = []" unfolding True by (simp add: wordsOf_def)
    then have "wordsOf p = []" by (simp only: wordsOf_blanks)
    then show ?thesis using True by (subst splitLoop.simps) simp
  next
    case False
    have nb: "\<not> blank (hd ?q)" using False hd_dropWhile by blast
    have w: "wordsOf p = takeWhile (\<lambda>c. \<not> blank c) ?q # wordsOf (dropWhile (\<lambda>c. \<not> blank c) ?q)"
      using wordsOf_step [OF False nb] wordsOf_blanks [of p] by simp
    show ?thesis
    proof (cases "maxArgs \<le> n")
      case True
      then show ?thesis using False w by (subst splitLoop.simps) (simp add: Let_def max_def)
    next
      case lt: False
      note ih = "1.hyps" [OF refl False lt]
      have s: "maxArgs - n = Suc (maxArgs - Suc n)" "max maxArgs n = maxArgs" "max maxArgs (Suc n) = maxArgs"
        using lt by simp_all
      show ?thesis using False lt w
        by (subst splitLoop.simps) (simp add: Let_def s ih del: dropWhile_eq_Nil_conv)
    qed
  qed
qed

text \<open>Splitting a command line. For every line and every limit the shell's in-place splitter agrees
  with cutting the line at blanks and keeping the non-empty pieces: the arguments are exactly those words
  in order, and a line or a word count over the limit is refused whole rather than clipped.\<close>

lemma shellSplitLine_words:
  "shellSplitLine (Some line) bufSize maxArgs 0 =
     (if bufSize \<le> length line then (ShellLine_TooLong, [])
      else if maxArgs < length (wordsOf line) then (ShellLine_TooManyArgs, [])
      else (ShellLine_Ok, wordsOf line))"
  by (auto simp: shellSplitLine_def shellFits_def splitLoop_words)

text \<open>A command that takes the rest of its line gets it with the inner blanks kept.\<close>

lemma word_then_blank:
  "list_all (\<lambda>c. \<not> blank c) w \<Longrightarrow> takeWhile (\<lambda>c. \<not> blank c) (w @ CHR '' '' # t) = w"
  "list_all (\<lambda>c. \<not> blank c) w \<Longrightarrow> dropWhile (\<lambda>c. \<not> blank c) (w @ CHR '' '' # t) = CHR '' '' # t"
  by (induction w) (auto simp: blank_def)

lemma splitLoop_rest:
  assumes "0 < restFrom" "list_all (\<lambda>w. w \<noteq> [] \<and> list_all (\<lambda>c. \<not> blank c) w) ws" "length ws = restFrom - n" "n \<le> restFrom"
    "restFrom < maxArgs" "rest \<noteq> []" "\<not> blank (hd rest)" "\<not> blank (last rest)"
  shows "splitLoop maxArgs restFrom n (concat (map (\<lambda>w. w @ '' '') ws) @ rest) = (ShellLine_Ok, ws @ [rest])"
  using assms
proof (induction ws arbitrary: n)
  case Nil
  then have d: "dropWhile blank rest = rest" by (cases rest) auto
  have "trimEnd rest = rest" using Nil by (cases rest rule: rev_cases) (auto simp: trimEnd_def)
  then show ?case using Nil d by (subst splitLoop.simps) (simp add: Let_def)
next
  case (Cons w ws)
  let ?t = "concat (map (\<lambda>w. w @ '' '') ws) @ rest"
  have d: "dropWhile blank (w @ CHR '' '' # ?t) = w @ CHR '' '' # ?t" using Cons.prems by (cases w) auto
  have "takeWhile (\<lambda>c. \<not> blank c) (w @ CHR '' '' # ?t) = w" "dropWhile (\<lambda>c. \<not> blank c) (w @ CHR '' '' # ?t) = CHR '' '' # ?t"
    using Cons.prems(2) word_then_blank [of w ?t] by simp_all
  moreover have "splitLoop maxArgs restFrom (Suc n) (CHR '' '' # ?t) = splitLoop maxArgs restFrom (Suc n) ?t"
    by (subst (1 2) splitLoop.simps) (simp add: blank_def)
  moreover have "splitLoop maxArgs restFrom (Suc n) ?t = (ShellLine_Ok, ws @ [rest])"
    using Cons.IH [of "Suc n"] Cons.prems by simp
  ultimately show ?case using Cons.prems d by (subst splitLoop.simps) (simp add: Let_def)
qed

section \<open>Dispatch\<close>

text \<open>A command runs only on a line within the limits, and with the arguments of that line.\<close>

lemma execute_runs:
  assumes "execute fails cmds depth line = (r, Some (name, argv))"
  shows "\<exists>l e. line = Some l \<and> length l < SHELL_LINE_MAX \<and> 0 \<le> depth \<and> depth < SHELL_NEST_MAX \<and> e \<in> set cmds \<and> cmdName e = name \<and>
    shellSplitLine line SHELL_LINE_MAX SHELL_ARGS_MAX (cmdRestFrom e) = (ShellLine_Ok, argv) \<and>
    (r = ShellResult_Failed \<longrightarrow> fails name argv \<or> argv = [])"
proof -
  have l: "line \<noteq> None" "0 \<le> depth" "depth < SHELL_NEST_MAX"
    using assms by (auto simp: execute_def shellParseSlot_def split: if_splits)
  let ?s1 = "shellSplitLine line SHELL_LINE_MAX SHELL_ARGS_MAX 1"
  obtain e where e: "findCommand (hd (snd ?s1)) cmds = Some e" "fst ?s1 = ShellLine_Ok"
      "shellSplitLine line SHELL_LINE_MAX SHELL_ARGS_MAX (cmdRestFrom e) = (ShellLine_Ok, argv)" "name = cmdName e"
      "r = shellDispatchResult ShellLine_Ok (length argv) True (fails name argv)"
    using assms unfolding execute_def Let_def by (auto split: if_splits option.splits) (metis prod.collapse)+
  have "e \<in> set cmds" using e(1) unfolding findCommand_def by (auto simp: find_Some_iff)
  moreover obtain x where "line = Some x" "length x < SHELL_LINE_MAX"
    using e(2) l(1) by (cases line) (auto simp: shellSplitLine_def shellFits_def split: if_splits)
  ultimately show ?thesis using l e by (auto simp: shellDispatchResult_def split: if_splits)
qed

lemma shellMode_closed:
  "shellModeParse (Some s) \<noteq> SHELL_MODE_OFF \<longleftrightarrow> s \<in> {'''', ''full'', ''serial-only'', ''mqtt-only''}"
  by (auto simp: shellModeParse_def)

section \<open>The deferred ring is a bounded queue\<close>

definition ringCount :: "('s, 'f) deferred \<Rightarrow> nat" where
  "ringCount d = (ringTail d + DEFERRED_RING_SIZE - ringHead d) mod DEFERRED_RING_SIZE"

definition ringWork :: "('s, 'f) deferred \<Rightarrow> ('s, 'f) work list" where
  "ringWork d = map (the \<circ> slotWork) (ringView (ring d) (ringHead d) (ringCount d))"

definition ringOk :: "('s, 'f) deferred \<Rightarrow> bool" where
  "ringOk d \<longleftrightarrow> length (ring d) = DEFERRED_RING_SIZE \<and> ringHead d < DEFERRED_RING_SIZE \<and> ringTail d < DEFERRED_RING_SIZE \<and>
     list_all (\<lambda>s. slotActive s \<and> slotWork s \<noteq> None) (ringView (ring d) (ringHead d) (ringCount d))"

text \<open>What another task asks of the ring, and the work the request carries if it is well formed.\<close>

datatype ('s, 'f) request = ReqLine cstr 's | ReqFn "'f option"

definition enqueueReq :: "('s, 'f) request \<Rightarrow> ('s, 'f) deferred \<Rightarrow> bool \<times> ('s, 'f) deferred" where
  "enqueueReq r d = (case r of ReqLine l s \<Rightarrow> enqueueLine l s d | ReqFn f \<Rightarrow> enqueueDeferred f d)"

definition reqWork :: "('s, 'f) request \<Rightarrow> ('s, 'f) work option" where
  "reqWork r =
     (case r of
        ReqLine l s \<Rightarrow> (case l of None \<Rightarrow> None | Some x \<Rightarrow> if 0 < length x \<and> length x < DEFERRED_LINE_LEN then Some (WorkLine x s) else None)
      | ReqFn f \<Rightarrow> map_option WorkFn f)"

lemma enqueueReq_put:
  "enqueueReq r d = (case reqWork r of None \<Rightarrow> (False, d) | Some w \<Rightarrow> ringPut w d)"
  by (auto simp: enqueueReq_def reqWork_def enqueueLine_def enqueueDeferred_def shellFits_def split: request.splits option.splits)

lemma ring_cases4:
  assumes "h < (4 :: nat)" "t < 4"
  obtains "(t + 4 - h) mod 4 = 0" "t = h" | "0 < (t + 4 - h) mod 4" "t \<noteq> h" "t = (h + (t + 4 - h) mod 4) mod 4"
proof -
  have "h \<in> {0, 1, 2, 3}" "t \<in> {0, 1, 2, 3}" using assms by auto
  then show ?thesis using that by auto
qed

lemma ring_put4:
  assumes "h < (4 :: nat)" "t < 4"
  shows "(t + 1) mod 4 \<noteq> h \<longleftrightarrow> (t + 4 - h) mod 4 < 3"
    and "(t + 4 - h) mod 4 < 3 \<Longrightarrow> ((t + 1) mod 4 + 4 - h) mod 4 = Suc ((t + 4 - h) mod 4)"
    and "0 < (t + 4 - h) mod 4 \<Longrightarrow> (t + 4 - (h + 1) mod 4) mod 4 = (t + 4 - h) mod 4 - 1"
    and "(h + (t + 4 - h) mod 4) mod 4 = t"
proof -
  have "h \<in> {0, 1, 2, 3}" "t \<in> {0, 1, 2, 3}" using assms by auto
  then show "(t + 1) mod 4 \<noteq> h \<longleftrightarrow> (t + 4 - h) mod 4 < 3"
    and "(t + 4 - h) mod 4 < 3 \<Longrightarrow> ((t + 1) mod 4 + 4 - h) mod 4 = Suc ((t + 4 - h) mod 4)"
    and "0 < (t + 4 - h) mod 4 \<Longrightarrow> (t + 4 - (h + 1) mod 4) mod 4 = (t + 4 - h) mod 4 - 1"
    and "(h + (t + 4 - h) mod 4) mod 4 = t"
    by auto
qed

lemma ringPut_full: "ringOk d \<Longrightarrow> fst (ringPut w d) \<longleftrightarrow> ringCount d < 3"
  using ring_put4(1) [of "ringHead d" "ringTail d"]
  by (auto simp: ringPut_def ringOk_def ringCount_def DEFERRED_RING_SIZE_def Let_def)

lemma ringPut_view:
  assumes "ringOk d" "fst (ringPut w d)"
  shows "ringView (ring (snd (ringPut w d))) (ringHead (snd (ringPut w d))) (ringCount (snd (ringPut w d))) =
         ringView (ring d) (ringHead d) (ringCount d) @ [\<lparr>slotWork = Some w, slotActive = True\<rparr>]"
proof -
  have b: "ringHead d < 4" "ringTail d < 4" "length (ring d) = 4" using assms(1) by (auto simp: ringOk_def DEFERRED_RING_SIZE_def)
  have lt: "ringCount d < 3" using assms ringPut_full by blast
  have t: "(ringHead d + ringCount d) mod length (ring d) = ringTail d"
    using ring_put4(4) [OF b(1,2)] b by (simp add: ringCount_def DEFERRED_RING_SIZE_def)
  have "ringCount (snd (ringPut w d)) = Suc (ringCount d)"
    using assms(2) ring_put4(2) [OF b(1,2)] lt
    by (auto simp: ringPut_def Let_def ringCount_def DEFERRED_RING_SIZE_def split: if_splits)
  then show ?thesis using ringView_push [of "ringCount d" "ring d" "ringHead d" "\<lparr>slotWork = Some w, slotActive = True\<rparr>"] lt b assms(2)
    unfolding t by (auto simp: ringPut_def Let_def split: if_splits)
qed

lemma ringPut_refused: "\<not> fst (ringPut w d) \<Longrightarrow> snd (ringPut w d) = d"
  by (simp add: ringPut_def Let_def split: if_splits)

lemma ringPut_shape:
  "ringOk d \<Longrightarrow> length (ring (snd (ringPut w d))) = DEFERRED_RING_SIZE \<and> ringHead (snd (ringPut w d)) < DEFERRED_RING_SIZE \<and>
     ringTail (snd (ringPut w d)) < DEFERRED_RING_SIZE"
  by (simp add: ringPut_def ringOk_def Let_def DEFERRED_RING_SIZE_def)

lemma ringPut_ok: "ringOk d \<Longrightarrow> ringOk (snd (ringPut w d))"
proof -
  assume d: "ringOk d"
  show ?thesis
  proof (cases "fst (ringPut w d)")
    case True
    then show ?thesis using ringPut_view [OF d True] ringPut_shape [OF d, of w] d by (simp add: ringOk_def)
  qed (simp add: ringPut_refused d)
qed

lemma ringPut_work: "ringOk d \<Longrightarrow> ringWork (snd (ringPut w d)) = ringWork d @ (if fst (ringPut w d) then [w] else [])"
  by (simp add: ringWork_def ringPut_view ringPut_refused)

lemma shellLoop_empty: "ringCount d = 0 \<Longrightarrow> ringOk d \<Longrightarrow> shellLoop d = (None, d)"
  using ring_cases4 [of "ringHead d" "ringTail d"]
  by (fastforce simp: shellLoop_def ringOk_def ringCount_def DEFERRED_RING_SIZE_def)

lemma shellLoop_step:
  assumes d: "ringOk d" "0 < ringCount d"
  shows "\<exists>w. fst (shellLoop d) = Some w \<and> ringWork d = w # ringWork (snd (shellLoop d)) \<and> ringOk (snd (shellLoop d))"
proof -
  let ?h = "ringHead d" let ?s = "ring d ! ?h" let ?d = "snd (shellLoop d)"
  let ?e = "\<lparr>slotWork = None, slotActive = False\<rparr>"
  have b: "?h < 4" "ringTail d < 4" "length (ring d) = 4" using d(1) by (auto simp: ringOk_def DEFERRED_RING_SIZE_def)
  have v: "ringView (ring d) ?h (ringCount d) = ?s # ringView (ring d) ((?h + 1) mod 4) (ringCount d - 1)"
    using ringView_pop [OF d(2), of "ring d" ?h] b by simp
  then have s: "slotActive ?s" "slotWork ?s \<noteq> None" using d(1) by (auto simp: ringOk_def)
  have ne: "?h \<noteq> ringTail d" using d(2) by (auto simp: ringCount_def DEFERRED_RING_SIZE_def)
  have st: "ring ?d = (ring d)[?h := ?e]" "ringHead ?d = (?h + 1) mod 4" "ringTail ?d = ringTail d" "fst (shellLoop d) = slotWork ?s"
    using s ne by (simp_all add: shellLoop_def DEFERRED_RING_SIZE_def)
  have c: "ringCount ?d = ringCount d - 1"
    using ring_put4(3) [OF b(1,2)] d(2) st by (simp add: ringCount_def DEFERRED_RING_SIZE_def)
  have lt: "ringCount d - 1 < 4" "ringCount d \<le> 3" by (simp_all add: ringCount_def DEFERRED_RING_SIZE_def)
  have "ringView (ring ?d) (ringHead ?d) (ringCount ?d) = ringView (ring d) ((?h + 1) mod 4) (ringCount d - 1)"
  proof (rule nth_equalityI)
    fix i assume "i < length (ringView (ring ?d) (ringHead ?d) (ringCount ?d))"
    then have i: "i < ringCount d - 1" using c by simp
    have "(?h + 1 + i) mod 4 \<noteq> (?h + 0) mod 4" using ring_index_inj [of ?h "1 + i" 4 0] i lt by (auto simp: add.assoc)
    then have "((?h + 1) mod 4 + i) mod 4 \<noteq> ?h" using b by (simp add: mod_add_left_eq)
    then show "ringView (ring ?d) (ringHead ?d) (ringCount ?d) ! i = ringView (ring d) ((?h + 1) mod 4) (ringCount d - 1) ! i"
      using i c b st by simp
  qed (simp add: c)
  then show ?thesis using v s st b d(1) by (auto simp: ringWork_def ringOk_def DEFERRED_RING_SIZE_def)
qed

lemma ringInit_ok: "ringOk ringInit" "ringWork ringInit = []"
  by (simp_all add: ringOk_def ringInit_def ringCount_def ringWork_def DEFERRED_RING_SIZE_def)

lemma length_ringWork: "length (ringWork d) = ringCount d"
  by (simp add: ringWork_def)

lemma shellLoop_head: "ringOk d \<Longrightarrow> fst (shellLoop d) = (case ringWork d of [] \<Rightarrow> None | w # _ \<Rightarrow> Some w)"
  using shellLoop_empty [of d] shellLoop_step [of d] length_ringWork [of d]
  by (cases "ringCount d") (auto simp: fun_eq_iff)

lemma shellLoop_rest: "ringOk d \<Longrightarrow> ringWork (snd (shellLoop d)) = tl (ringWork d) \<and> ringOk (snd (shellLoop d))"
  using shellLoop_empty [of d] shellLoop_step [of d] length_ringWork [of d]
  by (cases "ringCount d") auto

interpretation deferredQ: work_queue ringOk 3 ringWork reqWork enqueueReq shellLoop
proof unfold_locales
  fix d :: "('a, 'b) deferred" and r :: "('a, 'b) request"
  assume d: "ringOk d"
  show "ringOk (snd (enqueueReq r d))" using d by (auto simp: enqueueReq_put ringPut_ok split: option.splits)
  show "ringOk (snd (shellLoop d))" "ringWork (snd (shellLoop d)) = tl (ringWork d)" using d shellLoop_rest by blast+
  show "fst (enqueueReq r d) = (reqWork r \<noteq> None \<and> length (ringWork d) < 3)"
    using d by (auto simp: enqueueReq_put ringPut_full length_ringWork split: option.splits)
  show "ringWork (snd (enqueueReq r d)) = ringWork d @ (if fst (enqueueReq r d) then [the (reqWork r)] else [])"
    using d by (auto simp: enqueueReq_put ringPut_work split: option.splits)
  show "fst (shellLoop d) = (case ringWork d of [] \<Rightarrow> None | w # _ \<Rightarrow> Some w)" using d by (rule shellLoop_head)
qed


section \<open>The console\<close>

text \<open>The lines of a byte stream are its pieces between line ends; the last piece is not ended yet.\<close>

fun cutLines :: "string \<Rightarrow> string list" where
  "cutLines [] = [[]]"
| "cutLines (c # s) =
     (if c = CHR 0x0A \<or> c = CHR 0x0D then [] # cutLines s else (c # hd (cutLines s)) # tl (cutLines s))"

definition lineEvent :: "string \<Rightarrow> conEvent list" where
  "lineEvent l =
     (if DEFERRED_LINE_LEN \<le> length l then [ConTooLong]
      else if l = [] then [] else [ConRun (takeWhile (\<lambda>c. c \<noteq> CHR 0x00) l)])"

definition conState :: "string \<Rightarrow> console" where
  "conState l = \<lparr>conBuf = take (DEFERRED_LINE_LEN - 1) l, conOverflow = (DEFERRED_LINE_LEN \<le> length l)\<rparr>"

text \<open>The turns of the main loop: each pumps the bytes that have arrived since the last one.\<close>

fun pumpTurns :: "string list \<Rightarrow> console \<Rightarrow> console \<times> conEvent list" where
  "pumpTurns [] s = (s, [])"
| "pumpTurns (b # bs) s = (let r = pumpConsole True b s; r' = pumpTurns bs (fst r) in (fst r', snd r @ snd r'))"

lemma cutLines_nonempty [simp]: "cutLines s \<noteq> []"
  by (cases s) auto

lemma cutLines_prefix:
  "list_all (\<lambda>c. \<not> (c = CHR 0x0A \<or> c = CHR 0x0D)) w \<Longrightarrow> cutLines (w @ r) = (w @ hd (cutLines r)) # tl (cutLines r)"
  by (induction w) auto

lemma pumpChar_end:
  assumes "c = CHR 0x0A \<or> c = CHR 0x0D"
  shows "pumpChar c (conState l) = (conState [], lineEvent l)"
proof (cases "l = []")
  case False
  then have "take (DEFERRED_LINE_LEN - 1) l \<noteq> []" by (simp add: DEFERRED_LINE_LEN_def)
  then show ?thesis using assms False by (auto simp: pumpChar_def conState_def lineEvent_def)
qed (use assms in \<open>auto simp: pumpChar_def conState_def lineEvent_def DEFERRED_LINE_LEN_def\<close>)

lemma pumpChar_add:
  assumes "\<not> (c = CHR 0x0A \<or> c = CHR 0x0D)"
  shows "pumpChar c (conState l) = (conState (l @ [c]), [])"
  using assms by (auto simp: pumpChar_def conState_def DEFERRED_LINE_LEN_def)

lemma pumpConsole_lines:
  "list_all (\<lambda>c. \<not> (c = CHR 0x0A \<or> c = CHR 0x0D)) l \<Longrightarrow>
   pumpConsole True s (conState l) =
     (conState (last (cutLines (l @ s))), concat (map lineEvent (butlast (cutLines (l @ s)))))"
proof (induction s arbitrary: l)
  case Nil
  then show ?case using cutLines_prefix [of l "[]"] by simp
next
  case (Cons c s)
  show ?case
  proof (cases "c = CHR 0x0A \<or> c = CHR 0x0D")
    case True
    have "cutLines (l @ c # s) = l # cutLines s" using cutLines_prefix [OF Cons.prems, of "c # s"] True by auto
    moreover have "pumpConsole True s (conState []) = (conState (last (cutLines s)), concat (map lineEvent (butlast (cutLines s))))"
      using Cons.IH [of "[]"] by simp
    ultimately show ?thesis using pumpChar_end [OF True, of l] by (simp add: Let_def)
  next
    case False
    then show ?thesis using Cons.IH [of "l @ [c]"] Cons.prems pumpChar_add [OF False, of l] by (simp add: Let_def)
  qed
qed

lemma pumpConsole_append:
  "pumpConsole True (a @ b) s = (let r = pumpConsole True a s; r' = pumpConsole True b (fst r) in (fst r', snd r @ snd r'))"
  by (induction a arbitrary: s) (auto simp: Let_def)

lemma pumpTurns_concat: "pumpTurns bs s = pumpConsole True (concat bs) s"
  by (induction bs arbitrary: s) (auto simp: pumpConsole_append Let_def)

text \<open>The serial console. However the typed bytes are spread over turns of the main loop, the console
  runs exactly the non-empty lines of at most 255 bytes, whole and in order, and answers each longer one
  with a refusal: no part of an overlong line is ever run, and it does not affect the lines after it.\<close>

lemma console_lines:
  "snd (pumpTurns turns \<lparr>conBuf = '''', conOverflow = False\<rparr>) = concat (map lineEvent (butlast (cutLines (concat turns))))"
  using pumpConsole_lines [of "[]" "concat turns"]
  by (simp add: pumpTurns_concat conState_def DEFERRED_LINE_LEN_def)

end
