(* ===== verification/Fs_Store.thy ===== *)
theory Fs_Store
  imports Fw_Prelude
begin

text \<open>
  Files: \<open>path_safety_policy.h\<close>, \<open>glob_policy.h\<close>, \<open>config_write_policy.h\<close> and the atomic file writer of
  \<open>HttpServer.cpp\<close>. The file system is a map from paths to contents together with the faults its
  operations will meet: every operation takes the next entry of the fault list, so a statement for all
  fault lists covers every pattern of failing operations and short writes.
\<close>

section \<open>Definitions\<close>

subsection \<open>A file system with faults\<close>

text \<open>\<open>Fault w l\<close>: an operation fails; a write reports \<open>w\<close> bytes while \<open>l\<close> bytes reach the disk.\<close>

datatype fault = NoFault | Fault nat nat

record disk =
  files :: "string \<Rightarrow> string option"
  faults :: "fault list"

definition nextFault :: "disk \<Rightarrow> fault \<times> disk" where
  "nextFault d = (case faults d of [] \<Rightarrow> (NoFault, d) | f # fs \<Rightarrow> (f, d\<lparr>faults := fs\<rparr>))"

definition fsExists :: "string \<Rightarrow> disk \<Rightarrow> bool \<times> disk" where
  "fsExists p d = (let (f, d1) = nextFault d in (f = NoFault \<and> files d1 p \<noteq> None, d1))"

definition fsRemove :: "string \<Rightarrow> disk \<Rightarrow> bool \<times> disk" where
  "fsRemove p d =
     (let (f, d1) = nextFault d
      in if f = NoFault \<and> files d1 p \<noteq> None then (True, d1\<lparr>files := (files d1)(p := None)\<rparr>) else (False, d1))"

text \<open>FAT refuses to rename onto an existing name, LittleFS replaces it.\<close>

definition fatRename :: "string \<Rightarrow> string \<Rightarrow> disk \<Rightarrow> bool \<times> disk" where
  "fatRename a b d =
     (let (f, d1) = nextFault d
      in if f = NoFault \<and> files d1 a \<noteq> None \<and> files d1 b = None
         then (True, d1\<lparr>files := (files d1)(b := files d1 a, a := None)\<rparr>) else (False, d1))"

definition lfsRename :: "string \<Rightarrow> string \<Rightarrow> disk \<Rightarrow> bool \<times> disk" where
  "lfsRename a b d =
     (let (f, d1) = nextFault d
      in if f = NoFault \<and> files d1 a \<noteq> None
         then (True, d1\<lparr>files := (files d1)(a := None, b := files d1 a)\<rparr>) else (False, d1))"

text \<open>Opening for writing truncates; the bytes land when the file is closed. The result is the count the
  write reported, or None if the file did not open.\<close>

definition fsWrite :: "string \<Rightarrow> string \<Rightarrow> disk \<Rightarrow> nat option \<times> disk" where
  "fsWrite p body d =
     (let (f, d1) = nextFault d
      in if f \<noteq> NoFault then (None, d1)
         else let (g, d2) = nextFault d1
              in case g of NoFault \<Rightarrow> (Some (length body), d2\<lparr>files := (files d2)(p := Some body)\<rparr>)
                 | Fault w l \<Rightarrow> (Some w, d2\<lparr>files := (files d2)(p := Some (take l body))\<rparr>))"

definition fsSize :: "string \<Rightarrow> disk \<Rightarrow> nat \<times> disk" where
  "fsSize p d = (let (f, d1) = nextFault d in (if f \<noteq> NoFault then 0 else case files d1 p of None \<Rightarrow> 0 | Some s \<Rightarrow> length s, d1))"

subsection \<open>Paths\<close>

definition pathSafePolicy :: "cstr \<Rightarrow> bool" where
  "pathSafePolicy path =
     (case path of None \<Rightarrow> False
      | Some p \<Rightarrow> if p = [] then False
                  else if hd p \<noteq> CHR ''/'' then False
                  else if c_strstr p ''..'' \<noteq> None then False
                  else if c_strstr p ''//'' \<noteq> None then False
                  else True)"

function livePathLoop :: "string \<Rightarrow> string" where
  "livePathLoop s =
     (let p = dropWhile (\<lambda>c. c = CHR ''/'') s
      in if p \<noteq> [] \<and> hd p = CHR ''.'' \<and> (tl p = [] \<or> hd (tl p) = CHR ''/'') then livePathLoop (tl p) else p)"
  by pat_completeness auto
termination
proof (relation "measure length")
  fix s x :: string
  assume x: "x = dropWhile (\<lambda>c. c = CHR ''/'') s" "x \<noteq> [] \<and> hd x = CHR ''.'' \<and> (tl x = [] \<or> hd (tl x) = CHR ''/'')"
  have "length x \<le> length s" unfolding x(1) by (rule length_dropWhile_le)
  then show "(tl x, s) \<in> measure length" using x(2) by (cases x) auto
qed simp

declare livePathLoop.simps [simp del]

definition configPathIsLive :: "cstr \<Rightarrow> bool" where
  "configPathIsLive path = (case path of None \<Rightarrow> False | Some p \<Rightarrow> livePathLoop p = ''config.json'')"

definition fileWriteLanded :: "nat \<Rightarrow> nat \<Rightarrow> nat \<Rightarrow> bool" where
  "fileWriteLanded written onDisk expected \<longleftrightarrow> written = expected \<and> onDisk = expected"

definition configWriteLanded :: "nat \<Rightarrow> nat \<Rightarrow> nat \<Rightarrow> bool" where
  "configWriteLanded written onDisk expected \<longleftrightarrow> 0 < expected \<and> fileWriteLanded written onDisk expected"

definition UPLOAD_TMP_NAME :: string where "UPLOAD_TMP_NAME = ''.upload.tmp''"
definition UPLOAD_BAK_NAME :: string where "UPLOAD_BAK_NAME = ''.upload.bak''"

definition uploadNameReserved :: "string \<Rightarrow> bool" where
  "uploadNameReserved name =
     (let stem = rev (dropWhile (\<lambda>c. c = CHR ''.'' \<or> c = CHR '' '') (rev name))
      in list_ex (\<lambda>r. length r = length stem \<and> map toLower stem = r) [UPLOAD_TMP_NAME, UPLOAD_BAK_NAME])"

definition uploadStagePath :: "nat \<Rightarrow> cstr \<Rightarrow> cstr \<Rightarrow> string option" where
  "uploadStagePath cap path name =
     (case (path, name) of
        (Some p, Some n) \<Rightarrow>
          if cap = 0 then None
          else (case c_strrchr p CHR ''/'' of None \<Rightarrow> None
                | Some i \<Rightarrow> if drop (Suc i) p = [] \<or> uploadNameReserved (drop (Suc i) p) then None
                            else if Suc i + length n + 1 > cap then None
                            else Some (take (Suc i) p @ n))
      | _ \<Rightarrow> None)"

definition uploadTmpPath :: "nat \<Rightarrow> cstr \<Rightarrow> string option" where
  "uploadTmpPath cap path = uploadStagePath cap path (Some UPLOAD_TMP_NAME)"

subsection \<open>Committing a staged file\<close>

datatype FatCommit = FAT_COMMIT_OK | FAT_COMMIT_OK_BAK_LEFT | FAT_COMMIT_KEPT_OLD | FAT_COMMIT_STRANDED

definition fatCommit :: "string \<Rightarrow> string \<Rightarrow> string \<Rightarrow> disk \<Rightarrow> FatCommit \<times> disk" where
  "fatCommit tmp bak path d =
     (let (ex, d1) = fsExists path d;
          (go, parked, d2) = (if \<not> ex then (True, False, d1)
                              else let (_, e1) = fsRemove bak d1; (ok, e2) = fatRename path bak e1
                                   in if ok then (True, True, e2) else (False, False, snd (fsRemove tmp e2)))
      in if \<not> go then (FAT_COMMIT_KEPT_OLD, d2)
         else let (moved, d3) = fatRename tmp path d2
              in if \<not> moved
                 then if \<not> parked then (FAT_COMMIT_KEPT_OLD, snd (fsRemove tmp d3))
                      else let (back, d4) = fatRename bak path d3
                           in if back then (FAT_COMMIT_KEPT_OLD, snd (fsRemove tmp d4)) else (FAT_COMMIT_STRANDED, d4)
                 else if \<not> parked then (FAT_COMMIT_OK, d3)
                      else let (gone, d4) = fsRemove bak d3
                           in (if gone then FAT_COMMIT_OK else FAT_COMMIT_OK_BAK_LEFT, d4))"

text \<open>\<open>_fileWriteAtomic\<close>: the bytes on disk when it reports success.\<close>

definition fileWriteAtomic :: "bool \<Rightarrow> string \<Rightarrow> string \<Rightarrow> disk \<Rightarrow> nat option \<times> disk" where
  "fileWriteAtomic lfs path body d =
     (case (uploadTmpPath 192 (Some path), uploadStagePath 192 (Some path) (Some UPLOAD_BAK_NAME)) of
        (Some tmp, Some bak) \<Rightarrow>
          (let (w, d1) = fsWrite tmp body d
           in case w of None \<Rightarrow> (None, d1)
              | Some written \<Rightarrow>
                  (let (got, d2) = fsSize tmp d1
                   in if \<not> fileWriteLanded written got (length body) then (None, snd (fsRemove tmp d2))
                      else if lfs then (let (ok, d3) = lfsRename tmp path d2
                                        in if ok then (Some got, d3) else (None, snd (fsRemove tmp d3)))
                      else (let (v, d3) = fatCommit tmp bak path d2
                            in if v = FAT_COMMIT_OK \<or> v = FAT_COMMIT_OK_BAK_LEFT then (Some got, d3) else (None, d3))))
      | _ \<Rightarrow> (None, d))"

subsection \<open>Wildcards\<close>

definition globHasWildcard :: "cstr \<Rightarrow> bool" where
  "globHasWildcard s = (case s of None \<Rightarrow> False | Some x \<Rightarrow> CHR ''*'' \<in> set x \<or> CHR ''?'' \<in> set x)"

definition stars :: "string \<Rightarrow> nat" where
  "stars p = length (filter (\<lambda>c. c = CHR ''*'') p)"

text \<open>The loop of \<open>globMatch\<close>: the pattern and the name from their cursors, and the backtrack point (the
  pattern after the last star, and the name at the mark).\<close>

function globLoop :: "string \<Rightarrow> string \<Rightarrow> (string \<times> string) option \<Rightarrow> bool" where
  "globLoop pat name star =
     (if name = [] then dropWhile (\<lambda>c. c = CHR ''*'') pat = []
      else if pat \<noteq> [] \<and> (hd pat = CHR ''?'' \<or> hd pat = hd name) then globLoop (tl pat) (tl name) star
      else if pat \<noteq> [] \<and> hd pat = CHR ''*'' then globLoop (tl pat) name (Some (tl pat, name))
      else (case star of None \<Rightarrow> False | Some (sp, mark) \<Rightarrow> globLoop sp (tl mark) (Some (sp, tl mark))))"
  by pat_completeness auto
termination
proof (relation "measures [\<lambda>(p, n, st). max (stars p) (case st of None \<Rightarrow> 0 | Some (sp, m) \<Rightarrow> stars sp),
    \<lambda>(p, n, st). (case st of None \<Rightarrow> 0 | Some (sp, m) \<Rightarrow> length m), \<lambda>(p, n, st). length n]", goal_cases)
  case (2 pat name star)
  then have "stars (tl pat) \<le> stars pat" by (cases pat) (auto simp: stars_def)
  moreover have "length (tl name) < length name" using 2 by (cases name) auto
  ultimately show ?case by (auto split: option.splits simp: max_def)
next
  case (3 pat name star)
  then have "stars (tl pat) < stars pat" by (cases pat) (auto simp: stars_def)
  then show ?case by (auto split: option.splits)
next
  case (4 pat name star x sp mark)
  then show ?case by (cases mark) auto
qed simp

declare globLoop.simps [simp del]

definition globMatch :: "cstr \<Rightarrow> cstr \<Rightarrow> bool" where
  "globMatch pat name = (case (pat, name) of (Some p, Some n) \<Rightarrow> globLoop p n None | _ \<Rightarrow> False)"

definition globSplit :: "cstr \<Rightarrow> nat \<Rightarrow> nat \<Rightarrow> (string \<times> string) option" where
  "globSplit path dirCap patCap =
     (case path of None \<Rightarrow> None
      | Some p \<Rightarrow>
          if dirCap = 0 \<or> patCap = 0 then None
          else (case c_strrchr p CHR ''/'' of None \<Rightarrow> None
                | Some i \<Rightarrow> let pat = drop (Suc i) p; dirLen = (if i = 0 then 1 else i)
                            in if length pat = 0 \<or> length pat \<ge> patCap then None
                               else if list_ex (\<lambda>c. c = CHR ''*'' \<or> c = CHR ''?'') (take i p) then None
                               else if dirLen \<ge> dirCap then None
                               else Some (take dirLen p, pat)))"

definition globRmProtected :: "cstr \<Rightarrow> cstr \<Rightarrow> bool" where
  "globRmProtected dir name =
     (case (dir, name) of (Some d, Some n) \<Rightarrow> d = ''/'' \<and> (n = ''config.json'' \<or> n = ''ca.crt'') | _ \<Rightarrow> False)"

section \<open>The operations, one by one\<close>

lemma nextFault_files [simp]: "files (snd (nextFault d)) = files d"
  by (simp add: nextFault_def split: list.splits)

lemma fsExists_result: "files (snd (fsExists p d)) = files d" "fst (fsExists p d) \<Longrightarrow> files d p \<noteq> None"
  by (simp_all add: fsExists_def case_prod_unfold Let_def)

lemma fsRemove_result:
  "files (snd (fsRemove p d)) = (if fst (fsRemove p d) then (files d)(p := None) else files d)"
  "fst (fsRemove p d) \<Longrightarrow> files d p \<noteq> None"
  by (simp_all add: fsRemove_def case_prod_unfold Let_def split: if_splits)

lemma fatRename_result:
  "files (snd (fatRename a b d)) = (if fst (fatRename a b d) then (files d)(b := files d a, a := None) else files d)"
  "fst (fatRename a b d) \<Longrightarrow> files d a \<noteq> None \<and> files d b = None"
  by (simp_all add: fatRename_def case_prod_unfold Let_def split: if_splits)

lemma lfsRename_result:
  "files (snd (lfsRename a b d)) = (if fst (lfsRename a b d) then (files d)(a := None, b := files d a) else files d)"
  "fst (lfsRename a b d) \<Longrightarrow> files d a \<noteq> None"
  by (simp_all add: lfsRename_def case_prod_unfold Let_def split: if_splits)

lemma fsWrite_result:
  "fst (fsWrite p body d) = None \<Longrightarrow> files (snd (fsWrite p body d)) = files d"
  "fst (fsWrite p body d) = Some w \<Longrightarrow>
     \<exists>l. files (snd (fsWrite p body d)) = (files d)(p := Some (take l body))"
  by (auto simp: fsWrite_def case_prod_unfold Let_def split: if_splits fault.splits) (metis order_refl take_all)+

lemma fsSize_result:
  "files (snd (fsSize p d)) = files d"
  "fst (fsSize p d) = (case files d p of None \<Rightarrow> 0 | Some s \<Rightarrow> length s) \<or> fst (fsSize p d) = 0"
  by (auto simp: fsSize_def case_prod_unfold Let_def)

lemmas fs_results = fsExists_result(1) fsRemove_result(1) fatRename_result(1) lfsRename_result(1) fsSize_result(1)

section \<open>Some copy survives every failing step\<close>

lemma fatCommit_outcome:
  assumes dist: "distinct [tmp, bak, path]" and new: "files d tmp = Some new"
    and run: "fatCommit tmp bak path d = (v, d')"
  shows "(v = FAT_COMMIT_OK \<longrightarrow> files d' path = Some new) \<and>
         (v = FAT_COMMIT_OK_BAK_LEFT \<longrightarrow> files d' path = Some new \<and> files d path \<noteq> None \<and> files d' bak = files d path) \<and>
         (v = FAT_COMMIT_KEPT_OLD \<longrightarrow> files d' path = files d path) \<and>
         (v = FAT_COMMIT_STRANDED \<longrightarrow> files d' path = None \<and> files d path \<noteq> None \<and> files d' bak = files d path \<and> files d' tmp = Some new)"
proof -
  note ops = fatCommit_def case_prod_unfold Let_def
  show ?thesis
  proof (cases "fst (fsExists path d)")
    case ex: True
    let ?e1 = "snd (fsRemove bak (snd (fsExists path d)))"
    have e1: "files ?e1 path = files d path" "files ?e1 tmp = Some new" using dist new by (auto simp: fs_results)
    show ?thesis
    proof (cases "fst (fatRename path bak ?e1)")
      case ok: True
      let ?e2 = "snd (fatRename path bak ?e1)"
      have e2: "files ?e2 path = None" "files ?e2 bak = files d path" "files ?e2 tmp = Some new" "files d path \<noteq> None"
        using dist e1 ok fatRename_result(2) [OF ok] by (simp_all add: fs_results)
      show ?thesis
      proof (cases "fst (fatRename tmp path ?e2)")
        case True
        then show ?thesis using run ex ok dist e2 by (auto simp: ops fs_results split: if_splits)
      next
        case False
        then show ?thesis using run ex ok dist e2 by (auto simp: ops fs_results split: if_splits)
      qed
    next
      case False
      then show ?thesis using run ex dist e1 by (auto simp: ops fs_results)
    qed
  next
    case False
    then show ?thesis using run dist new by (auto simp: ops fs_results split: if_splits)
  qed
qed

lemma fatCommit_frame:
  assumes "p \<notin> {tmp, bak, path}"
  shows "files (snd (fatCommit tmp bak path d)) p = files d p"
  using assms by (auto simp: fatCommit_def case_prod_unfold Let_def fs_results)

text \<open>The staging names are distinct from each other and from the file they stand in for.\<close>

lemma stage_split:
  assumes "uploadStagePath cap (Some p) (Some n) = Some q"
  obtains i where "c_strrchr p CHR ''/'' = Some i" "q = take (Suc i) p @ n" "\<not> uploadNameReserved (drop (Suc i) p)"
  using assms by (auto simp: uploadStagePath_def split: option.splits if_splits)

lemma reserved_names: "uploadNameReserved UPLOAD_TMP_NAME" "uploadNameReserved UPLOAD_BAK_NAME"
  by (simp_all add: uploadNameReserved_def UPLOAD_TMP_NAME_def UPLOAD_BAK_NAME_def toLower_def isUpper_def Let_def)

lemma stage_distinct:
  assumes "uploadTmpPath cap (Some p) = Some t" "uploadStagePath cap (Some p) (Some UPLOAD_BAK_NAME) = Some b"
  shows "distinct [t, b, p]"
proof -
  obtain i where i: "c_strrchr p CHR ''/'' = Some i" "t = take (Suc i) p @ UPLOAD_TMP_NAME" "\<not> uploadNameReserved (drop (Suc i) p)"
    using assms(1) unfolding uploadTmpPath_def by (rule stage_split)
  have b: "b = take (Suc i) p @ UPLOAD_BAK_NAME" using assms(2) i(1) by (auto elim: stage_split)
  have "p = take (Suc i) p @ drop (Suc i) p" by simp
  then have "t \<noteq> p" "b \<noteq> p" using i(2,3) b reserved_names by (metis append_eq_append_conv)+
  moreover have "UPLOAD_TMP_NAME \<noteq> UPLOAD_BAK_NAME" by (simp add: UPLOAD_TMP_NAME_def UPLOAD_BAK_NAME_def)
  ultimately show ?thesis using i(2) b by auto
qed

lemma landed_whole:
  assumes "fsWrite t body d = (Some w, d1)" "fsSize t d1 = (got, d2)" "fileWriteLanded w got (length body)" 
  shows "got = length body \<and> files d2 = (files d)(t := Some body)"
proof -
  obtain l where l: "files d1 = (files d)(t := Some (take l body))" using fsWrite_result(2) [of t body d w] assms(1) by auto
  have "got = length (take l body) \<or> got = 0" using fsSize_result(2) [of t d1] assms(2) l by auto
  then have "take l body = body" using assms(3) by (auto simp: fileWriteLanded_def min_def split: if_splits)
  then show ?thesis using l assms fsSize_result(1) [of t d1] by (auto simp: fileWriteLanded_def)
qed

lemma stage_untouched:
  assumes "distinct [t, b, p]" "fsWrite t body d = (w, d1)"
  shows "files d1 p = files d p"
proof (cases w)
  case None
  then show ?thesis using assms fsWrite_result(1) [of t body d] by simp
next
  case (Some n)
  then obtain l where "files d1 = (files d)(t := Some (take l body))"
    using assms(2) fsWrite_result(2) [of t body d n] by auto
  then show ?thesis using assms(1) by auto
qed

text \<open>C22: Replacing a file. Whatever operations fail and however short the writes fall, on both file systems:
  when the writer reports success the file holds exactly the new body, and when it does not, the old file
  is still in place, except that on a card it may have been parked as the backup name beside the complete
  new body. No failure leaves a torn file, and none loses both copies.\<close>

theorem fileWriteAtomic_safe:
  assumes "fileWriteAtomic lfs path body d = (r, d')"
  shows "(case r of
            Some n \<Rightarrow> n = length body \<and> files d' path = Some body
          | None \<Rightarrow> files d' path = files d path \<or>
              (\<not> lfs \<and> files d path \<noteq> None \<and>
               (\<exists>tmp bak. uploadTmpPath 192 (Some path) = Some tmp \<and> uploadStagePath 192 (Some path) (Some UPLOAD_BAK_NAME) = Some bak \<and>
                  files d' bak = files d path \<and> files d' tmp = Some body)))"
proof (cases "uploadTmpPath 192 (Some path) = None \<or> uploadStagePath 192 (Some path) (Some UPLOAD_BAK_NAME) = None")
  case True
  then show ?thesis using assms by (auto simp: fileWriteAtomic_def split: option.splits)
next
  case False
  then obtain t b where tb: "uploadTmpPath 192 (Some path) = Some t" "uploadStagePath 192 (Some path) (Some UPLOAD_BAK_NAME) = Some b" by auto
  note dist = stage_distinct [OF tb]
  obtain w d1 where wr: "fsWrite t body d = (w, d1)" by fastforce
  have keep: "files d1 path = files d path" using stage_untouched [OF dist wr] .
  obtain got d2 where sz: "fsSize t d1 = (got, d2)" by fastforce
  have d2: "files d2 = files d1" using fsSize_result(1) [of t d1] sz by simp
  show ?thesis
  proof (cases "\<exists>n. w = Some n \<and> fileWriteLanded n got (length body)")
    case False
    then have "r = None" "files d' path = files d1 path"
      using assms tb wr sz d2 dist keep by (auto simp: fileWriteAtomic_def fs_results split: option.splits)
    then show ?thesis using keep by simp
  next
    case True
    then have whole: "got = length body" "files d2 = (files d)(t := Some body)" using landed_whole wr sz by blast+
    show ?thesis
    proof (cases lfs)
      case True
      then show ?thesis using assms tb wr sz whole dist \<open>\<exists>n. _\<close>
        by (auto simp: fileWriteAtomic_def fs_results case_prod_unfold Let_def split: if_splits)
    next
      case fat: False
      obtain v d3 where fc: "fatCommit t b path d2 = (v, d3)" by fastforce
      have "d' = d3" "r = (if v = FAT_COMMIT_OK \<or> v = FAT_COMMIT_OK_BAK_LEFT then Some got else None)"
        using assms tb wr sz fat fc \<open>\<exists>n. _\<close> by (auto simp: fileWriteAtomic_def split: if_splits)
      then show ?thesis using fatCommit_outcome [OF dist _ fc] whole fat tb dist by (cases v) (auto split: if_splits)
    qed
  qed
qed

theorem fileWriteAtomic_safe_witness:
  "case fileWriteAtomic False ''/logs/a.csv'' ''new'' \<lparr>files = [''/logs/a.csv'' \<mapsto> ''old''], faults = [NoFault, NoFault, NoFault, NoFault, NoFault, NoFault, Fault 0 0, Fault 0 0]\<rparr> of
     (r, d') \<Rightarrow> r = None \<and> files d' ''/logs/a.csv'' = None \<and> files d' ''/logs/.upload.bak'' = Some ''old'' \<and> files d' ''/logs/.upload.tmp'' = Some ''new''"
proof -
  let ?d = "\<lparr>files = [''/logs/a.csv'' \<mapsto> ''old''], faults = [NoFault, NoFault, NoFault, NoFault, NoFault, NoFault, Fault 0 0, Fault 0 0]\<rparr>"
  obtain r d' where run: "fileWriteAtomic False ''/logs/a.csv'' ''new'' ?d = (r, d')" by fastforce
  have paths: "uploadTmpPath 192 (Some ''/logs/a.csv'') = Some ''/logs/.upload.tmp''"
    "uploadStagePath 192 (Some ''/logs/a.csv'') (Some UPLOAD_BAK_NAME) = Some ''/logs/.upload.bak''"
    by (simp_all add: uploadTmpPath_def uploadStagePath_def uploadNameReserved_def UPLOAD_TMP_NAME_def UPLOAD_BAK_NAME_def toLower_def isUpper_def Let_def)
  have "r = None" "files d' ''/logs/a.csv'' = None"
    using run by (auto simp: fileWriteAtomic_def paths fsWrite_def fsSize_def fatCommit_def fsExists_def fsRemove_def fatRename_def nextFault_def fileWriteLanded_def)
  then show ?thesis using fileWriteAtomic_safe [OF run] run paths by auto
qed

section \<open>Wildcard matching against a reference\<close>

text \<open>The meaning of a pattern by recursion on it: a star stands for any run of characters.\<close>

fun globSpec :: "string \<Rightarrow> string \<Rightarrow> bool" where
  "globSpec [] n = (n = [])"
| "globSpec (c # p) n =
     (if c = CHR ''*'' then list_ex (\<lambda>k. globSpec p (drop k n)) [0..<Suc (length n)]
      else n \<noteq> [] \<and> (c = CHR ''?'' \<or> c = hd n) \<and> globSpec p (tl n))"

lemma globSpec_star: "globSpec (CHR ''*'' # p) n \<longleftrightarrow> (\<exists>k \<le> length n. globSpec p (drop k n))"
  by (auto simp: list_ex_iff less_Suc_eq_le simp del: upt_Suc)

lemma globSpec_Nil: "globSpec p [] \<longleftrightarrow> dropWhile (\<lambda>c. c = CHR ''*'') p = []"
  by (induction p) auto

text \<open>A star that matches a later suffix matches every earlier one.\<close>

lemma globSpec_star_suffix: "globSpec (CHR ''*'' # p) (drop k n) \<Longrightarrow> globSpec (CHR ''*'' # p) n"
proof -
  assume "globSpec (CHR ''*'' # p) (drop k n)"
  then obtain j where j: "j \<le> length (drop k n)" "globSpec p (drop j (drop k n))" unfolding globSpec_star by blast
  show ?thesis
  proof (cases "k \<le> length n")
    case True
    then have "j + k \<le> length n" "globSpec p (drop (j + k) n)" using j by auto
    then show ?thesis unfolding globSpec_star by blast
  next
    case False
    then have "globSpec p (drop (length n) n)" using j by simp
    then show ?thesis unfolding globSpec_star by blast
  qed
qed

text \<open>Literal pieces: no star, one character each.\<close>

definition litMatch :: "string \<Rightarrow> string \<Rightarrow> bool" where
  "litMatch q r \<longleftrightarrow> list_all2 (\<lambda>c x. c \<noteq> CHR ''*'' \<and> (c = CHR ''?'' \<or> c = x)) q r"

lemma litMatch_snoc:
  "litMatch q r \<Longrightarrow> c \<noteq> CHR ''*'' \<Longrightarrow> c = CHR ''?'' \<or> c = x \<Longrightarrow> litMatch (q @ [c]) (r @ [x])"
  by (auto simp: litMatch_def intro: list_all2_appendI)

lemma globSpec_lit:
  "list_all (\<lambda>c. c \<noteq> CHR ''*'') q \<Longrightarrow>
   globSpec (q @ p) n \<longleftrightarrow> length q \<le> length n \<and> litMatch q (take (length q) n) \<and> globSpec p (drop (length q) n)"
proof (induction q arbitrary: n)
  case (Cons c q)
  then show ?case by (cases n) (auto simp: litMatch_def)
qed (simp add: litMatch_def)

lemma litMatch_stars: "litMatch q r \<Longrightarrow> list_all (\<lambda>c. c \<noteq> CHR ''*'') q \<and> length q = length r"
  by (auto simp: litMatch_def list_all2_conv_all_nth list_all_length)

text \<open>What the loop still has to decide: the current attempt, or a later position for the last star.\<close>

definition globPending :: "(string \<times> string) option \<Rightarrow> bool" where
  "globPending star =
     (case star of None \<Rightarrow> False | Some (sp, m) \<Rightarrow> \<exists>k. 0 < k \<and> k \<le> length m \<and> globSpec sp (drop k m))"

definition globInv :: "string \<Rightarrow> string \<Rightarrow> (string \<times> string) option \<Rightarrow> bool" where
  "globInv pat name star =
     (case star of None \<Rightarrow> True | Some (sp, m) \<Rightarrow> \<exists>q r. sp = q @ pat \<and> m = r @ name \<and> litMatch q r)"

lemma globPending_end:
  assumes "globInv pat [] star" shows "\<not> globPending star"
proof
  assume "globPending star"
  then obtain sp m k where s: "star = Some (sp, m)" "0 < k" "k \<le> length m" "globSpec sp (drop k m)"
    unfolding globPending_def by (auto split: option.splits)
  then obtain q where q: "sp = q @ pat" "litMatch q m" using assms unfolding globInv_def by auto
  then have "length q \<le> length (drop k m)" using s(4) globSpec_lit litMatch_stars by blast
  then show False using litMatch_stars [OF q(2)] s by auto
qed

lemma globPending_star:
  assumes "globInv (CHR ''*'' # p) name star" "globPending star"
  shows "globSpec (CHR ''*'' # p) name"
proof -
  obtain sp m k where s: "star = Some (sp, m)" "globSpec sp (drop k m)"
    using assms(2) unfolding globPending_def by (auto split: option.splits)
  then obtain q r where q: "sp = q @ CHR ''*'' # p" "m = r @ name" "litMatch q r" using assms(1) unfolding globInv_def by auto
  have "globSpec (CHR ''*'' # p) (drop (length q) (drop k m))" using s(2) q globSpec_lit litMatch_stars by blast
  moreover have "drop (length q) (drop k m) = drop k (drop (length r) m)" using litMatch_stars [OF q(3)] by (simp add: add.commute)
  moreover have "drop (length r) m = name" using q(2) by simp
  ultimately show ?thesis using globSpec_star_suffix by metis
qed

lemma globPending_back:
  assumes "star = Some (sp, m)" "m \<noteq> []"
  shows "globPending star \<longleftrightarrow> globSpec sp (tl m) \<or> globPending (Some (sp, tl m))"
proof -
  have "(\<exists>k. 0 < k \<and> k \<le> length m \<and> globSpec sp (drop k m)) \<longleftrightarrow> (\<exists>k. k \<le> length (tl m) \<and> globSpec sp (drop k (tl m)))"
  proof
    assume "\<exists>k. 0 < k \<and> k \<le> length m \<and> globSpec sp (drop k m)"
    then obtain k where "0 < k" "k \<le> length m" "globSpec sp (drop k m)" by blast
    then show "\<exists>k. k \<le> length (tl m) \<and> globSpec sp (drop k (tl m))"
      by (intro exI [of _ "k - 1"]) (auto simp: drop_Suc [symmetric])
  next
    assume "\<exists>k. k \<le> length (tl m) \<and> globSpec sp (drop k (tl m))"
    then obtain k where "k \<le> length (tl m)" "globSpec sp (drop k (tl m))" by blast
    then show "\<exists>k. 0 < k \<and> k \<le> length m \<and> globSpec sp (drop k m)"
      using assms(2) by (intro exI [of _ "Suc k"]) (cases m, auto simp: drop_Suc)
  qed
  also have "\<dots> \<longleftrightarrow> globSpec sp (tl m) \<or> (\<exists>k. 0 < k \<and> k \<le> length (tl m) \<and> globSpec sp (drop k (tl m)))"
    by (metis bot_nat_0.not_eq_extremum drop0 le0)
  finally show ?thesis using assms(1) by (simp add: globPending_def)
qed

lemma globPending_new: "globSpec p n \<or> globPending (Some (p, n)) \<longleftrightarrow> globSpec (CHR ''*'' # p) n"
proof -
  have "(\<exists>k \<le> length n. globSpec p (drop k n)) \<longleftrightarrow> globSpec p n \<or> (\<exists>k. 0 < k \<and> k \<le> length n \<and> globSpec p (drop k n))"
    by (metis bot_nat_0.not_eq_extremum drop0 le0)
  then show ?thesis unfolding globSpec_star by (simp add: globPending_def)
qed

lemma globInv_step:
  assumes "globInv (c # p) (x # n) star" "c \<noteq> CHR ''*''" "c = CHR ''?'' \<or> c = x"
  shows "globInv p n star"
  using assms litMatch_snoc [of _ _ c x] by (fastforce simp: globInv_def split: option.splits)

lemma globInv_clear: "globInv (c # p) (x # n) star \<Longrightarrow> star = Some (sp, m) \<Longrightarrow> m \<noteq> []"
  by (auto simp: globInv_def)

lemma globLoop_spec:
  "CHR ''*'' \<notin> set name \<Longrightarrow> (\<forall>sp m. star = Some (sp, m) \<longrightarrow> CHR ''*'' \<notin> set m) \<Longrightarrow> globInv pat name star \<Longrightarrow>
   globLoop pat name star \<longleftrightarrow> globSpec pat name \<or> globPending star"
proof (induction pat name star rule: globLoop.induct)
  case (1 pat name star)
  consider (over) "name = []"
    | (lit) "name \<noteq> []" "pat \<noteq> []" "hd pat = CHR ''?'' \<or> hd pat = hd name"
    | (star) "name \<noteq> []" "pat \<noteq> []" "hd pat = CHR ''*''" "\<not> (hd pat = CHR ''?'' \<or> hd pat = hd name)"
    | (stuck) "name \<noteq> []" "pat \<noteq> [] \<longrightarrow> hd pat \<noteq> CHR ''*'' \<and> hd pat \<noteq> CHR ''?'' \<and> hd pat \<noteq> hd name" by blast
  then show ?case
  proof cases
    case over
    then show ?thesis using globPending_end "1.prems"(3) by (subst globLoop.simps) (auto simp: globSpec_Nil)
  next
    case lit
    obtain x n c p where s: "name = x # n" "pat = c # p" using lit by (metis list.exhaust)
    have c: "c \<noteq> CHR ''*''" using lit "1.prems"(1) s by auto
    have "globLoop p n star = (globSpec p n \<or> globPending star)"
      using "1.IH"(1) lit s "1.prems" globInv_step [of c p x n star] c by simp
    then show ?thesis using lit s c by (subst globLoop.simps) auto
  next
    case star
    obtain p where p: "pat = CHR ''*'' # p" using star by (metis list.exhaust_sel)
    have "globLoop p name (Some (p, name)) = (globSpec p name \<or> globPending (Some (p, name)))"
      using "1.IH"(2) star p "1.prems" by (auto simp: globInv_def litMatch_def)
    also have "\<dots> = globSpec pat name" unfolding p by (rule globPending_new)
    also have "\<dots> = (globSpec pat name \<or> globPending star)" using globPending_star "1.prems"(3) p by blast
    finally show ?thesis using star p by (subst globLoop.simps) simp
  next
    case stuck
    have no: "\<not> globSpec pat name" using stuck by (cases pat) auto
    show ?thesis
    proof (cases star)
      case None
      then show ?thesis using stuck no by (subst globLoop.simps) (auto simp: globPending_def)
    next
      case (Some b)
      obtain sp m where b: "star = Some (sp, m)" using Some by (cases b) auto
      have m: "m \<noteq> []" using "1.prems"(3) b stuck(1) by (auto simp: globInv_def)
      have "CHR ''*'' \<notin> set (tl m)" using "1.prems"(2) b by (metis list.set_sel(2) m)
      then have "globLoop sp (tl m) (Some (sp, tl m)) = (globSpec sp (tl m) \<or> globPending (Some (sp, tl m)))"
        using "1.IH"(3) stuck b by (auto simp: globInv_def litMatch_def)
      then show ?thesis using stuck no b globPending_back [OF b m] by (subst globLoop.simps) auto
    qed
  qed
qed

text \<open>Wildcard matching. For every pattern and every file name without a star, the matcher with its single
  backtrack point answers exactly as the recursive meaning of the pattern does, and it ends on every
  input.\<close>

lemma globMatch_spec:
  assumes "CHR ''*'' \<notin> set name"
  shows "globMatch (Some pat) (Some name) \<longleftrightarrow> globSpec pat name"
  using globLoop_spec [OF assms, of None pat] by (simp add: globMatch_def globInv_def globPending_def)

text \<open>A name that itself begins with a star is matched as a literal there, and a pattern of one star then
  fails on it although it stands for every name.\<close>

lemma globMatch_star_name: "\<not> globMatch (Some ''*'') (Some ''*a'')" "globSpec ''*'' ''*a''"
  by (simp_all add: globMatch_def globLoop.simps list_ex_iff)

text \<open>The directory spelled \<open>/.\<close> passes the path check and is the root to the file system, but the veto
  compares spellings, so a wildcard removal through it reaches the configuration file.\<close>

lemma globRm_dot_alias:
  "pathSafePolicy (Some ''/./*'')" "globSplit (Some ''/./*'') 96 64 = Some (''/.'', ''*'')"
  "\<not> globRmProtected (Some ''/.'') (Some ''config.json'')" "configPathIsLive (Some ''/./config.json'')"
  by (simp_all add: pathSafePolicy_def globSplit_def globRmProtected_def configPathIsLive_def livePathLoop.simps Let_def)

end
