(* ===== verification/Cmd_Config.thy ===== *)
theory Cmd_Config
  imports Fw_Prelude
begin

text \<open>
  The scanner that decides whether a pushed configuration may be staged, \<open>cmd_config_policy.h\<close>, and the
  staging step of \<open>MQTTClient.cpp\<close>. The scan position is the rest of the payload; a failed scan is None.
\<close>

section \<open>Definitions\<close>

definition CMD_CONFIG_MAX :: nat where "CMD_CONFIG_MAX = 4096"
definition CMD_CONFIG_MAX_DEPTH :: nat where "CMD_CONFIG_MAX_DEPTH = 8"

datatype CmdConfigVerdict = CMD_CONFIG_OK | CMD_CONFIG_REFUSE_TLS | CMD_CONFIG_REFUSE_SHAPE | CMD_CONFIG_REFUSE_BROKER

definition cmdConfigWs :: "char \<Rightarrow> bool" where
  "cmdConfigWs c \<longleftrightarrow> c = CHR '' '' \<or> c = CHR 0x09 \<or> c = CHR 0x0A \<or> c = CHR 0x0D"

definition cmdConfigSkipWs :: "string \<Rightarrow> string" where
  "cmdConfigSkipWs s = dropWhile cmdConfigWs s"

fun cmdConfigLiteral :: "string \<Rightarrow> string \<Rightarrow> string option" where
  "cmdConfigLiteral s [] = Some s"
| "cmdConfigLiteral [] (l # ls) = None"
| "cmdConfigLiteral (c # s) (l # ls) = (if c \<noteq> l then None else cmdConfigLiteral s ls)"

text \<open>The text between the quotes, its unescaped length, and the rest.\<close>

fun strLoop :: "string \<Rightarrow> (string \<times> nat \<times> string) option" where
  "strLoop [] = None"
| "strLoop (c # s) =
     (if c = CHR 0x5C
      then (case s of [] \<Rightarrow> None | e # s' \<Rightarrow> map_option (\<lambda>(raw, n, r). (c # e # raw, Suc n, r)) (strLoop s'))
      else if c = CHR 0x22 then Some ([], 0, s)
      else if ccode c < 0x20 then None
      else map_option (\<lambda>(raw, n, r). (c # raw, Suc n, r)) (strLoop s))"

definition cmdConfigString :: "string \<Rightarrow> (string \<times> nat \<times> string) option" where
  "cmdConfigString s = (case s of [] \<Rightarrow> None | c # s' \<Rightarrow> if c \<noteq> CHR 0x22 then None else strLoop s')"

fun cmdConfigKeyIs :: "string \<Rightarrow> string \<Rightarrow> bool" where
  "cmdConfigKeyIs key [] = (key = [])"
| "cmdConfigKeyIs [] (l # ls) = False"
| "cmdConfigKeyIs (c # key) (l # ls) = (if c \<noteq> l then False else cmdConfigKeyIs key ls)"

definition startsDigit :: "string \<Rightarrow> bool" where
  "startsDigit s = (case s of [] \<Rightarrow> False | c # _ \<Rightarrow> isDigit c)"

definition numberFrac :: "string \<Rightarrow> string option" where
  "numberFrac s =
     (case s of c # s' \<Rightarrow> if c = CHR ''.'' then (if startsDigit s' then Some (dropWhile isDigit s') else None) else Some s
      | [] \<Rightarrow> Some s)"

definition expSign :: "string \<Rightarrow> string" where
  "expSign s = (case s of d # t \<Rightarrow> if d = CHR ''+'' \<or> d = CHR ''-'' then t else s | [] \<Rightarrow> s)"

definition numberExp :: "string \<Rightarrow> string option" where
  "numberExp s =
     (case s of
        c # s' \<Rightarrow>
          if c = CHR ''e'' \<or> c = CHR ''E''
          then (if startsDigit (expSign s') then Some (dropWhile isDigit (expSign s')) else None)
          else Some s
      | [] \<Rightarrow> Some s)"

definition numberSign :: "string \<Rightarrow> string" where
  "numberSign s = (case s of c # t \<Rightarrow> if c = CHR ''-'' then t else s | [] \<Rightarrow> s)"

definition numberInt :: "string \<Rightarrow> string option" where
  "numberInt s = (if \<not> startsDigit s then None else if hd s = CHR ''0'' then Some (tl s) else Some (dropWhile isDigit s))"

definition cmdConfigNumber :: "string \<Rightarrow> string option" where
  "cmdConfigNumber s = Option.bind (Option.bind (numberInt (numberSign s)) numberFrac) numberExp"

text \<open>A member's key up to and past its colon: the key and the rest.\<close>

definition scanKey :: "string \<Rightarrow> (string \<times> string) option" where
  "scanKey s =
     (case cmdConfigString s of None \<Rightarrow> None
      | Some (key, n, r) \<Rightarrow> (case cmdConfigSkipWs r of [] \<Rightarrow> None | c # r' \<Rightarrow> if c \<noteq> CHR '':'' then None else Some (key, r')))"

text \<open>The step after an element: an error, the rest after the closing bracket, or the next element.\<close>

datatype scanNext = NextBad | NextClosed string | NextItem string

definition scanSep :: "char \<Rightarrow> string \<Rightarrow> scanNext" where
  "scanSep close s =
     (case cmdConfigSkipWs s of [] \<Rightarrow> NextBad
      | c # r \<Rightarrow> if c = CHR '','' then (if cmdConfigSkipWs r = [] then NextBad else NextItem (cmdConfigSkipWs r))
                else if c = close then NextClosed r else NextBad)"

lemma skipWs_length: "length (cmdConfigSkipWs s) \<le> length s"
  by (simp add: cmdConfigSkipWs_def length_dropWhile_le)

lemma strLoop_length: "strLoop s = Some (raw, n, r) \<Longrightarrow> length r < length s"
  by (induction s arbitrary: raw n r rule: strLoop.induct) (fastforce split: if_splits list.splits)+

lemma cmdConfigString_length: "cmdConfigString s = Some (raw, n, r) \<Longrightarrow> length r < length s"
  using strLoop_length by (fastforce simp: cmdConfigString_def split: list.splits if_splits)

lemma scanKey_length: "scanKey s = Some (key, r) \<Longrightarrow> length r < length s"
proof -
  assume "scanKey s = Some (key, r)"
  then obtain n t c where t: "cmdConfigString s = Some (key, n, t)" "cmdConfigSkipWs t = c # r"
    by (auto simp: scanKey_def split: option.splits list.splits if_splits)
  then show ?thesis using cmdConfigString_length [OF t(1)] skipWs_length [of t] by simp
qed

lemma scanSep_length:
  "scanSep close s = NextClosed r \<Longrightarrow> length r < length s" "scanSep close s = NextItem r \<Longrightarrow> length r < length s"
proof -
  show "length r < length s" if a: "scanSep close s = NextClosed r"
  proof -
    obtain c where "cmdConfigSkipWs s = c # r" using a by (auto simp: scanSep_def split: list.splits if_splits)
    then show ?thesis using skipWs_length [of s] by simp
  qed
  show "length r < length s" if a: "scanSep close s = NextItem r"
  proof -
    obtain c t where "cmdConfigSkipWs s = c # t" "r = cmdConfigSkipWs t"
      using a by (auto simp: scanSep_def split: list.splits if_splits)
    then show ?thesis using skipWs_length [of s] skipWs_length [of t] by simp
  qed
qed

lemma literal_length: "cmdConfigLiteral s l = Some r \<Longrightarrow> length r \<le> length s"
  by (induction s l arbitrary: r rule: cmdConfigLiteral.induct) (fastforce split: if_splits)+

lemma number_parts_length:
  "length (numberSign s) \<le> length s"
  "numberInt s = Some r \<Longrightarrow> length r < length s"
  "numberFrac s = Some r \<Longrightarrow> length r \<le> length s"
  "numberExp s = Some r \<Longrightarrow> length r \<le> length s"
proof -
  show "length (numberSign s) \<le> length s" by (auto simp: numberSign_def split: list.splits)
  show "length r < length s" if "numberInt s = Some r"
    using that length_dropWhile_le [of isDigit "tl s"]
    by (cases s) (auto simp: numberInt_def startsDigit_def split: if_splits)
  show "length r \<le> length s" if "numberFrac s = Some r"
    using that by (auto simp: numberFrac_def le_SucI length_dropWhile_le split: list.splits if_splits)
  show "length r \<le> length s" if "numberExp s = Some r"
    using that length_dropWhile_le [of isDigit "tl s"] length_dropWhile_le [of isDigit "tl (tl s)"]
    by (auto simp: numberExp_def expSign_def split: list.splits if_splits)
qed

lemma number_length: "cmdConfigNumber s = Some r \<Longrightarrow> length r < length s"
proof -
  assume "cmdConfigNumber s = Some r"
  then obtain a b where "numberInt (numberSign s) = Some a" "numberFrac a = Some b" "numberExp b = Some r"
    by (auto simp: cmdConfigNumber_def bind_eq_Some_conv)
  then show ?thesis using number_parts_length(1) [of s] number_parts_length(2) [of "numberSign s" a]
      number_parts_length(3) [of a b] number_parts_length(4) [of b r] by linarith
qed

text \<open>The branches of \<open>cmdConfigValue\<close> on a value that is not a container.\<close>

definition scanScalar :: "string \<Rightarrow> string option" where
  "scanScalar s =
     (let c = hd s
      in if c = CHR 0x22 then map_option (\<lambda>(raw, n, r). r) (cmdConfigString s)
         else if c = CHR ''t'' then cmdConfigLiteral s ''true''
         else if c = CHR ''f'' then cmdConfigLiteral s ''false''
         else if c = CHR ''n'' then cmdConfigLiteral s ''null''
         else cmdConfigNumber s)"

lemma scanScalar_length: "scanScalar s = Some r \<Longrightarrow> length r \<le> length s"
  by (auto simp: scanScalar_def Let_def split: if_splits dest!: literal_length number_length cmdConfigString_length)

text \<open>One step of the two scanners below moves forward when their calls do.\<close>

lemma value_forward:
  assumes "(case cmdConfigSkipWs s of [] \<Rightarrow> None
      | c # t \<Rightarrow>
          if c = CHR ''{'' \<or> c = CHR ''['' then
            (if CMD_CONFIG_MAX_DEPTH < Suc d then None
             else case cmdConfigSkipWs t of [] \<Rightarrow> None
                  | x # u \<Rightarrow> if x = (if c = CHR ''{'' then CHR ''}'' else CHR '']'') then Some u
                             else loop (Suc d) (c = CHR ''{'') (x # u))
          else scanScalar (c # t)) = Some r"
    and "\<And>c t x u. cmdConfigSkipWs s = c # t \<Longrightarrow> c = CHR ''{'' \<or> c = CHR ''['' \<Longrightarrow> \<not> CMD_CONFIG_MAX_DEPTH < Suc d \<Longrightarrow>
           cmdConfigSkipWs t = x # u \<Longrightarrow> x \<noteq> (if c = CHR ''{'' then CHR ''}'' else CHR '']'') \<Longrightarrow>
           loop (Suc d) (c = CHR ''{'') (x # u) = Some r \<Longrightarrow> length r \<le> length (x # u)"
  shows "length r \<le> length s"
proof -
  obtain c t where ct: "cmdConfigSkipWs s = c # t" using assms(1) by (auto split: list.splits)
  have le: "length (c # t) \<le> length s" using skipWs_length [of s] ct by simp
  show ?thesis
  proof (cases "c = CHR ''{'' \<or> c = CHR ''[''")
    case True
    then obtain x u where xu: "\<not> CMD_CONFIG_MAX_DEPTH < Suc d" "cmdConfigSkipWs t = x # u"
        "x = (if c = CHR ''{'' then CHR ''}'' else CHR '']'') \<and> r = u \<or>
         x \<noteq> (if c = CHR ''{'' then CHR ''}'' else CHR '']'') \<and> loop (Suc d) (c = CHR ''{'') (x # u) = Some r"
      using assms(1) ct by (auto split: list.splits if_splits)
    have "length (x # u) \<le> length t" using skipWs_length [of t] xu(2) by simp
    then show ?thesis using xu(3) assms(2) [OF ct True xu(1,2)] le by auto
  next
    case False
    then have "scanScalar (c # t) = Some r" using assms(1) ct by simp
    then show ?thesis using scanScalar_length le order_trans by blast
  qed
qed

lemma loop_forward:
  assumes "(case (if obj then map_option snd (scanKey s) else Some s) of None \<Rightarrow> None
      | Some t \<Rightarrow>
          (case val d t of None \<Rightarrow> None
           | Some u \<Rightarrow> (case scanSep (if obj then CHR ''}'' else CHR '']'') u of
                          NextBad \<Rightarrow> None | NextClosed r \<Rightarrow> Some r | NextItem v \<Rightarrow> loop d obj v))) = Some r"
    and "\<And>t u. (if obj then map_option snd (scanKey s) else Some s) = Some t \<Longrightarrow> val d t = Some u \<Longrightarrow> length u \<le> length t"
    and "\<And>t u v. (if obj then map_option snd (scanKey s) else Some s) = Some t \<Longrightarrow> val d t = Some u \<Longrightarrow>
           scanSep (if obj then CHR ''}'' else CHR '']'') u = NextItem v \<Longrightarrow> loop d obj v = Some r \<Longrightarrow> length r \<le> length v"
  shows "length r \<le> length s"
proof -
  obtain t u where t: "(if obj then map_option snd (scanKey s) else Some s) = Some t" "val d t = Some u"
    using assms(1) by (auto split: option.splits)
  have tl: "length t \<le> length s" using t(1) scanKey_length by (auto split: if_splits dest: less_imp_le)
  have "scanSep (if obj then CHR ''}'' else CHR '']'') u = NextClosed r \<or>
    (\<exists>v. scanSep (if obj then CHR ''}'' else CHR '']'') u = NextItem v \<and> loop d obj v = Some r)"
    using assms(1) t by (auto split: scanNext.splits)
  then show ?thesis
    using scanSep_length [of _ u] assms(3) [OF t] assms(2) [OF t] tl by (metis less_imp_le order_trans)
qed

text \<open>\<open>cmdConfigValue\<close> and the element loop of \<open>cmdConfigContainer\<close>, which call each other. \<open>d\<close> is the nesting
  depth already entered.\<close>

function (domintros) cmdConfigValue :: "nat \<Rightarrow> string \<Rightarrow> string option"
  and containerLoop :: "nat \<Rightarrow> bool \<Rightarrow> string \<Rightarrow> string option" where
  "cmdConfigValue d s =
     (case cmdConfigSkipWs s of [] \<Rightarrow> None
      | c # t \<Rightarrow>
          if c = CHR ''{'' \<or> c = CHR ''['' then
            (if CMD_CONFIG_MAX_DEPTH < Suc d then None
             else case cmdConfigSkipWs t of [] \<Rightarrow> None
                  | x # u \<Rightarrow> if x = (if c = CHR ''{'' then CHR ''}'' else CHR '']'') then Some u
                             else containerLoop (Suc d) (c = CHR ''{'') (x # u))
          else scanScalar (c # t))"
| "containerLoop d obj s =
     (case (if obj then map_option snd (scanKey s) else Some s) of None \<Rightarrow> None
      | Some t \<Rightarrow>
          (case cmdConfigValue d t of None \<Rightarrow> None
           | Some u \<Rightarrow> (case scanSep (if obj then CHR ''}'' else CHR '']'') u of
                          NextBad \<Rightarrow> None | NextClosed r \<Rightarrow> Some r | NextItem v \<Rightarrow> containerLoop d obj v)))"
  by pat_completeness auto

termination
proof -
  have forward: "cmdConfigValue_containerLoop_dom (Inl (d, s)) \<Longrightarrow> (\<forall>r. cmdConfigValue d s = Some r \<longrightarrow> length r \<le> length s)"
    "cmdConfigValue_containerLoop_dom (Inr (d, obj, s)) \<Longrightarrow> (\<forall>r. containerLoop d obj s = Some r \<longrightarrow> length r \<le> length s)" for d s obj
  proof (induction d s and d obj s rule: cmdConfigValue_containerLoop.pinduct)
    case (1 d s)
    show ?case unfolding cmdConfigValue.psimps [OF 1(1)] using value_forward [where s = s and d = d and loop = containerLoop] "1.IH" by blast
  next
    case (2 d obj s)
    show ?case unfolding containerLoop.psimps [OF 2(1)] using loop_forward [where obj = obj and s = s and val = cmdConfigValue and d = d and loop = containerLoop] "2.IH" by blast
  qed
  show ?thesis
  proof (relation "measure (\<lambda>x. case x of Inl (d, s) \<Rightarrow> 2 * length s | Inr (d, obj, s) \<Rightarrow> 2 * length s + 1)", goal_cases)
    case (2 d s c t x u)
    then have "length (x # u) \<le> length t" "length (c # t) \<le> length s" using skipWs_length [of s] skipWs_length [of t] by simp_all
    then show ?case by simp
  next
    case (3 d obj s t)
    then show ?case using scanKey_length by (fastforce split: if_splits)
  next
    case (4 d obj s t u v)
    have "length t \<le> length s" using 4(1) scanKey_length by (auto split: if_splits dest: less_imp_le)
    moreover have "length u \<le> length t" using 4 forward(1) by blast
    moreover have "length v < length u" using 4 scanSep_length(2) by blast
    ultimately show ?case by simp
  qed simp
qed

declare cmdConfigValue.simps [simp del] containerLoop.simps [simp del]

text \<open>The members of the \<open>mqtt\<close> object: \<open>found\<close> is 1 once a non-empty broker string was seen.\<close>

definition mqttMember :: "nat \<Rightarrow> bool \<Rightarrow> nat \<Rightarrow> string \<Rightarrow> string \<Rightarrow> (nat \<times> string) option" where
  "mqttMember d saw found key t =
     (if cmdConfigKeyIs key ''broker''
      then (if saw then None
            else case cmdConfigString (cmdConfigSkipWs t) of None \<Rightarrow> None | Some (raw, n, u) \<Rightarrow> Some (if 0 < n then 1 else 0, u))
      else map_option (\<lambda>u. (found, u)) (cmdConfigValue d t))"

lemma scan_forward_all:
  "\<forall>r. cmdConfigValue d s = Some r \<longrightarrow> length r \<le> length s"
  "\<forall>r. containerLoop d obj s = Some r \<longrightarrow> length r \<le> length s"
proof (induction d s and d obj s rule: cmdConfigValue_containerLoop.induct)
  case (1 d s)
  show ?case unfolding cmdConfigValue.simps [of d s] using value_forward [where s = s and d = d and loop = containerLoop] "1.IH" by blast
next
  case (2 d obj s)
  show ?case unfolding containerLoop.simps [of d obj s] using loop_forward [where obj = obj and s = s and val = cmdConfigValue and d = d and loop = containerLoop] "2.IH" by blast
qed

lemma scan_forward: "cmdConfigValue d s = Some r \<Longrightarrow> length r \<le> length s"
  using scan_forward_all(1) by blast

lemma mqttMember_length: "mqttMember d saw found key t = Some (f, u) \<Longrightarrow> length u \<le> length t"
proof -
  assume a: "mqttMember d saw found key t = Some (f, u)"
  show ?thesis
  proof (cases "cmdConfigKeyIs key ''broker''")
    case True
    then obtain raw n where "cmdConfigString (cmdConfigSkipWs t) = Some (raw, n, u)"
      using a by (auto simp: mqttMember_def split: if_splits option.splits)
    then show ?thesis using cmdConfigString_length skipWs_length [of t] by fastforce
  next
    case False
    then show ?thesis using a scan_forward by (auto simp: mqttMember_def)
  qed
qed

function mqttLoop :: "nat \<Rightarrow> bool \<Rightarrow> nat \<Rightarrow> string \<Rightarrow> (nat \<times> string) option" where
  "mqttLoop d saw found s =
     (case scanKey s of None \<Rightarrow> None
      | Some (key, t) \<Rightarrow>
          (case mqttMember d saw found key t of None \<Rightarrow> None
           | Some (f, u) \<Rightarrow>
               (case scanSep CHR ''}'' u of NextBad \<Rightarrow> None | NextClosed r \<Rightarrow> Some (f, r)
                | NextItem v \<Rightarrow> mqttLoop d (saw \<or> cmdConfigKeyIs key ''broker'') f v)))"
  by pat_completeness auto
termination
proof (relation "measure (\<lambda>(d, saw, found, s). length s)", goal_cases)
  case (2 d saw found s x key t y f u v)
  then have "length t < length s" "length u \<le> length t" "length v < length u"
    using scanKey_length mqttMember_length scanSep_length(2) by auto
  then show ?case by simp
qed simp

declare mqttLoop.simps [simp del]

definition cmdConfigMqttObject :: "nat \<Rightarrow> string \<Rightarrow> (nat \<times> string) option" where
  "cmdConfigMqttObject d t =
     (if CMD_CONFIG_MAX_DEPTH < Suc d then None
      else case cmdConfigSkipWs t of [] \<Rightarrow> None
           | c # u \<Rightarrow> if c = CHR ''}'' then Some (0, u) else mqttLoop (Suc d) False 0 (c # u))"

text \<open>A member of the document; \<open>cmdConfigMqttObject\<close> is entered past the opening brace.\<close>

definition topMember :: "bool \<Rightarrow> nat \<Rightarrow> string \<Rightarrow> string \<Rightarrow> (nat \<times> string) option" where
  "topMember saw broker key t =
     (if cmdConfigKeyIs key ''mqtt''
      then (if saw then None
            else case cmdConfigSkipWs t of [] \<Rightarrow> None | c # u \<Rightarrow> if c \<noteq> CHR ''{'' then None else cmdConfigMqttObject 1 u)
      else map_option (\<lambda>u. (broker, u)) (cmdConfigValue 1 t))"

lemma mqttLoop_length: "mqttLoop d saw found s = Some (f, r) \<Longrightarrow> length r \<le> length s"
proof (induction d saw found s arbitrary: f r rule: mqttLoop.induct)
  case (1 d saw found s)
  obtain key t g u where a: "scanKey s = Some (key, t)" "mqttMember d saw found key t = Some (g, u)"
    using "1.prems" by (subst (asm) mqttLoop.simps) (auto split: option.splits)
  have l: "length t < length s" "length u \<le> length t" using scanKey_length a(1) mqttMember_length a(2) by blast+
  consider (cl) "scanSep CHR ''}'' u = NextClosed r" | (it) v where "scanSep CHR ''}'' u = NextItem v" "mqttLoop d (saw \<or> cmdConfigKeyIs key ''broker'') g v = Some (f, r)"
    using "1.prems" a by (subst (asm) mqttLoop.simps) (auto split: scanNext.splits)
  then show ?case
  proof cases
    case cl
    then show ?thesis using l scanSep_length(1) by fastforce
  next
    case it
    then show ?thesis using l scanSep_length(2) [OF it(1)] "1.IH" [OF a(1) refl a(2) refl it(1) it(2)] by linarith
  qed
qed

lemma mqttObject_length: "cmdConfigMqttObject d t = Some (f, u) \<Longrightarrow> length u \<le> length t"
proof -
  assume a: "cmdConfigMqttObject d t = Some (f, u)"
  then obtain c v where cv: "cmdConfigSkipWs t = c # v" by (auto simp: cmdConfigMqttObject_def split: if_splits list.splits)
  then have "length (c # v) \<le> length t" using skipWs_length [of t] by simp
  then show ?thesis using a cv mqttLoop_length [of "Suc d" False 0 "c # v" f u] by (auto simp: cmdConfigMqttObject_def split: if_splits)
qed

lemma topMember_length: "topMember saw broker key t = Some (f, u) \<Longrightarrow> length u \<le> length t"
proof -
  assume a: "topMember saw broker key t = Some (f, u)"
  show ?thesis
  proof (cases "cmdConfigKeyIs key ''mqtt''")
    case True
    then obtain v where "cmdConfigSkipWs t = CHR ''{'' # v" "cmdConfigMqttObject 1 v = Some (f, u)"
      using a by (auto simp: topMember_def split: if_splits list.splits)
    then show ?thesis using mqttObject_length skipWs_length [of t] by fastforce
  next
    case False
    then show ?thesis using a scan_forward by (auto simp: topMember_def)
  qed
qed

function topLoop :: "bool \<Rightarrow> nat \<Rightarrow> string \<Rightarrow> nat option" where
  "topLoop saw broker s =
     (case scanKey s of None \<Rightarrow> None
      | Some (key, t) \<Rightarrow>
          (case topMember saw broker key t of None \<Rightarrow> None
           | Some (b, u) \<Rightarrow>
               (case scanSep CHR ''}'' u of NextBad \<Rightarrow> None
                | NextClosed r \<Rightarrow> if cmdConfigSkipWs r = [] then Some b else None
                | NextItem v \<Rightarrow> topLoop (saw \<or> cmdConfigKeyIs key ''mqtt'') b v)))"
  by pat_completeness auto
termination
proof (relation "measure (\<lambda>(saw, broker, s). length s)", goal_cases)
  case (2 saw broker s x key t y b u v)
  then have "length t < length s" "length u \<le> length t" "length v < length u"
    using scanKey_length topMember_length scanSep_length(2) by auto
  then show ?case by simp
qed simp

declare topLoop.simps [simp del]

text \<open>None for a result of -1.\<close>

definition cmdConfigScanBroker :: "string \<Rightarrow> nat option" where
  "cmdConfigScanBroker s =
     (case cmdConfigSkipWs s of [] \<Rightarrow> None
      | c # t \<Rightarrow> if c \<noteq> CHR ''{'' then None
                 else (case cmdConfigSkipWs t of [] \<Rightarrow> None
                       | e # u \<Rightarrow> if e = CHR ''}'' then (if cmdConfigSkipWs u = [] then Some 0 else None) else topLoop False 0 (e # u)))"

definition cmdConfigVerdict :: "bool \<Rightarrow> cstr \<Rightarrow> CmdConfigVerdict" where
  "cmdConfigVerdict tlsVerified payload =
     (case payload of None \<Rightarrow> CMD_CONFIG_REFUSE_SHAPE
      | Some s \<Rightarrow> if length s = 0 \<or> CMD_CONFIG_MAX \<le> length s then CMD_CONFIG_REFUSE_SHAPE
                  else if \<not> tlsVerified then CMD_CONFIG_REFUSE_TLS
                  else case cmdConfigScanBroker s of None \<Rightarrow> CMD_CONFIG_REFUSE_SHAPE
                       | Some b \<Rightarrow> if b = 0 then CMD_CONFIG_REFUSE_BROKER else CMD_CONFIG_OK)"

text \<open>The staging buffer of \<open>MQTTClient.cpp\<close>: None when nothing is pending.\<close>

definition cmdConfigInbound :: "bool \<Rightarrow> cstr \<Rightarrow> string option \<Rightarrow> string option" where
  "cmdConfigInbound tlsVerified payload pending =
     (if cmdConfigVerdict tlsVerified payload \<noteq> CMD_CONFIG_OK then pending
      else case pending of Some b \<Rightarrow> Some b | None \<Rightarrow> payload)"

section \<open>The grammar\<close>

abbreviation blanks :: "string \<Rightarrow> bool" where
  "blanks w \<equiv> list_all cmdConfigWs w"

text \<open>The text between the quotes of a string: its unescaped length, None if it is not well formed.\<close>

fun rawLen :: "string \<Rightarrow> nat option" where
  "rawLen [] = Some 0"
| "rawLen (c # s) =
     (if c = CHR 0x5C then (case s of [] \<Rightarrow> None | e # s' \<Rightarrow> map_option Suc (rawLen s'))
      else if c = CHR 0x22 \<or> ccode c < 0x20 then None else map_option Suc (rawLen s))"

definition quoted :: "string \<Rightarrow> string" where
  "quoted raw = CHR 0x22 # raw @ [CHR 0x22]"

definition jnumber :: "string \<Rightarrow> bool" where
  "jnumber v \<longleftrightarrow> (\<exists>sg i f e. v = sg @ i @ f @ e \<and> (sg = '''' \<or> sg = ''-'') \<and>
     (i = ''0'' \<or> digits i \<and> hd i \<noteq> CHR ''0'') \<and>
     (f = '''' \<or> (\<exists>ds. f = CHR ''.'' # ds \<and> digits ds)) \<and>
     (e = '''' \<or> (\<exists>x g ds. e = x # g @ ds \<and> (x = CHR ''e'' \<or> x = CHR ''E'') \<and> (g = '''' \<or> g = ''+'' \<or> g = ''-'') \<and> digits ds)))"

definition jscalar :: "string \<Rightarrow> bool" where
  "jscalar v \<longleftrightarrow> v = ''true'' \<or> v = ''false'' \<or> v = ''null'' \<or> jnumber v \<or> (\<exists>raw n. v = quoted raw \<and> rawLen raw = Some n)"

text \<open>\<open>jval n v\<close>: \<open>v\<close> is a JSON value that nests at most \<open>n\<close> deep; \<open>jmems n ms m\<close>: \<open>m\<close> is the text of the members
  \<open>ms\<close>, each a raw key and the text of its value; \<open>jelems n m\<close>: \<open>m\<close> is the text of array elements.\<close>

inductive jval :: "nat \<Rightarrow> string \<Rightarrow> bool"
  and jmems :: "nat \<Rightarrow> (string \<times> string) list \<Rightarrow> string \<Rightarrow> bool"
  and jelems :: "nat \<Rightarrow> string \<Rightarrow> bool" where
  JScalar: "jscalar v \<Longrightarrow> jval n v"
| JEmptyObj: "blanks w \<Longrightarrow> jval (Suc n) (CHR ''{'' # w @ ''}'')"
| JObject: "blanks w \<Longrightarrow> jmems n ms m \<Longrightarrow> jval (Suc n) (CHR ''{'' # w @ m @ ''}'')"
| JEmptyArr: "blanks w \<Longrightarrow> jval (Suc n) (CHR ''['' # w @ '']'')"
| JArray: "jelems n m \<Longrightarrow> jval (Suc n) (CHR ''['' # m @ '']'')"
| JMem: "rawLen key = Some k \<Longrightarrow> blanks w1 \<Longrightarrow> blanks w2 \<Longrightarrow> jval n v \<Longrightarrow> blanks w3 \<Longrightarrow>
    jmems n [(key, v)] (quoted key @ w1 @ CHR '':'' # w2 @ v @ w3)"
| JMems: "rawLen key = Some k \<Longrightarrow> blanks w1 \<Longrightarrow> blanks w2 \<Longrightarrow> jval n v \<Longrightarrow> blanks w3 \<Longrightarrow> blanks w4 \<Longrightarrow> jmems n ms m \<Longrightarrow>
    jmems n ((key, v) # ms) (quoted key @ w1 @ CHR '':'' # w2 @ v @ w3 @ CHR '','' # w4 @ m)"
| JElem: "blanks w1 \<Longrightarrow> jval n v \<Longrightarrow> blanks w2 \<Longrightarrow> jelems n (w1 @ v @ w2)"
| JElems: "blanks w1 \<Longrightarrow> jval n v \<Longrightarrow> blanks w2 \<Longrightarrow> jelems n m \<Longrightarrow> jelems n (w1 @ v @ w2 @ CHR '','' # m)"

section \<open>What the scanning steps consume\<close>

lemma skipWs_split: "\<exists>w. blanks w \<and> s = w @ cmdConfigSkipWs s"
  unfolding cmdConfigSkipWs_def
  by (rule exI [of _ "takeWhile cmdConfigWs s"]) (auto simp: list_all_iff dest: set_takeWhileD)

lemma skipWs_blanks: "blanks w \<Longrightarrow> cmdConfigSkipWs (w @ u) = cmdConfigSkipWs u"
  by (induction w) (auto simp: cmdConfigSkipWs_def)

lemma skipWs_stop: "\<not> cmdConfigWs c \<Longrightarrow> cmdConfigSkipWs (c # u) = c # u"
  by (simp add: cmdConfigSkipWs_def)

lemma strLoop_iff: "strLoop s = Some (raw, n, r) \<longleftrightarrow> s = raw @ CHR 0x22 # r \<and> rawLen raw = Some n"
proof (induction s arbitrary: raw n r rule: strLoop.induct)
  case (2 c s)
  consider (esc) "c = CHR 0x5C" | (quo) "c = CHR 0x22" | (ctl) "c \<noteq> CHR 0x5C" "c \<noteq> CHR 0x22" "ccode c < 0x20"
    | (plain) "c \<noteq> CHR 0x5C" "c \<noteq> CHR 0x22" "\<not> ccode c < 0x20" by blast
  then show ?case
  proof cases
    case esc
    show ?thesis
    proof (cases s)
      case Nil
      then show ?thesis using esc by (cases raw rule: rawLen.cases) (auto split: list.splits)
    next
      case (Cons e s')
      then show ?thesis using esc "2.IH"(1) [OF esc Cons] by (cases raw rule: rawLen.cases) (auto split: list.splits)
    qed
  next
    case quo
    then show ?thesis by (cases raw) auto
  next
    case ctl
    then show ?thesis by (cases raw) auto
  next
    case plain
    then show ?thesis using "2.IH"(2) by (cases raw) auto
  qed
qed simp

lemma cmdConfigString_iff: "cmdConfigString s = Some (raw, n, r) \<longleftrightarrow> s = quoted raw @ r \<and> rawLen raw = Some n"
  by (cases s) (auto simp: cmdConfigString_def quoted_def strLoop_iff)

lemma scanKey_split:
  assumes "scanKey s = Some (key, t)"
  shows "\<exists>k w. rawLen key = Some k \<and> blanks w \<and> s = quoted key @ w @ CHR '':'' # t"
proof -
  obtain n r where r: "cmdConfigString s = Some (key, n, r)" "cmdConfigSkipWs r = CHR '':'' # t"
    using assms by (auto simp: scanKey_def split: option.splits list.splits if_splits)
  obtain w where "blanks w" "r = w @ CHR '':'' # t" using skipWs_split [of r] r(2) by auto
  then show ?thesis using r(1) by (auto simp: cmdConfigString_iff)
qed

lemma scanKey_of: "rawLen key = Some k \<Longrightarrow> blanks w \<Longrightarrow> scanKey (quoted key @ w @ CHR '':'' # t) = Some (key, t)"
proof -
  assume a: "rawLen key = Some k" "blanks w"
  have "cmdConfigString (quoted key @ w @ CHR '':'' # t) = Some (key, k, w @ CHR '':'' # t)"
    using a(1) by (simp only: cmdConfigString_iff simp_thms)
  then show ?thesis using a(2) by (simp add: scanKey_def skipWs_blanks skipWs_stop cmdConfigWs_def)
qed

lemma scanSep_split:
  "scanSep close s = NextClosed r \<Longrightarrow> \<exists>w. blanks w \<and> s = w @ close # r"
  "scanSep close s = NextItem v \<Longrightarrow> \<exists>w w'. blanks w \<and> blanks w' \<and> s = w @ CHR '','' # w' @ v"
proof -
  show "\<exists>w. blanks w \<and> s = w @ close # r" if "scanSep close s = NextClosed r"
    using that skipWs_split [of s] by (auto simp: scanSep_def split: list.splits if_splits)
  show "\<exists>w w'. blanks w \<and> blanks w' \<and> s = w @ CHR '','' # w' @ v" if a: "scanSep close s = NextItem v"
  proof -
    obtain u where u: "cmdConfigSkipWs s = CHR '','' # u" "v = cmdConfigSkipWs u"
      using a by (auto simp: scanSep_def split: list.splits if_splits)
    obtain w where "blanks w" "s = w @ CHR '','' # u" using skipWs_split [of s] u(1) by auto
    moreover obtain w' where "blanks w'" "u = w' @ v" using skipWs_split [of u] u(2) by auto
    ultimately show ?thesis by blast
  qed
qed

lemma scanSep_of:
  "blanks w \<Longrightarrow> close = CHR ''}'' \<or> close = CHR '']'' \<Longrightarrow> scanSep close (w @ close # r) = NextClosed r"
  "blanks w \<Longrightarrow> cmdConfigSkipWs u \<noteq> [] \<Longrightarrow> scanSep close (w @ CHR '','' # u) = NextItem (cmdConfigSkipWs u)"
  by (auto simp: scanSep_def skipWs_blanks skipWs_stop cmdConfigWs_def)

definition jint :: "string \<Rightarrow> bool" where
  "jint i \<longleftrightarrow> i = ''0'' \<or> digits i \<and> hd i \<noteq> CHR ''0''"

definition jfrac :: "string \<Rightarrow> bool" where
  "jfrac f \<longleftrightarrow> f = '''' \<or> (\<exists>ds. f = CHR ''.'' # ds \<and> digits ds)"

definition jexp :: "string \<Rightarrow> bool" where
  "jexp e \<longleftrightarrow> e = '''' \<or> (\<exists>x g ds. e = x # g @ ds \<and> (x = CHR ''e'' \<or> x = CHR ''E'') \<and> (g = '''' \<or> g = ''+'' \<or> g = ''-'') \<and> digits ds)"

text \<open>What may follow a value: the end, or a character that cannot continue a number.\<close>

definition numEnd :: "string \<Rightarrow> bool" where
  "numEnd r \<longleftrightarrow> r = [] \<or> \<not> isDigit (hd r) \<and> hd r \<notin> {CHR ''.'', CHR ''e'', CHR ''E''}"

lemma jnumber_parts: "jnumber v \<longleftrightarrow> (\<exists>sg i f e. v = sg @ i @ f @ e \<and> (sg = '''' \<or> sg = ''-'') \<and> jint i \<and> jfrac f \<and> jexp e)"
  by (simp add: jnumber_def jint_def jfrac_def jexp_def)

lemma digits_split: "startsDigit s \<Longrightarrow> \<exists>ds. digits ds \<and> s = ds @ dropWhile isDigit s"
  by (rule exI [of _ "takeWhile isDigit s"], cases s)
    (auto simp: startsDigit_def digits_def list_all_iff dest: set_takeWhileD)

lemma digits_drop: "digits ds \<Longrightarrow> \<not> startsDigit r \<Longrightarrow> startsDigit (ds @ r) \<and> dropWhile isDigit (ds @ r) = r"
proof -
  assume a: "digits ds" "\<not> startsDigit r"
  have "list_all isDigit ds \<Longrightarrow> dropWhile isDigit (ds @ r) = dropWhile isDigit r" by (induction ds) auto
  moreover have "dropWhile isDigit r = r" using a(2) by (cases r) (auto simp: startsDigit_def)
  ultimately show ?thesis using a by (cases ds) (auto simp: digits_def startsDigit_def)
qed

lemma numberInt_split: "numberInt s = Some r \<Longrightarrow> \<exists>i. s = i @ r \<and> jint i"
proof -
  assume a: "numberInt s = Some r"
  then have sd: "startsDigit s" by (auto simp: numberInt_def split: if_splits)
  show ?thesis
  proof (cases "hd s = CHR ''0''")
    case True
    then have "s = ''0'' @ r" using a sd by (cases s) (auto simp: numberInt_def startsDigit_def)
    then show ?thesis unfolding jint_def by blast
  next
    case False
    obtain ds where ds: "digits ds" "s = ds @ dropWhile isDigit s" using digits_split [OF sd] by blast
    then have "hd ds = hd s" by (metis digits_def hd_append2)
    moreover have "s = ds @ r" using ds a False sd by (simp add: numberInt_def)
    ultimately show ?thesis using ds(1) False unfolding jint_def by metis
  qed
qed

lemma numberFrac_split: "numberFrac s = Some r \<Longrightarrow> \<exists>f. s = f @ r \<and> jfrac f"
proof -
  assume a: "numberFrac s = Some r"
  show ?thesis
  proof (cases "\<exists>t. s = CHR ''.'' # t")
    case True
    then obtain t where t: "s = CHR ''.'' # t" "startsDigit t" "r = dropWhile isDigit t"
      using a by (auto simp: numberFrac_def split: if_splits)
    then obtain ds where "digits ds" "t = ds @ r" using digits_split by metis
    then show ?thesis using t(1) unfolding jfrac_def by auto
  next
    case False
    then have "s = [] @ r" using a by (auto simp: numberFrac_def split: list.splits)
    then show ?thesis unfolding jfrac_def by blast
  qed
qed

lemma numberExp_split: "numberExp s = Some r \<Longrightarrow> \<exists>e. s = e @ r \<and> jexp e"
proof -
  assume a: "numberExp s = Some r"
  show ?thesis
  proof (cases "\<exists>x t. s = x # t \<and> (x = CHR ''e'' \<or> x = CHR ''E'')")
    case True
    then obtain x t where t: "s = x # t" "x = CHR ''e'' \<or> x = CHR ''E''" by blast
    have u: "startsDigit (expSign t)" "r = dropWhile isDigit (expSign t)" using a t by (auto simp: numberExp_def split: if_splits)
    then obtain ds where ds: "digits ds" "expSign t = ds @ r" using digits_split by metis
    have "\<exists>g. t = g @ expSign t \<and> (g = '''' \<or> g = ''+'' \<or> g = ''-'')" by (cases t) (auto simp: expSign_def)
    then obtain g where "t = g @ ds @ r" "g = '''' \<or> g = ''+'' \<or> g = ''-''" unfolding ds(2) by blast
    then have "s = (x # g @ ds) @ r \<and> jexp (x # g @ ds)" using t ds(1) unfolding jexp_def by simp blast
    then show ?thesis by blast
  next
    case False
    then have "s = [] @ r" using a by (auto simp: numberExp_def split: list.splits)
    then show ?thesis unfolding jexp_def by blast
  qed
qed

lemma number_split: "cmdConfigNumber s = Some r \<Longrightarrow> \<exists>v. s = v @ r \<and> jnumber v"
proof -
  assume "cmdConfigNumber s = Some r"
  then obtain a b where ab: "numberInt (numberSign s) = Some a" "numberFrac a = Some b" "numberExp b = Some r"
    by (auto simp: cmdConfigNumber_def bind_eq_Some_conv)
  obtain i f e where p: "numberSign s = i @ a" "jint i" "a = f @ b" "jfrac f" "b = e @ r" "jexp e"
    using numberInt_split [OF ab(1)] numberFrac_split [OF ab(2)] numberExp_split [OF ab(3)] by blast
  have "\<exists>sg. s = sg @ numberSign s \<and> (sg = '''' \<or> sg = ''-'')" by (cases s) (auto simp: numberSign_def)
  then obtain sg where sg: "s = sg @ numberSign s" "sg = '''' \<or> sg = ''-''" by blast
  have "s = (sg @ i @ f @ e) @ r" using sg(1) p by simp
  then show ?thesis using sg(2) p unfolding jnumber_parts by blast
qed

lemma not_startsDigit: "numEnd r \<Longrightarrow> \<not> startsDigit r"
  by (cases r) (auto simp: numEnd_def startsDigit_def)

lemma frac_then: "jfrac f \<Longrightarrow> jexp e \<Longrightarrow> numEnd r \<Longrightarrow> \<not> startsDigit (e @ r) \<and> \<not> startsDigit (f @ e @ r)"
  by (auto simp: jfrac_def jexp_def startsDigit_def isDigit_def numEnd_def split: list.splits)

lemma number_of: 
  assumes "jnumber v" "numEnd r"
  shows "cmdConfigNumber (v @ r) = Some r"
proof -
  obtain sg i f e where p: "v = sg @ i @ f @ e" "sg = '''' \<or> sg = ''-''" "jint i" "jfrac f" "jexp e"
    using assms(1) unfolding jnumber_parts by blast
  note nd = frac_then [OF p(4,5) assms(2)]
  have ii: "numberInt (i @ f @ e @ r) = Some (f @ e @ r)"
  proof (cases "i = ''0''")
    case False
    then have i: "digits i" "hd i \<noteq> CHR ''0''" using p(3) by (auto simp: jint_def)
    then have "hd (i @ f @ e @ r) \<noteq> CHR ''0''" by (cases i) (auto simp: digits_def)
    then show ?thesis using digits_drop [OF i(1), of "f @ e @ r"] nd by (simp add: numberInt_def)
  qed (simp add: numberInt_def startsDigit_def isDigit_def)
  have ff: "numberFrac (f @ e @ r) = Some (e @ r)"
  proof (cases "f = ''''")
    case True
    have "e @ r = [] \<or> hd (e @ r) \<noteq> CHR ''.''" using p(5) assms(2) by (auto simp: jexp_def numEnd_def)
    then show ?thesis using True by (cases "e @ r") (auto simp: numberFrac_def)
  next
    case False
    then obtain ds where "f = CHR ''.'' # ds" "digits ds" using p(4) by (auto simp: jfrac_def)
    then show ?thesis using digits_drop [of ds "e @ r"] nd by (simp add: numberFrac_def)
  qed
  have ee: "numberExp (e @ r) = Some r"
  proof (cases "e = ''''")
    case True
    then show ?thesis using assms(2) by (cases r) (auto simp: numberExp_def numEnd_def)
  next
    case False
    then obtain x g ds where x: "e = x # g @ ds" "x = CHR ''e'' \<or> x = CHR ''E''" "g = '''' \<or> g = ''+'' \<or> g = ''-''" "digits ds"
      using p(5) by (auto simp: jexp_def)
    have "expSign (ds @ r) = ds @ r" using x(4) by (cases ds) (auto simp: expSign_def digits_def isDigit_def)
    moreover have "expSign (CHR ''+'' # ds @ r) = ds @ r" "expSign (CHR ''-'' # ds @ r) = ds @ r" by (simp_all add: expSign_def)
    ultimately have "expSign (g @ ds @ r) = ds @ r" using x(3) by auto
    then show ?thesis using x digits_drop [OF x(4) not_startsDigit [OF assms(2)]] by (simp add: numberExp_def)
  qed
  have "i \<noteq> [] \<and> hd i \<noteq> CHR ''-''" using p(3) by (cases i) (auto simp: jint_def digits_def isDigit_def)
  then have "numberSign (v @ r) = i @ f @ e @ r" using p(1,2) by (cases i) (auto simp: numberSign_def)
  then show ?thesis using ii ff ee by (simp add: cmdConfigNumber_def)
qed

lemma literal_iff: "cmdConfigLiteral s l = Some r \<longleftrightarrow> s = l @ r"
  by (induction s l arbitrary: r rule: cmdConfigLiteral.induct) auto

lemma scalar_split:
  assumes "scanScalar s = Some r" shows "\<exists>v. s = v @ r \<and> jscalar v"
proof -
  consider (str) raw n where "cmdConfigString s = Some (raw, n, r)" | (lit) l where "l \<in> {''true'', ''false'', ''null''}" "cmdConfigLiteral s l = Some r"
    | (num) "cmdConfigNumber s = Some r"
    using assms by (auto simp: scanScalar_def Let_def split: if_splits)
  then show ?thesis
  proof cases
    case str
    then show ?thesis unfolding cmdConfigString_iff jscalar_def by blast
  next
    case lit
    then show ?thesis unfolding literal_iff jscalar_def by blast
  next
    case num
    then show ?thesis using number_split unfolding jscalar_def by blast
  qed
qed

lemma jnumber_head: "jnumber v \<Longrightarrow> v \<noteq> [] \<and> (hd v = CHR ''-'' \<or> isDigit (hd v))"
proof -
  assume "jnumber v"
  then obtain sg i f e where p: "v = sg @ i @ f @ e" "sg = '''' \<or> sg = ''-''" "jint i" unfolding jnumber_parts by blast
  have "i \<noteq> [] \<and> isDigit (hd i)" using p(3) by (cases i) (auto simp: jint_def digits_def isDigit_def)
  then show ?thesis using p(1,2) by (cases i) auto
qed

lemma scalar_of:
  assumes "jscalar v" "numEnd r" shows "scanScalar (v @ r) = Some r"
proof -
  consider (lit) "v = ''true'' \<or> v = ''false'' \<or> v = ''null''" | (num) "jnumber v" | (str) raw n where "v = quoted raw" "rawLen raw = Some n"
    using assms(1) unfolding jscalar_def by blast
  then show ?thesis
  proof cases
    case lit
    then show ?thesis by (auto simp: scanScalar_def literal_iff)
  next
    case num
    have "hd (v @ r) = hd v" "hd v \<notin> {CHR 0x22, CHR ''t'', CHR ''f'', CHR ''n''}"
      using jnumber_head [OF num] by (auto simp: isDigit_def)
    then show ?thesis using number_of [OF num assms(2)] by (auto simp: scanScalar_def Let_def)
  next
    case str
    then have "cmdConfigString (v @ r) = Some (raw, n, r)" by (simp add: cmdConfigString_iff)
    then show ?thesis using str by (simp add: scanScalar_def quoted_def)
  qed
qed

section \<open>The scanner accepts exactly the grammar\<close>

definition itemText :: "bool \<Rightarrow> nat \<Rightarrow> string \<Rightarrow> bool" where
  "itemText obj n m \<longleftrightarrow> (if obj then \<exists>ms. jmems n ms m else jelems n m)"

abbreviation opener :: "bool \<Rightarrow> char" where
  "opener obj \<equiv> if obj then CHR ''{'' else CHR ''[''"

abbreviation closer :: "bool \<Rightarrow> char" where
  "closer obj \<equiv> if obj then CHR ''}'' else CHR '']''"

lemma jelems_blanks: "blanks w \<Longrightarrow> jelems n m \<Longrightarrow> jelems n (w @ m)"
  by (erule jelems.cases) (metis append.assoc list_all_append JElem, metis append.assoc list_all_append JElems)

lemma jcontainer:
  assumes "blanks w"
  shows "itemText obj n m \<Longrightarrow> jval (Suc n) (opener obj # w @ m @ [closer obj])" "jval (Suc n) (opener obj # w @ [closer obj])"
proof -
  show "jval (Suc n) (opener obj # w @ [closer obj])" using assms JEmptyObj JEmptyArr by simp
  show "jval (Suc n) (opener obj # w @ m @ [closer obj])" if "itemText obj n m"
    using that assms JObject JArray [OF jelems_blanks, of w n m] by (auto simp: itemText_def)
qed

lemma item_last:
  assumes "(if obj then map_option snd (scanKey s) else Some s) = Some (w2 @ v @ w3 @ closer obj # r)" "blanks w2" "jval n v" "blanks w3"
  shows "\<exists>m. s = m @ closer obj # r \<and> itemText obj n m"
proof (cases obj)
  case True
  then obtain key k w1 where key: "rawLen key = Some k" "blanks w1" "s = quoted key @ w1 @ CHR '':'' # w2 @ v @ w3 @ CHR ''}'' # r"
    using assms(1) scanKey_split by fastforce
  then show ?thesis using True JMem [OF key(1,2) assms(2-4)] by (auto simp: itemText_def)
next
  case False
  then show ?thesis using assms(1) JElem [OF assms(2-4)] by (auto simp: itemText_def)
qed

lemma item_more:
  assumes "(if obj then map_option snd (scanKey s) else Some s) = Some (w2 @ v @ w3 @ CHR '','' # w4 @ m @ closer obj # r)"
    "blanks w2" "jval n v" "blanks w3" "blanks w4" "itemText obj n m"
  shows "\<exists>m. s = m @ closer obj # r \<and> itemText obj n m"
proof (cases obj)
  case True
  then obtain key k w1 where key: "rawLen key = Some k" "blanks w1" "s = quoted key @ w1 @ CHR '':'' # w2 @ v @ w3 @ CHR '','' # w4 @ m @ CHR ''}'' # r"
    using assms(1) scanKey_split by fastforce
  obtain ms where "jmems n ms m" using assms(6) True by (auto simp: itemText_def)
  then show ?thesis using True key(3) JMems [OF key(1,2) assms(2-5)] by (fastforce simp: itemText_def)
next
  case False
  then show ?thesis using assms(1) JElems [OF assms(2-4) jelems_blanks [OF assms(5)]] assms(6) by (auto simp: itemText_def)
qed

lemma scan_sound:
  "cmdConfigValue d s = Some r \<Longrightarrow> d \<le> CMD_CONFIG_MAX_DEPTH \<Longrightarrow>
     \<exists>w v. blanks w \<and> s = w @ v @ r \<and> jval (CMD_CONFIG_MAX_DEPTH - d) v"
  "containerLoop d obj s = Some r \<Longrightarrow> d \<le> CMD_CONFIG_MAX_DEPTH \<Longrightarrow>
     \<exists>m. s = m @ closer obj # r \<and> itemText obj (CMD_CONFIG_MAX_DEPTH - d) m"
proof (induction d s and d obj s arbitrary: r and r rule: cmdConfigValue_containerLoop.induct)
  case (1 d s)
  obtain c t where ct: "cmdConfigSkipWs s = c # t"
    using "1.prems"(1) by (subst (asm) cmdConfigValue.simps) (auto split: list.splits)
  obtain w where w: "blanks w" "s = w @ c # t" using skipWs_split [of s] ct by auto
  show ?case
  proof (cases "c = CHR ''{'' \<or> c = CHR ''[''")
    case True
    let ?obj = "c = CHR ''{''"
    obtain x u where xu: "\<not> CMD_CONFIG_MAX_DEPTH < Suc d" "cmdConfigSkipWs t = x # u"
        "x = closer ?obj \<and> r = u \<or> x \<noteq> closer ?obj \<and> containerLoop (Suc d) ?obj (x # u) = Some r"
      using "1.prems"(1) ct True by (subst (asm) cmdConfigValue.simps) (auto split: list.splits if_splits)
    obtain w' where w': "blanks w'" "t = w' @ x # u" using skipWs_split [of t] xu(2) by auto
    have n: "CMD_CONFIG_MAX_DEPTH - d = Suc (CMD_CONFIG_MAX_DEPTH - Suc d)" and c: "c = opener ?obj" using xu(1) True by auto
    have "\<exists>m. t = m @ closer ?obj # r \<and> jval (CMD_CONFIG_MAX_DEPTH - d) (opener ?obj # m @ [closer ?obj])"
    proof (cases "x = closer ?obj")
      case True
      then show ?thesis using xu(3) w'(2) jcontainer(2) [OF w'(1), of _ ?obj] n by auto
    next
      case False
      then obtain m where "x # u = m @ closer ?obj # r" "itemText ?obj (CMD_CONFIG_MAX_DEPTH - Suc d) m"
        using "1.IH" [OF ct True xu(1,2) False] xu by auto
      then show ?thesis using w'(2) jcontainer(1) [OF w'(1), of ?obj _ m] n by (intro exI [of _ "w' @ m"]) simp
    qed
    then obtain m where "t = m @ closer ?obj # r" "jval (CMD_CONFIG_MAX_DEPTH - d) (opener ?obj # m @ [closer ?obj])" by blast
    then show ?thesis using w c by (intro exI [of _ w] exI [of _ "opener ?obj # m @ [closer ?obj]"]) simp
  next
    case False
    then have "scanScalar (c # t) = Some r" using "1.prems"(1) ct by (subst (asm) cmdConfigValue.simps) simp
    then show ?thesis using scalar_split w JScalar by blast
  qed
next
  case (2 d obj s)
  obtain t u where t: "(if obj then map_option snd (scanKey s) else Some s) = Some t" "cmdConfigValue d t = Some u"
    using "2.prems"(1) by (subst (asm) containerLoop.simps) (auto split: option.splits)
  obtain w2 v where v: "blanks w2" "t = w2 @ v @ u" "jval (CMD_CONFIG_MAX_DEPTH - d) v" using "2.IH"(1) [OF t "2.prems"(2)] by blast
  consider (cl) "scanSep (closer obj) u = NextClosed r" | (it) y where "scanSep (closer obj) u = NextItem y" "containerLoop d obj y = Some r"
    using "2.prems"(1) t by (subst (asm) containerLoop.simps) (auto split: scanNext.splits)
  then show ?case
  proof cases
    case cl
    obtain w3 where "blanks w3" "u = w3 @ closer obj # r" using scanSep_split(1) [OF cl] by blast
    then show ?thesis using item_last [of obj s w2 v w3 r] t(1) v by simp
  next
    case it
    obtain w3 w4 where w3: "blanks w3" "blanks w4" "u = w3 @ CHR '','' # w4 @ y" using scanSep_split(2) [OF it(1)] by blast
    obtain m where "y = m @ closer obj # r" "itemText obj (CMD_CONFIG_MAX_DEPTH - d) m" using "2.IH"(2) [OF t it(1) it(2) "2.prems"(2)] by blast
    then show ?thesis using item_more [of obj s w2 v w3 w4 m r] t(1) v w3 by simp
  qed
qed

lemma jval_head: "jval n v \<Longrightarrow> v \<noteq> [] \<and> \<not> cmdConfigWs (hd v) \<and> hd v \<notin> {CHR ''}'', CHR '']'', CHR '',''}"
proof (erule jval.cases, goal_cases)
  case (1 v' n')
  then consider "v \<in> {''true'', ''false'', ''null''}" | "jnumber v" | raw where "v = quoted raw" unfolding jscalar_def by blast
  then show ?case by cases (auto simp: cmdConfigWs_def quoted_def isDigit_def dest: jnumber_head)
qed (auto simp: cmdConfigWs_def)

lemma jmems_head: "jmems n ms m \<Longrightarrow> \<exists>t. m = CHR 0x22 # t"
  by (erule jmems.cases) (auto simp: quoted_def)

lemma skipWs_jval: "jval n v \<Longrightarrow> cmdConfigSkipWs (v @ r) = v @ r"
  using jval_head [of n v] by (cases v) (auto simp: skipWs_stop)

lemma skipWs_jmems: "jmems n ms m \<Longrightarrow> cmdConfigSkipWs (m @ r) = m @ r"
  using jmems_head [of n ms m] by (auto simp: skipWs_stop cmdConfigWs_def)

lemma skipWs_jelems: "jelems n m \<Longrightarrow> \<exists>x u. cmdConfigSkipWs (m @ r) = x # u \<and> x \<noteq> CHR '']''"
proof (erule jelems.cases, goal_cases)
  case (1 w1 n' v w2)
  then show ?case using skipWs_jval [of n' v "w2 @ r"] jval_head [of n' v] by (cases v) (auto simp: skipWs_blanks)
next
  case (2 w1 n' v w2 m')
  then show ?case using skipWs_jval [of n' v "w2 @ CHR '','' # m' @ r"] jval_head [of n' v] by (cases v) (auto simp: skipWs_blanks)
qed

lemma numEnd_sep: "blanks w \<Longrightarrow> c \<in> {CHR '','', CHR ''}'', CHR '']''} \<Longrightarrow> numEnd (w @ c # r)"
  by (cases w) (auto simp: numEnd_def isDigit_def cmdConfigWs_def)

lemma value_container:
  assumes "Suc n = CMD_CONFIG_MAX_DEPTH - d" "blanks w" "cmdConfigSkipWs t = x # u"
  shows "x = closer obj \<Longrightarrow> cmdConfigValue d (w @ opener obj # t) = Some u"
    "x \<noteq> closer obj \<Longrightarrow> containerLoop (Suc d) obj (x # u) = Some r \<Longrightarrow> cmdConfigValue d (w @ opener obj # t) = Some r"
  using assms by (subst cmdConfigValue.simps, auto simp: skipWs_blanks skipWs_stop cmdConfigWs_def)+

lemma loop_last:
  assumes "(if obj then map_option snd (scanKey s) else Some s) = Some t" "cmdConfigValue d t = Some (w @ closer obj # r)" "blanks w"
  shows "containerLoop d obj s = Some r"
  using assms scanSep_of(1) [OF assms(3), of "closer obj" r] by (subst containerLoop.simps) simp

lemma loop_more:
  assumes "(if obj then map_option snd (scanKey s) else Some s) = Some t" "cmdConfigValue d t = Some (w @ CHR '','' # y)" "blanks w"
    "cmdConfigSkipWs y \<noteq> []" "containerLoop d obj (cmdConfigSkipWs y) = Some r"
  shows "containerLoop d obj s = Some r"
  using assms scanSep_of(2) [OF assms(3,4), of "closer obj"] by (subst containerLoop.simps) simp

lemma depth_step: "Suc n = CMD_CONFIG_MAX_DEPTH - d \<Longrightarrow> n = CMD_CONFIG_MAX_DEPTH - Suc d \<and> Suc d \<le> CMD_CONFIG_MAX_DEPTH"
  by arith

lemma scan_complete:
  "jval n v \<Longrightarrow> n = CMD_CONFIG_MAX_DEPTH - d \<Longrightarrow> d \<le> CMD_CONFIG_MAX_DEPTH \<Longrightarrow> blanks w \<Longrightarrow> numEnd r \<Longrightarrow> cmdConfigValue d (w @ v @ r) = Some r"
  "jmems n ms m \<Longrightarrow> n = CMD_CONFIG_MAX_DEPTH - d \<Longrightarrow> d \<le> CMD_CONFIG_MAX_DEPTH \<Longrightarrow> containerLoop d True (m @ CHR ''}'' # r) = Some r"
  "jelems n m \<Longrightarrow> n = CMD_CONFIG_MAX_DEPTH - d \<Longrightarrow> d \<le> CMD_CONFIG_MAX_DEPTH \<Longrightarrow> containerLoop d False (cmdConfigSkipWs (m @ CHR '']'' # r)) = Some r"
proof (induction arbitrary: d w r and d r and d r rule: jval_jmems_jelems.inducts)
  case (JScalar v n)
  have "hd v \<notin> {CHR ''{'', CHR ''[''}" "v \<noteq> []"
    using JScalar(1) jnumber_head [of v] unfolding jscalar_def by (auto simp: quoted_def isDigit_def)
  then show ?case using scalar_of [OF JScalar(1,5)] skipWs_jval [OF jval_jmems_jelems.JScalar [OF JScalar(1)]] JScalar(4)
    by (subst cmdConfigValue.simps) (cases v, auto simp: skipWs_blanks)
next
  case (JEmptyObj w' n)
  have "cmdConfigSkipWs (w' @ CHR ''}'' # r) = CHR ''}'' # r" using JEmptyObj by (simp add: skipWs_blanks skipWs_stop cmdConfigWs_def)
  then show ?case using value_container(1) [of n d w _ _ _ True] JEmptyObj by simp
next
  case (JObject w' n ms m)
  obtain t where t: "m = CHR 0x22 # t" using jmems_head JObject.hyps(2) by blast
  have "cmdConfigSkipWs (w' @ m @ CHR ''}'' # r) = CHR 0x22 # t @ CHR ''}'' # r"
    using JObject.hyps(1) skipWs_jmems [OF JObject.hyps(2)] t by (simp add: skipWs_blanks)
  moreover have "containerLoop (Suc d) True (m @ CHR ''}'' # r) = Some r" using JObject.IH depth_step [OF JObject.prems(1)] by blast
  ultimately show ?case using value_container(2) [of n d w _ _ _ True] JObject.prems t by simp
next
  case (JEmptyArr w' n)
  have "cmdConfigSkipWs (w' @ CHR '']'' # r) = CHR '']'' # r" using JEmptyArr by (simp add: skipWs_blanks skipWs_stop cmdConfigWs_def)
  then show ?case using value_container(1) [of n d w _ _ _ False] JEmptyArr by simp
next
  case (JArray n m)
  obtain x u where xu: "cmdConfigSkipWs (m @ CHR '']'' # r) = x # u" "x \<noteq> CHR '']''" using skipWs_jelems JArray.hyps by blast
  have "containerLoop (Suc d) False (cmdConfigSkipWs (m @ CHR '']'' # r)) = Some r" using JArray.IH depth_step [OF JArray.prems(1)] by blast
  then show ?case using value_container(2) [of n d w _ _ _ False] JArray.prems xu by simp
next
  case (JMem key k w1 w2 n v w3)
  have "cmdConfigValue d (w2 @ v @ w3 @ CHR ''}'' # r) = Some (w3 @ CHR ''}'' # r)"
    using JMem.IH [OF JMem.prems JMem.hyps(3) numEnd_sep [OF JMem.hyps(5)]] by simp
  then show ?case using loop_last [of True _ "w2 @ v @ w3 @ CHR ''}'' # r" d w3 r] scanKey_of [OF JMem.hyps(1,2)] JMem.hyps(5) by simp
next
  case (JMems key k w1 w2 n v w3 w4 ms m)
  let ?y = "w4 @ m @ CHR ''}'' # r"
  have "cmdConfigValue d (w2 @ v @ w3 @ CHR '','' # ?y) = Some (w3 @ CHR '','' # ?y)"
    using JMems.IH(1) [OF JMems.prems JMems.hyps(3) numEnd_sep [OF JMems.hyps(5)]] by simp
  moreover have "cmdConfigSkipWs ?y = m @ CHR ''}'' # r" using JMems.hyps(6) skipWs_jmems [OF JMems.hyps(7)] by (simp add: skipWs_blanks)
  moreover have "containerLoop d True (m @ CHR ''}'' # r) = Some r" using JMems.IH(2) [OF JMems.prems] .
  ultimately show ?case using loop_more [of True _ "w2 @ v @ w3 @ CHR '','' # ?y" d w3 ?y r] scanKey_of [OF JMems.hyps(1,2)] JMems.hyps(5) by simp
next
  case (JElem w1 n v w2)
  have "cmdConfigValue d ([] @ v @ w2 @ CHR '']'' # r) = Some (w2 @ CHR '']'' # r)"
    by (rule JElem.IH [OF JElem.prems _ numEnd_sep [OF JElem.hyps(3)]]) simp_all
  then show ?case using loop_last [of False "v @ w2 @ CHR '']'' # r" _ d w2 r] skipWs_jval [OF JElem.hyps(2)] JElem.hyps by (simp add: skipWs_blanks)
next
  case (JElems w1 n v w2 m)
  let ?y = "m @ CHR '']'' # r"
  have "cmdConfigValue d ([] @ v @ w2 @ CHR '','' # ?y) = Some (w2 @ CHR '','' # ?y)"
    by (rule JElems.IH(1) [OF JElems.prems _ numEnd_sep [OF JElems.hyps(3)]]) simp_all
  moreover have "cmdConfigSkipWs ?y \<noteq> []" using skipWs_jelems [OF JElems.hyps(4), of "CHR '']'' # r"] by auto
  moreover have "containerLoop d False (cmdConfigSkipWs ?y) = Some r" using JElems.IH(2) [OF JElems.prems] .
  ultimately show ?case using loop_more [of False "v @ w2 @ CHR '','' # ?y" _ d w2 ?y r] skipWs_jval [OF JElems.hyps(2)] JElems.hyps by (simp add: skipWs_blanks)
qed

section \<open>The two objects the scanner looks into\<close>

text \<open>Walking over members while watching one key: at most one occurrence, whose value gives the result.\<close>

fun memRun :: "string \<Rightarrow> (string \<Rightarrow> nat \<Rightarrow> bool) \<Rightarrow> bool \<Rightarrow> nat \<Rightarrow> (string \<times> string) list \<Rightarrow> nat \<Rightarrow> bool" where
  "memRun lit R saw acc [] f = (f = acc)"
| "memRun lit R saw acc ((k, v) # ms) f =
     (if k = lit then \<not> saw \<and> (\<exists>g. R v g \<and> memRun lit R True g ms f) else memRun lit R saw acc ms f)"

definition brokerStr :: "string \<Rightarrow> nat \<Rightarrow> bool" where
  "brokerStr v g \<longleftrightarrow> (\<exists>raw n. v = quoted raw \<and> rawLen raw = Some n \<and> g = (if 0 < n then 1 else 0))"

definition mqttText :: "string \<Rightarrow> nat \<Rightarrow> bool" where
  "mqttText v g \<longleftrightarrow> (\<exists>w. blanks w \<and> v = CHR ''{'' # w @ ''}'' \<and> g = 0) \<or>
     (\<exists>w bs bm. blanks w \<and> v = CHR ''{'' # w @ bm @ ''}'' \<and> jmems (CMD_CONFIG_MAX_DEPTH - 2) bs bm \<and> memRun ''broker'' brokerStr False 0 bs g)"

lemma memRun_saw: "memRun lit R True g ms f \<longleftrightarrow> f = g \<and> filter (\<lambda>e. fst e = lit) ms = []"
proof (induction ms)
  case (Cons e ms)
  obtain k v where e: "e = (k, v)" by (cases e)
  show ?case using Cons e by (cases "k = lit") simp_all
qed simp

lemma memRun_unique: "memRun lit R False 0 ms 1 \<longleftrightarrow> (\<exists>v. filter (\<lambda>e. fst e = lit) ms = [(lit, v)] \<and> R v 1)"
proof (induction ms)
  case (Cons e ms)
  obtain k v where e: "e = (k, v)" by (cases e)
  show ?case
  proof (cases "k = lit")
    case True
    then have "memRun lit R False 0 (e # ms) 1 \<longleftrightarrow> R v 1 \<and> filter (\<lambda>e. fst e = lit) ms = []" using e by (auto simp: memRun_saw)
    then show ?thesis using e True by simp blast
  qed (use Cons e in simp)
qed simp

lemma KeyIs_eq: "cmdConfigKeyIs key lit \<longleftrightarrow> key = lit"
  by (induction key lit rule: cmdConfigKeyIs.induct) auto

text \<open>A step over one member is the same in both loops: it consumes blanks and a value.\<close>

lemma skipWs_value: "cmdConfigString (cmdConfigSkipWs t) = Some (raw, n, u) \<longleftrightarrow> (\<exists>w. blanks w \<and> t = w @ quoted raw @ u) \<and> rawLen raw = Some n"
proof
  assume "cmdConfigString (cmdConfigSkipWs t) = Some (raw, n, u)"
  then show "(\<exists>w. blanks w \<and> t = w @ quoted raw @ u) \<and> rawLen raw = Some n"
    using skipWs_split [of t] by (auto simp: cmdConfigString_iff)
next
  assume "(\<exists>w. blanks w \<and> t = w @ quoted raw @ u) \<and> rawLen raw = Some n"
  then show "cmdConfigString (cmdConfigSkipWs t) = Some (raw, n, u)"
    by (auto simp: skipWs_blanks cmdConfigString_iff) (simp add: quoted_def skipWs_stop cmdConfigWs_def)
qed

lemma mqttMember_sound:
  assumes "mqttMember d saw found key t = Some (g, u)" "d \<le> CMD_CONFIG_MAX_DEPTH"
  shows "\<exists>w v. blanks w \<and> t = w @ v @ u \<and> jval (CMD_CONFIG_MAX_DEPTH - d) v \<and>
    (if key = ''broker'' then \<not> saw \<and> brokerStr v g else g = found)"
proof (cases "key = ''broker''")
  case True
  then obtain raw n where s: "cmdConfigString (cmdConfigSkipWs t) = Some (raw, n, u)" "\<not> saw" "g = (if 0 < n then 1 else 0)"
    using assms(1) by (auto simp: mqttMember_def KeyIs_eq split: if_splits option.splits)
  then obtain w where "blanks w" "t = w @ quoted raw @ u" "rawLen raw = Some n" unfolding skipWs_value by blast
  moreover have "jval (CMD_CONFIG_MAX_DEPTH - d) (quoted raw)" using calculation JScalar unfolding jscalar_def by blast
  ultimately show ?thesis using True s unfolding brokerStr_def by auto
next
  case False
  then have "cmdConfigValue d t = Some u" "g = found" using assms(1) by (auto simp: mqttMember_def KeyIs_eq)
  then show ?thesis using scan_sound(1) [OF _ assms(2)] False by fastforce
qed

lemma mqttMember_complete:
  assumes "blanks w" "jval (CMD_CONFIG_MAX_DEPTH - d) v" "d \<le> CMD_CONFIG_MAX_DEPTH" "numEnd u"
    "if key = ''broker'' then \<not> saw \<and> brokerStr v g else g = found"
  shows "mqttMember d saw found key (w @ v @ u) = Some (g, u)"
proof (cases "key = ''broker''")
  case True
  then obtain raw n where v: "v = quoted raw" "rawLen raw = Some n" "g = (if 0 < n then 1 else 0)" "\<not> saw"
    using assms(5) unfolding brokerStr_def by auto
  then have "cmdConfigString (cmdConfigSkipWs (w @ v @ u)) = Some (raw, n, u)" using skipWs_value assms(1) by blast
  then show ?thesis using True v by (simp add: mqttMember_def KeyIs_eq)
next
  case False
  then show ?thesis using assms scan_complete(1) [OF assms(2) refl assms(3,1,4)] by (simp add: mqttMember_def KeyIs_eq)
qed

lemma mqttLoop_sound:
  "mqttLoop d saw found s = Some (f, r) \<Longrightarrow> d \<le> CMD_CONFIG_MAX_DEPTH \<Longrightarrow>
   \<exists>bs bm. s = bm @ CHR ''}'' # r \<and> jmems (CMD_CONFIG_MAX_DEPTH - d) bs bm \<and> memRun ''broker'' brokerStr saw found bs f"
proof (induction d saw found s arbitrary: f r rule: mqttLoop.induct)
  case (1 d saw found s)
  obtain key t g u where a: "scanKey s = Some (key, t)" "mqttMember d saw found key t = Some (g, u)"
    using "1.prems"(1) by (subst (asm) mqttLoop.simps) (auto split: option.splits)
  obtain k w1 where k: "rawLen key = Some k" "blanks w1" "s = quoted key @ w1 @ CHR '':'' # t" using scanKey_split [OF a(1)] by blast
  obtain w2 v where v: "blanks w2" "t = w2 @ v @ u" "jval (CMD_CONFIG_MAX_DEPTH - d) v"
      "if key = ''broker'' then \<not> saw \<and> brokerStr v g else g = found" using mqttMember_sound [OF a(2) "1.prems"(2)] by blast
  consider (cl) "scanSep CHR ''}'' u = NextClosed r" "f = g"
    | (it) y where "scanSep CHR ''}'' u = NextItem y" "mqttLoop d (saw \<or> cmdConfigKeyIs key ''broker'') g y = Some (f, r)"
    using "1.prems" a by (subst (asm) mqttLoop.simps) (auto split: scanNext.splits)
  then show ?case
  proof cases
    case cl
    obtain w3 where w3: "blanks w3" "u = w3 @ CHR ''}'' # r" using scanSep_split(1) [OF cl(1)] by blast
    have "s = (quoted key @ w1 @ CHR '':'' # w2 @ v @ w3) @ CHR ''}'' # r" using k v w3 by simp
    then show ?thesis using JMem [OF k(1,2) v(1,3) w3(1)] v(4) cl(2) by (fastforce split: if_splits)
  next
    case it
    obtain w3 w4 where w3: "blanks w3" "blanks w4" "u = w3 @ CHR '','' # w4 @ y" using scanSep_split(2) [OF it(1)] by blast
    obtain bs bm where b: "y = bm @ CHR ''}'' # r" "jmems (CMD_CONFIG_MAX_DEPTH - d) bs bm"
        "memRun ''broker'' brokerStr (saw \<or> cmdConfigKeyIs key ''broker'') g bs f"
      using "1.IH" [OF a(1) refl a(2) refl it(1) it(2) "1.prems"(2)] by blast
    have "s = (quoted key @ w1 @ CHR '':'' # w2 @ v @ w3 @ CHR '','' # w4 @ bm) @ CHR ''}'' # r" using k v w3 b by simp
    moreover have "memRun ''broker'' brokerStr saw found ((key, v) # bs) f" using v(4) b(3) by (auto simp: KeyIs_eq split: if_splits)
    ultimately show ?thesis using JMems [OF k(1,2) v(1,3) w3(1,2) b(2)] by blast
  qed
qed

lemma mqttLoop_complete:
  "jmems n bs bm \<Longrightarrow> n = CMD_CONFIG_MAX_DEPTH - d \<Longrightarrow> d \<le> CMD_CONFIG_MAX_DEPTH \<Longrightarrow> memRun ''broker'' brokerStr saw found bs f \<Longrightarrow>
   mqttLoop d saw found (bm @ CHR ''}'' # r) = Some (f, r)"
proof (induction bs arbitrary: bm saw found)
  case (Cons e bs)
  obtain key v where e: "e = (key, v)" by (cases e)
  have run: "\<exists>g. (if key = ''broker'' then \<not> saw \<and> brokerStr v g else g = found) \<and> memRun ''broker'' brokerStr (saw \<or> key = ''broker'') g bs f"
    using Cons.prems(4) e by (auto split: if_splits)
  then obtain g where g: "if key = ''broker'' then \<not> saw \<and> brokerStr v g else g = found" "memRun ''broker'' brokerStr (saw \<or> key = ''broker'') g bs f" by blast
  from Cons.prems(1) show ?case unfolding e
  proof (cases rule: jmems.cases)
    case (JMem k w1 w2 w3)
    have "mqttMember d saw found key (w2 @ v @ w3 @ CHR ''}'' # r) = Some (g, w3 @ CHR ''}'' # r)"
      using mqttMember_complete [OF _ _ Cons.prems(3) numEnd_sep g(1)] JMem Cons.prems(2) by simp
    moreover have "f = g" using g(2) JMem by simp
    ultimately show ?thesis using JMem scanKey_of [of key k w1] scanSep_of(1) [of w3 "CHR ''}''" r] by (subst mqttLoop.simps) simp
  next
    case (JMems k w1 w2 w3 w4 m)
    let ?y = "w4 @ m @ CHR ''}'' # r"
    have "mqttMember d saw found key (w2 @ v @ w3 @ CHR '','' # ?y) = Some (g, w3 @ CHR '','' # ?y)"
      using mqttMember_complete [OF _ _ Cons.prems(3) numEnd_sep g(1)] JMems Cons.prems(2) by simp
    moreover have sk: "cmdConfigSkipWs ?y = m @ CHR ''}'' # r" using JMems skipWs_jmems by (simp add: skipWs_blanks)
    moreover have "mqttLoop d (saw \<or> key = ''broker'') g (m @ CHR ''}'' # r) = Some (f, r)"
      using Cons.IH [OF _ Cons.prems(2,3) g(2)] JMems by blast
    ultimately show ?thesis using JMems scanKey_of [of key k w1] scanSep_of(2) [of w3 ?y "CHR ''}''"]
      by (subst mqttLoop.simps) (simp add: KeyIs_eq)
  qed
qed (auto elim: jmems.cases)

lemma mqttObject_iff: "cmdConfigMqttObject 1 t = Some (g, u) \<longleftrightarrow> (\<exists>m. t = m @ CHR ''}'' # u \<and> mqttText (CHR ''{'' # m @ ''}'') g)"
proof
  assume a: "cmdConfigMqttObject 1 t = Some (g, u)"
  then obtain c v where cv: "cmdConfigSkipWs t = c # v" by (auto simp: cmdConfigMqttObject_def split: if_splits list.splits)
  obtain w where w: "blanks w" "t = w @ c # v" using skipWs_split [of t] cv by auto
  show "\<exists>m. t = m @ CHR ''}'' # u \<and> mqttText (CHR ''{'' # m @ ''}'') g"
  proof (cases "c = CHR ''}''")
    case True
    then show ?thesis using a cv w by (auto simp: cmdConfigMqttObject_def mqttText_def split: if_splits)
  next
    case False
    then have "mqttLoop 2 False 0 (c # v) = Some (g, u)" using a cv by (auto simp: cmdConfigMqttObject_def numeral_2_eq_2 split: if_splits)
    then obtain bs bm where b: "c # v = bm @ CHR ''}'' # u" "jmems (CMD_CONFIG_MAX_DEPTH - 2) bs bm" "memRun ''broker'' brokerStr False 0 bs g"
      using mqttLoop_sound by (fastforce simp: CMD_CONFIG_MAX_DEPTH_def)
    then have "t = (w @ bm) @ CHR ''}'' # u" "mqttText (CHR ''{'' # (w @ bm) @ ''}'') g" using w unfolding mqttText_def by auto
    then show ?thesis by blast
  qed
next
  assume "\<exists>m. t = m @ CHR ''}'' # u \<and> mqttText (CHR ''{'' # m @ ''}'') g"
  then consider (e) w where "blanks w" "t = w @ CHR ''}'' # u" "g = 0"
    | (m) w bs bm where "blanks w" "t = w @ bm @ CHR ''}'' # u" "jmems (CMD_CONFIG_MAX_DEPTH - 2) bs bm" "memRun ''broker'' brokerStr False 0 bs g"
    unfolding mqttText_def by auto
  then show "cmdConfigMqttObject 1 t = Some (g, u)"
  proof cases
    case e
    then show ?thesis by (simp add: cmdConfigMqttObject_def CMD_CONFIG_MAX_DEPTH_def skipWs_blanks skipWs_stop cmdConfigWs_def)
  next
    case m
    obtain x where x: "bm = CHR 0x22 # x" using jmems_head m(3) by blast
    have "mqttLoop 2 False 0 (bm @ CHR ''}'' # u) = Some (g, u)" using mqttLoop_complete [OF m(3) refl _ m(4)] by (simp add: CMD_CONFIG_MAX_DEPTH_def)
    then show ?thesis using m x by (simp add: cmdConfigMqttObject_def CMD_CONFIG_MAX_DEPTH_def skipWs_blanks skipWs_stop cmdConfigWs_def numeral_2_eq_2)
  qed
qed

lemma mqttText_jval: "mqttText v g \<Longrightarrow> jval (CMD_CONFIG_MAX_DEPTH - 1) v"
proof -
  assume "mqttText v g"
  moreover have "CMD_CONFIG_MAX_DEPTH - 1 = Suc (CMD_CONFIG_MAX_DEPTH - 2)" by (simp add: CMD_CONFIG_MAX_DEPTH_def)
  ultimately show ?thesis unfolding mqttText_def by (auto intro: JEmptyObj JObject)
qed

lemma mqttText_brace: "mqttText v g \<Longrightarrow> \<exists>m. v = CHR ''{'' # m @ ''}''"
  unfolding mqttText_def by (metis append.assoc)

lemma topMember_sound:
  assumes "topMember saw b key t = Some (g, u)"
  shows "\<exists>w v. blanks w \<and> t = w @ v @ u \<and> jval (CMD_CONFIG_MAX_DEPTH - 1) v \<and> (if key = ''mqtt'' then \<not> saw \<and> mqttText v g else g = b)"
proof (cases "key = ''mqtt''")
  case True
  then obtain x where x: "cmdConfigSkipWs t = CHR ''{'' # x" "cmdConfigMqttObject 1 x = Some (g, u)" "\<not> saw"
    using assms by (auto simp: topMember_def KeyIs_eq split: if_splits list.splits)
  obtain m where m: "x = m @ CHR ''}'' # u" "mqttText (CHR ''{'' # m @ ''}'') g" using x(2) unfolding mqttObject_iff by blast
  obtain w where w: "blanks w" "t = w @ CHR ''{'' # x" using skipWs_split [of t] x(1) by auto
  have "t = w @ (CHR ''{'' # m @ ''}'') @ u" using w m by simp
  then show ?thesis using w(1) m(2) mqttText_jval [OF m(2)] True x(3) by metis
next
  case False
  then have "cmdConfigValue 1 t = Some u" "g = b" using assms by (auto simp: topMember_def KeyIs_eq)
  then show ?thesis using scan_sound(1) [of 1 t u] False by (fastforce simp: CMD_CONFIG_MAX_DEPTH_def)
qed

lemma topMember_complete:
  assumes "blanks w" "jval (CMD_CONFIG_MAX_DEPTH - 1) v" "numEnd u" "if key = ''mqtt'' then \<not> saw \<and> mqttText v g else g = b"
  shows "topMember saw b key (w @ v @ u) = Some (g, u)"
proof (cases "key = ''mqtt''")
  case True
  then have v: "mqttText v g" "\<not> saw" using assms(4) by auto
  then obtain m where m: "v = CHR ''{'' # m @ ''}''" using mqttText_brace by blast
  then have "cmdConfigMqttObject 1 (m @ CHR ''}'' # u) = Some (g, u)" using v unfolding mqttObject_iff by blast
  then show ?thesis using True v(2) m assms(1) by (simp add: topMember_def KeyIs_eq skipWs_blanks skipWs_stop cmdConfigWs_def)
next
  case False
  then show ?thesis using assms scan_complete(1) [OF assms(2) refl _ assms(1,3)] by (simp add: topMember_def KeyIs_eq CMD_CONFIG_MAX_DEPTH_def)
qed

lemma skipWs_end: "cmdConfigSkipWs r = [] \<longleftrightarrow> blanks r"
  by (simp add: cmdConfigSkipWs_def list_all_iff dropWhile_eq_Nil_conv)

lemma topLoop_sound:
  "topLoop saw b s = Some f \<Longrightarrow>
   \<exists>ms m w. s = m @ CHR ''}'' # w \<and> blanks w \<and> jmems (CMD_CONFIG_MAX_DEPTH - 1) ms m \<and> memRun ''mqtt'' mqttText saw b ms f"
proof (induction saw b s arbitrary: f rule: topLoop.induct)
  case (1 saw b s)
  obtain key t g u where a: "scanKey s = Some (key, t)" "topMember saw b key t = Some (g, u)"
    using "1.prems"(1) by (subst (asm) topLoop.simps) (auto split: option.splits)
  obtain k w1 where k: "rawLen key = Some k" "blanks w1" "s = quoted key @ w1 @ CHR '':'' # t" using scanKey_split [OF a(1)] by blast
  obtain w2 v where v: "blanks w2" "t = w2 @ v @ u" "jval (CMD_CONFIG_MAX_DEPTH - 1) v"
      "if key = ''mqtt'' then \<not> saw \<and> mqttText v g else g = b" using topMember_sound [OF a(2)] by blast
  consider (cl) r where "scanSep CHR ''}'' u = NextClosed r" "blanks r" "f = g"
    | (it) y where "scanSep CHR ''}'' u = NextItem y" "topLoop (saw \<or> cmdConfigKeyIs key ''mqtt'') g y = Some f"
    using "1.prems" a by (subst (asm) topLoop.simps) (auto simp: skipWs_end split: scanNext.splits if_splits)
  then show ?case
  proof cases
    case cl
    obtain w3 where w3: "blanks w3" "u = w3 @ CHR ''}'' # r" using scanSep_split(1) [OF cl(1)] by blast
    have "s = (quoted key @ w1 @ CHR '':'' # w2 @ v @ w3) @ CHR ''}'' # r" using k v w3 by simp
    moreover have "memRun ''mqtt'' mqttText saw b [(key, v)] f" using v(4) cl(3) by (auto split: if_splits)
    ultimately show ?thesis using JMem [OF k(1,2) v(1,3) w3(1)] cl(2) by blast
  next
    case it
    obtain w3 w4 where w3: "blanks w3" "blanks w4" "u = w3 @ CHR '','' # w4 @ y" using scanSep_split(2) [OF it(1)] by blast
    obtain ms m w where b: "y = m @ CHR ''}'' # w" "blanks w" "jmems (CMD_CONFIG_MAX_DEPTH - 1) ms m"
        "memRun ''mqtt'' mqttText (saw \<or> cmdConfigKeyIs key ''mqtt'') g ms f"
      using "1.IH" [OF a(1) refl a(2) refl it(1) it(2)] by blast
    have "s = (quoted key @ w1 @ CHR '':'' # w2 @ v @ w3 @ CHR '','' # w4 @ m) @ CHR ''}'' # w" using k v w3 b by simp
    moreover have "memRun ''mqtt'' mqttText saw b ((key, v) # ms) f" using v(4) b(4) by (auto simp: KeyIs_eq split: if_splits)
    ultimately show ?thesis using JMems [OF k(1,2) v(1,3) w3(1,2) b(3)] b(2) by blast
  qed
qed

lemma topLoop_complete:
  "jmems n ms m \<Longrightarrow> n = CMD_CONFIG_MAX_DEPTH - 1 \<Longrightarrow> blanks w \<Longrightarrow> memRun ''mqtt'' mqttText saw b ms f \<Longrightarrow> topLoop saw b (m @ CHR ''}'' # w) = Some f"
proof (induction ms arbitrary: m saw b)
  case (Cons e ms)
  obtain key v where e: "e = (key, v)" by (cases e)
  have "\<exists>g. (if key = ''mqtt'' then \<not> saw \<and> mqttText v g else g = b) \<and> memRun ''mqtt'' mqttText (saw \<or> key = ''mqtt'') g ms f"
    using Cons.prems(4) e by (auto split: if_splits)
  then obtain g where g: "if key = ''mqtt'' then \<not> saw \<and> mqttText v g else g = b" "memRun ''mqtt'' mqttText (saw \<or> key = ''mqtt'') g ms f" by blast
  from Cons.prems(1) show ?case unfolding e
  proof (cases rule: jmems.cases)
    case (JMem k w1 w2 w3)
    have "topMember saw b key (w2 @ v @ w3 @ CHR ''}'' # w) = Some (g, w3 @ CHR ''}'' # w)"
      using topMember_complete [OF _ _ numEnd_sep g(1)] JMem Cons.prems(2) by simp
    moreover have "f = g" using g(2) JMem by simp
    ultimately show ?thesis using JMem scanKey_of [of key k w1] scanSep_of(1) [of w3 "CHR ''}''" w] Cons.prems(3)
      by (subst topLoop.simps) (simp add: skipWs_end)
  next
    case (JMems k w1 w2 w3 w4 m')
    let ?y = "w4 @ m' @ CHR ''}'' # w"
    have "topMember saw b key (w2 @ v @ w3 @ CHR '','' # ?y) = Some (g, w3 @ CHR '','' # ?y)"
      using topMember_complete [OF _ _ numEnd_sep g(1)] JMems Cons.prems(2) by simp
    moreover have "cmdConfigSkipWs ?y = m' @ CHR ''}'' # w" using JMems skipWs_jmems by (simp add: skipWs_blanks)
    moreover have "topLoop (saw \<or> key = ''mqtt'') g (m' @ CHR ''}'' # w) = Some f"
      using Cons.IH [OF _ Cons.prems(2,3) g(2)] JMems by blast
    ultimately show ?thesis using JMems scanKey_of [of key k w1] scanSep_of(2) [of w3 ?y "CHR ''}''"]
      by (subst topLoop.simps) (simp add: KeyIs_eq)
  qed
qed (auto elim: jmems.cases)

text \<open>A document that may be staged: one object, with exactly one \<open>mqtt\<close> member, an object with exactly one
  \<open>broker\<close> member, a string that is not empty.\<close>

definition configText :: "string \<Rightarrow> bool" where
  "configText s \<longleftrightarrow> (\<exists>w1 w2 ms m w3 w bs bm raw n.
     blanks w1 \<and> blanks w2 \<and> blanks w3 \<and> s = w1 @ CHR ''{'' # w2 @ m @ CHR ''}'' # w3 \<and>
     jmems (CMD_CONFIG_MAX_DEPTH - 1) ms m \<and> filter (\<lambda>e. fst e = ''mqtt'') ms = [(''mqtt'', CHR ''{'' # w @ bm @ ''}'')] \<and>
     blanks w \<and> jmems (CMD_CONFIG_MAX_DEPTH - 2) bs bm \<and> filter (\<lambda>e. fst e = ''broker'') bs = [(''broker'', quoted raw)] \<and>
     rawLen raw = Some n \<and> 0 < n)"

lemma brokerStr_1: "brokerStr v 1 \<longleftrightarrow> (\<exists>raw n. v = quoted raw \<and> rawLen raw = Some n \<and> 0 < n)"
  unfolding brokerStr_def by (metis zero_neq_one)

lemma mqttText_1: "mqttText v 1 \<longleftrightarrow> (\<exists>w bs bm raw n. blanks w \<and> v = CHR ''{'' # w @ bm @ ''}'' \<and> jmems (CMD_CONFIG_MAX_DEPTH - 2) bs bm \<and>
    filter (\<lambda>e. fst e = ''broker'') bs = [(''broker'', quoted raw)] \<and> rawLen raw = Some n \<and> 0 < n)"
  unfolding mqttText_def memRun_unique brokerStr_1 by (simp only: zero_neq_one [symmetric] simp_thms) blast

lemma memRun_bit: "memRun ''mqtt'' mqttText False 0 ms f \<Longrightarrow> f \<le> 1"
proof -
  have b: "memRun ''broker'' brokerStr saw a bs f \<Longrightarrow> a \<le> 1 \<Longrightarrow> f \<le> 1" for saw a bs f
    by (induction bs arbitrary: saw a) (auto simp: brokerStr_def split: if_splits)
  have "memRun ''mqtt'' mqttText saw a ms f \<Longrightarrow> a \<le> 1 \<Longrightarrow> f \<le> 1" for saw a
    using b [of False 0] by (induction ms arbitrary: saw a) (auto simp: mqttText_def split: if_splits)
  then show "memRun ''mqtt'' mqttText False 0 ms f \<Longrightarrow> f \<le> 1" by blast
qed

lemma scanBroker_iff: "(\<exists>f. cmdConfigScanBroker s = Some f \<and> f \<noteq> 0) \<longleftrightarrow> configText s"
proof
  assume "\<exists>f. cmdConfigScanBroker s = Some f \<and> f \<noteq> 0"
  then obtain f where a: "cmdConfigScanBroker s = Some f \<and> f \<noteq> 0" by blast
  then obtain t where t: "cmdConfigSkipWs s = CHR ''{'' # t" by (auto simp: cmdConfigScanBroker_def split: list.splits if_splits)
  moreover obtain e u where e: "cmdConfigSkipWs t = e # u" "topLoop False 0 (e # u) = Some f"
    using a t by (auto simp: cmdConfigScanBroker_def split: list.splits if_splits)
  obtain w1 w2 where w: "blanks w1" "s = w1 @ CHR ''{'' # t" "blanks w2" "t = w2 @ e # u"
    using skipWs_split [of s] skipWs_split [of t] t e(1) by auto
  obtain ms m w3 where m: "e # u = m @ CHR ''}'' # w3" "blanks w3" "jmems (CMD_CONFIG_MAX_DEPTH - 1) ms m" "memRun ''mqtt'' mqttText False 0 ms f"
    using topLoop_sound [OF e(2)] by blast
  have "f = 1" using memRun_bit [OF m(4)] a by linarith
  then obtain v where "filter (\<lambda>e. fst e = ''mqtt'') ms = [(''mqtt'', v)]" "mqttText v 1" using m(4) memRun_unique by metis
  moreover have "s = w1 @ CHR ''{'' # w2 @ m @ CHR ''}'' # w3" using w m(1) by simp
  ultimately show "configText s" unfolding configText_def mqttText_1 using w(1,3) m(2,3) by blast
next
  assume "configText s"
  then obtain w1 w2 ms m w3 v where p: "blanks w1" "blanks w2" "blanks w3" "s = w1 @ CHR ''{'' # w2 @ m @ CHR ''}'' # w3"
      "jmems (CMD_CONFIG_MAX_DEPTH - 1) ms m" "filter (\<lambda>e. fst e = ''mqtt'') ms = [(''mqtt'', v)]" "mqttText v 1"
    unfolding configText_def mqttText_1 by blast
  obtain x where x: "m = CHR 0x22 # x" using jmems_head p(5) by blast
  have "memRun ''mqtt'' mqttText False 0 ms 1" using p(6,7) memRun_unique by metis
  then have "topLoop False 0 (m @ CHR ''}'' # w3) = Some 1" using topLoop_complete [OF p(5) refl p(3)] by blast
  then have "cmdConfigScanBroker s = Some 1" using p x by (simp add: cmdConfigScanBroker_def skipWs_blanks skipWs_stop cmdConfigWs_def)
  then show "\<exists>f. cmdConfigScanBroker s = Some f \<and> f \<noteq> 0" by auto
qed

lemma cmdConfigInbound_busy: "cmdConfigInbound tls payload (Some b) = Some b"
  by (simp add: cmdConfigInbound_def)

text \<open>C23: The gate in front of a pushed configuration. A payload is accepted exactly when it came over a
  verified TLS session, is shorter than 4096 bytes and is the text of one JSON object nested at most
  eight deep, blanks around it aside, that has exactly one \<open>mqtt\<close> member, itself an object with exactly one
  \<open>broker\<close> member whose value is a non-empty string. The scan ends on every payload.\<close>

theorem cmdConfigVerdict_grammar:
  "cmdConfigVerdict tls (Some s) = CMD_CONFIG_OK \<longleftrightarrow> tls \<and> length s < CMD_CONFIG_MAX \<and> configText s"
proof -
  have "configText s \<Longrightarrow> s \<noteq> []" by (auto simp: configText_def)
  then show ?thesis using scanBroker_iff [of s]
    by (cases "cmdConfigScanBroker s") (auto simp: cmdConfigVerdict_def)
qed

end
