(* ===== verification/Config_Doc.thy ===== *)
theory Config_Doc
  imports Fs_Store Mqtt_Topics Cmd_Config
begin

text \<open>
  The configuration document, \<open>Config.cpp\<close>: loading and saving \<open>/config.json\<close>, replacing it with a pushed
  document, and holding the topic prefix the device booted with while another one waits on disk.

  The JSON library is outside the source. Its reader and writer are parameters: \<open>parse\<close> gives whether a
  text is accepted and the document it leaves (arbitrary when it is not accepted), \<open>pr pretty\<close> the text
  it writes for a document. Member access follows the library's documented rules: writing a member
  of a null value makes it an object, writing one of a value that is not an object does nothing.
\<close>

section \<open>Definitions\<close>

subsection \<open>Documents\<close>

text \<open>\<open>JFloat\<close> is a number that is not an integer, as its text.\<close>

datatype json = JNull | JBool bool | JNum int | JFloat string | JStr string | JArr "json list" | JObj "(string \<times> json) list"

fun jget :: "json \<Rightarrow> string \<Rightarrow> json option" where
  "jget (JObj m) k = map_of m k"
| "jget _ k = None"

fun memPut :: "string \<Rightarrow> json \<Rightarrow> (string \<times> json) list \<Rightarrow> (string \<times> json) list" where
  "memPut k v [] = [(k, v)]"
| "memPut k v ((k', v') # m) = (if k' = k then (k, v) # m else (k', v') # memPut k v m)"

fun jput :: "string \<Rightarrow> json \<Rightarrow> json \<Rightarrow> json" where
  "jput k v JNull = JObj [(k, v)]"
| "jput k v (JObj m) = JObj (memPut k v m)"
| "jput k v j = j"

fun jremove :: "string \<Rightarrow> json \<Rightarrow> json" where
  "jremove k (JObj m) = JObj (filter (\<lambda>e. fst e \<noteq> k) m)"
| "jremove k j = j"

definition docPrefix :: "json \<Rightarrow> json option" where
  "docPrefix d = Option.bind (jget d ''mqtt'') (\<lambda>m. jget m ''topic_prefix'')"

definition livePrefix :: "json \<Rightarrow> string" where
  "livePrefix d = (case docPrefix d of Some (JStr s) \<Rightarrow> s | _ \<Rightarrow> '''')"

definition isStr :: "json option \<Rightarrow> bool" where
  "isStr v = (case v of Some (JStr s) \<Rightarrow> True | _ \<Rightarrow> False)"

definition isObj :: "json \<Rightarrow> bool" where
  "isObj j = (case j of JObj m \<Rightarrow> True | _ \<Rightarrow> False)"

definition setPrefix :: "string \<Rightarrow> json \<Rightarrow> json" where
  "setPrefix s d = jput ''mqtt'' (jput ''topic_prefix'' (JStr s) (case jget d ''mqtt'' of None \<Rightarrow> JNull | Some m \<Rightarrow> m)) d"

definition dropPrefix :: "json \<Rightarrow> json" where
  "dropPrefix d = (case jget d ''mqtt'' of Some (JObj m) \<Rightarrow> jput ''mqtt'' (jremove ''topic_prefix'' (JObj m)) d | _ \<Rightarrow> d)"

subsection \<open>State and operations\<close>

definition TOPIC_PREFIX_CAP :: nat where "TOPIC_PREFIX_CAP = 128"

record config =
  doc :: json                     \<comment> \<open>\<open>_doc\<close>\<close>
  diskTopicPrefix :: string       \<comment> \<open>\<open>_diskTopicPrefix\<close>\<close>
  diskTopicPrefixPresent :: bool
  topicPrefixHeld :: bool
  revision :: u32
  cdisk :: disk

definition clearHeldTopicPrefix :: "config \<Rightarrow> config" where
  "clearHeldTopicPrefix c = c\<lparr>topicPrefixHeld := False, diskTopicPrefixPresent := False, diskTopicPrefix := ''''\<rparr>"

text \<open>The revision; the change hooks run after it and belong to other components.\<close>

definition configChanged :: "config \<Rightarrow> config" where
  "configChanged c = c\<lparr>revision := revision c + 1\<rparr>"

definition fsRead :: "string \<Rightarrow> disk \<Rightarrow> string option \<times> disk" where
  "fsRead p d = (let (f, d1) = nextFault d in (if f = NoFault then files d1 p else None, d1))"

definition cfgLoad :: "(string \<Rightarrow> bool \<times> json) \<Rightarrow> config \<Rightarrow> config" where
  "cfgLoad parse c =
     (let c1 = clearHeldTopicPrefix c; (b, d1) = nextFault (cdisk c1)
      in configChanged
           (if b \<noteq> NoFault then c1\<lparr>cdisk := d1\<rparr>
            else let (f, d2) = fsRead ''/config.json'' d1
                 in case f of None \<Rightarrow> c1\<lparr>cdisk := d2\<rparr>
                    | Some s \<Rightarrow> c1\<lparr>cdisk := d2, doc := (if fst (parse s) then snd (parse s) else JNull)\<rparr>))"

definition cfgWriteFile :: "(bool \<Rightarrow> json \<Rightarrow> string) \<Rightarrow> json \<Rightarrow> bool \<Rightarrow> disk \<Rightarrow> nat option \<times> disk" where
  "cfgWriteFile pr src pretty d =
     (let (w, d1) = fsWrite ''/config.json.tmp'' (pr pretty src) d
      in case w of None \<Rightarrow> (None, d1)
         | Some written \<Rightarrow>
             (let (onDisk, d2) = fsSize ''/config.json.tmp'' d1
              in if \<not> configWriteLanded written onDisk (length (pr pretty src))
                 then (None, snd (fsRemove ''/config.json.tmp'' d2))
                 else let (ok, d3) = lfsRename ''/config.json.tmp'' ''/config.json'' d2
                      in if ok then (Some onDisk, d3) else (None, snd (fsRemove ''/config.json.tmp'' d3))))"

text \<open>The document \<open>save\<close> hands to the writer: the live one with the prefix that belongs on disk.\<close>

definition diskView :: "config \<Rightarrow> json" where
  "diskView c =
     (if \<not> topicPrefixHeld c then doc c
      else if diskTopicPrefixPresent c then setPrefix (diskTopicPrefix c) (doc c) else dropPrefix (doc c))"

definition cfgSave :: "(bool \<Rightarrow> json \<Rightarrow> string) \<Rightarrow> config \<Rightarrow> bool \<times> config" where
  "cfgSave pr c =
     (let live = livePrefix (doc c)
      in if topicPrefixHeld c \<and> TOPIC_PREFIX_CAP \<le> length live then (False, c)
         else let (r, d) = cfgWriteFile pr (diskView c) False (cdisk c)
              in (r \<noteq> None, c\<lparr>cdisk := d, doc := (if topicPrefixHeld c then setPrefix live (diskView c) else doc c)\<rparr>))"

definition holdTopicPrefix :: "cstr \<Rightarrow> config \<Rightarrow> bool \<times> config" where
  "holdTopicPrefix pre c =
     (case pre of None \<Rightarrow> (False, c)
      | Some p \<Rightarrow>
          let v = docPrefix (doc c)
          in if v \<noteq> None \<and> \<not> isStr v then (False, c)
             else let disk = livePrefix (doc c); present = isStr v
                  in if TOPIC_PREFIX_CAP \<le> length disk \<or> TOPIC_PREFIX_CAP \<le> length p then (False, c)
                     else (True, c\<lparr>diskTopicPrefix := (if present then disk else ''''), diskTopicPrefixPresent := present,
                                   topicPrefixHeld := True, doc := setPrefix p (doc c)\<rparr>))"

definition copyBootTopicPrefix :: "nat \<Rightarrow> config \<Rightarrow> string option" where
  "copyBootTopicPrefix cap c =
     (if cap = 0 \<or> \<not> topicPrefixHeld c then None
      else if cap \<le> length (livePrefix (doc c)) then None else Some (livePrefix (doc c)))"

text \<open>The common tail of the two failing paths of \<open>replace\<close>: reload, and hold the boot prefix again.\<close>

definition rollBack :: "(string \<Rightarrow> bool \<times> json) \<Rightarrow> string option \<Rightarrow> config \<Rightarrow> config" where
  "rollBack parse boot c =
     (let c1 = cfgLoad parse c in case boot of None \<Rightarrow> c1 | Some p \<Rightarrow> snd (holdTopicPrefix (Some p) c1))"

definition cfgReplace :: "(string \<Rightarrow> bool \<times> json) \<Rightarrow> (bool \<Rightarrow> json \<Rightarrow> string) \<Rightarrow> string \<Rightarrow> config \<Rightarrow> bool \<times> config" where
  "cfgReplace parse pr text' c =
     (let boot = copyBootTopicPrefix TOPIC_PREFIX_CAP c
      in if topicPrefixHeld c \<and> boot = None then (False, c)
         else let c1 = (clearHeldTopicPrefix c)\<lparr>doc := snd (parse text')\<rparr>
              in if \<not> fst (parse text') then (False, rollBack parse boot c1)
                 else let (ok, c2) = cfgSave pr c1
                      in if \<not> ok then (False, rollBack parse boot c2) else (True, configChanged c2))"

definition copyDiskDoc :: "(string \<Rightarrow> bool \<times> json) \<Rightarrow> (bool \<Rightarrow> json \<Rightarrow> string) \<Rightarrow> config \<Rightarrow> json option" where
  "copyDiskDoc parse pr c =
     (let s = pr False (doc c); (ok, d) = parse s
      in if s = [] \<or> \<not> ok then None
         else case d of
                JObj m \<Rightarrow> Some (if \<not> topicPrefixHeld c then d
                               else if diskTopicPrefixPresent c then setPrefix (diskTopicPrefix c) d else dropPrefix d)
              | _ \<Rightarrow> None)"

subsection \<open>A pushed document\<close>

definition strMember :: "json option \<Rightarrow> string \<Rightarrow> string \<Rightarrow> string" where
  "strMember m k dflt = (case Option.bind m (\<lambda>j. jget j k) of Some (JStr s) \<Rightarrow> s | _ \<Rightarrow> dflt)"

text \<open>A number outside the range of \<open>int\<close> is not one, and the default is used.\<close>

definition intMember :: "json option \<Rightarrow> string \<Rightarrow> int \<Rightarrow> int" where
  "intMember m k dflt =
     (case Option.bind m (\<lambda>j. jget j k) of Some (JNum n) \<Rightarrow> if - (2 ^ 31) \<le> n \<and> n < 2 ^ 31 then n else dflt | _ \<Rightarrow> dflt)"

text \<open>The connection settings as \<open>mqttCriticalJson\<close> serialises them into \<open>LG_MAX_LEN\<close> bytes; \<open>ser\<close> is the
  JSON writer on the four values.\<close>

definition criticalText :: "(string \<Rightarrow> int \<Rightarrow> string \<Rightarrow> string \<Rightarrow> string) \<Rightarrow> json \<Rightarrow> string option" where
  "criticalText ser d =
     (let m = jget d ''mqtt'';
          s = ser (strMember m ''broker'' '''') (intMember m ''port'' 0) (strMember m ''user'' '''') (strMember m ''password'' '''')
      in if 0 < length s \<and> length s < 384 then Some s else None)"

definition DEFAULT_PREFIX :: string where "DEFAULT_PREFIX = ''thesada/node''"

datatype pushResult = PushRefused string | PushReinit | PushApplied

definition topicPrefixOr :: "json \<Rightarrow> string" where
  "topicPrefixOr d = strMember (jget d ''mqtt'') ''topic_prefix'' DEFAULT_PREFIX"

text \<open>The checks before anything is replaced: the reason of the first that fails.\<close>

definition pushRefusal :: "bool \<Rightarrow> json \<Rightarrow> json \<Rightarrow> string option" where
  "pushRefusal ok d live =
     (let broker = strMember (jget d ''mqtt'') ''broker'' ''''; incomingVar = docPrefix d
      in if \<not> ok \<or> \<not> isObj d then Some ''json''
         else if broker = [] then Some ''broker''
         else if \<not> mqttHostFits (Some broker) MQTT_BROKER_HOST_CAP then Some ''broker_too_long''
         else if incomingVar \<noteq> None \<and> \<not> isStr incomingVar then Some ''prefix_type''
         else if TOPIC_PREFIX_CAP \<le> length (topicPrefixOr live) \<or>
                 TOPIC_PREFIX_CAP \<le> length (topicPrefixOr d) + length ''/cmd/config'' then Some ''prefix_length''
         else None)"

definition mqttApplyCmdConfig :: "(string \<Rightarrow> bool \<times> json) \<Rightarrow> (bool \<Rightarrow> json \<Rightarrow> string) \<Rightarrow>
    (string \<Rightarrow> int \<Rightarrow> string \<Rightarrow> string \<Rightarrow> string) \<Rightarrow> string \<Rightarrow> config \<Rightarrow> pushResult \<times> config" where
  "mqttApplyCmdConfig parse pr ser body c =
     (case pushRefusal (fst (parse body)) (snd (parse body)) (doc c) of Some why \<Rightarrow> (PushRefused why, c)
      | None \<Rightarrow>
         let prefixLive = topicPrefixOr (doc c); before = criticalText ser (doc c); (stored, c1) = cfgReplace parse pr body c
         in if \<not> stored then (PushRefused ''persist'', c1)
            else let c2 = (if prefixLive \<noteq> topicPrefixOr (doc c1) then snd (holdTopicPrefix (Some prefixLive) c1) else c1);
                     after = criticalText ser (doc c2)
                 in if before = None \<or> after = None then (PushReinit, c2)
                    else if before \<noteq> after then (PushReinit, c2) else (PushApplied, c2))"

section \<open>Members\<close>

lemma map_of_memPut: "map_of (memPut k v m) = (map_of m)(k := Some v)"
  by (induction k v m rule: memPut.induct) auto

lemma jget_jput:
  "jget (jput k v j) k' = (if (j = JNull \<or> (\<exists>m. j = JObj m)) \<and> k' = k then Some v else jget j k')"
  by (cases j) (auto simp: map_of_memPut)

lemma map_of_filter_key: "map_of (filter (\<lambda>e. fst e \<noteq> k) m) k' = (if k' = k then None else map_of m k')"
  by (induction m) auto

lemma jget_jremove: "jget (jremove k (JObj m)) k' = (if k' = k then None else map_of m k')"
  by (simp add: map_of_filter_key)

text \<open>A document whose \<open>mqtt\<close> member can take a prefix.\<close>

definition mqttObj :: "json \<Rightarrow> bool" where
  "mqttObj d = (\<exists>m m'. d = JObj m \<and> map_of m ''mqtt'' = Some (JObj m'))"

lemma docPrefix_setPrefix: "mqttObj d \<Longrightarrow> docPrefix (setPrefix s d) = Some (JStr s)"
  by (auto simp: mqttObj_def docPrefix_def setPrefix_def map_of_memPut)

lemma docPrefix_dropPrefix: "mqttObj d \<Longrightarrow> docPrefix (dropPrefix d) = None"
  by (auto simp: mqttObj_def docPrefix_def dropPrefix_def map_of_memPut map_of_filter_key)

lemma mqttObj_kept: "mqttObj d \<Longrightarrow> mqttObj (setPrefix s d)" "mqttObj d \<Longrightarrow> mqttObj (dropPrefix d)"
  by (auto simp: mqttObj_def setPrefix_def dropPrefix_def map_of_memPut)

text \<open>The value at a path of keys, and that the prefix operations leave every other path alone.\<close>

fun jat :: "json \<Rightarrow> string list \<Rightarrow> json option" where
  "jat j [] = Some j"
| "jat j (k # ks) = Option.bind (jget j k) (\<lambda>v. jat v ks)"

definition offPrefix :: "string list \<Rightarrow> bool" where
  "offPrefix ks \<longleftrightarrow> ks \<noteq> [] \<and> ks \<noteq> [''mqtt''] \<and> take 2 ks \<noteq> [''mqtt'', ''topic_prefix'']"

lemma jat_other:
  assumes "mqttObj d" "offPrefix ks"
  shows "jat (setPrefix s d) ks = jat d ks" "jat (dropPrefix d) ks = jat d ks"
proof -
  obtain k ks' where ks: "ks = k # ks'" using assms(2) by (cases ks) (auto simp: offPrefix_def)
  have "k = ''mqtt'' \<Longrightarrow> \<exists>k2 r. ks' = k2 # r \<and> k2 \<noteq> ''topic_prefix''" using assms(2) ks by (cases ks') (auto simp: offPrefix_def)
  then show "jat (setPrefix s d) ks = jat d ks" "jat (dropPrefix d) ks = jat d ks"
    using assms(1) ks by (auto simp: mqttObj_def setPrefix_def dropPrefix_def map_of_memPut map_of_filter_key)
qed

section \<open>The file is always whole\<close>

lemma cfgWriteFile_safe:
  assumes "cfgWriteFile pr src pretty d = (r, d')"
  shows "(case r of Some n \<Rightarrow> n = length (pr pretty src) \<and> files d' ''/config.json'' = Some (pr pretty src)
          | None \<Rightarrow> files d' ''/config.json'' = files d ''/config.json'')"
proof -
  let ?t = "''/config.json.tmp''" let ?p = "''/config.json''" let ?s = "pr pretty src"
  obtain w d1 where wr: "fsWrite ?t ?s d = (w, d1)" by fastforce
  obtain got d2 where sz: "fsSize ?t d1 = (got, d2)" by fastforce
  have keep: "files d1 ?p = files d ?p" using stage_untouched [of ?t "''x''" ?p, OF _ wr] by simp
  have d2: "files d2 = files d1" using fsSize_result(1) [of ?t d1] sz by simp
  show ?thesis
  proof (cases "\<exists>n. w = Some n \<and> configWriteLanded n got (length ?s)")
    case False
    then have "r = None" "files d' ?p = files d1 ?p"
      using assms wr sz d2 by (auto simp: cfgWriteFile_def fs_results split: option.splits)
    then show ?thesis using keep by simp
  next
    case True
    then have whole: "got = length ?s" "files d2 = (files d)(?t := Some ?s)"
      using landed_whole wr sz unfolding configWriteLanded_def by blast+
    then show ?thesis using assms wr sz True
      by (auto simp: cfgWriteFile_def fs_results case_prod_unfold Let_def split: if_splits)
  qed
qed

lemma cfgSave_file:
  assumes "cfgSave pr c = (ok, c')"
  shows "files (cdisk c') ''/config.json'' = (if ok then Some (pr False (diskView c)) else files (cdisk c) ''/config.json'')"
proof (cases "topicPrefixHeld c \<and> TOPIC_PREFIX_CAP \<le> length (livePrefix (doc c))")
  case True
  then show ?thesis using assms by (auto simp: cfgSave_def)
next
  case False
  obtain r d where w: "cfgWriteFile pr (diskView c) False (cdisk c) = (r, d)" by fastforce
  then have "ok = (r \<noteq> None)" "cdisk c' = d" using assms False by (auto simp: cfgSave_def)
  then show ?thesis using cfgWriteFile_safe [OF w] by (auto split: option.splits)
qed

lemma cfgLoad_file: "files (cdisk (cfgLoad parse c)) = files (cdisk c)"
  by (auto simp: cfgLoad_def fsRead_def configChanged_def clearHeldTopicPrefix_def case_prod_unfold Let_def split: option.splits)

lemma hold_disk: "cdisk (snd (holdTopicPrefix p c)) = cdisk c"
  by (auto simp: holdTopicPrefix_def Let_def split: option.splits)

lemma rollBack_file: "files (cdisk (rollBack parse boot c)) = files (cdisk c)"
  by (auto simp: rollBack_def Let_def hold_disk cfgLoad_file split: option.splits)

lemma cfgReplace_ok:
  assumes "cfgReplace parse pr body c = (True, c')"
  shows "fst (parse body) \<and> files (cdisk c') ''/config.json'' = Some (pr False (snd (parse body))) \<and>
         doc c' = snd (parse body) \<and> \<not> topicPrefixHeld c'"
proof -
  let ?c1 = "(clearHeldTopicPrefix c)\<lparr>doc := snd (parse body)\<rparr>"
  obtain ok c2 where s: "cfgSave pr ?c1 = (ok, c2)" by fastforce
  have "fst (parse body)" "ok" "c' = configChanged c2"
    using assms s by (auto simp: cfgReplace_def Let_def split: if_splits)
  moreover have "doc c2 = snd (parse body)" "\<not> topicPrefixHeld c2"
    using s by (auto simp: cfgSave_def clearHeldTopicPrefix_def Let_def split: if_splits prod.splits)
  ultimately show ?thesis using cfgSave_file [OF s]
    by (auto simp: configChanged_def diskView_def clearHeldTopicPrefix_def)
qed

lemma cfgReplace_refused:
  assumes "cfgReplace parse pr body c = (False, c')"
  shows "files (cdisk c') ''/config.json'' = files (cdisk c) ''/config.json''"
proof -
  let ?c1 = "(clearHeldTopicPrefix c)\<lparr>doc := snd (parse body)\<rparr>"
  obtain ok c2 where s: "cfgSave pr ?c1 = (ok, c2)" by fastforce
  show ?thesis using assms s cfgSave_file [OF s]
    by (auto simp: cfgReplace_def Let_def rollBack_file clearHeldTopicPrefix_def split: if_splits)
qed

text \<open>What changes the file: saves, replacements and direct writes, between edits of the live document,
  reloads and holds. The run collects the texts whose write was reported as done.\<close>

datatype cfgOp = OpLoad | OpSave | OpReplace string | OpHold cstr | OpEdit json | OpWrite json bool

fun cfgStep :: "(string \<Rightarrow> bool \<times> json) \<Rightarrow> (bool \<Rightarrow> json \<Rightarrow> string) \<Rightarrow> cfgOp \<Rightarrow> config \<Rightarrow> string list \<times> config" where
  "cfgStep parse pr OpLoad c = ([], cfgLoad parse c)"
| "cfgStep parse pr OpSave c = (let (ok, c1) = cfgSave pr c in (if ok then [pr False (diskView c)] else [], c1))"
| "cfgStep parse pr (OpReplace b) c = (let (ok, c1) = cfgReplace parse pr b c in (if ok then [pr False (snd (parse b))] else [], c1))"
| "cfgStep parse pr (OpHold p) c = ([], snd (holdTopicPrefix p c))"
| "cfgStep parse pr (OpEdit j) c = ([], configChanged (c\<lparr>doc := j\<rparr>))"
| "cfgStep parse pr (OpWrite j pretty) c =
     (let (r, d) = cfgWriteFile pr j pretty (cdisk c) in (if r \<noteq> None then [pr pretty j] else [], c\<lparr>cdisk := d\<rparr>))"

fun cfgRun :: "(string \<Rightarrow> bool \<times> json) \<Rightarrow> (bool \<Rightarrow> json \<Rightarrow> string) \<Rightarrow> cfgOp list \<Rightarrow> config \<Rightarrow> string list \<times> config" where
  "cfgRun parse pr [] c = ([], c)"
| "cfgRun parse pr (x # xs) c = (let (a, c1) = cfgStep parse pr x c; (b, c2) = cfgRun parse pr xs c1 in (a @ b, c2))"

lemma cfgStep_file:
  "files (cdisk (snd (cfgStep parse pr x c))) ''/config.json'' =
     (case fst (cfgStep parse pr x c) of [] \<Rightarrow> files (cdisk c) ''/config.json'' | s # _ \<Rightarrow> Some s)"
proof (cases x)
  case OpSave
  obtain ok c1 where "cfgSave pr c = (ok, c1)" by fastforce
  then show ?thesis using OpSave cfgSave_file by fastforce
next
  case (OpReplace b)
  obtain ok c1 where r: "cfgReplace parse pr b c = (ok, c1)" by fastforce
  then show ?thesis using OpReplace cfgReplace_ok cfgReplace_refused by (cases ok) fastforce+
next
  case (OpWrite j pretty)
  obtain r d where w: "cfgWriteFile pr j pretty (cdisk c) = (r, d)" by fastforce
  then show ?thesis using OpWrite cfgWriteFile_safe [OF w] by (auto split: option.splits)
qed (simp_all add: cfgLoad_file hold_disk configChanged_def)

lemma cfgStep_one: "length (fst (cfgStep parse pr x c)) \<le> 1"
  by (cases x) (auto simp: case_prod_unfold Let_def)

text \<open>C21: The configuration file. After any sequence of loads, saves, pushed replacements, direct writes and
  edits, and whatever file operations fail or fall short, \<open>/config.json\<close> holds exactly the complete text of
  the last write that reported success, or what it held at the start if none did.\<close>

theorem config_file_whole:
  "files (cdisk (snd (cfgRun parse pr ops c))) ''/config.json'' =
     (if fst (cfgRun parse pr ops c) = [] then files (cdisk c) ''/config.json'' else Some (last (fst (cfgRun parse pr ops c))))"
proof (induction ops arbitrary: c)
  case (Cons x xs)
  let ?a = "fst (cfgStep parse pr x c)" let ?c1 = "snd (cfgStep parse pr x c)"
  have "length ?a \<le> 1" by (rule cfgStep_one)
  then have "?a = [] \<or> (\<exists>s. ?a = [s])" by (cases ?a) auto
  then show ?case using Cons.IH [of ?c1] cfgStep_file [of parse pr x c] by (auto simp: case_prod_unfold Let_def)
qed simp

section \<open>The held prefix\<close>

definition holdOk :: "string \<Rightarrow> config \<Rightarrow> bool" where
  "holdOk p c \<longleftrightarrow> topicPrefixHeld c \<and> mqttObj (doc c) \<and> docPrefix (doc c) = Some (JStr p) \<and> length p < TOPIC_PREFIX_CAP"

lemma hold_establishes:
  assumes "mqttObj (doc c)" "docPrefix (doc c) = None \<or> isStr (docPrefix (doc c))" "length (livePrefix (doc c)) < TOPIC_PREFIX_CAP" "length p < TOPIC_PREFIX_CAP"
  shows "holdOk p (snd (holdTopicPrefix (Some p) c)) \<and>
         docPrefix (diskView (snd (holdTopicPrefix (Some p) c))) = docPrefix (doc c)"
proof -
  have "isStr (docPrefix (doc c)) \<Longrightarrow> docPrefix (doc c) = Some (JStr (livePrefix (doc c)))"
    by (auto simp: isStr_def livePrefix_def split: option.splits json.splits)
  then show ?thesis using assms
    by (auto simp: holdTopicPrefix_def Let_def holdOk_def diskView_def docPrefix_setPrefix docPrefix_dropPrefix mqttObj_kept)
qed

text \<open>Saving under a hold writes the prefix that waits on disk and leaves the live document as it was.\<close>

lemma save_under_hold:
  assumes "holdOk p c" "cfgSave pr c = (ok, c')"
  shows "holdOk p c' \<and> (offPrefix ks \<longrightarrow> jat (doc c') ks = jat (doc c) ks \<and> jat (diskView c) ks = jat (doc c) ks) \<and>
         docPrefix (diskView c) = (if diskTopicPrefixPresent c then Some (JStr (diskTopicPrefix c)) else None)"
proof -
  have h: "topicPrefixHeld c" "mqttObj (doc c)" "livePrefix (doc c) = p" "length p < TOPIC_PREFIX_CAP"
    using assms(1) by (auto simp: holdOk_def livePrefix_def)
  have dv: "mqttObj (diskView c)" using h mqttObj_kept by (auto simp: diskView_def)
  have c': "doc c' = setPrefix p (diskView c)" "topicPrefixHeld c'"
    using assms(2) h by (auto simp: cfgSave_def Let_def split: prod.splits)
  have "offPrefix ks \<Longrightarrow> jat (diskView c) ks = jat (doc c) ks" using h jat_other by (simp add: diskView_def)
  moreover have "docPrefix (diskView c) = (if diskTopicPrefixPresent c then Some (JStr (diskTopicPrefix c)) else None)"
    using h docPrefix_setPrefix docPrefix_dropPrefix by (auto simp: diskView_def)
  ultimately show ?thesis using c' h dv jat_other(1) [OF dv] docPrefix_setPrefix [OF dv] mqttObj_kept(1) [OF dv]
    by (auto simp: holdOk_def)
qed

section \<open>A pushed document keeps the live prefix\<close>

text \<open>What the push handler has checked once it applies a push.\<close>

lemma push_accepted:
  assumes "mqttApplyCmdConfig parse pr ser body c = (r, c')" "\<forall>why. r \<noteq> PushRefused why"
  obtains c1 where "pushRefusal (fst (parse body)) (snd (parse body)) (doc c) = None" "cfgReplace parse pr body c = (True, c1)"
    "c' = (if topicPrefixOr (doc c) \<noteq> topicPrefixOr (doc c1) then snd (holdTopicPrefix (Some (topicPrefixOr (doc c))) c1) else c1)"
proof -
  obtain ok1 c1 where c1: "cfgReplace parse pr body c = (ok1, c1)" by fastforce
  show ?thesis using assms that [of c1] unfolding mqttApplyCmdConfig_def Let_def c1
    by (auto split: if_splits option.splits)
qed

lemma pushRefusal_None:
  assumes "pushRefusal ok d live = None"
  shows "ok" "isObj d" "strMember (jget d ''mqtt'') ''broker'' '''' \<noteq> ''''" "docPrefix d = None \<or> isStr (docPrefix d)"
    "length (topicPrefixOr live) < TOPIC_PREFIX_CAP" "length (topicPrefixOr d) < TOPIC_PREFIX_CAP"
  using assms unfolding pushRefusal_def Let_def by (auto split: if_splits)

lemma broker_mqttObj:
  assumes "isObj d" "strMember (jget d ''mqtt'') ''broker'' '''' \<noteq> ''''"
  shows "mqttObj d"
proof -
  obtain m where m: "d = JObj m" using assms(1) by (cases d) (auto simp: isObj_def)
  then obtain v where v: "map_of m ''mqtt'' = Some v" using assms(2) by (cases "map_of m ''mqtt''") (auto simp: strMember_def)
  then have "\<exists>m'. v = JObj m'" using assms(2) m by (cases v) (auto simp: strMember_def)
  then show ?thesis using m v by (auto simp: mqttObj_def)
qed

lemma prefix_member: "topicPrefixOr d = (case docPrefix d of Some (JStr p) \<Rightarrow> p | _ \<Rightarrow> DEFAULT_PREFIX)"
  by (simp add: topicPrefixOr_def strMember_def docPrefix_def)

text \<open>C20: A pushed configuration. A push is applied only if it is a JSON object with a broker name that fits
  and a usable prefix; then the file holds the complete pushed document, yet the topic prefix in use
  stays what it was before (the hold cannot fail), every other setting takes effect, and a later save
  still writes the pushed prefix. A refused push leaves the file untouched.\<close>

theorem push_config:
  assumes "mqttApplyCmdConfig parse pr ser body c = (r, c')"
  shows "case r of
      PushRefused why \<Rightarrow> files (cdisk c') ''/config.json'' = files (cdisk c) ''/config.json''
    | _ \<Rightarrow> (let d = snd (parse body) in
          fst (parse body) \<and> isObj d \<and> strMember (jget d ''mqtt'') ''broker'' '''' \<noteq> '''' \<and>
          files (cdisk c') ''/config.json'' = Some (pr False d) \<and>
          topicPrefixOr (doc c') = topicPrefixOr (doc c) \<and>
          (offPrefix ks \<longrightarrow> jat (doc c') ks = jat d ks) \<and>
          docPrefix (diskView c') = docPrefix d)"
proof (cases "\<exists>why. r = PushRefused why")
  case True
  obtain ok1 c1 where c1: "cfgReplace parse pr body c = (ok1, c1)" by fastforce
  have "c' = c \<or> (\<not> ok1 \<and> c' = c1)"
    using assms True c1 by (auto simp: mqttApplyCmdConfig_def Let_def split: if_splits option.splits)
  then show ?thesis using True cfgReplace_refused c1 by (cases ok1) auto
next
  case False
  then obtain c1 where acc: "pushRefusal (fst (parse body)) (snd (parse body)) (doc c) = None" and rep: "cfgReplace parse pr body c = (True, c1)"
    and c': "c' = (if topicPrefixOr (doc c) \<noteq> topicPrefixOr (doc c1) then snd (holdTopicPrefix (Some (topicPrefixOr (doc c))) c1) else c1)"
    using push_accepted [OF assms] by metis
  let ?live = "topicPrefixOr (doc c)" let ?d = "snd (parse body)"
  note p = pushRefusal_None [OF acc]
  have c1: "files (cdisk c1) ''/config.json'' = Some (pr False ?d)" "doc c1 = ?d" "\<not> topicPrefixHeld c1"
    using cfgReplace_ok [OF rep] by auto
  have m: "mqttObj ?d" using broker_mqttObj p(2,3) by blast
  have "length (livePrefix ?d) < TOPIC_PREFIX_CAP"
    using p(6) by (auto simp: prefix_member livePrefix_def TOPIC_PREFIX_CAP_def split: option.splits json.splits)
  then have h: "holdOk ?live (snd (holdTopicPrefix (Some ?live) c1))" "docPrefix (diskView (snd (holdTopicPrefix (Some ?live) c1))) = docPrefix ?d"
    using hold_establishes [of c1 ?live] m p(4,5) c1(2) by auto
  have "files (cdisk c') ''/config.json'' = Some (pr False ?d)" using c' c1(1) hold_disk by simp
  moreover have "topicPrefixOr (doc c') = ?live"
    using c' h(1) unfolding holdOk_def by (auto simp: prefix_member split: if_splits)
  moreover have "offPrefix ks \<Longrightarrow> jat (doc c') ks = jat ?d ks"
    using c' c1(2) jat_other(1) [OF m] by (auto simp: holdTopicPrefix_def Let_def split: if_splits)
  moreover have "docPrefix (diskView c') = docPrefix ?d"
    using c' h(2) c1 by (auto simp: diskView_def)
  ultimately show ?thesis using False p by (cases r) (auto simp: Let_def)
qed

definition sampleDoc :: "string \<Rightarrow> json" where
  "sampleDoc p = JObj [(''mqtt'', JObj [(''broker'', JStr ''b''), (''topic_prefix'', JStr p)])]"

theorem push_config_witness:
  "let parse = \<lambda>s. (True, sampleDoc ''new''); pr = \<lambda>b j. ''T''; ser = \<lambda>b p u w. b;
       c = \<lparr>doc = sampleDoc ''old'', diskTopicPrefix = '''', diskTopicPrefixPresent = False, topicPrefixHeld = False, revision = 0, cdisk = \<lparr>files = Map.empty, faults = []\<rparr>\<rparr>;
       c' = snd (mqttApplyCmdConfig parse pr ser ''x'' c)
   in files (cdisk c') ''/config.json'' = Some ''T'' \<and> topicPrefixOr (doc c') = ''old'' \<and> docPrefix (diskView c') = Some (JStr ''new'')"
proof -
  let ?parse = "\<lambda>s :: string. (True, sampleDoc ''new'')" let ?pr = "\<lambda>(b :: bool) (j :: json). ''T''"
  let ?ser = "\<lambda>(b :: string) (p :: int) (u :: string) (w :: string). b"
  let ?c = "\<lparr>doc = sampleDoc ''old'', diskTopicPrefix = '''', diskTopicPrefixPresent = False, topicPrefixHeld = False, revision = 0, cdisk = \<lparr>files = Map.empty, faults = []\<rparr>\<rparr>"
  have none: "pushRefusal True (sampleDoc ''new'') (sampleDoc ''old'') = None"
    by (simp add: pushRefusal_def sampleDoc_def strMember_def docPrefix_def isStr_def isObj_def topicPrefixOr_def mqttHostFits_def c_strnlen_def
        MQTT_BROKER_HOST_CAP_def TOPIC_PREFIX_CAP_def)
  have stored: "fst (cfgReplace ?parse ?pr ''x'' ?c)"
    by (simp add: cfgReplace_def copyBootTopicPrefix_def clearHeldTopicPrefix_def cfgSave_def diskView_def cfgWriteFile_def fsWrite_def fsSize_def
        lfsRename_def nextFault_def configWriteLanded_def fileWriteLanded_def)
  obtain r c' where run: "mqttApplyCmdConfig ?parse ?pr ?ser ''x'' ?c = (r, c')" by fastforce
  have "\<forall>why. r \<noteq> PushRefused why" using run none stored by (auto simp: mqttApplyCmdConfig_def Let_def case_prod_unfold split: if_splits)
  moreover have "topicPrefixOr (sampleDoc ''old'') = ''old''" "docPrefix (sampleDoc ''new'') = Some (JStr ''new'')"
    by (simp_all add: topicPrefixOr_def strMember_def sampleDoc_def docPrefix_def)
  ultimately show ?thesis using push_config [OF run] run by (cases r) (auto simp: Let_def)
qed

text \<open>A push the reader rejects is rolled back from the file. With no readable file there is nothing to
  roll back to, and what the reader left behind stays live.\<close>

lemma replace_without_file:
  assumes "parse body = (False, junk)" "files (cdisk c) ''/config.json'' = None" "\<not> topicPrefixHeld c"
  shows "\<exists>c'. cfgReplace parse pr body c = (False, c') \<and> doc c' = junk"
  using assms
  by (auto simp: cfgReplace_def copyBootTopicPrefix_def rollBack_def cfgLoad_def fsRead_def clearHeldTopicPrefix_def configChanged_def
      Let_def case_prod_unfold split: option.splits)

end
