(* ===== verification/Enroll_Policy.thy ===== *)
theory Enroll_Policy
  imports Fw_Prelude
begin

text \<open>
  Identity and first-boot enrollment: \<open>device_identity_policy.h\<close> (hex encoding and the device id),
  \<open>enroll_policy.h\<close> (request building, reply checks, back-off and the step function), \<open>ap_policy.h\<close> and
  \<open>setup_portal_policy.h\<close> (when the fallback access point and its page may exist). A builder that fills a
  buffer returns the text it leaves there, None when it refuses.
\<close>

section \<open>Definitions\<close>

subsection \<open>Identity\<close>

definition IDENTITY_ID_PREFIX :: string where "IDENTITY_ID_PREFIX = ''thesada-''"
definition IDENTITY_MAC_LEN :: nat where "IDENTITY_MAC_LEN = 6"
definition IDENTITY_ID_HEX_LEN :: nat where "IDENTITY_ID_HEX_LEN = IDENTITY_MAC_LEN * 2"
definition IDENTITY_ID_CAP :: nat where "IDENTITY_ID_CAP = length IDENTITY_ID_PREFIX + 1 + IDENTITY_ID_HEX_LEN"
definition IDENTITY_PUBKEY_LEN :: nat where "IDENTITY_PUBKEY_LEN = 32"

definition kHex :: "nat \<Rightarrow> char" where
  "kHex n = ''0123456789abcdef'' ! n"

definition hexByte :: "u8 \<Rightarrow> string" where
  "hexByte b = [kHex (unat (drop_bit 4 b AND 15)), kHex (unat (b AND 15))]"

definition identityHexEncode :: "u8 list option \<Rightarrow> nat \<Rightarrow> string option" where
  "identityHexEncode buf cap =
     (case buf of None \<Rightarrow> None
      | Some bs \<Rightarrow> if cap = 0 then None else if length bs > (cap - 1) div 2 then None else Some (concat (map hexByte bs)))"

definition identityDeviceIdFromMac :: "u8 list option \<Rightarrow> nat \<Rightarrow> string option" where
  "identityDeviceIdFromMac mac cap =
     (if mac = None \<or> cap < IDENTITY_ID_CAP then None
      else map_option (\<lambda>h. IDENTITY_ID_PREFIX @ h)
             (identityHexEncode (map_option (take IDENTITY_MAC_LEN) mac) (cap - length IDENTITY_ID_PREFIX)))"

definition identityDeviceIdValid :: "cstr \<Rightarrow> bool" where
  "identityDeviceIdValid id' =
     (case id' of None \<Rightarrow> False
      | Some s \<Rightarrow> if \<not> strncmp0 s IDENTITY_ID_PREFIX (length IDENTITY_ID_PREFIX) then False
                  else let h = drop (length IDENTITY_ID_PREFIX) s
                       in if \<not> list_all isHexLower h then False else length h = IDENTITY_ID_HEX_LEN)"

definition identityBrokerNameUsable :: "cstr \<Rightarrow> bool" where
  "identityBrokerNameUsable deviceId = (case deviceId of None \<Rightarrow> False | Some s \<Rightarrow> s \<noteq> [])"

definition identityKeyMaterialPresent :: "u8 list option \<Rightarrow> bool" where
  "identityKeyMaterialPresent key = (case key of None \<Rightarrow> False | Some bs \<Rightarrow> list_ex (\<lambda>b. b \<noteq> 0) bs)"

subsection \<open>Access point and setup page\<close>

definition AP_PASS_MIN_LEN :: nat where "AP_PASS_MIN_LEN = 8"
definition AP_PASS_PLACEHOLDER :: string where "AP_PASS_PLACEHOLDER = ''changeme''"

definition apPasswordUsable :: "cstr \<Rightarrow> bool" where
  "apPasswordUsable pass =
     (case pass of None \<Rightarrow> False
      | Some p \<Rightarrow> if p = [] then False else if p = AP_PASS_PLACEHOLDER then False else AP_PASS_MIN_LEN \<le> length p)"

definition apPasswordState :: "cstr \<Rightarrow> string" where
  "apPasswordState pass =
     (case pass of None \<Rightarrow> ''absent''
      | Some p \<Rightarrow> if p = [] then ''absent'' else if p = AP_PASS_PLACEHOLDER then ''default''
                  else if length p < AP_PASS_MIN_LEN then ''too-short'' else ''set'')"

definition apMayStart :: "cstr \<Rightarrow> bool" where
  "apMayStart pass = apPasswordUsable pass"

definition apSsidFor :: "nat \<Rightarrow> cstr \<Rightarrow> cstr \<Rightarrow> string option" where
  "apSsidFor cap deviceId fallbackName =
     (if cap = 0 then None
      else case (if deviceId \<noteq> None \<and> deviceId \<noteq> Some '''' then deviceId else fallbackName) of None \<Rightarrow> None
           | Some base \<Rightarrow> if base = [] then None
                         else if cap \<le> length base + length ''-setup'' then None else Some (base @ ''-setup''))"

definition setupPortalOpen :: "bool \<Rightarrow> nat \<Rightarrow> bool \<Rightarrow> bool" where
  "setupPortalOpen apActive stationNetworks holdingResult \<longleftrightarrow> apActive \<and> (stationNetworks = 0 \<or> holdingResult)"

definition setupSsidUsable :: "cstr \<Rightarrow> bool" where
  "setupSsidUsable ssid =
     (case ssid of None \<Rightarrow> False
      | Some s \<Rightarrow> if s = [] then False
                  else if list_ex (\<lambda>c. ccode c < 0x20 \<or> ccode c = 0x7F) s then False else length s \<le> 32)"

definition setupPassUsable :: "cstr \<Rightarrow> bool" where
  "setupPassUsable pass =
     (case pass of None \<Rightarrow> False
      | Some s \<Rightarrow> if list_ex (\<lambda>c. ccode c < 0x20 \<or> 0x7F \<le> ccode c) s then False else 8 \<le> length s \<and> length s \<le> 63)"

subsection \<open>Requests\<close>

definition ENROLL_CLAIM_CODE_LEN :: nat where "ENROLL_CLAIM_CODE_LEN = 8"
definition ENROLL_URL_CAP :: nat where "ENROLL_URL_CAP = 128"
definition ENROLL_CHALLENGE_HEX_LEN :: nat where "ENROLL_CHALLENGE_HEX_LEN = 64"
definition ENROLL_SIG_HEX_LEN :: nat where "ENROLL_SIG_HEX_LEN = 128"
definition ENROLL_PATH :: string where "ENROLL_PATH = ''/api/v1/devices/enroll''"
definition ENROLL_HOST_CAP :: nat where "ENROLL_HOST_CAP = 96"

text \<open>\<open>snprintf\<close> into a buffer whose truncation is a refusal.\<close>

definition whole :: "nat \<Rightarrow> string \<Rightarrow> string option" where
  "whole cap s = (if cap \<le> length s then None else Some s)"

definition enrollHexLen :: "cstr \<Rightarrow> int" where
  "enrollHexLen s = (case s of None \<Rightarrow> -1 | Some x \<Rightarrow> if list_all isHexLower x then int (length x) else -1)"

definition enrollHexValid :: "cstr \<Rightarrow> nat \<Rightarrow> bool" where
  "enrollHexValid s len \<longleftrightarrow> enrollHexLen s = int len"

definition enrollClaimCodeValid :: "cstr \<Rightarrow> bool" where
  "enrollClaimCodeValid code =
     (case code of None \<Rightarrow> False | Some c \<Rightarrow> if \<not> list_all isDigit c then False else length c = ENROLL_CLAIM_CODE_LEN)"

definition enrollUrlUsable :: "cstr \<Rightarrow> bool" where
  "enrollUrlUsable url =
     (case url of None \<Rightarrow> False
      | Some u \<Rightarrow>
          if \<not> strncmp0 u ''https://'' 8 then False
          else if ENROLL_URL_CAP \<le> length u then False
          else let host = drop 8 u
               in if host = [] \<or> hd host = CHR ''/'' \<or> hd host = CHR '':'' then False
                  else \<not> list_ex (\<lambda>c. ccode c \<le> 0x20 \<or> 0x7F \<le> ccode c \<or> c = CHR ''?'' \<or> c = CHR ''#'' \<or> c = CHR ''@'') u)"

definition enrollBase :: "string \<Rightarrow> string" where
  "enrollBase base = rev (dropWhile (\<lambda>c. c = CHR ''/'') (rev base))"

definition enrollBaseLen :: "cstr \<Rightarrow> nat" where
  "enrollBaseLen base = (case base of None \<Rightarrow> 0 | Some b \<Rightarrow> length (enrollBase b))"

definition enrollEndpoint :: "cstr \<Rightarrow> cstr \<Rightarrow> nat \<Rightarrow> string option" where
  "enrollEndpoint base suf cap =
     (if cap = 0 \<or> suf = None \<or> \<not> enrollUrlUsable base then None
      else whole cap (take (enrollBaseLen base) (the base) @ ENROLL_PATH @ the suf))"

definition enrollClaimLink :: "nat \<Rightarrow> cstr \<Rightarrow> cstr \<Rightarrow> cstr \<Rightarrow> string option" where
  "enrollClaimLink cap base deviceId code =
     (if cap = 0 \<or> \<not> enrollUrlUsable base \<or> \<not> identityDeviceIdValid deviceId \<or> \<not> enrollClaimCodeValid code then None
      else whole cap (take (enrollBaseLen base) (the base) @ ''/devices/claim?device_id='' @ the deviceId @ ''&code='' @ the code))"

definition jq :: "string \<Rightarrow> string" where
  "jq s = CHR 0x22 # s @ [CHR 0x22]"

definition enrollBody :: "nat \<Rightarrow> cstr \<Rightarrow> cstr \<Rightarrow> cstr \<Rightarrow> cstr \<Rightarrow> string option" where
  "enrollBody cap deviceId pubkeyHex key value =
     (if cap = 0 \<or> \<not> identityDeviceIdValid deviceId \<or> \<not> enrollHexValid pubkeyHex (IDENTITY_PUBKEY_LEN * 2) \<or> key = None \<or> value = None then None
      else if \<not> (key = Some ''claim_token'' \<and> enrollClaimCodeValid value \<or> key = Some ''signature'' \<and> enrollHexValid value ENROLL_SIG_HEX_LEN) then None
      else whole cap (''{'' @ jq ''device_id'' @ '':'' @ jq (the deviceId) @ '','' @ jq ''pubkey'' @ '':'' @ jq (the pubkeyHex) @ '','' @
                      jq (the key) @ '':'' @ jq (the value) @ ''}''))"

definition enrollHostUsable :: "cstr \<Rightarrow> bool" where
  "enrollHostUsable host =
     (case host of None \<Rightarrow> False
      | Some h \<Rightarrow> if h = [] \<or> hd h = CHR ''.'' \<or> hd h = CHR ''-'' then False
                  else if \<not> list_all (\<lambda>c. isLower c \<or> isUpper c \<or> isDigit c \<or> c = CHR ''.'' \<or> c = CHR ''-'') h then False
                  else length h < ENROLL_HOST_CAP)"

definition enrollPrefixUsable :: "cstr \<Rightarrow> nat \<Rightarrow> bool" where
  "enrollPrefixUsable pre prefixCap =
     (case pre of None \<Rightarrow> False
      | Some p \<Rightarrow> if p = [] \<or> hd p = CHR ''/'' then False
                  else if list_ex (\<lambda>c. ccode c \<le> 0x20 \<or> 0x7F \<le> ccode c \<or> c = CHR ''+'' \<or> c = CHR ''#'') p then False
                  else if last p = CHR ''/'' then False
                  else length p + length ''/cmd/config'' < prefixCap)"

definition enrollReplyUsable :: "cstr \<Rightarrow> cstr \<Rightarrow> cstr \<Rightarrow> int \<Rightarrow> cstr \<Rightarrow> nat \<Rightarrow> bool" where
  "enrollReplyUsable ourId replyId host port pre prefixCap =
     (if ourId = None \<or> replyId = None \<or> ourId \<noteq> replyId then False
      else if port < 1 \<or> 65535 < port then False
      else enrollHostUsable host \<and> enrollPrefixUsable pre prefixCap)"

definition setupFormUsable :: "cstr \<Rightarrow> cstr \<Rightarrow> cstr \<Rightarrow> bool" where
  "setupFormUsable ssid pass url \<longleftrightarrow> setupSsidUsable ssid \<and> setupPassUsable pass \<and> enrollUrlUsable url"

subsection \<open>Revocation status\<close>

definition ENROLL_STATUS_SUFFIX :: string where "ENROLL_STATUS_SUFFIX = ''/status''"
definition ENROLL_STATUS_DOMAIN :: string where "ENROLL_STATUS_DOMAIN = ''thesada-enroll-status''"
definition ENROLL_SERIAL_HEX_CAP :: nat where "ENROLL_SERIAL_HEX_CAP = 41"
definition ENROLL_STATUS_FIRST_MS :: u32 where "ENROLL_STATUS_FIRST_MS = 300000"
definition ENROLL_STATUS_EVERY_MS :: u32 where "ENROLL_STATUS_EVERY_MS = 21600000"
definition ENROLL_STATUS_MIN_EPOCH :: int where "ENROLL_STATUS_MIN_EPOCH = 1767225600"

fun stripZeros :: "string \<Rightarrow> string" where
  "stripZeros (c # d # s) = (if c = CHR ''0'' then stripZeros (d # s) else c # d # s)"
| "stripZeros s = s"

definition enrollSerialCanonical :: "cstr \<Rightarrow> nat \<Rightarrow> string option" where
  "enrollSerialCanonical s cap =
     (if cap = 0 \<or> s = None \<or> enrollHexLen s \<le> 0 then None
      else let x = stripZeros (the s) in if cap \<le> length x then None else Some x)"

definition enrollSerialValid :: "cstr \<Rightarrow> bool" where
  "enrollSerialValid s =
     (let n = enrollHexLen s
      in if s = None \<or> n \<le> 0 \<or> int ENROLL_SERIAL_HEX_CAP \<le> n then False
         else \<not> (hd (the s) = CHR ''0'' \<and> 1 < n))"

definition enrollStatusMessage :: "nat \<Rightarrow> cstr \<Rightarrow> cstr \<Rightarrow> int \<Rightarrow> string option" where
  "enrollStatusMessage cap deviceId serial ts =
     (if cap = 0 \<or> \<not> identityDeviceIdValid deviceId \<or> \<not> enrollSerialValid serial \<or> ts < ENROLL_STATUS_MIN_EPOCH then None
      else whole cap (ENROLL_STATUS_DOMAIN @ [CHR 0x0A] @ the deviceId @ [CHR 0x0A] @ the serial @ [CHR 0x0A] @ dec (nat ts)))"

definition enrollStatusBody :: "nat \<Rightarrow> cstr \<Rightarrow> cstr \<Rightarrow> cstr \<Rightarrow> int \<Rightarrow> cstr \<Rightarrow> string option" where
  "enrollStatusBody cap deviceId pubkeyHex serial ts sigHex =
     (if cap = 0 \<or> \<not> identityDeviceIdValid deviceId \<or> \<not> enrollSerialValid serial \<or> \<not> enrollHexValid pubkeyHex (IDENTITY_PUBKEY_LEN * 2) \<or>
         \<not> enrollHexValid sigHex ENROLL_SIG_HEX_LEN \<or> ts < ENROLL_STATUS_MIN_EPOCH then None
      else whole cap (''{'' @ jq ''device_id'' @ '':'' @ jq (the deviceId) @ '','' @ jq ''pubkey'' @ '':'' @ jq (the pubkeyHex) @ '','' @
                      jq ''serial'' @ '':'' @ jq (the serial) @ '','' @ jq ''ts'' @ '':'' @ dec (nat ts) @ '','' @
                      jq ''signature'' @ '':'' @ jq (the sigHex) @ ''}''))"

definition enrollStatusRevoked :: "int \<Rightarrow> cstr \<Rightarrow> cstr \<Rightarrow> cstr \<Rightarrow> bool" where
  "enrollStatusRevoked httpStatus status replySerial ourSerial =
     (if httpStatus \<noteq> 200 \<or> status = None \<or> replySerial = None \<or> ourSerial = None then False
      else if \<not> enrollSerialValid ourSerial then False
      else status = Some ''revoked'' \<and> replySerial = ourSerial)"

subsection \<open>Steps and delays\<close>

definition ENROLL_POLL_MS :: u32 where "ENROLL_POLL_MS = 150000"
definition ENROLL_BACKOFF_MIN_MS :: u32 where "ENROLL_BACKOFF_MIN_MS = 150000"
definition ENROLL_BACKOFF_MAX_MS :: u32 where "ENROLL_BACKOFF_MAX_MS = 1800000"

datatype EnrollStep = Announce | Verify | Poll | AwaitMtls | Ack | Done

record EnrollAction =
  aNext :: EnrollStep
  aDelayMs :: u32
  aProgressed :: bool

fun backoffLoop :: "nat \<Rightarrow> u32 \<Rightarrow> u32" where
  "backoffLoop 0 d = d"
| "backoffLoop (Suc n) d = (if d < ENROLL_BACKOFF_MAX_MS then backoffLoop n (d * 2) else d)"

definition enrollBackoffMs :: "u8 \<Rightarrow> u32 \<Rightarrow> u32" where
  "enrollBackoffMs failures rnd =
     (let d0 = backoffLoop (unat failures) ENROLL_BACKOFF_MIN_MS;
          d = (if ENROLL_BACKOFF_MAX_MS < d0 then ENROLL_BACKOFF_MAX_MS else d0)
      in d + rnd mod (d div 4 + 1))"

definition enrollStatusCadenceMs :: "u32 \<Rightarrow> u32" where
  "enrollStatusCadenceMs rnd = ENROLL_STATUS_EVERY_MS + rnd mod (ENROLL_STATUS_EVERY_MS div 8 + 1)"

definition enrollStartStep :: "bool \<Rightarrow> bool \<Rightarrow> EnrollStep" where
  "enrollStartStep hasCert ackPending = (if \<not> hasCert then Announce else if ackPending then AwaitMtls else Done)"

definition enrollOnResponse :: "EnrollStep \<Rightarrow> int \<Rightarrow> u8 \<Rightarrow> u32 \<Rightarrow> EnrollAction" where
  "enrollOnResponse step status failures rnd =
     (let back = enrollBackoffMs failures rnd
      in case step of
           Announce \<Rightarrow> if status = 200 then \<lparr>aNext = Verify, aDelayMs = 0, aProgressed = True\<rparr>
                       else \<lparr>aNext = Announce, aDelayMs = back, aProgressed = False\<rparr>
         | Verify \<Rightarrow> if status = 200 then \<lparr>aNext = Poll, aDelayMs = 0, aProgressed = True\<rparr>
                     else \<lparr>aNext = Announce, aDelayMs = back, aProgressed = False\<rparr>
         | Poll \<Rightarrow> if status = 204 then \<lparr>aNext = Poll, aDelayMs = ENROLL_POLL_MS, aProgressed = True\<rparr>
                   else if status = 200 then \<lparr>aNext = AwaitMtls, aDelayMs = 0, aProgressed = True\<rparr>
                   else if status = 403 then \<lparr>aNext = Announce, aDelayMs = back, aProgressed = False\<rparr>
                   else \<lparr>aNext = Poll, aDelayMs = back, aProgressed = False\<rparr>
         | Ack \<Rightarrow> if status = 200 then \<lparr>aNext = Done, aDelayMs = 0, aProgressed = True\<rparr>
                  else \<lparr>aNext = Ack, aDelayMs = back, aProgressed = False\<rparr>
         | AwaitMtls \<Rightarrow> \<lparr>aNext = step, aDelayMs = 0, aProgressed = False\<rparr>
         | Done \<Rightarrow> \<lparr>aNext = step, aDelayMs = 0, aProgressed = False\<rparr>)"

section \<open>Identity\<close>

lemma kHex_hex: "n < 16 \<Longrightarrow> isHexLower (kHex n)"
proof -
  assume "n < 16"
  then have "kHex n \<in> set ''0123456789abcdef''" unfolding kHex_def by (intro nth_mem) simp
  then show ?thesis by (auto simp: isHexLower_def isDigit_def)
qed

lemma kHex_inj: "m < 16 \<Longrightarrow> n < 16 \<Longrightarrow> kHex m = kHex n \<Longrightarrow> m = n"
  using nth_eq_iff_index_eq [of "''0123456789abcdef''" m n] by (simp add: kHex_def)

lemma nibble_less: "unat (b AND 15 :: u8) < 16"
  using word_and_le1 [of b 15] by (simp add: word_le_nat_alt le_imp_less_Suc)

lemma and15: "x AND 15 = take_bit 4 (x :: u8)"
  by (simp add: take_bit_eq_mask mask_eq_exp_minus_1)

lemma byte_nibbles: "drop_bit 4 b AND 15 = drop_bit 4 c AND 15 \<Longrightarrow> b AND 15 = c AND 15 \<Longrightarrow> b = (c :: u8)"
proof -
  assume a: "drop_bit 4 b AND 15 = drop_bit 4 c AND 15" "b AND 15 = c AND 15"
  have d: "take_bit 4 (drop_bit 4 x) = drop_bit 4 x" for x :: u8
    by (rule bit_word_eqI) (auto simp: bit_simps dest: bit_imp_le_length)
  have "drop_bit 4 b = drop_bit 4 c" using a(1) unfolding and15 d .
  moreover have "take_bit 4 b = take_bit 4 c" using a(2) unfolding and15 .
  ultimately show ?thesis by (metis bits_ident)
qed

lemma hexByte_inj: "hexByte b = hexByte c \<Longrightarrow> b = c"
proof -
  assume "hexByte b = hexByte c"
  then have "unat (drop_bit 4 b AND 15) = unat (drop_bit 4 c AND 15)" "unat (b AND 15) = unat (c AND 15)"
    unfolding hexByte_def using kHex_inj nibble_less by (metis list.inject)+
  then show ?thesis using byte_nibbles word_unat_eq_iff by metis
qed

lemma hexBytes_inj: "length bs = length cs \<Longrightarrow> concat (map hexByte bs) = concat (map hexByte cs) \<Longrightarrow> bs = cs"
proof (induction bs cs rule: list_induct2)
  case (Cons b bs c cs)
  have "length (hexByte b) = length (hexByte c)" by (simp add: hexByte_def)
  then show ?case using Cons hexByte_inj by (auto simp: append_eq_append_conv)
qed simp

lemma hexBytes_shape: "list_all isHexLower (concat (map hexByte bs)) \<and> length (concat (map hexByte bs)) = 2 * length bs"
  by (induction bs) (auto simp: hexByte_def kHex_hex nibble_less)

text \<open>Every base MAC gives a device id of the accepted shape, and two devices never share one.\<close>

lemma deviceId_minted:
  assumes "length mac = IDENTITY_MAC_LEN" "IDENTITY_ID_CAP \<le> cap"
  shows "\<exists>i. identityDeviceIdFromMac (Some mac) cap = Some i \<and> identityDeviceIdValid (Some i)"
proof -
  have "cap - length IDENTITY_ID_PREFIX \<noteq> 0" "\<not> length mac > (cap - length IDENTITY_ID_PREFIX - 1) div 2"
    using assms by (auto simp: IDENTITY_ID_CAP_def IDENTITY_ID_PREFIX_def IDENTITY_ID_HEX_LEN_def IDENTITY_MAC_LEN_def)
  then have "identityDeviceIdFromMac (Some mac) cap = Some (IDENTITY_ID_PREFIX @ concat (map hexByte mac))"
    using assms by (simp add: identityDeviceIdFromMac_def identityHexEncode_def)
  then show ?thesis using assms hexBytes_shape [of mac]
    by (simp add: identityDeviceIdValid_def strncmp0_def IDENTITY_ID_HEX_LEN_def)
qed

lemma deviceId_unique:
  assumes "length m1 = IDENTITY_MAC_LEN" "length m2 = IDENTITY_MAC_LEN" "identityDeviceIdFromMac (Some m1) cap = Some i" "identityDeviceIdFromMac (Some m2) cap = Some i"
  shows "m1 = m2"
proof (rule hexBytes_inj)
  show "length m1 = length m2" using assms by simp
  show "concat (map hexByte m1) = concat (map hexByte m2)"
    using assms by (auto simp: identityDeviceIdFromMac_def identityHexEncode_def split: if_splits)
qed

section \<open>Serials\<close>

lemma stripZeros_hex: "list_all isHexLower s \<Longrightarrow> s \<noteq> [] \<Longrightarrow>
  list_all isHexLower (stripZeros s) \<and> stripZeros s \<noteq> [] \<and> \<not> (hd (stripZeros s) = CHR ''0'' \<and> 1 < length (stripZeros s))"
  by (induction s rule: stripZeros.induct) auto

lemma serialCanonical_valid: "enrollSerialCanonical s ENROLL_SERIAL_HEX_CAP = Some x \<Longrightarrow> enrollSerialValid (Some x)"
proof -
  assume a: "enrollSerialCanonical s ENROLL_SERIAL_HEX_CAP = Some x"
  then obtain y where y: "s = Some y" "list_all isHexLower y" "y \<noteq> []" "x = stripZeros y" "length x < ENROLL_SERIAL_HEX_CAP"
    by (auto simp: enrollSerialCanonical_def enrollHexLen_def Let_def split: if_splits option.splits)
  then show ?thesis using stripZeros_hex [OF y(2,3)] by (auto simp: enrollSerialValid_def enrollHexLen_def Let_def)
qed

section \<open>Delays and request rate\<close>

lemma backoffLoop_bounds:
  "150000 \<le> unat d \<Longrightarrow> unat d \<le> 3600000 \<Longrightarrow> 150000 \<le> unat (backoffLoop n d) \<and> unat (backoffLoop n d) \<le> 3600000"
proof (induction n arbitrary: d)
  case (Suc n)
  show ?case
  proof (cases "d < ENROLL_BACKOFF_MAX_MS")
    case True
    then have lt: "unat d < 1800000" by (simp add: ENROLL_BACKOFF_MAX_MS_def word_less_nat_alt)
    then have "unat (d * 2) = unat d * 2" by (simp add: unat_word_ariths)
    then show ?thesis using Suc.IH [of "d * 2"] Suc.prems True lt by simp
  qed (use Suc.prems in simp)
qed simp

lemma enrollBackoffMs_bounds: "150000 \<le> unat (enrollBackoffMs f rnd) \<and> unat (enrollBackoffMs f rnd) \<le> 2250000"
proof -
  let ?d0 = "backoffLoop (unat f) ENROLL_BACKOFF_MIN_MS"
  let ?d = "if ENROLL_BACKOFF_MAX_MS < ?d0 then ENROLL_BACKOFF_MAX_MS else ?d0"
  have d: "150000 \<le> unat ?d" "unat ?d \<le> 1800000"
    using backoffLoop_bounds [of ENROLL_BACKOFF_MIN_MS "unat f"]
    by (auto simp: ENROLL_BACKOFF_MIN_MS_def ENROLL_BACKOFF_MAX_MS_def word_less_nat_alt)
  have q: "unat (?d div 4 + 1) = unat ?d div 4 + 1" using d(2) by (simp add: unat_word_ariths unat_div)
  have r: "unat (rnd mod (?d div 4 + 1)) \<le> unat ?d div 4" unfolding unat_mod q by (metis Suc_eq_plus1 less_Suc_eq_le mod_less_divisor zero_less_Suc)
  then have "unat (?d + rnd mod (?d div 4 + 1)) = unat ?d + unat (rnd mod (?d div 4 + 1))"
    using d(2) by (simp add: unat_word_ariths)
  then show ?thesis using d r by (simp add: enrollBackoffMs_def Let_def)
qed

text \<open>The answers a device gets, one per request: how many requests it makes and how long it waits in all.
  The wait for the mutual-TLS session sends nothing.\<close>

fun enrollRequests :: "EnrollStep \<Rightarrow> u8 \<Rightarrow> (int \<times> u32) list \<Rightarrow> nat \<times> nat" where
  "enrollRequests step failures [] = (0, 0)"
| "enrollRequests step failures ((status, rnd) # rs) =
     (let s = (if step = AwaitMtls then Ack else step); a = enrollOnResponse s status failures rnd
      in if s = Done then (0, 0)
         else let (n, t) = enrollRequests (aNext a) (if aProgressed a then 0 else if failures < 255 then failures + 1 else failures) rs
              in (Suc n, t + unat (aDelayMs a)))"

fun stepRank :: "EnrollStep \<Rightarrow> nat" where
  "stepRank Announce = 0"
| "stepRank Verify = 1"
| "stepRank Poll = 2"
| "stepRank AwaitMtls = 3"
| "stepRank Ack = 3"
| "stepRank Done = 4"

lemma onResponse_rank:
  assumes "s \<noteq> Done" "s \<noteq> AwaitMtls" "a = enrollOnResponse s status failures rnd"
  shows "150000 \<le> unat (aDelayMs a) \<and> stepRank s \<le> 2 + stepRank (aNext a) \<or> stepRank s < stepRank (aNext a)"
  using assms enrollBackoffMs_bounds [of failures rnd]
  by (cases s) (auto simp: enrollOnResponse_def Let_def ENROLL_POLL_MS_def)

lemma requests_waits: "\<exists>k. fst (enrollRequests step f rs) + stepRank step \<le> 3 * k + 4 \<and> 150000 * k \<le> snd (enrollRequests step f rs)"
proof (induction rs arbitrary: step f)
  case Nil
  show ?case by (cases step) (auto intro: exI [of _ 0])
next
  case (Cons r rs)
  obtain status rnd where r: "r = (status, rnd)" by (cases r)
  let ?s = "if step = AwaitMtls then Ack else step"
  let ?a = "enrollOnResponse ?s status f rnd"
  let ?f = "if aProgressed ?a then 0 else if f < 255 then f + 1 else f"
  have rank: "stepRank ?s = stepRank step" "stepRank step \<le> 4" by (cases step, auto)+
  show ?case
  proof (cases "?s = Done")
    case True
    then show ?thesis using r rank by (intro exI [of _ 0]) (simp add: Let_def)
  next
    case False
    obtain k where k: "fst (enrollRequests (aNext ?a) ?f rs) + stepRank (aNext ?a) \<le> 3 * k + 4" "150000 * k \<le> snd (enrollRequests (aNext ?a) ?f rs)"
      using Cons.IH by blast
    have q: "enrollRequests step f (r # rs) =
        (Suc (fst (enrollRequests (aNext ?a) ?f rs)), snd (enrollRequests (aNext ?a) ?f rs) + unat (aDelayMs ?a))"
      using False r by (simp add: Let_def case_prod_unfold)
    have "?s \<noteq> AwaitMtls" by simp
    then consider "150000 \<le> unat (aDelayMs ?a)" "stepRank step \<le> 2 + stepRank (aNext ?a)" | "stepRank step < stepRank (aNext ?a)"
      using onResponse_rank [OF False _ refl, of status f rnd] rank(1) by metis
    then show ?thesis
    proof cases
      case 1
      then show ?thesis unfolding q using k by (intro exI [of _ "Suc k"]) auto
    next
      case 2
      then show ?thesis unfolding q using k by (intro exI [of _ k]) auto
    qed
  qed
qed


text \<open>The bound is reached: a server that answers the first two requests and then refuses the third makes
  a device send three requests in 150 seconds, over and over.\<close>

lemma backoff_first: "enrollBackoffMs 0 0 = 150000"
  by (simp add: enrollBackoffMs_def ENROLL_BACKOFF_MIN_MS_def ENROLL_BACKOFF_MAX_MS_def Let_def)

lemma enroll_rate_reached:
  "enrollRequests Announce 0 (concat (replicate k [(200, 0), (200, 0), (403, 0)])) = (3 * k, 150000 * k) \<and>
   enrollRequests Announce 1 (concat (replicate k [(200, 0), (200, 0), (403, 0)])) = (3 * k, 150000 * k)"
  by (induction k) (simp_all add: enrollOnResponse_def Let_def backoff_first)

end
