(* ===== verification/Cert_Store.thy ===== *)
theory Cert_Store
  imports Fw_Prelude
begin

text \<open>
  The client certificate of the device: \<open>cert_policy.h\<close> and the storage of certificate and key in NVS from
  \<open>MQTTClient.cpp\<close> (store, load, clear, presence, and the reboot that applies a change). NVS operations
  may fail one by one; the flags of \<open>certIo\<close> say which succeed.
\<close>

section \<open>Definitions\<close>

subsection \<open>The pure helpers\<close>

definition pemHasBlock :: "cstr \<Rightarrow> string \<Rightarrow> string \<Rightarrow> bool" where
  "pemHasBlock s begin' end' =
     (case s of None \<Rightarrow> False
      | Some x \<Rightarrow> (case c_strstr x begin' of None \<Rightarrow> False | Some b \<Rightarrow> c_strstr (drop (length begin') b) end' \<noteq> None))"

definition PEM_CERT_BEGIN :: string where "PEM_CERT_BEGIN = ''-----BEGIN CERTIFICATE-----''"
definition PEM_CERT_END :: string where "PEM_CERT_END = ''-----END CERTIFICATE-----''"

definition pemLooksLikeCert :: "cstr \<Rightarrow> bool" where
  "pemLooksLikeCert s = pemHasBlock s PEM_CERT_BEGIN PEM_CERT_END"

definition pemLooksLikeKey :: "cstr \<Rightarrow> bool" where
  "pemLooksLikeKey s =
     list_ex (\<lambda>k. pemHasBlock s (''-----BEGIN '' @ k @ ''-----'') (''-----END '' @ k @ ''-----''))
       [''PRIVATE KEY'', ''ENCRYPTED PRIVATE KEY'', ''RSA PRIVATE KEY'', ''EC PRIVATE KEY'']"

definition certKeyInputsUsable :: "cstr \<Rightarrow> cstr \<Rightarrow> bool" where
  "certKeyInputsUsable cert key =
     (if cert = None \<or> key = None \<or> cert = Some '''' \<or> key = Some '''' then False else pemLooksLikeCert cert \<and> pemLooksLikeKey key)"

definition certExtractCn :: "cstr \<Rightarrow> nat \<Rightarrow> bool \<times> string" where
  "certExtractCn dn outLen =
     (if outLen = 0 then (False, '''')
      else case dn of None \<Rightarrow> (False, '''')
           | Some d \<Rightarrow> (case c_strstr d ''CN='' of None \<Rightarrow> (False, '''')
                        | Some p \<Rightarrow> (True, take (outLen - 1) (takeWhile (\<lambda>c. c \<noteq> CHR '','') (drop 3 p)))))"

datatype PairCheck = PairValid | PairInvalid | PairNoHeap
datatype CertApply = ApplyMissing | ApplyMismatch | ApplyLowHeap | ApplyReboot

definition certApplyVerdict :: "bool \<Rightarrow> PairCheck \<Rightarrow> CertApply" where
  "certApplyVerdict bothStored pair =
     (if \<not> bothStored then ApplyMissing else if pair = PairValid then ApplyReboot
      else if pair = PairNoHeap then ApplyLowHeap else ApplyMismatch)"

definition storedCertBrokenAfter :: "PairCheck \<Rightarrow> bool \<Rightarrow> bool" where
  "storedCertBrokenAfter pair wasBroken = (if pair = PairNoHeap then wasBroken else pair = PairInvalid)"

subsection \<open>Storage\<close>

definition CERT_MAX_LEN :: nat where "CERT_MAX_LEN = 4000"
definition CERT_REBOOT_DELAY_MS :: u32 where "CERT_REBOOT_DELAY_MS = 3000"

record certNvs =
  nvCert :: "string option"
  nvKey :: "string option"
  storedCertBroken :: bool
  certRebootPending :: bool
  certRebootAtMs :: u32

record certIo =
  cOpen :: bool      \<comment> \<open>the namespace opens\<close>
  cCertOk :: bool    \<comment> \<open>the operation on the certificate succeeds\<close>
  cKeyOk :: bool     \<comment> \<open>the operation on the key succeeds\<close>
  cHeap :: bool      \<comment> \<open>the buffers of a check allocate\<close>

definition nonEmpty :: "cstr \<Rightarrow> bool" where
  "nonEmpty s \<longleftrightarrow> s \<noteq> None \<and> s \<noteq> Some ''''"

definition storeClientCert :: "certIo \<Rightarrow> cstr \<Rightarrow> cstr \<Rightarrow> certNvs \<Rightarrow> bool \<times> certNvs" where
  "storeClientCert io certPEM keyPEM n =
     (if \<not> cOpen io then (False, n)
      else let (ok1, n1) = (if \<not> nonEmpty certPEM then (True, n)
                            else if CERT_MAX_LEN \<le> length (the certPEM) then (False, n)
                            else if \<not> cCertOk io then (False, n)
                            else (True, n\<lparr>nvCert := certPEM\<rparr>));
               (ok2, n2) = (if \<not> ok1 \<or> \<not> nonEmpty keyPEM then (ok1, n1)
                            else if CERT_MAX_LEN \<le> length (the keyPEM) then (False, n1)
                            else if \<not> cKeyOk io then (False, n1)
                            else (True, n1\<lparr>nvKey := keyPEM\<rparr>))
           in (ok2, if ok2 then n2\<lparr>storedCertBroken := False\<rparr> else n2))"

definition loadClientCert :: "certIo \<Rightarrow> certNvs \<Rightarrow> (string \<times> string) option" where
  "loadClientCert io n =
     (if \<not> cOpen io then None
      else case (nvCert n, nvKey n) of (Some c, Some k) \<Rightarrow> (if c = [] \<or> k = [] then None else Some (c, k)) | _ \<Rightarrow> None)"

definition clearClientCert :: "certIo \<Rightarrow> certNvs \<Rightarrow> bool \<times> certNvs" where
  "clearClientCert io n =
     (if \<not> cOpen io then (False, n)
      else let certGone = (nvCert n = None \<or> cCertOk io); keyGone = (nvKey n = None \<or> cKeyOk io);
               n1 = n\<lparr>nvCert := (if certGone then None else nvCert n), nvKey := (if keyGone then None else nvKey n)\<rparr>
           in if certGone \<and> keyGone then (True, n1\<lparr>storedCertBroken := False\<rparr>) else (False, n1))"

definition hasClientCert :: "certIo \<Rightarrow> certNvs \<Rightarrow> bool" where
  "hasClientCert io n \<longleftrightarrow> cOpen io \<and> nvCert n \<noteq> None \<and> nvKey n \<noteq> None"

text \<open>\<open>pairValid\<close> is the TLS library's check that the key belongs to the certificate.\<close>

definition checkStoredClientCert :: "(string \<Rightarrow> string \<Rightarrow> bool) \<Rightarrow> certIo \<Rightarrow> certNvs \<Rightarrow> PairCheck \<times> certNvs" where
  "checkStoredClientCert pairValid io n =
     (let res = (if \<not> cHeap io then PairNoHeap
                 else case loadClientCert io n of None \<Rightarrow> PairInvalid | Some (c, k) \<Rightarrow> if pairValid c k then PairValid else PairInvalid)
      in (res, n\<lparr>storedCertBroken := storedCertBrokenAfter res (storedCertBroken n)\<rparr>))"

definition scheduleCertReboot :: "u32 \<Rightarrow> certNvs \<Rightarrow> certNvs" where
  "scheduleCertReboot millis n = n\<lparr>certRebootAtMs := millis + CERT_REBOOT_DELAY_MS, certRebootPending := True\<rparr>"

definition serviceCertReboot :: "u32 \<Rightarrow> certNvs \<Rightarrow> bool" where
  "serviceCertReboot millis n \<longleftrightarrow> certRebootPending n \<and> \<not> sint (millis - certRebootAtMs n) < 0"

section \<open>Storing and loading\<close>

lemma c_strstr_in: "c_strstr s pat \<noteq> None \<longleftrightarrow> sublist pat s"
  using c_strstr_Some_iff by (metis option.exhaust option.distinct(1))

text \<open>A stored pair is what later loads return, until it is cleared.\<close>

lemma store_load:
  assumes "storeClientCert io (Some c) (Some k) n = (True, n')" "c \<noteq> []" "k \<noteq> []" "cOpen io'"
  shows "loadClientCert io' n' = Some (c, k)"
  using assms by (auto simp: storeClientCert_def loadClientCert_def nonEmpty_def split: if_splits)

lemma store_keeps_broken: "storeClientCert io c k n = (False, n') \<Longrightarrow> storedCertBroken n' = storedCertBroken n"
  by (auto simp: storeClientCert_def split: if_splits)

lemma clear_gone: "clearClientCert io n = (True, n') \<Longrightarrow> nvCert n' = None \<and> nvKey n' = None \<and> \<not> storedCertBroken n'"
  by (auto simp: clearClientCert_def Let_def split: if_splits)

lemma clear_only_removes:
  "nvCert (snd (clearClientCert io n)) = None \<or> nvCert (snd (clearClientCert io n)) = nvCert n"
  "nvKey (snd (clearClientCert io n)) = None \<or> nvKey (snd (clearClientCert io n)) = nvKey n"
  by (auto simp: clearClientCert_def Let_def)

text \<open>The reboot that applies a certificate comes no sooner than its delay, also across the clock's wrap.\<close>

lemma uint_3000: "uint (3000 :: u32) = 3000"
  by simp

lemma certReboot_not_early:
  assumes "unat d < unat CERT_REBOOT_DELAY_MS"
  shows "\<not> serviceCertReboot (ms + d) (scheduleCertReboot ms n)"
proof -
  have "unat d < 3000" using assms by (simp add: CERT_REBOOT_DELAY_MS_def)
  then have "uint d < 3000" unfolding uint_nat by linarith
  then have "uint d < uint (3000 :: u32)" by (simp only: uint_3000)
  moreover have "0 \<le> uint d" by simp
  then have "uint (3000 :: u32) - uint d \<le> 2147483648" unfolding uint_3000 by linarith
  ultimately have "sint (d - 3000) < 0" by (rule sint_diff_before)
  moreover have "ms + d - (ms + 3000) = d - 3000" by simp
  ultimately show ?thesis by (simp add: serviceCertReboot_def scheduleCertReboot_def CERT_REBOOT_DELAY_MS_def)
qed

end
