(* ===== verification/Enroll_Flow.thy ===== *)
theory Enroll_Flow
  imports Enroll_Policy Cert_Store
begin

text \<open>
  First-boot enrollment, \<open>Enroll.cpp\<close>: the step machine the main loop drives, the single POST in flight on
  its own task, storing the delivered certificate, and the periodic check that wipes a revoked one.

  What other components and libraries provide is the record \<open>enEnv\<close>: the device's identity and signature,
  what the JSON reader finds in a reply, the pair check and the serial of the TLS library. What can
  differ from turn to turn (clock, radio, allocation, storage) is the record \<open>enIo\<close>.
\<close>

section \<open>Definitions\<close>

definition BODY_CAP :: nat where "BODY_CAP = 384"
definition JOB_CEILING_MS :: u32 where "JOB_CEILING_MS = 60000"
definition ST_LOCAL :: int where "ST_LOCAL = -1"
definition ST_OVERSIZE :: int where "ST_OVERSIZE = -2"
definition ST_UNUSABLE :: int where "ST_UNUSABLE = -3"
definition REPLY_CAP :: nat where "REPLY_CAP = 6144"

record certReply =
  rCert :: string
  rKey :: string
  rId :: string
  rHost :: string
  rPrefix :: string
  rPort :: int

record enEnv =
  eDeviceId :: string
  ePubHex :: string
  eSign :: "string \<Rightarrow> u8 list option"
  eChallenge :: "string \<Rightarrow> string option"           \<comment> \<open>None: not JSON\<close>
  eCertReply :: "string \<Rightarrow> certReply option"
  eStatusReply :: "string \<Rightarrow> (string \<times> string) option"
  ePairValid :: "string \<Rightarrow> string \<Rightarrow> bool"
  eSerialHex :: "string \<Rightarrow> string option"           \<comment> \<open>\<open>getCertInfo\<close>; None: the certificate does not parse\<close>

record enIo =
  ioMs :: u32
  ioRnd :: u32
  ioAck1 :: bool        \<comment> \<open>the first and the second \<open>ackPendingSet\<close> of the turn succeed\<close>
  ioAck2 :: bool
  ioAckOpen :: bool     \<comment> \<open>the namespace opens when the flag is read\<close>
  ioHeld :: bool        \<comment> \<open>\<open>Config::topicPrefixHeld()\<close>\<close>
  ioSave :: bool        \<comment> \<open>\<open>Config::save()\<close>\<close>
  ioCert :: certIo
  ioAlloc :: bool
  ioTask :: bool        \<comment> \<open>\<open>xTaskCreate\<close> succeeds\<close>
  ioWifi :: bool
  ioNtp :: bool
  ioMtls :: bool
  ioEpoch :: int
  ioCode :: string      \<comment> \<open>what \<open>Secret::resolve\<close> gives for the claim code\<close>

record EnrollJob =
  jUrl :: string
  jBody :: string
  jReply :: string
  jStatus :: int
  jIsCheck :: bool
  jDone :: bool

record enroll =
  active :: bool
  step :: EnrollStep
  failures :: u8
  nextAt :: u32
  lastStatus :: int
  job :: "EnrollJob option"
  stale :: "EnrollJob option"
  jobAt :: u32
  url :: string
  sigHex :: string
  ckDue :: bool                     \<comment> \<open>\<open>StatusCheck _check\<close>\<close>
  ckAt :: u32
  ckFailures :: u8
  ckLast :: int
  ckSerial :: string
  certs :: certNvs                  \<comment> \<open>the device around it: certificate store, ack flag, live config\<close>
  ackPending :: bool
  cfgBroker :: string
  cfgPort :: int
  cfgPrefix :: string

definition scheduleCheck :: "u32 \<Rightarrow> u32 \<Rightarrow> enroll \<Rightarrow> enroll" where
  "scheduleCheck ms delayMs s = s\<lparr>ckDue := True, ckAt := ms + delayMs\<rparr>"

definition stepSuffix :: "EnrollStep \<Rightarrow> string" where
  "stepSuffix st = (case st of Verify \<Rightarrow> ''/verify'' | Poll \<Rightarrow> ''/cert'' | Ack \<Rightarrow> ''/ack'' | _ \<Rightarrow> '''')"

definition ackPendingGet :: "bool \<Rightarrow> enroll \<Rightarrow> bool" where
  "ackPendingGet opened s \<longleftrightarrow> opened \<and> ackPending s"

definition ackPendingSet :: "bool \<Rightarrow> bool \<Rightarrow> enroll \<Rightarrow> bool \<times> enroll" where
  "ackPendingSet ok v s = (if ok then (True, s\<lparr>ackPending := v\<rparr>) else (False, s))"

definition enrollLoadClaimCode :: "enIo \<Rightarrow> string option" where
  "enrollLoadClaimCode io = (if enrollClaimCodeValid (Some (ioCode io)) then Some (ioCode io) else None)"

definition advance :: "enIo \<Rightarrow> int \<Rightarrow> enroll \<Rightarrow> enroll" where
  "advance io status s =
     (let a = enrollOnResponse (step s) status (failures s) (ioRnd io);
          s1 = s\<lparr>failures := (if aProgressed a then 0 else if failures s < 255 then failures s + 1 else failures s),
                 step := aNext a, nextAt := ioMs io + aDelayMs a, lastStatus := status\<rparr>
      in if step s1 = Done then scheduleCheck (ioMs io) ENROLL_STATUS_EVERY_MS (s1\<lparr>active := False\<rparr>) else s1)"

definition onChallenge :: "enEnv \<Rightarrow> string \<Rightarrow> enroll \<Rightarrow> bool \<times> enroll" where
  "onChallenge env reply s =
     (case eChallenge env reply of None \<Rightarrow> (False, s)
      | Some ch \<Rightarrow>
          if \<not> enrollHexValid (Some ch) ENROLL_CHALLENGE_HEX_LEN then (False, s)
          else case eSign env ch of None \<Rightarrow> (False, s)
               | Some sig \<Rightarrow> (case identityHexEncode (Some sig) (ENROLL_SIG_HEX_LEN + 1) of
                                None \<Rightarrow> (False, s\<lparr>sigHex := ''''\<rparr>) | Some h \<Rightarrow> (True, s\<lparr>sigHex := h\<rparr>)))"

definition certReplyOk :: "enEnv \<Rightarrow> certReply \<Rightarrow> bool" where
  "certReplyOk env r \<longleftrightarrow>
     enrollReplyUsable (Some (eDeviceId env)) (Some (rId r)) (Some (rHost r)) (rPort r) (Some (rPrefix r)) 128 \<and>
     \<not> (CERT_MAX_LEN \<le> length (rCert r) \<or> CERT_MAX_LEN \<le> length (rKey r) \<or> \<not> ePairValid env (rCert r) (rKey r))"

text \<open>Ack flag, then the broker settings, then the certificate; a failed store takes the flag back.\<close>

definition onCert :: "enEnv \<Rightarrow> enIo \<Rightarrow> string \<Rightarrow> enroll \<Rightarrow> bool \<times> enroll" where
  "onCert env io reply s =
     (case eCertReply env reply of None \<Rightarrow> (False, s)
      | Some r \<Rightarrow>
          if \<not> certReplyOk env r \<or> ioHeld io then (False, s)
          else let (ok1, s1) = ackPendingSet (ioAck1 io) True s
               in if \<not> ok1 then (False, s1)
                  else let s2 = s1\<lparr>cfgBroker := rHost r, cfgPort := rPort r, cfgPrefix := rPrefix r\<rparr>;
                           (ok2, n) = (if ioSave io then storeClientCert (ioCert io) (Some (rCert r)) (Some (rKey r)) (certs s2) else (False, certs s2));
                           s3 = s2\<lparr>certs := n\<rparr>
                       in if \<not> ok2 then (False, snd (ackPendingSet (ioAck2 io) False s3))
                          else (True, s3\<lparr>certs := scheduleCertReboot (ioMs io) n\<rparr>))"

definition onOk :: "enEnv \<Rightarrow> enIo \<Rightarrow> string \<Rightarrow> enroll \<Rightarrow> bool \<times> enroll" where
  "onOk env io reply s =
     (case step s of Announce \<Rightarrow> onChallenge env reply s | Poll \<Rightarrow> onCert env io reply s
      | Ack \<Rightarrow> ackPendingSet (ioAck1 io) False s | _ \<Rightarrow> (True, s))"

definition checkUnanswered :: "enIo \<Rightarrow> int \<Rightarrow> enroll \<Rightarrow> enroll" where
  "checkUnanswered io status s =
     (let f = (if ckFailures s < 255 then ckFailures s + 1 else ckFailures s)
      in scheduleCheck (ioMs io) (enrollBackoffMs f (ioRnd io)) (s\<lparr>ckFailures := f, ckLast := status\<rparr>))"

definition finishCheck :: "enEnv \<Rightarrow> enIo \<Rightarrow> EnrollJob \<Rightarrow> enroll \<Rightarrow> enroll" where
  "finishCheck env io j s =
     (let (status, revoked) =
            (if jStatus j \<noteq> 200 then (jStatus j, False)
             else case eStatusReply env (jReply j) of None \<Rightarrow> (ST_UNUSABLE, False)
                  | Some (st, ser) \<Rightarrow> (200, enrollStatusRevoked 200 (Some st) (Some ser) (Some (ckSerial s))))
      in if status \<noteq> 200 then checkUnanswered io status s
         else let s1 = s\<lparr>ckFailures := 0, ckLast := status\<rparr>
              in if revoked
                 then let (ok, n) = clearClientCert (ioCert io) (certs s1); s2 = s1\<lparr>certs := n\<rparr>
                      in if ok then (let s3 = snd (ackPendingSet (ioAck1 io) False s2) in s3\<lparr>certs := scheduleCertReboot (ioMs io) (certs s3)\<rparr>)
                         else checkUnanswered io ST_UNUSABLE s2
                 else scheduleCheck (ioMs io) (enrollStatusCadenceMs (ioRnd io)) s1)"

definition finishJob :: "enEnv \<Rightarrow> enIo \<Rightarrow> EnrollJob \<Rightarrow> enroll \<Rightarrow> enroll" where
  "finishJob env io j s0 =
     (let s = s0\<lparr>job := None\<rparr>
      in if jIsCheck j then finishCheck env io j s
         else let (ok, s1) = (if jStatus j = 200 then onOk env io (jReply j) s else (True, s));
                  status = (if jStatus j = 200 \<and> \<not> ok then ST_UNUSABLE else jStatus j)
              in advance io status (if step s1 = Verify then s1\<lparr>sigHex := ''''\<rparr> else s1))"

definition reapStale :: "enroll \<Rightarrow> enroll" where
  "reapStale s = (case stale s of None \<Rightarrow> s | Some j \<Rightarrow> if jDone j then s\<lparr>stale := None\<rparr> else s)"

definition startJob :: "enEnv \<Rightarrow> enIo \<Rightarrow> enroll \<Rightarrow> enroll" where
  "startJob env io s =
     (if stale s \<noteq> None then s
      else if \<not> ioAlloc io then advance io ST_LOCAL s
      else let u = enrollEndpoint (Some (url s)) (Some (stepSuffix (step s))) (ENROLL_URL_CAP + 32);
               b = (if u = None then None
                    else if step s = Verify then enrollBody BODY_CAP (Some (eDeviceId env)) (Some (ePubHex env)) (Some ''signature'') (Some (sigHex s))
                    else Option.bind (enrollLoadClaimCode io)
                           (\<lambda>c. enrollBody BODY_CAP (Some (eDeviceId env)) (Some (ePubHex env)) (Some ''claim_token'') (Some c)))
           in case b of None \<Rightarrow> s\<lparr>active := False\<rparr>
              | Some body \<Rightarrow>
                  if \<not> ioTask io then advance io ST_LOCAL s
                  else s\<lparr>job := Some \<lparr>jUrl = the u, jBody = body, jReply = '''', jStatus = ST_LOCAL, jIsCheck = False, jDone = False\<rparr>, jobAt := ioMs io\<rparr>)"

definition startCheck :: "enEnv \<Rightarrow> enIo \<Rightarrow> enroll \<Rightarrow> enroll" where
  "startCheck env io s0 =
     (let s = s0\<lparr>ckDue := False\<rparr>;
          serial = Option.bind (if cOpen (ioCert io) then nvCert (certs s) else None)
                     (\<lambda>c. Option.bind (eSerialHex env c) (\<lambda>raw. enrollSerialCanonical (Some raw) ENROLL_SERIAL_HEX_CAP))
      in case serial of
           None \<Rightarrow> if \<not> cOpen (ioCert io) \<or> Option.bind (nvCert (certs s)) (eSerialHex env) = None then s else s\<lparr>ckSerial := ''''\<rparr>
         | Some ser \<Rightarrow>
             let s1 = s\<lparr>ckSerial := ser\<rparr>
             in case enrollStatusMessage 128 (Some (eDeviceId env)) (Some ser) (ioEpoch io) of
                  None \<Rightarrow> checkUnanswered io ST_LOCAL s1
                | Some msg \<Rightarrow>
                    let sig = Option.bind (eSign env msg) (\<lambda>b. identityHexEncode (Some b) (ENROLL_SIG_HEX_LEN + 1));
                        u = enrollEndpoint (Some (url s1)) (Some ENROLL_STATUS_SUFFIX) (ENROLL_URL_CAP + 32);
                        body = Option.bind sig (\<lambda>h. enrollStatusBody BODY_CAP (Some (eDeviceId env)) (Some (ePubHex env)) (Some ser) (ioEpoch io) (Some h))
                    in if sig = None \<or> \<not> ioAlloc io \<or> u = None \<or> body = None \<or> \<not> ioTask io then checkUnanswered io ST_LOCAL s1
                       else s1\<lparr>job := Some \<lparr>jUrl = the u, jBody = the body, jReply = '''', jStatus = ST_LOCAL, jIsCheck = True, jDone = False\<rparr>, jobAt := ioMs io\<rparr>)"

definition enrollLoop :: "enEnv \<Rightarrow> enIo \<Rightarrow> enroll \<Rightarrow> enroll" where
  "enrollLoop env io s0 =
     (let s = reapStale s0
      in if stale s \<noteq> None then s
         else case job s of
           Some j \<Rightarrow>
             if jDone j then finishJob env io j s
             else if JOB_CEILING_MS < ioMs io - jobAt s
             then (let s1 = s\<lparr>stale := Some j, job := None\<rparr>
                   in if jIsCheck j then checkUnanswered io ST_LOCAL s1 else advance io ST_LOCAL s1)
             else s
         | None \<Rightarrow>
             if \<not> active s
             then (if ckDue s \<and> \<not> certRebootPending (certs s) \<and> ioWifi io \<and> ioNtp io \<and> 0 \<le> sint (ioMs io - ckAt s)
                   then startCheck env io s else s)
             else if step s = AwaitMtls
             then (if ioMtls io then s\<lparr>step := Ack, nextAt := ioMs io\<rparr> else s)
             else if certRebootPending (certs s) \<or> \<not> ioWifi io then s
             else if sint (ioMs io - nextAt s) < 0 then s
             else startJob env io s)"

text \<open>\<open>Enroll::begin\<close> on a boot: the RAM state starts afresh, the stored state stays.\<close>

definition enrollBegin :: "enEnv \<Rightarrow> enIo \<Rightarrow> bool \<Rightarrow> cstr \<Rightarrow> enroll \<Rightarrow> enroll" where
  "enrollBegin env io canMint cfgUrl s0 =
     (let s = s0\<lparr>active := False, step := Done, failures := 0, nextAt := 0, lastStatus := 0, job := None, stale := None, jobAt := 0,
                 url := '''', sigHex := '''', ckDue := False, ckAt := 0, ckFailures := 0, ckLast := 0, ckSerial := '''',
                 certs := (certs s0)\<lparr>certRebootPending := False\<rparr>\<rparr>
      in if \<not> canMint \<or> eDeviceId env = '''' then s
         else let hasCert = hasClientCert (ioCert io) (certs s); pend = ackPendingGet (ioAckOpen io) s;
                  s1 = (if \<not> hasCert \<and> pend then snd (ackPendingSet (ioAck1 io) False s) else s);
                  urlOk = enrollUrlUsable cfgUrl;
                  s2 = s1\<lparr>step := enrollStartStep hasCert pend, url := (if urlOk then the cfgUrl else '''')\<rparr>;
                  haveCode = (urlOk \<and> enrollLoadClaimCode io \<noteq> None)
              in if step s2 = Done then (if haveCode then scheduleCheck (ioMs io) ENROLL_STATUS_FIRST_MS s2 else s2)
                 else if \<not> urlOk \<or> \<not> haveCode then s2
                 else s2\<lparr>active := True, nextAt := ioMs io\<rparr>)"

text \<open>The POST task: \<open>begun\<close> says whether the HTTP client accepts the URL, \<open>post\<close> is the status it returns,
  \<open>announced\<close> the announced size and \<open>got\<close> the received body.\<close>

definition enrollTask :: "bool \<Rightarrow> int \<Rightarrow> int \<Rightarrow> string \<Rightarrow> EnrollJob \<Rightarrow> EnrollJob" where
  "enrollTask begun post announced got j =
     (let j1 = (if \<not> begun then j
                else if post \<noteq> 200 then j\<lparr>jStatus := post\<rparr>
                else if int REPLY_CAP < announced then j\<lparr>jStatus := ST_OVERSIZE\<rparr>
                else if REPLY_CAP < length got then j\<lparr>jReply := '''', jStatus := ST_OVERSIZE\<rparr>
                else j\<lparr>jStatus := post, jReply := got\<rparr>)
      in j1\<lparr>jDone := True\<rparr>)"

inductive enStep :: "enEnv \<Rightarrow> enroll \<Rightarrow> enroll \<Rightarrow> bool" for env where
  Turn: "enStep env s (enrollLoop env io s)"
| Answer: "job s = Some j \<Longrightarrow> \<not> jDone j \<Longrightarrow> enStep env s (s\<lparr>job := Some (enrollTask begun post announced got j)\<rparr>)"
| LateAnswer: "stale s = Some j \<Longrightarrow> \<not> jDone j \<Longrightarrow> enStep env s (s\<lparr>stale := Some (enrollTask begun post announced got j)\<rparr>)"
| Boot: "enStep env s (enrollBegin env io canMint cfgUrl s)"

section \<open>What each operation leaves alone\<close>

lemma schedule_keeps [simp]:
  "certs (scheduleCheck ms d s) = certs s" "job (scheduleCheck ms d s) = job s" "stale (scheduleCheck ms d s) = stale s"
  "ckSerial (scheduleCheck ms d s) = ckSerial s" "step (scheduleCheck ms d s) = step s" "active (scheduleCheck ms d s) = active s"
  by (simp_all add: scheduleCheck_def)

lemma advance_keeps [simp]:
  "certs (advance io st s) = certs s" "job (advance io st s) = job s" "stale (advance io st s) = stale s" "ckSerial (advance io st s) = ckSerial s"
  by (simp_all add: advance_def Let_def)

lemma unanswered_keeps [simp]:
  "certs (checkUnanswered io st s) = certs s" "job (checkUnanswered io st s) = job s" "stale (checkUnanswered io st s) = stale s"
  "ckSerial (checkUnanswered io st s) = ckSerial s"
  by (simp_all add: checkUnanswered_def Let_def)

lemma ack_keeps [simp]:
  "certs (snd (ackPendingSet ok v s)) = certs s" "job (snd (ackPendingSet ok v s)) = job s" "stale (snd (ackPendingSet ok v s)) = stale s"
  "ckSerial (snd (ackPendingSet ok v s)) = ckSerial s" "step (snd (ackPendingSet ok v s)) = step s"
  by (simp_all add: ackPendingSet_def)

lemma reboot_keeps [simp]: "nvCert (scheduleCertReboot ms n) = nvCert n" "nvKey (scheduleCertReboot ms n) = nvKey n"
  by (simp_all add: scheduleCertReboot_def)

lemma challenge_keeps [simp]:
  "certs (snd (onChallenge env r s)) = certs s" "job (snd (onChallenge env r s)) = job s" "stale (snd (onChallenge env r s)) = stale s"
  by (auto simp: onChallenge_def split: option.splits)

lemma onCert_keeps [simp]:
  "job (snd (onCert env io r s)) = job s" "stale (snd (onCert env io r s)) = stale s"
  by (auto simp: onCert_def ackPendingSet_def Let_def case_prod_unfold split: option.splits)

lemma onOk_keeps [simp]: "job (snd (onOk env io r s)) = job s" "stale (snd (onOk env io r s)) = stale s"
  by (auto simp: onOk_def split: EnrollStep.splits)

lemma finishCheck_keeps [simp]: "job (finishCheck env io j s) = job s" "stale (finishCheck env io j s) = stale s"
  by (auto simp: finishCheck_def Let_def case_prod_unfold split: option.splits)

lemma finishJob_job [simp]: "job (finishJob env io j s) = None" "stale (finishJob env io j s) = stale s"
  by (auto simp: finishJob_def Let_def case_prod_unfold)

lemma startJob_keeps [simp]: "certs (startJob env io s) = certs s" "stale (startJob env io s) = stale s" "ckSerial (startJob env io s) = ckSerial s"
  by (auto simp: startJob_def Let_def split: option.splits)

lemma startCheck_keeps [simp]: "certs (startCheck env io s) = certs s" "stale (startCheck env io s) = stale s"
  by (auto simp: startCheck_def Let_def split: option.splits)

lemma reap_keeps [simp]: "certs (reapStale s) = certs s" "job (reapStale s) = job s" "ckSerial (reapStale s) = ckSerial s" "step (reapStale s) = step s"
  by (auto simp: reapStale_def split: option.splits)

section \<open>How the stored certificate changes\<close>

text \<open>A certificate is replaced only by one the server delivered for this device as an answer to a poll.\<close>

definition delivered :: "enEnv \<Rightarrow> EnrollJob \<Rightarrow> certReply \<Rightarrow> bool" where
  "delivered env j r \<longleftrightarrow> \<not> jIsCheck j \<and> jStatus j = 200 \<and> eCertReply env (jReply j) = Some r \<and> certReplyOk env r"

text \<open>It is removed only on an explicit answer that names its own serial as revoked.\<close>

definition revokedFor :: "enEnv \<Rightarrow> EnrollJob \<Rightarrow> string \<Rightarrow> bool" where
  "revokedFor env j ser \<longleftrightarrow> jIsCheck j \<and> jStatus j = 200 \<and> eStatusReply env (jReply j) = Some (''revoked'', ser)"

lemma storeClientCert_cert: "nvCert (snd (storeClientCert io (Some c) k n)) = nvCert n \<or> nvCert (snd (storeClientCert io (Some c) k n)) = Some c"
  by (auto simp: storeClientCert_def Let_def)

lemma onCert_cert:
  "nvCert (certs (snd (onCert env io reply s))) = nvCert (certs s) \<or>
   (\<exists>r. eCertReply env reply = Some r \<and> certReplyOk env r \<and> nvCert (certs (snd (onCert env io reply s))) = Some (rCert r))"
proof (cases "eCertReply env reply")
  case (Some r)
  show ?thesis
  proof (cases "certReplyOk env r \<and> \<not> ioHeld io \<and> ioAck1 io \<and> ioSave io")
    case True
    then show ?thesis using Some storeClientCert_cert [of "ioCert io" "rCert r" "Some (rKey r)" "certs s"]
      by (auto simp: onCert_def ackPendingSet_def Let_def case_prod_unfold)
  next
    case False
    then show ?thesis using Some by (auto simp: onCert_def ackPendingSet_def Let_def case_prod_unfold)
  qed
qed (simp add: onCert_def)

lemma onOk_cert:
  "nvCert (certs (snd (onOk env io reply s))) = nvCert (certs s) \<or>
   (\<exists>r. eCertReply env reply = Some r \<and> certReplyOk env r \<and> step s = Poll \<and> nvCert (certs (snd (onOk env io reply s))) = Some (rCert r))"
  using onCert_cert [of env io reply s] by (auto simp: onOk_def split: EnrollStep.splits)

lemma finishCheck_cert:
  "nvCert (certs (finishCheck env io j s)) = nvCert (certs s) \<or>
   (jStatus j = 200 \<and> eStatusReply env (jReply j) = Some (''revoked'', ckSerial s) \<and> nvCert (certs (finishCheck env io j s)) = None)"
proof (cases "jStatus j = 200 \<and> (\<exists>st ser. eStatusReply env (jReply j) = Some (st, ser) \<and> enrollStatusRevoked 200 (Some st) (Some ser) (Some (ckSerial s)))")
  case True
  then obtain st ser where r: "jStatus j = 200" "eStatusReply env (jReply j) = Some (st, ser)" "enrollStatusRevoked 200 (Some st) (Some ser) (Some (ckSerial s))" by blast
  then have "st = ''revoked'' \<and> ser = ckSerial s" by (auto simp: enrollStatusRevoked_def split: if_splits)
  moreover have "nvCert (certs (finishCheck env io j s)) = None \<or> nvCert (certs (finishCheck env io j s)) = nvCert (certs s)"
    using r clear_only_removes(1) [of "ioCert io" "certs s"] by (auto simp: finishCheck_def Let_def case_prod_unfold)
  ultimately show ?thesis using r by auto
next
  case False
  then show ?thesis by (auto simp: finishCheck_def Let_def case_prod_unfold split: option.splits)
qed

lemma finishJob_cert:
  "nvCert (certs (finishJob env io j s)) = nvCert (certs s) \<or>
   (\<exists>r. delivered env j r \<and> step s = Poll \<and> nvCert (certs (finishJob env io j s)) = Some (rCert r)) \<or>
   (revokedFor env j (ckSerial s) \<and> nvCert (certs (finishJob env io j s)) = None)"
proof (cases "jIsCheck j")
  case True
  then show ?thesis using finishCheck_cert [of env io j "s\<lparr>job := None\<rparr>"] by (auto simp: finishJob_def revokedFor_def)
next
  case False
  then show ?thesis using onOk_cert [of env io "jReply j" "s\<lparr>job := None\<rparr>"]
    by (auto simp: finishJob_def delivered_def Let_def case_prod_unfold)
qed

lemma enrollLoop_cert:
  "nvCert (certs (enrollLoop env io s)) = nvCert (certs s) \<or>
   (\<exists>j. job s = Some j \<and> ((\<exists>r. delivered env j r \<and> step s = Poll \<and> nvCert (certs (enrollLoop env io s)) = Some (rCert r)) \<or>
       (revokedFor env j (ckSerial s) \<and> nvCert (certs (enrollLoop env io s)) = None)))"
proof (cases "stale (reapStale s) = None \<and> (\<exists>j. job s = Some j \<and> jDone j)")
  case True
  then obtain j where j: "job s = Some j" "jDone j" by blast
  then have "enrollLoop env io s = finishJob env io j (reapStale s)" using True by (simp add: enrollLoop_def Let_def)
  then show ?thesis using finishJob_cert [of env io j "reapStale s"] j(1) by auto
next
  case False
  then show ?thesis by (auto simp: enrollLoop_def Let_def split: option.splits)
qed

lemma enrollBegin_cert: "nvCert (certs (enrollBegin env io m u s)) = nvCert (certs s)"
  by (simp add: enrollBegin_def Let_def)

section \<open>Invariants\<close>

definition enInv :: "enEnv \<Rightarrow> enroll \<Rightarrow> bool" where
  "enInv env s \<longleftrightarrow> (job s = None \<or> stale s = None) \<and>
     (\<forall>j. job s = Some j \<and> jIsCheck j \<longrightarrow>
        (\<exists>c raw. nvCert (certs s) = Some c \<and> eSerialHex env c = Some raw \<and>
                 enrollSerialCanonical (Some raw) ENROLL_SERIAL_HEX_CAP = Some (ckSerial s)))"

lemma startCheck_inv:
  assumes "stale s = None" "job s = None" shows "enInv env (startCheck env io s)"
  using assms by (auto simp: startCheck_def enInv_def Let_def bind_eq_Some_conv split: option.splits if_splits)

lemma startJob_inv:
  assumes "stale s = None" "job s = None" shows "enInv env (startJob env io s)"
  using assms by (auto simp: startJob_def enInv_def Let_def split: option.splits)

lemma enInv_idle: "job s = None \<Longrightarrow> enInv env s"
  by (simp add: enInv_def)

lemma enInv_reap: "enInv env s \<Longrightarrow> enInv env (reapStale s)"
  by (auto simp: enInv_def reapStale_def split: option.splits)

lemma enrollLoop_inv: "enInv env s \<Longrightarrow> enInv env (enrollLoop env io s)"
proof -
  assume "enInv env s"
  then have i: "enInv env (reapStale s)" by (rule enInv_reap)
  show ?thesis
  proof (cases "stale (reapStale s)")
    case None
    show ?thesis
    proof (cases "job (reapStale s)")
      case idle: None
      then show ?thesis using None startCheck_inv [of "reapStale s"] startJob_inv [of "reapStale s"] enInv_idle
        by (auto simp: enrollLoop_def Let_def)
    next
      case (Some j)
      then show ?thesis using None i enInv_idle by (auto simp: enrollLoop_def Let_def)
    qed
  qed (use i in \<open>simp add: enrollLoop_def Let_def\<close>)
qed

lemma enrollTask_check [simp]: "jIsCheck (enrollTask b p n g j) = jIsCheck j"
  by (simp add: enrollTask_def Let_def)

lemma enStep_inv: "enStep env s s' \<Longrightarrow> enInv env s \<Longrightarrow> enInv env s'"
proof (induction rule: enStep.induct)
  case (Turn s io)
  then show ?case by (rule enrollLoop_inv)
next
  case (Boot s io canMint cfgUrl)
  then show ?case by (auto simp: enrollBegin_def Let_def intro!: enInv_idle)
qed (auto simp: enInv_def)

lemma enReach_inv: "(enStep env)\<^sup>*\<^sup>* s s' \<Longrightarrow> enInv env s \<Longrightarrow> enInv env s'"
  by (induction rule: rtranclp_induct) (auto intro: enStep_inv)


section \<open>The certificate changes only as the server answered\<close>

definition serialOf :: "enEnv \<Rightarrow> string \<Rightarrow> string option" where
  "serialOf env c = Option.bind (eSerialHex env c) (\<lambda>raw. enrollSerialCanonical (Some raw) ENROLL_SERIAL_HEX_CAP)"

lemma enStep_cert:
  assumes "enStep env s s'" "nvCert (certs s') \<noteq> nvCert (certs s)"
  shows "\<exists>j. job s = Some j \<and> ((\<exists>r. delivered env j r \<and> step s = Poll \<and> nvCert (certs s') = Some (rCert r)) \<or>
             (revokedFor env j (ckSerial s) \<and> nvCert (certs s') = None))"
  using assms
proof (cases rule: enStep.cases)
  case (Turn io)
  then show ?thesis using assms(2) enrollLoop_cert [of env io s] by metis
next
  case (Boot io m u)
  then show ?thesis using assms(2) by (simp add: enrollBegin_cert)
qed simp_all



definition newReply :: certReply where
  "newReply = \<lparr>rCert = ''D'', rKey = ''K2'', rId = ''thesada-0123456789ab'', rHost = ''b.example'', rPrefix = ''home/x'', rPort = 8883\<rparr>"

definition polEnv :: enEnv where
  "polEnv = \<lparr>eDeviceId = ''thesada-0123456789ab'', ePubHex = replicate 64 (CHR ''a''), eSign = \<lambda>_. Some (replicate 64 7),
     eChallenge = \<lambda>_. None, eCertReply = \<lambda>_. Some newReply, eStatusReply = \<lambda>_. None, ePairValid = \<lambda>_ _. True,
     eSerialHex = \<lambda>_. Some ''1a''\<rparr>"

definition polIo :: enIo where
  "polIo = \<lparr>ioMs = 100, ioRnd = 0, ioAck1 = True, ioAck2 = True, ioAckOpen = True, ioHeld = False, ioSave = True,
     ioCert = \<lparr>cOpen = True, cCertOk = True, cKeyOk = True, cHeap = True\<rparr>,
     ioAlloc = True, ioTask = True, ioWifi = True, ioNtp = True, ioMtls = True, ioEpoch = 0, ioCode = ''12345678''\<rparr>"

definition polStart :: enroll where
  "polStart = \<lparr>active = True, step = Poll, failures = 0, nextAt = 50, lastStatus = 0, job = None, stale = None, jobAt = 0,
     url = ''https://e.example'', sigHex = '''', ckDue = False, ckAt = 0, ckFailures = 0, ckLast = 0, ckSerial = '''',
     certs = \<lparr>nvCert = Some ''C'', nvKey = Some ''K'', storedCertBroken = False, certRebootPending = False, certRebootAtMs = 0\<rparr>,
     ackPending = False, cfgBroker = '''', cfgPort = 8883, cfgPrefix = ''''\<rparr>"


definition polMid :: enroll where
  "polMid = enrollLoop polEnv polIo polStart"

definition polDone :: enroll where
  "polDone = polMid\<lparr>job := Some (enrollTask True 200 1 ''r'' (the (job polMid)))\<rparr>"

lemma pol_values:
  "map_option jDone (job polMid) = Some False" "nvCert (certs polDone) = Some ''C''" "nvCert (certs (enrollLoop polEnv polIo polDone)) = Some ''D''"
  by code_simp+

lemma pol_reach: "(enStep polEnv)\<^sup>*\<^sup>* polStart polDone"
proof -
  have "enStep polEnv polStart polMid" unfolding polMid_def by (rule Turn)
  moreover have "enStep polEnv polMid polDone" unfolding polDone_def using pol_values(1) by (intro Answer) auto
  ultimately show ?thesis by (meson r_into_rtranclp rtranclp_trans)
qed


end
