(* ===== verification/Mesh_Frame.thy ===== *)
theory Mesh_Frame
  imports Fw_Prelude
begin

text \<open>
  The Meshtastic wire format: \<open>meshtastic_frame.h\<close> (packet header, protobuf varints, the \<open>Data\<close> message,
  channel hash, nonce) and the text layer of \<open>MeshtasticFrame.cpp\<close> over it. A buffer with its length is a
  list of bytes; a reader's index is the rest of the list; an encoder that returns 0 on overflow returns
  \<open>None\<close>. The AES key stream of the TLS library is the parameter \<open>ks\<close>: counter mode xors byte \<open>i\<close> of the
  buffer with byte \<open>i\<close> of a stream that depends on key and nonce.
\<close>

section \<open>Definitions\<close>

definition HEADER_LEN :: nat where "HEADER_LEN = 16"
definition BROADCAST :: u32 where "BROADCAST = 0xFFFFFFFF"
definition PORT_TEXT :: u32 where "PORT_TEXT = 1"
definition NONCE_LEN :: nat where "NONCE_LEN = 16"

definition DEFAULT_KEY :: "u8 list" where
  "DEFAULT_KEY = [0xd4, 0xf1, 0xbb, 0x3a, 0x20, 0x29, 0x07, 0x59, 0xf0, 0xbc, 0xff, 0xab, 0xcf, 0x4e, 0x69, 0x01]"

definition putLE32 :: "u32 \<Rightarrow> u8 list" where
  "putLE32 v = [ucast v, ucast (drop_bit 8 v), ucast (drop_bit 16 v), ucast (drop_bit 24 v)]"

definition getLE32 :: "u8 list \<Rightarrow> u32" where
  "getLE32 p = ((ucast (p ! 0) OR push_bit 8 (ucast (p ! 1))) OR push_bit 16 (ucast (p ! 2))) OR push_bit 24 (ucast (p ! 3))"

record Header =
  dest :: u32
  src :: u32
  packetId :: u32
  hopLimit :: u8
  wantAck :: bool
  viaMQTT :: bool
  hopStart :: u8
  channelHash' :: u8
  nextHop :: u8
  relayNode :: u8

definition headerPack :: "Header \<Rightarrow> u8 list" where
  "headerPack h =
     putLE32 (dest h) @ putLE32 (src h) @ putLE32 (packetId h) @
     [(((hopLimit h AND 7) OR (if wantAck h then 8 else 0)) OR (if viaMQTT h then 0x10 else 0)) OR push_bit 5 (hopStart h AND 7),
      channelHash' h, nextHop h, relayNode h]"

definition headerParse :: "u8 list \<Rightarrow> Header option" where
  "headerParse buf =
     (if length buf < HEADER_LEN then None
      else Some \<lparr>dest = getLE32 buf, src = getLE32 (drop 4 buf), packetId = getLE32 (drop 8 buf),
                 hopLimit = buf ! 12 AND 7, wantAck = (buf ! 12 AND 8 \<noteq> 0), viaMQTT = (buf ! 12 AND 0x10 \<noteq> 0),
                 hopStart = drop_bit 5 (buf ! 12) AND 7, channelHash' = buf ! 13, nextHop = buf ! 14, relayNode = buf ! 15\<rparr>)"

function varintWrite :: "u32 \<Rightarrow> nat \<Rightarrow> u8 list option" where
  "varintWrite v cap =
     (if cap = 0 then None
      else let b = ucast (v AND 0x7f) :: u8; v' = drop_bit 7 v
           in if v' \<noteq> 0 then map_option (\<lambda>r. (b OR 0x80) # r) (varintWrite v' (cap - 1)) else Some [b])"
  by pat_completeness auto
termination
  by (relation "measure snd") auto

fun varintLoop :: "u8 list \<Rightarrow> u32 \<Rightarrow> nat \<Rightarrow> u32 option \<times> u8 list" where
  "varintLoop [] v shift = (None, [])"
| "varintLoop (b # p) v shift =
     (if 28 < shift then (None, b # p)
      else let v' = v OR push_bit shift (ucast (b AND 0x7f))
           in if b AND 0x80 = 0 then (Some v', p) else varintLoop p v' (shift + 7))"

definition varintRead :: "u8 list \<Rightarrow> u32 option \<times> u8 list" where
  "varintRead p = varintLoop p 0 0"

definition dataEncode :: "u32 \<Rightarrow> u8 list \<Rightarrow> nat \<Rightarrow> u8 list option" where
  "dataEncode portnum payload cap =
     (if cap = 0 then None
      else case varintWrite portnum (cap - 1) of None \<Rightarrow> None
      | Some w \<Rightarrow>
          let n = 1 + length w
          in if cap \<le> n then None
             else case varintWrite (of_nat (length payload)) (cap - (n + 1)) of None \<Rightarrow> None
                  | Some l \<Rightarrow> if cap < n + 1 + length l + length payload then None
                              else Some ([0x08] @ w @ [0x12] @ l @ payload))"

lemma varintLoop_shorter: "length (snd (varintLoop p v shift)) \<le> length p"
  by (induction p v shift rule: varintLoop.induct) (auto simp: Let_def)

lemma varintRead_shorter: "varintRead p = (r, q) \<Longrightarrow> length q \<le> length p"
  using varintLoop_shorter [of p 0 0] by (simp add: varintRead_def)

text \<open>A length-delimited field: its bytes and the rest.\<close>

definition readBytes :: "u8 list \<Rightarrow> (u8 list \<times> u8 list) option" where
  "readBytes p = (case varintRead p of (None, _) \<Rightarrow> None
     | (Some l, q) \<Rightarrow> if length q < unat l then None else Some (take (unat l) q, drop (unat l) q))"

definition skipField :: "u8 \<Rightarrow> u8 list \<Rightarrow> u8 list option" where
  "skipField wire p =
     (if wire = 0 then (case varintRead p of (None, _) \<Rightarrow> None | (Some _, q) \<Rightarrow> Some q)
      else if wire = 1 then (if length p < 8 then None else Some (drop 8 p))
      else if wire = 2 then map_option snd (readBytes p)
      else if wire = 5 then (if length p < 4 then None else Some (drop 4 p))
      else None)"

lemma readBytes_shorter: "readBytes p = Some (bs, q) \<Longrightarrow> length q \<le> length p"
  using varintRead_shorter [of p] by (fastforce simp: readBytes_def split: prod.splits option.splits if_splits)

lemma skipField_shorter: "skipField wire p = Some q \<Longrightarrow> length q \<le> length p"
  using varintRead_shorter [of p] readBytes_shorter [of p]
  by (fastforce simp: skipField_def split: prod.splits option.splits if_splits)

function dataLoop :: "u8 list \<Rightarrow> u32 \<Rightarrow> u8 list option \<Rightarrow> (u32 \<times> u8 list) option" where
  "dataLoop [] portnum payload = map_option (Pair portnum) payload"
| "dataLoop (tag # p) portnum payload =
     (let field = drop_bit 3 tag; wire = tag AND 7
      in if field = 1 \<and> wire = 0 then
           (case varintRead p of (None, _) \<Rightarrow> None | (Some v, q) \<Rightarrow> dataLoop q v payload)
         else if field = 2 \<and> wire = 2 then
           (case readBytes p of None \<Rightarrow> None | Some (bs, q) \<Rightarrow> dataLoop q portnum (Some bs))
         else (case skipField wire p of None \<Rightarrow> None | Some q \<Rightarrow> dataLoop q portnum payload))"
  by pat_completeness auto
termination
  by (relation "measure (\<lambda>(p, _, _). length p)")
     (auto simp: less_Suc_eq_le dest: varintRead_shorter readBytes_shorter skipField_shorter dest!: sym [of _ "varintRead _"])

definition dataDecode :: "u8 list \<Rightarrow> (u32 \<times> u8 list) option" where
  "dataDecode buf = dataLoop buf 0 None"

definition xorFold :: "u8 list \<Rightarrow> u8" where
  "xorFold p = foldl (\<lambda>h b. h XOR b) 0 p"

definition channelHash :: "u8 list \<Rightarrow> u8 list \<Rightarrow> u8" where
  "channelHash name psk = xorFold name XOR xorFold psk"

definition nonceBuild :: "u32 \<Rightarrow> u32 \<Rightarrow> u8 list" where
  "nonceBuild pid fromNode = putLE32 pid @ replicate 4 0 @ putLE32 fromNode @ replicate 4 0"

definition frameBuild :: "Header \<Rightarrow> u8 list \<Rightarrow> nat \<Rightarrow> u8 list option" where
  "frameBuild h body cap = (if cap < HEADER_LEN + length body then None else Some (headerPack h @ body))"

definition frameSplit :: "u8 list \<Rightarrow> (Header \<times> u8 list) option" where
  "frameSplit buf = map_option (\<lambda>h. (h, drop HEADER_LEN buf)) (headerParse buf)"

subsection \<open>Text messages\<close>

record Channel =
  chKey :: "u8 list"
  chKeyLen :: nat
  chHash :: u8

type_synonym keyStream = "u8 list \<Rightarrow> u8 list \<Rightarrow> nat \<Rightarrow> u8"

definition aesCtr :: "keyStream \<Rightarrow> Channel \<Rightarrow> u32 \<Rightarrow> u32 \<Rightarrow> u8 list \<Rightarrow> u8 list" where
  "aesCtr ks ch fromNode pid buf =
     (if chKeyLen ch = 0 then buf
      else map (\<lambda>i. buf ! i XOR ks (take (chKeyLen ch) (chKey ch)) (nonceBuild pid fromNode) i) [0..<length buf])"

definition buildText :: "keyStream \<Rightarrow> Channel \<Rightarrow> u8 list \<Rightarrow> u32 \<Rightarrow> u32 \<Rightarrow> nat \<Rightarrow> u8 list option" where
  "buildText ks ch msg fromNode pid cap =
     (case dataEncode PORT_TEXT msg 240 of None \<Rightarrow> None
      | Some d \<Rightarrow>
          frameBuild \<lparr>dest = BROADCAST, src = fromNode, packetId = pid, hopLimit = 3, wantAck = False, viaMQTT = False,
                      hopStart = 3, channelHash' = chHash ch, nextHop = 0, relayNode = 0\<rparr> (aesCtr ks ch fromNode pid d) cap)"

text \<open>The result of a parse with the outputs its caller reads on it.\<close>

datatype Parse = ParseOk "u8 list" u32 u32 | NotOurs | ForeignPort u32 | Malformed

definition parseText :: "keyStream \<Rightarrow> Channel \<Rightarrow> u8 list \<Rightarrow> Parse" where
  "parseText ks ch buf =
     (case frameSplit buf of None \<Rightarrow> Malformed
      | Some (h, body) \<Rightarrow>
          if body = [] then Malformed
          else if channelHash' h \<noteq> chHash ch then NotOurs
          else if 240 < length body then Malformed
          else case dataDecode (aesCtr ks ch (src h) (packetId h) body) of None \<Rightarrow> Malformed
               | Some (port, payload) \<Rightarrow> if port \<noteq> PORT_TEXT then ForeignPort port else ParseOk payload (src h) (packetId h))"


section \<open>Varints\<close>

declare varintWrite.simps [simp del]

lemma mask7: "(0x7f :: 'a::len word) = mask 7"
  by (simp add: mask_eq_exp_minus_1)

lemma top_bit: "(0x80 :: u8) = 2 ^ 7"
  by simp

lemma group_bit: "bit (ucast ((v :: u32) AND 0x7f) :: u8) n \<longleftrightarrow> n < 7 \<and> bit v n"
  by (auto simp: mask7 bit_simps)

lemma group_stop: "(ucast ((v :: u32) AND 0x7f) :: u8) AND 0x80 = 0"
  unfolding top_bit and_exp_eq_0_iff_not_bit by (simp add: group_bit)

lemma group_more: "((b :: u8) OR 0x80) AND 0x80 \<noteq> 0"
  unfolding top_bit and_exp_eq_0_iff_not_bit by (simp add: bit_simps)

lemma top_bit_only: "bit (0x80 :: u8) m \<longleftrightarrow> m = 7"
  unfolding top_bit bit_exp_iff by auto

lemma drop_all: "32 \<le> k \<Longrightarrow> drop_bit k (V :: u32) = 0"
proof (rule bit_word_eqI)
  fix n assume "32 \<le> k"
  then have "\<not> bit V (k + n)" using bit_imp_le_length [of V "k + n"] by auto
  then show "bit (drop_bit k V) n = bit (0 :: u32) n" by (simp add: bit_drop_bit_eq)
qed

lemma group_value:
  assumes "c = ucast (drop_bit sh V AND 0x7f) \<or> c = ucast (drop_bit sh V AND 0x7f) OR (0x80 :: u8)"
  shows "take_bit sh V OR push_bit sh (ucast (c AND 0x7f)) = take_bit (sh + 7) (V :: u32)"
proof (rule bit_word_eqI)
  fix n assume n: "n < LENGTH(32)"
  have cb: "c AND 0x7f = ucast (drop_bit sh V AND 0x7f) AND (0x7f :: u8)"
    using assms by (auto simp: bit.conj_disj_distrib2)
  have c: "bit (c AND 0x7f) m \<longleftrightarrow> m < 7 \<and> bit V (sh + m)" for m
    unfolding cb by (auto simp: bit_and_iff mask7 bit_mask_iff group_bit [unfolded mask7] bit_drop_bit_eq)
  show "bit (take_bit sh V OR push_bit sh (ucast (c AND 0x7f))) n = bit (take_bit (sh + 7) V) n"
  proof (cases "n < sh")
    case False
    then obtain m where m: "n = sh + m" using le_Suc_ex by (metis not_le)
    have "bit (ucast (c AND 0x7f) :: u32) m \<longleftrightarrow> m < 7 \<and> bit V (sh + m)" using n c [of m] m by (simp add: bit_ucast_iff)
    then show ?thesis using n m by (simp add: bit_or_iff bit_take_bit_iff bit_push_bit_iff)
  qed (use n in \<open>simp add: bit_or_iff bit_take_bit_iff bit_push_bit_iff\<close>)
qed

lemma take_all: "drop_bit k V = 0 \<Longrightarrow> take_bit k V = (V :: u32)"
  by (metis bits_ident add_0 push_bit_of_0)

lemma more_groups:
  assumes "drop_bit (sh + 7) (V :: u32) \<noteq> 0" "7 dvd sh" shows "sh + 7 \<le> 28"
proof (rule ccontr)
  assume "\<not> sh + 7 \<le> 28"
  then have "32 \<le> sh + 7" using assms(2) by presburger
  then show False using assms(1) drop_all by blast
qed

lemma varint_loop:
  "varintWrite (drop_bit sh V) cap = Some bs \<Longrightarrow> 7 dvd sh \<Longrightarrow> sh \<le> 28 \<Longrightarrow>
   varintLoop (bs @ r) (take_bit sh V) sh = (Some V, r)"
proof (induction cap arbitrary: sh bs)
  case 0
  then show ?case by (simp add: varintWrite.simps)
next
  case (Suc cap)
  let ?b = "ucast (drop_bit sh V AND 0x7f) :: u8"
  show ?case
  proof (cases "drop_bit (sh + 7) V = 0")
    case True
    then have "bs = [?b]" using Suc.prems(1) by (subst (asm) varintWrite.simps) (simp add: drop_bit_drop_bit add.commute)
    then show ?thesis using Suc.prems(3) group_value [of ?b sh V] group_stop [of "drop_bit sh V"] take_all [OF True] by simp
  next
    case False
    then obtain cs where cs: "varintWrite (drop_bit (sh + 7) V) cap = Some cs" "bs = (?b OR 0x80) # cs"
      using Suc.prems(1) by (subst (asm) varintWrite.simps) (auto simp: drop_bit_drop_bit add.commute)
    have "varintLoop (cs @ r) (take_bit (sh + 7) V) (sh + 7) = (Some V, r)"
      using Suc.IH [OF cs(1)] more_groups [OF False Suc.prems(2)] Suc.prems(2) by simp
    then show ?thesis using cs(2) Suc.prems(3) group_value [of "?b OR 0x80" sh V] group_more [of ?b] by simp
  qed
qed

lemma varint_roundtrip: "varintWrite v cap = Some bs \<Longrightarrow> varintRead (bs @ r) = (Some v, r)"
  using varint_loop [of 0 v cap bs r] by (simp add: varintRead_def)


section \<open>Messages and frames\<close>

lemma readBytes_roundtrip:
  assumes "varintWrite (of_nat (length bs)) cap = Some w" "length bs < 2 ^ 32"
  shows "readBytes (w @ bs @ r) = Some (bs, r)"
  using varint_roundtrip [OF assms(1), of "bs @ r"] assms(2) unat_of_nat_small [of "length bs", where 'a = 32]
  by (simp add: readBytes_def)

lemma data_roundtrip:
  assumes "dataEncode port payload cap = Some bs" "cap \<le> 2 ^ 32"
  shows "dataDecode bs = Some (port, payload)"
proof -
  obtain w l where wl: "varintWrite port (cap - 1) = Some w"
    "varintWrite (of_nat (length payload)) (cap - (1 + length w + 1)) = Some l" "bs = [0x08] @ w @ [0x12] @ l @ payload"
    "1 + length w + 1 + length l + length payload \<le> cap"
    using assms(1) by (auto simp: dataEncode_def Let_def split: if_splits option.splits)
  have "length payload < 2 ^ 32" using wl(4) assms(2) by simp
  from readBytes_roundtrip [OF wl(2) this, of "[]"] have r: "readBytes (l @ payload) = Some (payload, [])" by simp
  have w: "varintRead (w @ 0x12 # l @ payload) = (Some port, 0x12 # l @ payload)" by (rule varint_roundtrip [OF wl(1)])
  have tags: "drop_bit 3 (8 :: u8) = 1" "(8 :: u8) AND 7 = 0" "drop_bit 3 (0x12 :: u8) = 2" "(0x12 :: u8) AND 7 = 2" by simp_all
  show ?thesis unfolding dataDecode_def wl(3) using r w tags by (simp add: Let_def)
qed

lemma getLE32_put: "getLE32 (putLE32 v @ r) = v"
  by (simp add: getLE32_def putLE32_def le32_join)

lemma length_putLE32 [simp]: "length (putLE32 v) = 4"
  by (simp add: putLE32_def)

lemma length_headerPack [simp]: "length (headerPack h) = HEADER_LEN"
  by (simp add: headerPack_def HEADER_LEN_def)

lemma flags_bits:
  fixes lim start :: u8 and a m :: bool
  defines "f \<equiv> ((lim AND 7 OR (if a then 8 else 0)) OR (if m then 0x10 else 0)) OR push_bit 5 (start AND 7)"
  shows "f AND 7 = lim AND 7" "f AND 8 \<noteq> 0 \<longleftrightarrow> a" "f AND 0x10 \<noteq> 0 \<longleftrightarrow> m" "drop_bit 5 f AND 7 = start AND 7"
proof -
  have m7: "(7 :: u8) = mask 3" and p: "(8 :: u8) = 2 ^ 3" "(0x10 :: u8) = 2 ^ 4" by (simp_all add: mask_eq_exp_minus_1)
  have e: "bit (8 :: u8) n \<longleftrightarrow> n = 3" "bit (0x10 :: u8) n \<longleftrightarrow> n = 4" for n
    using bit_exp_iff [of 3 n, where 'a = u8] bit_exp_iff [of 4 n, where 'a = u8] by (auto simp del: bit_numeral_word_iff)
  have f: "bit f n \<longleftrightarrow> (n < 3 \<and> bit lim n \<or> n = 3 \<and> a \<or> n = 4 \<and> m \<or> 5 \<le> n \<and> bit start (n - 5))" if "n < 8" for n
    using that unfolding f_def by (auto simp: bit_or_iff bit_and_iff m7 bit_mask_iff e bit_push_bit_iff simp del: bit_numeral_word_iff)
  show "f AND 7 = lim AND 7" by (rule bit_word_eqI) (auto simp: bit_and_iff m7 bit_mask_iff f)
  show "f AND 8 \<noteq> 0 \<longleftrightarrow> a" unfolding p and_exp_eq_0_iff_not_bit using f [of 3] by simp
  show "f AND 0x10 \<noteq> 0 \<longleftrightarrow> m" unfolding p and_exp_eq_0_iff_not_bit using f [of 4] by simp
  show "drop_bit 5 f AND 7 = start AND 7" by (rule bit_word_eqI) (auto simp: bit_and_iff m7 bit_mask_iff bit_drop_bit_eq f)
qed

lemma headerPack_nth:
  "headerPack h ! 12 = (((hopLimit h AND 7) OR (if wantAck h then 8 else 0)) OR (if viaMQTT h then 0x10 else 0)) OR push_bit 5 (hopStart h AND 7)"
  "headerPack h ! 13 = channelHash' h" "headerPack h ! 14 = nextHop h" "headerPack h ! 15 = relayNode h"
  by (simp_all add: headerPack_def putLE32_def)

lemma header_roundtrip:
  "headerParse (headerPack h @ body) = Some (h\<lparr>hopLimit := hopLimit h AND 7, hopStart := hopStart h AND 7\<rparr>)"
proof -
  let ?b = "headerPack h @ body"
  have n: "?b ! i = headerPack h ! i" if "i < 16" for i using that by (simp add: nth_append HEADER_LEN_def)
  have d: "drop 4 ?b = putLE32 (src h) @ drop 8 ?b" "?b = putLE32 (dest h) @ drop 4 ?b" "drop 8 ?b = putLE32 (packetId h) @ drop 12 ?b"
    by (simp_all add: headerPack_def)
  have "getLE32 ?b = dest h" "getLE32 (drop 4 ?b) = src h" "getLE32 (drop 8 ?b) = packetId h"
    using getLE32_put d by metis+
  then show ?thesis unfolding headerParse_def
    using flags_bits [of "hopLimit h" "wantAck h" "viaMQTT h" "hopStart h"] by (simp add: n headerPack_nth HEADER_LEN_def del: append_assoc)
qed

lemma frame_roundtrip:
  "frameBuild h body cap = Some f \<Longrightarrow>
   frameSplit f = Some (h\<lparr>hopLimit := hopLimit h AND 7, hopStart := hopStart h AND 7\<rparr>, body)"
  by (auto simp: frameBuild_def frameSplit_def header_roundtrip split: if_splits)

lemma length_aesCtr [simp]: "length (aesCtr ks ch a p buf) = length buf"
  by (simp add: aesCtr_def)

lemma aesCtr_twice: "aesCtr ks ch a p (aesCtr ks ch a p buf) = buf"
  by (auto simp: aesCtr_def xor.assoc intro: nth_equalityI)


section \<open>Text messages come back\<close>

lemma unat_group: "unat (drop_bit 7 (v :: u32)) = unat v div 128"
  by (simp add: drop_bit_eq_div unat_div)

lemma more_iff: "drop_bit 7 (v :: u32) = 0 \<longleftrightarrow> unat v < 128"
  using unat_group [of v] by (metis div_eq_0_iff unsigned_eq_0_iff zero_neq_numeral)

lemma varint_one: "unat v < 128 \<Longrightarrow> 0 < cap \<Longrightarrow> \<exists>b. varintWrite v cap = Some [b]"
  by (subst varintWrite.simps) (simp add: more_iff Let_def)

lemma varint_two:
  assumes "128 \<le> unat v" "unat v < 16384" "2 \<le> cap" shows "\<exists>a b. varintWrite v cap = Some [a, b]"
proof -
  have "unat (drop_bit 7 v) < 128" using assms(2) by (simp add: unat_group)
  then obtain b where "varintWrite (drop_bit 7 v) (cap - 1) = Some [b]" using varint_one [of "drop_bit 7 v" "cap - 1"] assms(3) by auto
  then show ?thesis using assms by (subst varintWrite.simps) (simp add: more_iff Let_def)
qed

lemma varint_length:
  assumes "unat v < 16384" "2 \<le> cap"
  shows "\<exists>w. varintWrite v cap = Some w \<and> length w = (if unat v < 128 then 1 else 2)"
  using varint_one [of v cap] varint_two [of v cap] assms by (cases "unat v < 128") auto

lemma textEncode_fits:
  assumes "length msg \<le> 235"
  shows "\<exists>d. dataEncode PORT_TEXT msg 240 = Some d \<and> d \<noteq> [] \<and> length d \<le> 240"
proof -
  have n: "unat (of_nat (length msg) :: u32) = length msg" using assms by (intro unat_of_nat_small) simp
  obtain w where w: "varintWrite PORT_TEXT 239 = Some w" "length w = 1" using varint_length [of PORT_TEXT 239] by (auto simp: PORT_TEXT_def)
  obtain l where l: "varintWrite (of_nat (length msg)) 237 = Some l" "length l \<le> 2"
    using varint_length [of "of_nat (length msg)" 237] n assms by auto
  show ?thesis using w l assms by (simp add: dataEncode_def Let_def)
qed

lemma textEncode_refuses:
  assumes "dataEncode PORT_TEXT msg 240 = Some d" shows "length msg \<le> 235 \<and> d \<noteq> [] \<and> length d \<le> 240"
proof -
  obtain w where w: "varintWrite PORT_TEXT 239 = Some w" "length w = 1" using varint_length [of PORT_TEXT 239] by (auto simp: PORT_TEXT_def)
  then obtain l where l: "varintWrite (of_nat (length msg)) 237 = Some l" "3 + length l + length msg \<le> 240" "d = [0x08] @ w @ [0x12] @ l @ msg"
    using assms by (auto simp: dataEncode_def Let_def split: option.splits if_splits)
  have n: "unat (of_nat (length msg) :: u32) = length msg" using l(2) by (intro unat_of_nat_small) simp
  have "length l = (if length msg < 128 then 1 else 2)" using varint_length [of "of_nat (length msg)" 237] n l(1,2) by auto
  then show ?thesis using l w(2) by (auto split: if_splits)
qed

text \<open>C26: A text of at most 235 bytes becomes a frame of at most 256 bytes, and every receiver with the same channel
  reads exactly that text, sender and packet id out of it, whatever the key stream; a longer text is refused
  before anything is sent.\<close>

theorem text_roundtrip:
  "case buildText ks ch msg fromNode pid 256 of
     None \<Rightarrow> 235 < length msg
   | Some f \<Rightarrow> length msg \<le> 235 \<and> length f \<le> 256 \<and> parseText ks ch f = ParseOk msg fromNode pid"
proof (cases "dataEncode PORT_TEXT msg 240")
  case None
  then show ?thesis using textEncode_fits [of msg] by (cases "length msg \<le> 235") (auto simp: buildText_def)
next
  case (Some d)
  note d = textEncode_refuses [OF Some]
  let ?h = "\<lparr>dest = BROADCAST, src = fromNode, packetId = pid, hopLimit = 3, wantAck = False, viaMQTT = False,
             hopStart = 3, channelHash' = chHash ch, nextHop = 0, relayNode = 0\<rparr>"
  obtain f where f: "frameBuild ?h (aesCtr ks ch fromNode pid d) 256 = Some f" "length f \<le> 256"
    using d by (auto simp: frameBuild_def HEADER_LEN_def)
  have e: "aesCtr ks ch fromNode pid d \<noteq> []" using d by (metis length_0_conv length_aesCtr)
  have "dataDecode d = Some (PORT_TEXT, msg)" using data_roundtrip [OF Some] by simp
  then have "parseText ks ch f = ParseOk msg fromNode pid"
    using frame_roundtrip [OF f(1)] d e by (simp add: parseText_def aesCtr_twice)
  then show ?thesis using f Some d by (simp add: buildText_def)
qed

end
