(* ===== verification/Lora_Module.thy ===== *)
theory Lora_Module
  imports Complex_Main Mesh_Frame Mqtt_Queue
begin

text \<open>
  The LoRa module: radio parameters derived from preset, region and channel name (\<open>meshtastic_radio.h\<close>), the
  filter of repeated packets (\<open>lora_dedup_policy.h\<close>) and the module itself (\<open>LoRaModule.cpp\<close>).

  A frequency or bandwidth is the exact value of its \<open>float\<close> as a \<open>rat\<close>. The steps are 1/8, 1/4 or 1/2 MHz and
  every table value is a multiple of \<open>2 ^ -14\<close> MHz below 1024, so the sums, products and quotients below are the
  ones the float unit computes, without rounding. The radio driver is a parameter: what it returns on
  start, on a transmit and on a poll.
\<close>

section \<open>Definitions\<close>

subsection \<open>Radio parameters\<close>

definition SYNC :: u8 where "SYNC = 0x2b"
definition PREAMBLE :: u16 where "PREAMBLE = 16"

record Preset =
  pName :: string
  bwKhz :: rat
  sf :: u8
  cr :: u8

definition PRESETS :: "Preset list" where
  "PRESETS =
    [\<lparr>pName = ''ShortTurbo'', bwKhz = 500, sf = 7, cr = 5\<rparr>,
     \<lparr>pName = ''ShortFast'', bwKhz = 250, sf = 7, cr = 5\<rparr>,
     \<lparr>pName = ''ShortSlow'', bwKhz = 250, sf = 8, cr = 5\<rparr>,
     \<lparr>pName = ''MediumFast'', bwKhz = 250, sf = 9, cr = 5\<rparr>,
     \<lparr>pName = ''MediumSlow'', bwKhz = 250, sf = 10, cr = 5\<rparr>,
     \<lparr>pName = ''LongTurbo'', bwKhz = 500, sf = 11, cr = 8\<rparr>,
     \<lparr>pName = ''LongFast'', bwKhz = 250, sf = 11, cr = 5\<rparr>,
     \<lparr>pName = ''LongMod'', bwKhz = 125, sf = 11, cr = 8\<rparr>]"

record Region =
  rName :: string
  freqStart :: rat
  freqEnd :: rat
  spacing :: rat

text \<open>\<open>869.4f\<close> and \<open>869.65f\<close> are the floats 14244250 / 16384 and 14248346 / 16384.\<close>

definition REGIONS :: "Region list" where
  "REGIONS =
    [\<lparr>rName = ''US'', freqStart = 902, freqEnd = 928, spacing = 0\<rparr>,
     \<lparr>rName = ''EU_868'', freqStart = 14244250 / 16384, freqEnd = 14248346 / 16384, spacing = 0\<rparr>,
     \<lparr>rName = ''ANZ'', freqStart = 915, freqEnd = 928, spacing = 0\<rparr>]"

definition presetFind :: "string \<Rightarrow> Preset option" where
  "presetFind name = find (\<lambda>p. name = pName p) PRESETS"

definition regionFind :: "string \<Rightarrow> Region option" where
  "regionFind name = find (\<lambda>r. name = rName r) REGIONS"

definition djb2 :: "string \<Rightarrow> u32" where
  "djb2 s = foldl (\<lambda>h c. h * 33 + of_char c) 5381 s"

definition chanStep :: "Region \<Rightarrow> rat \<Rightarrow> rat" where
  "chanStep r bw = spacing r + bw / 1000"

definition numChannels :: "Region \<Rightarrow> rat \<Rightarrow> u16" where
  "numChannels r bw = (if chanStep r bw \<le> 0 then 0 else of_int \<lfloor>(freqEnd r - freqStart r) / chanStep r bw\<rfloor>)"

definition slotFreqMhz :: "Region \<Rightarrow> rat \<Rightarrow> string \<Rightarrow> rat \<times> u16" where
  "slotFreqMhz r bw channel =
     (let n = numChannels r bw
      in if n = 0 then (0, 0)
         else let slot = ucast (djb2 channel mod ucast n) :: u16
              in (freqStart r + bw / 2000 + of_nat (unat slot) * chanStep r bw, slot))"

definition b64Val :: "char \<Rightarrow> nat option" where
  "b64Val c = (if isUpper c then Some (ccode c - 65) else if isLower c then Some (ccode c - 97 + 26)
     else if isDigit c then Some (ccode c - 48 + 52) else if c = CHR ''+'' then Some 62 else if c = CHR ''/'' then Some 63 else None)"

text \<open>\<open>None\<close> stands for \<open>SIZE_MAX\<close>; \<open>out\<close> is what was decoded so far.\<close>

fun b64Loop :: "nat \<Rightarrow> string \<Rightarrow> u32 \<Rightarrow> nat \<Rightarrow> bool \<Rightarrow> u8 list \<Rightarrow> u8 list option" where
  "b64Loop cap [] acc bits pad out = Some out"
| "b64Loop cap (c # s) acc bits pad out =
     (case b64Val c of
        None \<Rightarrow> if c = CHR ''='' then b64Loop cap s acc bits True out else None
      | Some v \<Rightarrow>
          if pad then None
          else let acc' = push_bit 6 acc OR of_nat v; bits' = bits + 6
               in if 8 \<le> bits'
                  then (if cap \<le> length out then None else b64Loop cap s acc' (bits' - 8) pad (out @ [ucast (drop_bit (bits' - 8) acc')]))
                  else b64Loop cap s acc' bits' pad out)"

definition b64Decode :: "cstr \<Rightarrow> nat \<Rightarrow> u8 list option" where
  "b64Decode s cap = (case s of None \<Rightarrow> None | Some x \<Rightarrow> b64Loop cap x 0 0 False [])"

definition pskExpand :: "u8 list \<Rightarrow> u8 list \<Rightarrow> bool \<times> u8 list \<times> nat" where
  "pskExpand psk keyOut =
     (if length psk = 1 \<and> psk ! 0 = 0 then (True, keyOut, 0)
      else if length psk = 0 \<or> length psk = 1
      then (let k = DEFAULT_KEY @ drop 16 keyOut
            in (True, if length psk = 1 then k[15 := k ! 15 + (psk ! 0 - 1)] else k, length DEFAULT_KEY))
      else if length psk = 16 \<or> length psk = 32 then (True, psk @ drop (length psk) keyOut, length psk)
      else (False, keyOut, 0))"

subsection \<open>Repeated packets\<close>

record DedupRing =
  dSrc :: "u32 list"
  dId :: "u32 list"
  dNext :: nat
  dCount :: nat

definition dedupInit :: "nat \<Rightarrow> DedupRing" where
  "dedupInit N = \<lparr>dSrc = replicate N 0, dId = replicate N 0, dNext = 0, dCount = 0\<rparr>"

definition dedupStore :: "nat \<Rightarrow> u32 \<times> u32 \<Rightarrow> DedupRing \<Rightarrow> DedupRing" where
  "dedupStore N x d =
     d\<lparr>dSrc := (dSrc d)[dNext d := fst x], dId := (dId d)[dNext d := snd x], dNext := (dNext d + 1) mod N,
       dCount := (if dCount d < N then dCount d + 1 else dCount d)\<rparr>"

definition seenAndRecord :: "nat \<Rightarrow> u32 \<Rightarrow> u32 \<Rightarrow> DedupRing \<Rightarrow> bool \<times> DedupRing" where
  "seenAndRecord N s pid d =
     (if pid = 0 then (False, d)
      else if list_ex (\<lambda>i. dSrc d ! i = s \<and> dId d ! i = pid) [0..<dCount d] then (True, d)
      else (False, dedupStore N (s, pid) d))"


subsection \<open>The module\<close>

text \<open>The \<open>lora\<close> section of the configuration; a missing value is \<open>None\<close>. The \<open>meshtastic\<close> entry may be a
  bool (the older form) or an object.\<close>

record meshCfg =
  cRegion :: "string option"
  cPreset :: "string option"
  cChannel :: "string option"
  cPsk :: "string option"

record loraCfg =
  cFreq :: "rat option"
  cBw :: "rat option"
  cSf :: "u8 option"
  cCr :: "u8 option"
  cPower :: "int option"
  cPreamble :: "u16 option"
  cSync :: "u8 option"
  cListen :: "bool option"
  cMode :: "string option"
  cMeshBool :: "bool option"
  cMesh :: "meshCfg option"
  cNode :: "u32 option"
  cPrefix :: "string option"

definition orElse :: "'a option \<Rightarrow> 'a \<Rightarrow> 'a" where
  "orElse x d = (case x of None \<Rightarrow> d | Some v \<Rightarrow> v)"

record LoRaRx =
  received :: bool
  crcErr :: bool
  rxData :: "u8 list"
  rssi :: rat
  snr :: rat

record lora =
  lOk :: bool
  lListening :: bool
  lMeshtastic :: bool
  lNode :: u32
  lChan :: Channel
  lSlot :: u16
  lChanName :: string
  lFreq :: rat
  lBw :: rat
  lSf :: u8
  lCr :: u8
  lPower :: int
  lPreamble :: u16
  lSync :: u8
  lRssi :: rat
  lSnr :: rat
  lRxCount :: u32
  lRxDup :: u32
  lSeen :: DedupRing          \<comment> \<open>the static \<open>rxSeen\<close> of \<open>publishRx\<close>\<close>
  lReceiving :: bool          \<comment> \<open>the radio is armed for reception, not in standby\<close>

definition bytesOf :: "string \<Rightarrow> u8 list" where
  "bytesOf s = map of_char s"

definition meshApply :: "Preset \<Rightarrow> Region \<Rightarrow> string \<Rightarrow> u8 list \<Rightarrow> lora \<Rightarrow> bool \<times> lora" where
  "meshApply p r channel psk st =
     (let (ok, key, keyLen) = pskExpand psk (chKey (lChan st)); st1 = st\<lparr>lChan := (lChan st)\<lparr>chKey := key, chKeyLen := keyLen\<rparr>\<rparr>
      in if \<not> ok then (False, st1)
         else let st2 = st1\<lparr>lChan := (lChan st1)\<lparr>chHash := channelHash (bytesOf channel) (take keyLen key)\<rparr>\<rparr>;
                  (f, slot) = slotFreqMhz r (bwKhz p) channel;
                  st3 = st2\<lparr>lSlot := slot\<rparr>
              in if f \<le> 0 then (False, st3)
                 else (True, st3\<lparr>lFreq := f, lBw := bwKhz p, lSf := sf p, lCr := cr p, lSync := SYNC, lPreamble := PREAMBLE,
                                 lChanName := c_snprintf 33 channel\<rparr>))"

definition meshConfig :: "meshCfg option \<Rightarrow> lora \<Rightarrow> bool \<times> lora" where
  "meshConfig mv st =
     (let field = (\<lambda>f d. case mv of None \<Rightarrow> d | Some m \<Rightarrow> orElse (f m) d);
          region = field cRegion ''US''; preset = field cPreset ''LongFast''; chan0 = field cChannel ''''; pskB64 = field cPsk ''''
      in case (presetFind preset, regionFind region) of
           (Some p, Some r) \<Rightarrow>
             (case (if pskB64 = '''' then Some [] else b64Decode (Some pskB64) 32) of
                None \<Rightarrow> (False, st)
              | Some psk \<Rightarrow> meshApply p r (if chan0 = '''' then pName p else chan0) psk st)
         | _ \<Rightarrow> (False, st))"

definition setListening :: "bool \<Rightarrow> lora \<Rightarrow> lora" where
  "setListening on st = (if \<not> lOk st then st else st\<lparr>lListening := on, lReceiving := on\<rparr>)"

definition loraReadCfg :: "loraCfg \<Rightarrow> lora \<Rightarrow> lora" where
  "loraReadCfg c st =
     st\<lparr>lFreq := orElse (cFreq c) 915, lBw := orElse (cBw c) 125, lSf := orElse (cSf c) 9, lCr := orElse (cCr c) 7,
        lPower := orElse (cPower c) 14, lPreamble := orElse (cPreamble c) 8, lSync := orElse (cSync c) 0x12\<rparr>"

text \<open>\<open>mac\<close> is the low half of the chip's MAC, \<open>radioBegin\<close> the driver's status for the derived parameters.\<close>

definition loraBegin :: "u32 \<Rightarrow> (lora \<Rightarrow> int) \<Rightarrow> loraCfg \<Rightarrow> lora \<Rightarrow> lora" where
  "loraBegin mac radioBegin c st0 =
     (let st = loraReadCfg c st0; mode = orElse (cMode c) ''''
      in if mode \<noteq> '''' \<and> mode \<noteq> ''thesada'' \<and> mode \<noteq> ''meshtastic'' then st
         else let m = (mode = ''meshtastic'' \<or> (mode = '''' \<and> cMeshBool c = Some True));
                  node = orElse (cNode c) mac;
                  st1 = st\<lparr>lMeshtastic := m, lNode := (if node = 0 then 1 else node)\<rparr>;
                  (ok, st2) = (if m then meshConfig (cMesh c) st1 else (True, st1))
              in if \<not> ok then st2
                 else if radioBegin st2 \<noteq> 0 then st2
                 else let st3 = st2\<lparr>lOk := True, lReceiving := False\<rparr>
                      in if orElse (cListen c) True then setListening True st3 else st3)"

definition transmit :: "keyStream \<Rightarrow> (u8 list \<Rightarrow> bool) \<Rightarrow> u32 \<Rightarrow> u8 list \<Rightarrow> lora \<Rightarrow> bool \<times> u8 list option \<times> lora" where
  "transmit ks radioTx rnd msg st =
     (if \<not> lOk st then (False, None, st)
      else let pid = (if rnd = 0 then 1 else rnd);
               frame = (if lMeshtastic st then buildText ks (lChan st) msg (lNode st) pid 256 else Some msg);
               fin = (case frame of None \<Rightarrow> False | Some f \<Rightarrow> radioTx f);
               st1 = (if frame = None then st else st\<lparr>lReceiving := False\<rparr>)
           in (fin, frame, if lListening st then st1\<lparr>lReceiving := True\<rparr> else st1))"

record LoRaMsg =
  mTopic :: "string option"
  mData :: "u8 list"
  mFrom :: "string option"
  mRssi :: rat
  mSnr :: rat
  mCount :: u32

definition hexNibble :: "nat \<Rightarrow> char" where
  "hexNibble n = ''0123456789abcdef'' ! n"

definition nodeId :: "u32 \<Rightarrow> string" where
  "nodeId w = CHR ''!'' # map (\<lambda>i. hexNibble (unat (drop_bit (4 * i) w AND 15))) [7, 6, 5, 4, 3, 2, 1, 0]"

text \<open>The message goes to the event bus, and to MQTT when its topic fits: \<open>mTopic\<close> is that topic.\<close>

definition rxTopic :: "loraCfg \<Rightarrow> string option" where
  "rxTopic c = (let (t, ok) = mqttTopicVfmt (Some '''') MQTT_TOPIC_CAP (Some (orElse (cPrefix c) ''thesada/node'' @ ''/lora/rx''))
                in if ok then t else None)"

definition rxMsg :: "loraCfg \<Rightarrow> LoRaRx \<Rightarrow> u8 list \<Rightarrow> string option \<Rightarrow> lora \<Rightarrow> LoRaMsg" where
  "rxMsg c rx txt from st = \<lparr>mTopic = rxTopic c, mData = txt, mFrom = from, mRssi = rssi rx, mSnr = snr rx, mCount = lRxCount st\<rparr>"

definition RX_SEEN :: nat where "RX_SEEN = 64"

text \<open>What a received packet is published as, if it is; the second component is the module's state after it.\<close>

definition publishRx :: "keyStream \<Rightarrow> loraCfg \<Rightarrow> LoRaRx \<Rightarrow> lora \<Rightarrow> LoRaMsg option \<times> lora" where
  "publishRx ks c rx st =
     (if lMeshtastic st
      then (case parseText ks (lChan st) (rxData rx) of
              ParseOk txt from pid \<Rightarrow>
                (let (dup, d) = seenAndRecord RX_SEEN from pid (lSeen st); st1 = st\<lparr>lSeen := d\<rparr>
                 in if dup then (None, st1\<lparr>lRxDup := lRxDup st1 + 1\<rparr>) else (Some (rxMsg c rx txt (Some (nodeId from)) st1), st1))
            | _ \<Rightarrow> (None, st))
      else (Some (rxMsg c rx (takeWhile (\<lambda>b. b \<noteq> 0) (rxData rx)) None st), st))"

definition loraLoop :: "keyStream \<Rightarrow> loraCfg \<Rightarrow> LoRaRx option \<Rightarrow> lora \<Rightarrow> LoRaMsg option \<times> lora" where
  "loraLoop ks c polled st =
     (if \<not> lOk st \<or> \<not> lListening st then (None, st)
      else case polled of None \<Rightarrow> (None, st)
      | Some rx \<Rightarrow>
          let st1 = st\<lparr>lRxCount := lRxCount st + 1, lRssi := rssi rx, lSnr := snr rx, lReceiving := True\<rparr>
          in if received rx \<and> \<not> crcErr rx then publishRx ks c rx st1 else (None, st1))"


section \<open>Transmission stays inside the region's band\<close>

lemma channels_count:
  assumes "0 < chanStep r bw" "0 \<le> (freqEnd r - freqStart r) / chanStep r bw" "(freqEnd r - freqStart r) / chanStep r bw < 65536"
  shows "of_nat (unat (numChannels r bw)) \<le> (freqEnd r - freqStart r) / chanStep r bw"
proof -
  let ?q = "(freqEnd r - freqStart r) / chanStep r bw"
  have q: "0 \<le> \<lfloor>?q\<rfloor>" "\<lfloor>?q\<rfloor> < 65536" using assms by (auto simp: floor_less_iff)
  have "numChannels r bw = of_nat (nat \<lfloor>?q\<rfloor>)" using assms(1) q(1) by (simp add: numChannels_def)
  moreover have "nat \<lfloor>?q\<rfloor> < 65536" using q by linarith
  then have "nat \<lfloor>?q\<rfloor> < 2 ^ LENGTH(16)" by simp
  ultimately have u: "unat (numChannels r bw) = nat \<lfloor>?q\<rfloor>" using unat_of_nat_small by metis
  have "(of_nat (nat \<lfloor>?q\<rfloor>) :: rat) = of_int \<lfloor>?q\<rfloor>" using q(1) by simp
  then show ?thesis unfolding u by simp
qed

lemma nat_step: "a < b \<Longrightarrow> (of_nat a :: rat) + 1 \<le> of_nat b"
  using of_nat_mono [of "Suc a" b, where 'a = rat] by simp

lemma slot_below:
  assumes "n \<noteq> 0" shows "unat (ucast ((h :: u32) mod ucast (n :: u16)) :: u16) < unat n"
proof -
  have "unat n < 65536" using unsigned_less [of n, where 'a = nat] by simp
  then have "unat n < 2 ^ 32" by simp
  then have u: "unat (ucast n :: u32) = unat n" by (simp add: unsigned_ucast_eq take_bit_nat_eq_self)
  have n: "0 < unat n" using assms by (simp add: unat_gt_0)
  then have "unat (h mod ucast n) < unat n" by (simp add: unat_mod u)
  moreover have "unat n < 65536" using unsigned_less [of n] by simp
  ultimately show ?thesis by (simp add: unsigned_ucast_eq take_bit_nat_eq_self)
qed

lemma slot_in_band:
  assumes "0 \<le> spacing r" "0 < bw" "0 \<le> (freqEnd r - freqStart r) / chanStep r bw" "(freqEnd r - freqStart r) / chanStep r bw < 65536"
    and "slotFreqMhz r bw ch = (f, slot)" "0 < f"
  shows "freqStart r \<le> f - bw / 2000" "f + bw / 2000 \<le> freqEnd r"
proof -
  let ?s = "chanStep r bw"
  have s: "0 < ?s" "bw / 1000 \<le> ?s" using assms(1,2) by (simp_all add: chanStep_def)
  have n0: "numChannels r bw \<noteq> 0" using assms(5,6) by (auto simp: slotFreqMhz_def Let_def)
  then have f: "f = freqStart r + bw / 2000 + of_nat (unat slot) * ?s" and "unat slot < unat (numChannels r bw)"
    using assms(5) slot_below [OF n0, of "djb2 ch"] by (auto simp: slotFreqMhz_def Let_def)
  then have "of_nat (unat slot) + 1 \<le> (of_nat (unat (numChannels r bw)) :: rat)" by (intro nat_step)
  then have "of_nat (unat slot) + 1 \<le> (freqEnd r - freqStart r) / ?s" using channels_count [OF s(1) assms(3,4)] by linarith
  then have "(of_nat (unat slot) + 1) * ?s \<le> freqEnd r - freqStart r" using s(1) by (simp add: pos_le_divide_eq)
  then show "f + bw / 2000 \<le> freqEnd r" using s(2) by (simp add: f distrib_right)
  have "0 \<le> of_nat (unat slot) * ?s" using s(1) by (intro mult_nonneg_nonneg) (rule of_nat_0_le_iff, simp)
  then show "freqStart r \<le> f - bw / 2000" unfolding f by linarith
qed

lemma tables_fit:
  assumes "presetFind preset = Some p" "regionFind region = Some r"
  shows "0 \<le> spacing r" "0 < bwKhz p" "0 \<le> (freqEnd r - freqStart r) / chanStep r (bwKhz p)"
    "(freqEnd r - freqStart r) / chanStep r (bwKhz p) < 65536"
proof -
  have "p \<in> set PRESETS" "r \<in> set REGIONS" using assms by (auto simp: presetFind_def regionFind_def find_Some_iff)
  then show "0 \<le> spacing r" "0 < bwKhz p" "0 \<le> (freqEnd r - freqStart r) / chanStep r (bwKhz p)"
    "(freqEnd r - freqStart r) / chanStep r (bwKhz p) < 65536"
    by (auto simp: PRESETS_def REGIONS_def chanStep_def)
qed


lemma pskExpand_ok:
  assumes "pskExpand psk key = (True, k, n)" shows "n \<in> {0, 16, 32} \<and> n \<le> length k"
  using assms by (auto simp: pskExpand_def Let_def DEFAULT_KEY_def split: if_splits)

lemma meshApply_ok:
  assumes "meshApply p r ch psk st = (True, st')"
  shows "\<exists>slot. slotFreqMhz r (bwKhz p) ch = (lFreq st', slot)" "0 < lFreq st'" "lBw st' = bwKhz p" "lSf st' = sf p" "lCr st' = cr p"
    "chKeyLen (lChan st') \<in> {0, 16, 32}" "chKeyLen (lChan st') \<le> length (chKey (lChan st'))"
proof -
  obtain ok key n f slot where e: "pskExpand psk (chKey (lChan st)) = (ok, key, n)" "slotFreqMhz r (bwKhz p) ch = (f, slot)"
    by (metis prod_cases3 surj_pair)
  have ok: ok "0 < f" using assms e by (auto simp: meshApply_def Let_def split: if_splits)
  then show "\<exists>slot. slotFreqMhz r (bwKhz p) ch = (lFreq st', slot)" "0 < lFreq st'" "lBw st' = bwKhz p" "lSf st' = sf p" "lCr st' = cr p"
    "chKeyLen (lChan st') \<in> {0, 16, 32}" "chKeyLen (lChan st') \<le> length (chKey (lChan st'))"
    using assms e pskExpand_ok [of psk "chKey (lChan st)" key n] by (auto simp: meshApply_def Let_def)
qed



definition loraInit :: lora where
  "loraInit = \<lparr>lOk = False, lListening = False, lMeshtastic = False, lNode = 0, lChan = \<lparr>chKey = replicate 32 0, chKeyLen = 0, chHash = 0\<rparr>,
     lSlot = 0, lChanName = '''', lFreq = 915, lBw = 125, lSf = 9, lCr = 7, lPower = 14, lPreamble = 8, lSync = 0x12, lRssi = 0, lSnr = 0,
     lRxCount = 0, lRxDup = 0, lSeen = dedupInit RX_SEEN, lReceiving = False\<rparr>"

lemma default_channel:
  "fst (meshConfig None loraInit)" "lFreq (snd (meshConfig None loraInit)) = 906.875" "chHash (lChan (snd (meshConfig None loraInit))) = 8"
  by code_simp+



section \<open>Each packet is published once\<close>

definition dOk :: "nat \<Rightarrow> DedupRing \<Rightarrow> bool" where
  "dOk N d \<longleftrightarrow> 0 < N \<and> length (dSrc d) = N \<and> length (dId d) = N \<and> dCount d \<le> N \<and> dNext d < N \<and> (dCount d < N \<longrightarrow> dNext d = dCount d)"

text \<open>The pairs the ring remembers, oldest first.\<close>

definition remembered :: "nat \<Rightarrow> DedupRing \<Rightarrow> (u32 \<times> u32) list" where
  "remembered N d = ringView (zip (dSrc d) (dId d)) (if dCount d < N then 0 else dNext d) (dCount d)"

lemma ringView_all: "h < length buf \<Longrightarrow> set (ringView buf h (length buf)) = set buf"
proof (intro equalityI subsetI)
  let ?N = "length buf"
  fix x assume h: "h < ?N" and "x \<in> set buf"
  then obtain j where j: "j < ?N" "x = buf ! j" by (auto simp: in_set_conv_nth)
  let ?i = "(j + ?N - h) mod ?N"
  have "(h + ?i) mod ?N = (h + (j + ?N - h)) mod ?N" by (rule mod_add_right_eq)
  also have "\<dots> = j" using h j(1) by simp
  finally have e: "(h + ?i) mod ?N = j" .
  have "?i < ?N" using j(1) by (intro mod_less_divisor) linarith
  moreover have "x = buf ! ((h + ?i) mod ?N)" using j(2) e by simp
  ultimately show "x \<in> set (ringView buf h ?N)" unfolding ringView_def by auto
qed (auto simp: ringView_def intro!: nth_mem mod_less_divisor)

lemma remembered_set:
  assumes "dOk N d" shows "set (remembered N d) = set (take (dCount d) (zip (dSrc d) (dId d)))"
proof (cases "dCount d < N")
  case True
  have "ringView (zip (dSrc d) (dId d)) 0 (dCount d) = take (dCount d) (zip (dSrc d) (dId d))"
    using assms True by (intro nth_equalityI) (auto simp: dOk_def)
  then show ?thesis using True by (simp add: remembered_def)
next
  case False
  then have "dCount d = length (zip (dSrc d) (dId d))" using assms by (simp add: dOk_def)
  then show ?thesis using ringView_all [of "dNext d" "zip (dSrc d) (dId d)"] assms False by (simp add: remembered_def dOk_def)
qed

lemma seen_iff:
  assumes "dOk N d" shows "list_ex (\<lambda>i. dSrc d ! i = s \<and> dId d ! i = p) [0..<dCount d] \<longleftrightarrow> (s, p) \<in> set (remembered N d)"
  unfolding remembered_set [OF assms] using assms by (fastforce simp: list_ex_iff in_set_conv_nth dOk_def)

lemma dedupStore_ok: "dOk N d \<Longrightarrow> dOk N (dedupStore N x d)"
  by (auto simp: dOk_def dedupStore_def mod_less)

lemma dedupStore_remembered:
  assumes "dOk N d" shows "remembered N (dedupStore N x d) = pushNewest N x (remembered N d)"
proof -
  let ?z = "zip (dSrc d) (dId d)"
  have z: "length ?z = N" "zip ((dSrc d)[k := fst x]) ((dId d)[k := snd x]) = ?z[k := x]" for k using assms by (simp_all add: dOk_def zip_update)
  show ?thesis
  proof (cases "dCount d < N")
    case True
    then have "ringView (?z[dCount d := x]) 0 (Suc (dCount d)) = ringView ?z 0 (dCount d) @ [x]"
      using ringView_push [of "dCount d" ?z 0 x] assms by (simp add: dOk_def)
    moreover have "\<not> Suc (dCount d) < N \<longrightarrow> Suc (dCount d) mod N = 0" using True by (auto simp: not_less_eq le_Suc_eq less_Suc_eq_le)
    ultimately show ?thesis using True assms z by (simp add: remembered_def dedupStore_def pushNewest_def dOk_def)
  next
    case False
    then have "dCount d = N" using assms by (simp add: dOk_def)
    moreover have "0 < length ?z" using assms z(1) by (simp only: z(1)) (simp add: dOk_def)
    ultimately show ?thesis using ringView_push_full [of ?z "dNext d" x] z assms by (simp add: remembered_def dedupStore_def pushNewest_def dOk_def)
  qed
qed

interpretation rxSeen: newest_queue "dOk RX_SEEN" RX_SEEN "remembered RX_SEEN" "dedupStore RX_SEEN" "\<lambda>_. True"
  by unfold_locales (auto simp: dedupStore_ok dedupStore_remembered, auto simp: RX_SEEN_def dOk_def remembered_def)

lemma dedupInit_ok: "dOk RX_SEEN (dedupInit RX_SEEN)" "remembered RX_SEEN (dedupInit RX_SEEN) = []"
  by (auto simp: dOk_def dedupInit_def RX_SEEN_def remembered_def)


text \<open>What a receiver in Meshtastic mode reads out of a packet, and what it should publish: every text except those
  with the sender and id of one of the last \<open>N\<close> texts published under a nonzero id.\<close>

definition textOf :: "keyStream \<Rightarrow> Channel \<Rightarrow> LoRaRx \<Rightarrow> (u8 list \<times> u32 \<times> u32) option" where
  "textOf ks ch rx = (if received rx \<and> \<not> crcErr rx
     then (case parseText ks ch (rxData rx) of ParseOk t f p \<Rightarrow> Some (t, f, p) | _ \<Rightarrow> None) else None)"

definition freshText :: "nat \<Rightarrow> (u32 \<times> u32) list \<Rightarrow> (u8 list \<times> u32 \<times> u32) option \<Rightarrow> (u8 list \<times> u32 \<times> u32) option" where
  "freshText N hist x = (case x of None \<Rightarrow> None
     | Some (t, f, p) \<Rightarrow> if p \<noteq> 0 \<and> (f, p) \<in> set (newest N hist) then None else Some (t, f, p))"

definition histAfter :: "(u8 list \<times> u32 \<times> u32) option \<Rightarrow> (u32 \<times> u32) list \<Rightarrow> (u32 \<times> u32) list" where
  "histAfter y hist = (case y of None \<Rightarrow> hist | Some (t, f, p) \<Rightarrow> if p = 0 then hist else hist @ [(f, p)])"

fun freshTexts :: "nat \<Rightarrow> (u32 \<times> u32) list \<Rightarrow> (u8 list \<times> u32 \<times> u32) option list \<Rightarrow> (u8 list \<times> u32 \<times> u32) option list" where
  "freshTexts N hist [] = []"
| "freshTexts N hist (x # xs) = (let y = freshText N hist x in y # freshTexts N (histAfter y hist) xs)"

fun rxRun :: "keyStream \<Rightarrow> loraCfg \<Rightarrow> LoRaRx option list \<Rightarrow> lora \<Rightarrow> LoRaMsg option list" where
  "rxRun ks c [] st = []"
| "rxRun ks c (p # ps) st = (let (m, st1) = loraLoop ks c p st in m # rxRun ks c ps st1)"

definition meshUp :: "lora \<Rightarrow> bool" where
  "meshUp st \<longleftrightarrow> lOk st \<and> lListening st \<and> lMeshtastic st \<and> dOk RX_SEEN (lSeen st)"

lemma seen_step:
  assumes "dOk RX_SEEN d" "remembered RX_SEEN d = newest RX_SEEN hist" "seenAndRecord RX_SEEN f p d = (dup, d')"
  shows "dup \<longleftrightarrow> p \<noteq> 0 \<and> (f, p) \<in> set (newest RX_SEEN hist)" "dOk RX_SEEN d'"
    "remembered RX_SEEN d' = newest RX_SEEN (if dup \<or> p = 0 then hist else hist @ [(f, p)])"
proof -
  show "dup \<longleftrightarrow> p \<noteq> 0 \<and> (f, p) \<in> set (newest RX_SEEN hist)" "dOk RX_SEEN d'"
    using assms(3) seen_iff [OF assms(1), of f p] assms(1,2) by (auto simp: seenAndRecord_def dedupStore_ok split: if_splits)
  show "remembered RX_SEEN d' = newest RX_SEEN (if dup \<or> p = 0 then hist else hist @ [(f, p)])"
    using assms pushNewest_newest [OF rxSeen.cap_pos] dedupStore_remembered [OF assms(1)] by (auto simp: seenAndRecord_def split: if_splits)
qed

definition msgView :: "LoRaMsg option \<Rightarrow> (u8 list \<times> string option) option" where
  "msgView m = map_option (\<lambda>m. (mData m, mFrom m)) m"

definition textView :: "(u8 list \<times> u32 \<times> u32) option \<Rightarrow> (u8 list \<times> string option) option" where
  "textView y = map_option (\<lambda>(t, f, _). (t, Some (nodeId f))) y"

lemma loraLoop_mesh:
  assumes "meshUp st" "remembered RX_SEEN (lSeen st) = newest RX_SEEN hist" "loraLoop ks c p st = (m, st')"
    and y: "y = freshText RX_SEEN hist (Option.bind p (textOf ks (lChan st)))"
  shows "msgView m = textView y \<and> meshUp st' \<and> lChan st' = lChan st \<and> remembered RX_SEEN (lSeen st') = newest RX_SEEN (histAfter y hist)"
proof (cases "Option.bind p (textOf ks (lChan st))")
  case None
  then have "y = None" using y by (simp add: freshText_def)
  moreover have "m = None \<and> meshUp st' \<and> lChan st' = lChan st \<and> lSeen st' = lSeen st"
    using assms(1,3) None by (auto simp: loraLoop_def meshUp_def publishRx_def textOf_def bind_eq_None_conv Let_def split: option.splits if_splits Parse.splits)
  ultimately show ?thesis using assms(2) by (simp add: msgView_def textView_def histAfter_def)
next
  case (Some x)
  then obtain t f q where x: "x = (t, f, q)" using prod_cases3 by blast
  then obtain rx where rx: "p = Some rx" "received rx" "\<not> crcErr rx" "parseText ks (lChan st) (rxData rx) = ParseOk t f q"
    using Some by (auto simp: textOf_def bind_eq_Some_conv split: if_splits Parse.splits)
  obtain dup d where s: "seenAndRecord RX_SEEN f q (lSeen st) = (dup, d)" by fastforce
  have ok: "dOk RX_SEEN (lSeen st)" using assms(1) by (simp add: meshUp_def)
  note step = seen_step [OF ok assms(2) s]
  have "y = (if dup then None else Some (t, f, q))" using y Some x step(1) by (simp add: freshText_def)
  moreover have "msgView m = textView (if dup then None else Some (t, f, q)) \<and> meshUp st' \<and> lChan st' = lChan st \<and> lSeen st' = d"
    using s rx assms(1,3) step(2) by (cases dup) (auto simp: loraLoop_def meshUp_def publishRx_def rxMsg_def Let_def msgView_def textView_def)
  ultimately show ?thesis using step(3) by (auto simp: histAfter_def)
qed

lemma rxRun_fresh:
  "meshUp st \<Longrightarrow> remembered RX_SEEN (lSeen st) = newest RX_SEEN hist \<Longrightarrow>
   map msgView (rxRun ks c ps st) = map textView (freshTexts RX_SEEN hist (map (\<lambda>p. Option.bind p (textOf ks (lChan st))) ps))"
proof (induction ps arbitrary: st hist)
  case (Cons p ps)
  obtain m st' where l: "loraLoop ks c p st = (m, st')" by fastforce
  note step = loraLoop_mesh [OF Cons.prems l refl]
  show ?case using step Cons.IH [of st' "histAfter (freshText RX_SEEN hist (Option.bind p (textOf ks (lChan st)))) hist"] l by (simp add: Let_def)
qed simp

text \<open>C28: A module that listens in Meshtastic mode turns any sequence of polls into exactly these publications: every
  frame received without error that parses as a text of the module's channel, with its text and its sender, except
  a frame whose sender and nonzero packet id equal those of one of the last 64 texts published. Rebroadcasts
  of the mesh are dropped, and nothing else is.\<close>

theorem rx_published_once:
  assumes "lOk st" "lListening st" "lMeshtastic st" "lSeen st = dedupInit RX_SEEN"
  shows "map msgView (rxRun ks c ps st) = map textView (freshTexts 64 [] (map (\<lambda>p. Option.bind p (textOf ks (lChan st))) ps))"
  using rxRun_fresh [of st "[]" ks c ps] assms dedupInit_ok by (simp add: meshUp_def newest_def RX_SEEN_def)

definition meshNodeCfg :: loraCfg where
  "meshNodeCfg = \<lparr>cFreq = None, cBw = None, cSf = None, cCr = None, cPower = None, cPreamble = None, cSync = None,
     cListen = None, cMode = Some ''meshtastic'', cMeshBool = None, cMesh = None, cNode = None, cPrefix = None\<rparr>"

definition meshNode :: lora where
  "meshNode = loraBegin 5 (\<lambda>_. 0) meshNodeCfg loraInit"

definition noStream :: keyStream where
  "noStream = (\<lambda>k n i. of_nat i)"

definition helloRx :: "u32 \<Rightarrow> LoRaRx option" where
  "helloRx pid = Some \<lparr>received = True, crcErr = False, rxData = the (buildText noStream (lChan meshNode) [104, 105] 9 pid 256), rssi = -80, snr = 6\<rparr>"

lemma meshNode_up: "lOk meshNode" "lListening meshNode" "lMeshtastic meshNode" "lSeen meshNode = dedupInit RX_SEEN"
  by code_simp+

lemma hello_values:
  "map (\<lambda>p. Option.bind p (textOf noStream (lChan meshNode))) [helloRx 7, helloRx 7, helloRx 8] =
   [Some ([104, 105], 9, 7), Some ([104, 105], 9, 7), Some ([104, 105], 9, 8)]"
  by code_simp

text \<open>The witness of C1: the same frame twice and a new one give two publications.\<close>

theorem rx_published_once_witness:
  "map msgView (rxRun noStream meshNodeCfg [helloRx 7, helloRx 7, helloRx 8] meshNode) =
   [Some ([104, 105], Some ''!00000009''), None, Some ([104, 105], Some ''!00000009'')]"
proof -
  have "map textView (freshTexts 64 [] [Some ([104, 105], 9, 7), Some ([104, 105], 9, 7), Some ([104, 105], 9, 8)]) =
     [Some ([104, 105], Some ''!00000009''), None, Some ([104, 105], Some ''!00000009'')]" by code_simp
  then show ?thesis unfolding rx_published_once [OF meshNode_up] hello_values .
qed

end
