(* ===== verification/Ota_Fetch.thy ===== *)
theory Ota_Fetch
  imports Ota_Guard Http_Io Mqtt_Queue
begin

text \<open>
  Fetching and installing an update, the second half of \<open>OTAUpdate.cpp\<close>: HTTP over WiFi with its redirects, HTTPS
  over the modem (the body part of \<open>Cellular::httpsGet\<close>) and the ranged download built on it, the manifest,
  the flash writer with its digest, the whole check, and when the main loop runs one.

  The network is a parameter: what a request meets is a record (\<open>hopResp\<close>, \<open>cellResp\<close>) whose chunks are the
  reads until the connection ends or a time limit cuts it. A callback that consumes bytes is a function from a chunk
  and a state to a verdict and a state. SHA-256, the JSON reader and the flash driver are parameters too.
\<close>

section \<open>Definitions\<close>

type_synonym 's writer = "u8 list \<Rightarrow> 's \<Rightarrow> bool \<times> 's"

subsection \<open>One GET over WiFi and its redirects\<close>

record hopResp =
  rResolves :: bool           \<comment> \<open>the host name resolves\<close>
  rCode :: int                \<comment> \<open>HTTP status, negative for a transport error\<close>
  rLocation :: string
  rSize :: int                \<comment> \<open>announced length, -1 when unknown\<close>
  rChunks :: "u8 list list"   \<comment> \<open>an empty chunk is a failed read\<close>

definition HTTPC_ERROR_CONNECTION_REFUSED :: int where "HTTPC_ERROR_CONNECTION_REFUSED = -1"

fun readBody :: "'s writer \<Rightarrow> int \<Rightarrow> u8 list list \<Rightarrow> nat \<Rightarrow> 's \<Rightarrow> bool \<times> nat \<times> 's" where
  "readBody cb cl [] n s = (True, n, s)"
| "readBody cb cl (c # cs) n s =
     (if c = [] then (True, n, s)
      else let n' = n + length c; (ok, s') = cb c s
           in if \<not> ok then (False, n', s')
              else if 0 < cl \<and> cl \<le> int n' then (True, n', s')
              else readBody cb cl cs n' s')"

text \<open>Transport verdict, status, length, redirect target, state.\<close>

definition otaHttpGetWiFiHop :: "'s writer \<Rightarrow> hopResp \<Rightarrow> string \<Rightarrow> 's \<Rightarrow> bool \<times> int \<times> nat \<times> string \<times> 's" where
  "otaHttpGetWiFiHop cb r url s =
     (if httpUrlSplit (Some url) 128 = None \<or> \<not> rResolves r then (False, HTTPC_ERROR_CONNECTION_REFUSED, 0, '''', s)
      else if otaIsRedirect (rCode r) \<and> rLocation r \<noteq> '''' then (True, rCode r, 0, rLocation r, s)
      else if rCode r \<noteq> 200 then (0 < rCode r, rCode r, 0, '''', s)
      else let (ok, n, s') = readBody cb (rSize r) (rChunks r) 0 s in (ok, 200, n, '''', s'))"

text \<open>\<open>left\<close> hops remain; \<open>net i u\<close> is what hop \<open>i\<close> meets at \<open>u\<close>. The last component lists the URLs requested.\<close>

fun wifiHops :: "'s writer \<Rightarrow> (nat \<Rightarrow> string \<Rightarrow> hopResp) \<Rightarrow> nat \<Rightarrow> nat \<Rightarrow> string \<Rightarrow> int \<Rightarrow> 's \<Rightarrow> bool \<times> int \<times> 's \<times> string list" where
  "wifiHops cb net 0 i url st s = (True, st, s, [])"
| "wifiHops cb net (Suc left) i url st s =
     (let (ok, code, n, redirect, s1) = otaHttpGetWiFiHop cb (net i url) url s
      in if redirect = '''' then (ok, code, s1, [url])
         else if \<not> otaRedirectAllowed (Some url) (Some redirect) then (True, code, s1, [url])
         else let (ok', code', s2, urls) = wifiHops cb net left (Suc i) redirect code s1 in (ok', code', s2, url # urls))"

definition otaHttpGetWiFi :: "'s writer \<Rightarrow> (nat \<Rightarrow> string \<Rightarrow> hopResp) \<Rightarrow> string \<Rightarrow> 's \<Rightarrow> bool \<times> int \<times> 's \<times> string list" where
  "otaHttpGetWiFi cb net url s = wifiHops cb net (OTA_REDIRECT_MAX + 1) 0 url 0 s"

subsection \<open>HTTPS over the modem\<close>

record cellResp =
  hUp :: bool                 \<comment> \<open>link, slot, memory, connection and request all succeed\<close>
  hStatus :: int              \<comment> \<open>0 when no status line came\<close>
  hLen :: int                 \<comment> \<open>Content-Length, -1 when absent\<close>
  hChunks :: "u8 list list"

fun cellBody :: "'s writer \<Rightarrow> int \<Rightarrow> u8 list list \<Rightarrow> nat \<Rightarrow> 's \<Rightarrow> bool \<times> nat \<times> 's" where
  "cellBody cb cl [] n s = (True, n, s)"
| "cellBody cb cl (c # cs) n s =
     (if 0 < cl \<and> cl \<le> int n then (True, n, s)
      else let n' = n + length c; (ok, s') = cb c s
           in if \<not> ok then (False, n', s') else cellBody cb cl cs n' s')"

definition httpsGet :: "'s writer \<Rightarrow> cellResp \<Rightarrow> 's \<Rightarrow> bool \<times> int \<times> 's" where
  "httpsGet cb r s =
     (if \<not> hUp r then (False, 0, s)
      else let (ok, n, s') = cellBody cb (hLen r) (hChunks r) 0 s
           in if \<not> ok then (False, hStatus r, s')
              else if hStatus r = 0 then (False, 0, s')
              else (\<not> (0 < hLen r \<and> int n < hLen r), hStatus r, s'))"

text \<open>The single GET splits the URL itself: a missing scheme reads as https.\<close>

definition cellHostLen :: "string \<Rightarrow> nat" where
  "cellHostLen url =
     (let p = (if strncmp0 url ''https://'' 8 then drop 8 url else if strncmp0 url ''http://'' 7 then drop 7 url else url)
      in length (takeWhile (\<lambda>c. c \<noteq> CHR ''/'') p))"

definition otaHttpGetCellular :: "'s writer \<Rightarrow> cellResp \<Rightarrow> string \<Rightarrow> 's \<Rightarrow> bool \<times> int \<times> 's" where
  "otaHttpGetCellular cb r url s =
     (if cellHostLen url = 0 \<or> 128 \<le> cellHostLen url then (False, 0, s) else httpsGet cb r s)"

definition CHUNK :: nat where "CHUNK = 256 * 1024"
definition CHUNK_TRIES :: nat where "CHUNK_TRIES = 3"

text \<open>The writer of one ranged request of \<open>len\<close> bytes: what it took so far and the caller's state.\<close>

definition counting :: "'s writer \<Rightarrow> bool \<Rightarrow> nat \<Rightarrow> (nat \<times> 's) writer" where
  "counting cb accept len d st =
     (case st of (got, s) \<Rightarrow>
        if \<not> accept then (False, got, s)
        else let room = len - got; over = room < length d; d' = take room d;
                 (ok, s1) = (if d' = [] then (True, s) else cb d' s)
             in if \<not> ok then (False, got, s1) else (\<not> over, got + length d', s1))"

text \<open>The tries of one chunk, \<open>fin\<close> its last byte; \<open>k\<close> counts requests. The result: done, requests, state.\<close>

fun chunkTries :: "'s writer \<Rightarrow> (nat \<Rightarrow> nat \<Rightarrow> nat \<Rightarrow> cellResp) \<Rightarrow> nat \<Rightarrow> nat \<Rightarrow> nat \<Rightarrow> nat \<Rightarrow> nat \<Rightarrow> 's \<Rightarrow> bool \<times> nat \<times> 's" where
  "chunkTries cb cell sz 0 k offset fin s = (False, k, s)"
| "chunkTries cb cell sz (Suc left) k offset fin s =
     (let r = cell k offset fin; whole = (offset = 0 \<and> fin = sz - 1);
          accept = (hStatus r = 206 \<or> (hStatus r = 200 \<and> whole));
          (_, status, got, s1) = httpsGet (counting cb accept (fin + 1 - offset)) r (0, s);
          offset' = offset + got
      in if fin < offset' then (True, k + 1, s1)
         else if status \<noteq> 0 \<and> status \<noteq> 206 \<and> \<not> (status = 200 \<and> whole) then (False, k + 1, s1)
         else chunkTries cb cell sz left (k + 1) offset' fin s1)"

function chunkLoop :: "'s writer \<Rightarrow> (nat \<Rightarrow> nat \<Rightarrow> nat \<Rightarrow> cellResp) \<Rightarrow> nat \<Rightarrow> nat \<Rightarrow> nat \<Rightarrow> 's \<Rightarrow> bool \<times> nat \<times> 's" where
  "chunkLoop cb cell sz k offset s =
     (if sz \<le> offset then (True, k, s)
      else let fin = min (offset + CHUNK - 1) (sz - 1); (ok, k1, s1) = chunkTries cb cell sz CHUNK_TRIES k offset fin s
           in if \<not> ok then (False, k1, s1) else chunkLoop cb cell sz k1 (fin + 1) s1)"
  by pat_completeness auto
termination
  by (relation "measure (\<lambda>(cb, cell, sz, k, offset, s). sz - offset)") (auto simp: CHUNK_def)

definition downloadBinaryChunkedCellular :: "'s writer \<Rightarrow> (nat \<Rightarrow> nat \<Rightarrow> nat \<Rightarrow> cellResp) \<Rightarrow> string \<Rightarrow> nat \<Rightarrow> 's \<Rightarrow> bool \<times> nat \<times> 's" where
  "downloadBinaryChunkedCellular cb cell url sz s =
     (if sz = 0 \<or> httpUrlSplit (Some url) 128 = None then (False, 0, s) else chunkLoop cb cell sz 0 0 s)"


subsection \<open>The manifest\<close>

record manifest =
  mVersion :: string
  mUrl :: string
  mSha :: string
  mSize :: nat

text \<open>What the device and its surroundings are during a check.\<close>

record otaEnv =
  eWifi :: bool
  eCell :: bool
  eNet :: "nat \<Rightarrow> string \<Rightarrow> hopResp"                  \<comment> \<open>the manifest's GET over WiFi\<close>
  eBinNet :: "nat \<Rightarrow> string \<Rightarrow> hopResp"               \<comment> \<open>the binary's\<close>
  eCellManifest :: cellResp
  eCellBin :: cellResp
  eCellRange :: "nat \<Rightarrow> nat \<Rightarrow> nat \<Rightarrow> cellResp"
  eJson :: "u8 list \<Rightarrow> manifest option"              \<comment> \<open>missing fields read as empty; None when it is not JSON\<close>
  eSha256 :: "u8 list \<Rightarrow> u8 list"
  eUpdateBegin :: bool
  eUpdateWrite :: "u8 list \<Rightarrow> u8 list \<Rightarrow> nat"       \<comment> \<open>bytes taken, given what was written before\<close>
  eUpdateEnd :: bool
  eManifestUrl :: string
  eAllowInsecure :: bool
  eHaveCa :: bool
  ePrefix :: string
  eFirmware :: string
  eMqttUp :: bool
  eHeapLow :: bool
  eOnCellular :: bool
  eNvs :: nvs_io
  eClk :: clock

definition manifestCb :: "u8 list writer" where
  "manifestCb d body = (if otaManifestSizeOk (length body) (length d) then (True, body @ d) else (False, body))"

definition otaHttpGet :: "otaEnv \<Rightarrow> 's writer \<Rightarrow> string \<Rightarrow> 's \<Rightarrow> bool \<times> int \<times> 's \<times> string list" where
  "otaHttpGet env cb url s =
     (if eWifi env then otaHttpGetWiFi cb (eNet env) url s
      else if eCell env then (let (ok, st, s1) = otaHttpGetCellular cb (eCellManifest env) url s in (ok, st, s1, [url]))
      else (False, 0, s, []))"

definition fetchManifest :: "otaEnv \<Rightarrow> string \<Rightarrow> manifest option \<times> string list" where
  "fetchManifest env url =
     (let (ok, status, body, urls) = otaHttpGet env manifestCb url []
      in (if \<not> ok \<or> status \<noteq> 200 then None
          else case eJson env body of None \<Rightarrow> None
               | Some m \<Rightarrow> if otaManifestValid (Some (mVersion m)) (Some (mUrl m)) (Some (mSha m)) then Some m else None, urls))"

subsection \<open>Writing the image\<close>

record flashW =
  fWritten :: "u8 list"       \<comment> \<open>what the flash took and the digest saw\<close>
  fOk :: bool

definition otaWrite :: "otaEnv \<Rightarrow> flashW writer" where
  "otaWrite env d w =
     (if \<not> fOk w then (False, w)
      else if eUpdateWrite env (fWritten w) d \<noteq> length d then (False, w\<lparr>fOk := False\<rparr>)
      else (True, w\<lparr>fWritten := fWritten w @ d\<rparr>))"

definition hexOf :: "u8 list \<Rightarrow> string" where
  "hexOf bs = concat (map (\<lambda>b. [''0123456789abcdef'' ! unat (drop_bit 4 b), ''0123456789abcdef'' ! unat (b AND 15)]) bs)"

definition fetchBinary :: "otaEnv \<Rightarrow> string \<Rightarrow> nat \<Rightarrow> bool \<times> int \<times> flashW \<times> string list" where
  "fetchBinary env url sz =
     (let w = \<lparr>fWritten = [], fOk = True\<rparr>
      in if eWifi env then otaHttpGetWiFi (otaWrite env) (eBinNet env) url w
         else if eCell env
         then (if 0 < sz
               then (let (ok, _, w1) = downloadBinaryChunkedCellular (otaWrite env) (eCellRange env) url sz w in (ok, if ok then 200 else 0, w1, [url]))
               else (let (ok, st, w1) = otaHttpGetCellular (otaWrite env) (eCellBin env) url w in (ok, st, w1, [url])))
         else (False, 0, w, []))"

text \<open>The image that boots next, None when the running one stays.\<close>

definition applyUpdate :: "otaEnv \<Rightarrow> string \<Rightarrow> string \<Rightarrow> nat \<Rightarrow> u8 list option \<times> string list" where
  "applyUpdate env url sha sz =
     (if \<not> eUpdateBegin env then (None, [])
      else let (ok, status, w, urls) = fetchBinary env url sz; n = length (fWritten w)
           in (if \<not> ok \<or> status \<noteq> 200 \<or> \<not> fOk w \<or> n = 0 \<or> (0 < sz \<and> n < sz) then None
               else if \<not> otaShaMatches (Some (hexOf (eSha256 env (fWritten w)))) (Some sha) then None
               else if \<not> eUpdateEnd env then None else Some (fWritten w), urls))"

subsection \<open>The check\<close>

definition otaStatusTopic :: "otaEnv \<Rightarrow> string option" where
  "otaStatusTopic env = (let (t, ok) = mqttTopicVfmt (Some '''') MQTT_TOPIC_CAP (Some (ePrefix env @ ''/status/ota'')) in if ok then t else None)"

definition publishStatus :: "otaEnv \<Rightarrow> string \<Rightarrow> (string \<times> string) list" where
  "publishStatus env payload = (case otaStatusTopic env of None \<Rightarrow> [] | Some t \<Rightarrow> [(t, payload)])"

definition qt :: "string \<Rightarrow> string" where
  "qt s = CHR 0x22 # s @ [CHR 0x22]"

definition statusMsg :: "nat \<Rightarrow> (string \<times> string) list \<Rightarrow> string" where
  "statusMsg cap fs = c_snprintf cap (''{'' @ concat (map (\<lambda>(i, k, v). (if i = 0 then [] else '','') @ qt k @ '':'' @ qt v) (zip [0..<length fs] fs)) @ ''}'')"

definition publishOtaRefusal :: "otaEnv \<Rightarrow> string \<Rightarrow> (string \<times> string) list" where
  "publishOtaRefusal env reason = publishStatus env (statusMsg 160 [(''state'', ''refused''), (''reason'', reason), (''version'', eFirmware env)])"

record checkRun =
  ckInstalled :: "(string \<times> u8 list) option"   \<comment> \<open>version and image; the device restarts\<close>
  ckUrls :: "string list"                       \<comment> \<open>every URL requested, in order\<close>
  ckMsgs :: "(string \<times> string) list"
  ckDropped :: bool                             \<comment> \<open>the MQTT session was dropped for its heap\<close>

definition refused :: "otaEnv \<Rightarrow> string \<Rightarrow> bool \<Rightarrow> string list \<Rightarrow> checkRun" where
  "refused env reason drop' urls = \<lparr>ckInstalled = None, ckUrls = urls, ckMsgs = publishOtaRefusal env reason, ckDropped = drop'\<rparr>"

text \<open>From the download on: \<open>o1\<close> is the state the fled gate left.\<close>

definition checkInstall :: "otaEnv \<Rightarrow> manifest \<Rightarrow> bool \<Rightarrow> string list \<Rightarrow> ota \<Rightarrow> checkRun \<times> ota" where
  "checkInstall env m dropped urls o1 =
     (let (img, urls2) = applyUpdate env (mUrl m) (mSha m) (mSize m);
          begun = publishStatus env (statusMsg 128 [(''state'', ''updating''), (''from'', eFirmware env), (''to'', mVersion m)]);
          failed = publishStatus env (statusMsg 128 [(''state'', ''failed''), (''version'', eFirmware env)])
      in case img of
           Some bytes \<Rightarrow> (\<lparr>ckInstalled = Some (mVersion m, bytes), ckUrls = urls @ urls2, ckMsgs = begun, ckDropped = dropped\<rparr>,
                          snd (plannedRestart (recordInstalledBuild (eNvs env) (mVersion m) o1)))
         | None \<Rightarrow> (\<lparr>ckInstalled = None, ckUrls = urls @ urls2, ckMsgs = begun @ failed, ckDropped = dropped\<rparr>, o1))"

definition checkManifest :: "otaEnv \<Rightarrow> string \<Rightarrow> bool \<Rightarrow> bool \<Rightarrow> ota \<Rightarrow> checkRun \<times> ota" where
  "checkManifest env url force dropped o0 =
     (let (man, urls) = fetchManifest env url
      in case man of None \<Rightarrow> (refused env ''manifest-fetch-failed'' dropped urls, o0)
         | Some m \<Rightarrow>
             if \<not> otaShouldUpdate (Some (mVersion m)) (Some (eFirmware env)) force
             then (\<lparr>ckInstalled = None, ckUrls = urls,
                    ckMsgs = publishStatus env (statusMsg 160 [(''state'', ''up-to-date''), (''version'', eFirmware env), (''remote'', mVersion m)]),
                    ckDropped = dropped\<rparr>, o0)
             else if \<not> otaUrlAllowed (Some (mUrl m)) (eAllowInsecure env) then (refused env ''insecure-url'' dropped urls, o0)
             else let (go, o1) = fledGate (eNvs env) (eClk env) (mVersion m) force o0
                  in if \<not> go then (refused env ''fled-release'' dropped urls, o1) else checkInstall env m dropped urls o1)"

definition otaCheck :: "otaEnv \<Rightarrow> string option \<Rightarrow> bool \<Rightarrow> ota \<Rightarrow> checkRun \<times> ota" where
  "otaCheck env override force o0 =
     (let url = (case override of Some u \<Rightarrow> u | None \<Rightarrow> eManifestUrl env)
      in if \<not> (eWifi env \<or> eCell env) then (refused env ''no-transport'' False [], o0)
         else if url = '''' then (refused env ''no-manifest-url'' False [], o0)
         else if \<not> eHaveCa env \<and> \<not> eAllowInsecure env then (refused env ''no-ca'' False [], o0)
         else if \<not> otaUrlAllowed (Some url) (eAllowInsecure env) then (refused env ''insecure-url'' False [], o0)
         else if eMqttUp env \<and> eHeapLow env \<and> \<not> force \<and> \<not> eOnCellular env then (refused env ''heap-low'' False [], o0)
         else checkManifest env url force (eMqttUp env \<and> eHeapLow env) o0)"


subsection \<open>When a check runs\<close>

record otaSched =
  otaEnabled :: bool
  checkIntervalMs :: u32
  lastCheck :: u32
  checkRequested :: bool
  forceRequested :: bool
  pendingManifestUrl :: string

definition OTA_SETTLE_MS :: u32 where "OTA_SETTLE_MS = 30000"

definition otaBegin :: "bool option \<Rightarrow> u32 option \<Rightarrow> otaEnv \<Rightarrow> otaSched \<Rightarrow> otaSched" where
  "otaBegin enabled intervalS env st =
     (let interval = (case intervalS of None \<Rightarrow> 21600 | Some x \<Rightarrow> x) * 1000;
          on1 = ((case enabled of None \<Rightarrow> True | Some b \<Rightarrow> b) \<and> eManifestUrl env \<noteq> '''');
          on2 = (on1 \<and> otaTlsMode (eHaveCa env) (eAllowInsecure env) \<noteq> OTA_TLS_REFUSED);
          now = clkMillis (eClk env)
      in st\<lparr>otaEnabled := on2, checkIntervalMs := interval,
            lastCheck := (if OTA_SETTLE_MS < interval then now - (interval - OTA_SETTLE_MS) else now)\<rparr>)"

definition triggerCheck :: "string option \<Rightarrow> bool \<Rightarrow> otaSched \<Rightarrow> otaSched" where
  "triggerCheck override force st =
     st\<lparr>pendingManifestUrl := (case override of Some u \<Rightarrow> u | None \<Rightarrow> ''''), forceRequested := force, checkRequested := True\<rparr>"

text \<open>A message on the optional command topic, whose payload is ignored.\<close>

definition cmdTopicTrigger :: "otaSched \<Rightarrow> otaSched" where
  "cmdTopicTrigger st = st\<lparr>pendingManifestUrl := '''', checkRequested := True\<rparr>"

text \<open>Deep sleep: whether it is on, the wall clock and the last check kept in RTC memory.\<close>

record otaSleep =
  slOn :: bool
  slNow :: int
  slLast :: int

definition otaDue :: "otaEnv \<Rightarrow> otaSleep \<Rightarrow> otaSched \<Rightarrow> (string option \<times> bool) option \<times> otaSleep \<times> otaSched" where
  "otaDue env sl st =
     (if checkRequested st
      then (Some (if pendingManifestUrl st = '''' then None else Some (pendingManifestUrl st), forceRequested st), sl,
            st\<lparr>checkRequested := False, forceRequested := False, pendingManifestUrl := ''''\<rparr>)
      else if \<not> otaEnabled st \<or> \<not> (eWifi env \<or> eCell env) then (None, sl, st)
      else if slOn sl
      then (if 1700000000 < slNow sl \<and> (slLast sl = 0 \<or> int (unat (checkIntervalMs st) div 1000) \<le> slNow sl - slLast sl)
            then (Some (None, False), sl\<lparr>slLast := slNow sl\<rparr>, st) else (None, sl, st))
      else (let now = clkMillis (eClk env)
            in if checkIntervalMs st \<le> now - lastCheck st then (Some (None, False), sl, st\<lparr>lastCheck := now\<rparr>) else (None, sl, st)))"

definition otaLoop :: "idf \<Rightarrow> otaEnv \<Rightarrow> otaSleep \<Rightarrow> otaSched \<Rightarrow> ota \<Rightarrow> checkRun option \<times> otaSleep \<times> otaSched \<times> ota" where
  "otaLoop i env sl st o0 =
     (let (calls, o1) = confirmIfHealthy i (eNvs env) (eClk env) (eFirmware env) o0; (what, sl1, st1) = otaDue env sl st
      in case what of None \<Rightarrow> (None, sl1, st1, o1)
         | Some (override, force) \<Rightarrow> (let (r, o2) = otaCheck env override force o1 in (Some r, sl1, st1, o2)))"

definition checkNow :: "otaEnv \<Rightarrow> otaSched \<Rightarrow> ota \<Rightarrow> checkRun option \<times> otaSched \<times> ota" where
  "checkNow env st o0 =
     (if \<not> otaEnabled st \<or> \<not> (eWifi env \<or> eCell env) then (None, st, o0)
      else let (r, o1) = otaCheck env None False o0 in (Some r, st\<lparr>lastCheck := clkMillis (eClk env)\<rparr>, o1))"

section \<open>The scheme of every request\<close>

lemma urlAllowed_scheme: "otaUrlAllowed (Some u) a \<longleftrightarrow> otaScheme u = Some ''https://'' \<or> (a \<and> otaScheme u = Some ''http://'')"
  by (auto simp: otaUrlAllowed_def otaScheme_def)

lemma redirect_keeps_allowed:
  assumes "otaUrlAllowed (Some u) a" "otaRedirectAllowed (Some u) (Some t)" shows "otaUrlAllowed (Some t) a"
  using assms(1) otaRedirectAllowed_scheme [OF assms(2)] by (simp add: urlAllowed_scheme)

lemma wifiHops_urls:
  assumes "otaUrlAllowed (Some url) a" "wifiHops cb net left i url st s = (ok, code, s', urls)"
  shows "(\<forall>u \<in> set urls. otaUrlAllowed (Some u) a) \<and> length urls \<le> left"
  using assms
proof (induction left arbitrary: i url st s ok code s' urls)
  case (Suc left)
  obtain ok1 code1 n redirect s1 where h: "otaHttpGetWiFiHop cb (net i url) url s = (ok1, code1, n, redirect, s1)" by (metis prod_cases5)
  show ?case
  proof (cases "redirect = '''' \<or> \<not> otaRedirectAllowed (Some url) (Some redirect)")
    case True
    then show ?thesis using Suc.prems h by (auto split: if_splits)
  next
    case False
    obtain ok2 code2 s2 us where w: "wifiHops cb net left (Suc i) redirect code1 s1 = (ok2, code2, s2, us)" by (metis prod_cases4)
    then have "urls = url # us" using Suc.prems(2) h False by simp
    moreover have "otaUrlAllowed (Some redirect) a" using redirect_keeps_allowed [OF Suc.prems(1)] False by blast
    ultimately show ?thesis using Suc.IH [OF _ w] Suc.prems(1) by simp
  qed
qed simp

lemma otaHttpGet_urls:
  assumes "otaUrlAllowed (Some url) a" "otaHttpGet env cb url s = (ok, code, s', urls)"
  shows "(\<forall>u \<in> set urls. otaUrlAllowed (Some u) a) \<and> length urls \<le> OTA_REDIRECT_MAX + 1"
  using assms wifiHops_urls [OF assms(1), of cb "eNet env" "OTA_REDIRECT_MAX + 1" 0 0 s]
  by (auto simp: otaHttpGet_def otaHttpGetWiFi_def split: if_splits prod.splits)

lemma fetchBinary_urls:
  assumes "otaUrlAllowed (Some url) a" "fetchBinary env url sz = (ok, code, w, urls)"
  shows "(\<forall>u \<in> set urls. otaUrlAllowed (Some u) a) \<and> length urls \<le> OTA_REDIRECT_MAX + 1"
  using assms wifiHops_urls [OF assms(1), of "otaWrite env" "eBinNet env" "OTA_REDIRECT_MAX + 1" 0 0 "\<lparr>fWritten = [], fOk = True\<rparr>"]
  by (auto simp: fetchBinary_def otaHttpGetWiFi_def Let_def split: if_splits prod.splits)


section \<open>What gets installed\<close>

lemma applyUpdate_verified:
  assumes "applyUpdate env url sha sz = (Some img, urls)"
  shows "img \<noteq> []" "sz \<le> length img" "map toLower (hexOf (eSha256 env img)) = map toLower sha" "length sha = 64"
proof -
  obtain ok st w us where f: "fetchBinary env url sz = (ok, st, w, us)" by (metis prod_cases4)
  have e: "img = fWritten w" "fWritten w \<noteq> []" "\<not> (0 < sz \<and> length (fWritten w) < sz)"
    and s: "otaShaMatches (Some (hexOf (eSha256 env (fWritten w)))) (Some sha)"
    using assms f by (auto simp: applyUpdate_def Let_def split: if_splits)
  show "img \<noteq> []" "sz \<le> length img" using e by auto
  show "map toLower (hexOf (eSha256 env img)) = map toLower sha" "length sha = 64" using s e(1) by (simp_all add: otaShaMatches_iff)
qed

lemma applyUpdate_urls:
  assumes "otaUrlAllowed (Some url) a" "applyUpdate env url sha sz = (img, urls)"
  shows "(\<forall>u \<in> set urls. otaUrlAllowed (Some u) a) \<and> length urls \<le> OTA_REDIRECT_MAX + 1"
  using assms fetchBinary_urls [OF assms(1), of env sz] by (auto simp: applyUpdate_def Let_def split: if_splits prod.splits)

lemma fetchManifest_urls:
  assumes "otaUrlAllowed (Some url) a" "fetchManifest env url = (m, urls)"
  shows "(\<forall>u \<in> set urls. otaUrlAllowed (Some u) a) \<and> length urls \<le> OTA_REDIRECT_MAX + 1"
  using assms otaHttpGet_urls [OF assms(1), of env manifestCb "[]"] by (auto simp: fetchManifest_def Let_def split: prod.splits)

text \<open>An image is installed for a manifest: fetched, wanted, past the fled gate, and with the manifest's digest.\<close>

definition installFor :: "otaEnv \<Rightarrow> string \<Rightarrow> bool \<Rightarrow> ota \<Rightarrow> string \<Rightarrow> u8 list \<Rightarrow> manifest \<Rightarrow> bool" where
  "installFor env url force o0 ver img m \<longleftrightarrow>
     fst (fetchManifest env url) = Some m \<and> ver = mVersion m \<and>
     (force \<or> otaIsNewer (Some ver) (Some (eFirmware env))) \<and> fst (fledGate (eNvs env) (eClk env) ver force o0) \<and>
     img \<noteq> [] \<and> mSize m \<le> length img \<and> length (mSha m) = 64 \<and> map toLower (hexOf (eSha256 env img)) = map toLower (mSha m)"

definition urlsOk :: "otaEnv \<Rightarrow> string list \<Rightarrow> bool" where
  "urlsOk env urls \<longleftrightarrow> list_all (\<lambda>u. otaUrlAllowed (Some u) (eAllowInsecure env)) urls \<and> length urls \<le> 2 * (OTA_REDIRECT_MAX + 1)"

lemma checkInstall_run:
  assumes "otaUrlAllowed (Some (mUrl m)) (eAllowInsecure env)"
    and "list_all (\<lambda>u. otaUrlAllowed (Some u) (eAllowInsecure env)) urls" "length urls \<le> OTA_REDIRECT_MAX + 1"
    and "checkInstall env m dropped urls o1 = (r, o2)"
  shows "urlsOk env (ckUrls r)"
    "ckInstalled r = Some (ver, img) \<Longrightarrow> ver = mVersion m \<and> (\<exists>us. applyUpdate env (mUrl m) (mSha m) (mSize m) = (Some img, us))"
proof -
  obtain x us where u: "applyUpdate env (mUrl m) (mSha m) (mSize m) = (x, us)" by fastforce
  have "list_all (\<lambda>u. otaUrlAllowed (Some u) (eAllowInsecure env)) us \<and> length us \<le> OTA_REDIRECT_MAX + 1"
    using applyUpdate_urls [OF assms(1) u] by (simp add: list_all_iff)
  moreover have "ckUrls r = urls @ us" using assms(4) u by (auto simp: checkInstall_def Let_def split: option.splits)
  ultimately show "urlsOk env (ckUrls r)" using assms(2,3) by (simp add: urlsOk_def)
  show "ckInstalled r = Some (ver, img) \<Longrightarrow> ver = mVersion m \<and> (\<exists>us. applyUpdate env (mUrl m) (mSha m) (mSize m) = (Some img, us))"
    using assms(4) u by (auto simp: checkInstall_def Let_def split: option.splits)
qed

lemma refused_run [simp]: "ckUrls (refused env why d urls) = urls" "ckInstalled (refused env why d urls) = None"
  by (simp_all add: refused_def)

lemma checkManifest_run:
  assumes "otaUrlAllowed (Some url) (eAllowInsecure env)" "checkManifest env url force dropped o0 = (r, o1)"
  shows "urlsOk env (ckUrls r)" "ckInstalled r = Some (ver, img) \<Longrightarrow> \<exists>m. installFor env url force o0 ver img m"
proof -
  obtain man urls where f: "fetchManifest env url = (man, urls)" by fastforce
  have us: "list_all (\<lambda>u. otaUrlAllowed (Some u) (eAllowInsecure env)) urls" "length urls \<le> OTA_REDIRECT_MAX + 1"
    using fetchManifest_urls [OF assms(1) f] by (simp_all add: list_all_iff)
  show "urlsOk env (ckUrls r)" "ckInstalled r = Some (ver, img) \<Longrightarrow> \<exists>m. installFor env url force o0 ver img m"
  proof (atomize (full), cases "\<exists>m o2. man = Some m \<and> otaShouldUpdate (Some (mVersion m)) (Some (eFirmware env)) force \<and>
      otaUrlAllowed (Some (mUrl m)) (eAllowInsecure env) \<and> fledGate (eNvs env) (eClk env) (mVersion m) force o0 = (True, o2)")
    case True
    then obtain m o2 where m: "man = Some m" "otaShouldUpdate (Some (mVersion m)) (Some (eFirmware env)) force"
      "otaUrlAllowed (Some (mUrl m)) (eAllowInsecure env)" "fledGate (eNvs env) (eClk env) (mVersion m) force o0 = (True, o2)" by blast
    then have c: "checkInstall env m dropped urls o2 = (r, o1)" using assms(2) f by (simp add: checkManifest_def)
    have "\<exists>m. installFor env url force o0 ver img m" if "ckInstalled r = Some (ver, img)"
      using checkInstall_run(2) [OF m(3) us c that] applyUpdate_verified [of env "mUrl m" "mSha m" "mSize m" img] m f
      by (auto simp: installFor_def otaShouldUpdate_def)
    then show "urlsOk env (ckUrls r) \<and> (ckInstalled r = Some (ver, img) \<longrightarrow> (\<exists>m. installFor env url force o0 ver img m))"
      using checkInstall_run(1) [OF m(3) us c] by blast
  next
    case False
    then have "ckInstalled r = None \<and> ckUrls r = urls" using assms(2) f
      by (auto simp: checkManifest_def Let_def split: option.splits if_splits prod.splits)
    then show "urlsOk env (ckUrls r) \<and> (ckInstalled r = Some (ver, img) \<longrightarrow> (\<exists>m. installFor env url force o0 ver img m))"
      using us by (simp add: urlsOk_def)
  qed
qed

text \<open>C1: Whatever servers answer and however the flash behaves, a check requests at most twelve URLs and each is https, or
  http only where the operator opted in; and when an image is installed, its manifest was fetched and complete,
  its version is newer than the running one unless forced, the fled-release gate let it through, at least the
  announced number of bytes were written, and the SHA-256 of exactly the written bytes is the manifest's.\<close>

theorem otaCheck_installs_verified:
  assumes "otaCheck env override force o0 = (r, o1)"
  shows "urlsOk env (ckUrls r) \<and>
    (\<forall>ver img. ckInstalled r = Some (ver, img) \<longrightarrow>
       (\<exists>m. installFor env (case override of Some u \<Rightarrow> u | None \<Rightarrow> eManifestUrl env) force o0 ver img m))"
proof -
  let ?url = "case override of Some u \<Rightarrow> u | None \<Rightarrow> eManifestUrl env" let ?d = "eMqttUp env \<and> eHeapLow env"
  consider "otaUrlAllowed (Some ?url) (eAllowInsecure env)" "checkManifest env ?url force ?d o0 = (r, o1)"
    | "ckUrls r = []" "ckInstalled r = None"
    using assms unfolding otaCheck_def Let_def by (simp split: if_splits) auto
  then show ?thesis
  proof cases
    case 1
    then show ?thesis using checkManifest_run by blast
  next
    case 2
    then show ?thesis by (simp add: urlsOk_def)
  qed
qed


definition goodManifest :: manifest where
  "goodManifest = \<lparr>mVersion = ''1.3.0'', mUrl = ''https://b.example/fw.bin'', mSha = concat (replicate 32 ''ab''), mSize = 3\<rparr>"

definition goodEnv :: otaEnv where
  "goodEnv = \<lparr>eWifi = True, eCell = False,
     eNet = \<lambda>i u. \<lparr>rResolves = True, rCode = 200, rLocation = '''', rSize = -1, rChunks = [[1]]\<rparr>,
     eBinNet = \<lambda>i u. (if i = 0 then \<lparr>rResolves = True, rCode = 302, rLocation = ''https://cdn.example/x'', rSize = -1, rChunks = []\<rparr>
                     else \<lparr>rResolves = True, rCode = 200, rLocation = '''', rSize = 3, rChunks = [[7, 8], [9]]\<rparr>),
     eCellManifest = \<lparr>hUp = False, hStatus = 0, hLen = -1, hChunks = []\<rparr>, eCellBin = \<lparr>hUp = False, hStatus = 0, hLen = -1, hChunks = []\<rparr>,
     eCellRange = \<lambda>k a b. \<lparr>hUp = False, hStatus = 0, hLen = -1, hChunks = []\<rparr>,
     eJson = \<lambda>_. Some goodManifest, eSha256 = \<lambda>_. replicate 32 0xab, eUpdateBegin = True, eUpdateWrite = \<lambda>old d. length d, eUpdateEnd = True,
     eManifestUrl = ''https://a.example/m.json'', eAllowInsecure = False, eHaveCa = True, ePrefix = ''home/x'', eFirmware = ''1.2.3'',
     eMqttUp = True, eHeapLow = False, eOnCellular = False, eNvs = ioOk,
     eClk = \<lparr>clkMillis = 0, clkUptimeMs = 0, clkNtpSynced = False, clkEpoch = 0\<rparr>\<rparr>"

lemma goodEnv_steps:
  "fetchManifest goodEnv ''https://a.example/m.json'' = (Some goodManifest, [''https://a.example/m.json''])"
  "applyUpdate goodEnv (mUrl goodManifest) (mSha goodManifest) (mSize goodManifest) =
     (Some [7, 8, 9], [''https://b.example/fw.bin'', ''https://cdn.example/x''])"
  "otaUrlAllowed (Some (mUrl goodManifest)) False" "otaUrlAllowed (Some ''https://a.example/m.json'') False"
  by code_simp+

lemma goodEnv_gate:
  "otaIsNewer (Some ''1.3.0'') (Some ''1.2.3'')" "fst (fledGate (eNvs goodEnv) (eClk goodEnv) ''1.3.0'' False blankOta)"
  by (simp_all add: otaIsNewer_def ota_parse_eval fledGate_def otaFledAction_def otaSameVersion_def goodEnv_def ioOk_def blankOta_def loadFled_def putFledUnsaved_def)

lemma goodEnv_fields:
  "eManifestUrl goodEnv = ''https://a.example/m.json''" "eWifi goodEnv" "eHaveCa goodEnv" "\<not> eAllowInsecure goodEnv" "\<not> eHeapLow goodEnv"
  "eFirmware goodEnv = ''1.2.3''" "mVersion goodManifest = ''1.3.0''"
  by (simp_all add: goodEnv_def goodManifest_def)

lemma goodEnv_installs: "ckInstalled (fst (otaCheck goodEnv None False blankOta)) = Some (''1.3.0'', [7, 8, 9])"
proof -
  obtain o1 where "fledGate (eNvs goodEnv) (eClk goodEnv) ''1.3.0'' False blankOta = (True, o1)" using goodEnv_gate(2) by (metis prod.collapse)
  then show ?thesis using goodEnv_steps
    by (simp add: otaCheck_def checkManifest_def checkInstall_def goodEnv_fields otaShouldUpdate_def goodEnv_gate(1) Let_def)
qed

text \<open>The witness of C1: a newer release behind a redirect is installed.\<close>

theorem otaCheck_installs_verified_witness:
  "ckInstalled (fst (otaCheck goodEnv None False blankOta)) = Some (''1.3.0'', [7, 8, 9]) \<and>
   urlsOk goodEnv (ckUrls (fst (otaCheck goodEnv None False blankOta))) \<and>
   (\<exists>m. installFor goodEnv (eManifestUrl goodEnv) False blankOta ''1.3.0'' [7, 8, 9] m)"
  using otaCheck_installs_verified [of goodEnv None False blankOta "fst (otaCheck goodEnv None False blankOta)" "snd (otaCheck goodEnv None False blankOta)"]
    goodEnv_installs by simp

section \<open>The ranged download\<close>

definition appends :: "('s \<Rightarrow> u8 list) \<Rightarrow> 's writer \<Rightarrow> bool" where
  "appends view cb \<longleftrightarrow> (\<forall>d s. view (snd (cb d s)) = view s @ (if fst (cb d s) then d else []))"

lemma otaWrite_appends: "appends fWritten (otaWrite env)"
  by (simp add: appends_def otaWrite_def)

lemma counting_step:
  assumes "appends view cb" "counting cb acc len d (got, s) = (ok, got', s')" "got \<le> len"
  shows "\<exists>x. view s' = view s @ x \<and> got' = got + length x \<and> got' \<le> len \<and> (acc \<or> x = []) \<and> prefix x d \<and> (ok \<longrightarrow> x = d)"
proof -
  let ?d = "take (len - got) d"
  obtain ok1 s1 where w: "(if ?d = [] then (True, s) else cb ?d s) = (ok1, s1)" by fastforce
  then have v: "view s1 = view s @ (if ok1 then ?d else [])" using assms(1) by (auto simp: appends_def split: if_splits) (metis fst_conv snd_conv)+
  show ?thesis
  proof (cases "acc \<and> ok1")
    case True
    then have "got' = got + length ?d" "s' = s1" "ok \<longleftrightarrow> \<not> len - got < length d" using assms(2) w by (auto simp: counting_def Let_def split: if_splits)
    then show ?thesis using v True assms(3) by (intro exI [of _ ?d]) (auto simp: take_is_prefix min_def)
  next
    case False
    then show ?thesis using assms(2,3) w v by (intro exI [of _ "[]"]) (auto simp: counting_def Let_def split: if_splits)
  qed
qed

lemma cellBody_counting:
  assumes "appends view cb"
  shows "cellBody (counting cb acc len) cl cs n (got, s) = (ok, n', got', s') \<Longrightarrow> got \<le> len \<Longrightarrow>
    \<exists>x. view s' = view s @ x \<and> got' = got + length x \<and> got' \<le> len \<and> (acc \<or> x = []) \<and> prefix x (concat cs)"
proof (induction cs arbitrary: n got s)
  case (Cons c cs)
  obtain ok1 got1 s1 where c: "counting cb acc len c (got, s) = (ok1, got1, s1)" by (metis prod_cases3)
  obtain x where x: "view s1 = view s @ x" "got1 = got + length x" "got1 \<le> len" "acc \<or> x = []" "prefix x c" "ok1 \<longrightarrow> x = c"
    using counting_step [OF assms c Cons.prems(2)] by blast
  show ?case
  proof (cases "(0 < cl \<and> cl \<le> int n) \<or> \<not> ok1")
    case True
    then consider "got' = got" "s' = s" | "got' = got1" "s' = s1" using Cons.prems(1) c by (auto split: if_splits)
    then show ?thesis
    proof cases
      case 1
      then show ?thesis using Cons.prems(2) by (intro exI [of _ "[]"]) simp
    next
      case 2
      then show ?thesis using x by (intro exI [of _ x]) (auto intro: prefix_order.trans)
    qed
  next
    case False
    then have "cellBody (counting cb acc len) cl cs (n + length c) (got1, s1) = (ok, n', got', s')" using Cons.prems(1) c by (auto simp: Let_def)
    from Cons.IH [OF this x(3)] obtain y where y: "view s' = view s1 @ y" "got' = got1 + length y" "got' \<le> len" "acc \<or> y = []" "prefix y (concat cs)" by blast
    then show ?thesis using x False by (intro exI [of _ "x @ y"]) auto
  qed
qed auto


text \<open>What HTTP promises about a ranged request: a 206 carries the image from the requested byte on, a 200 the image from
  its start. The body may stop early or run past the range.\<close>

definition honest :: "u8 list \<Rightarrow> (nat \<Rightarrow> nat \<Rightarrow> nat \<Rightarrow> cellResp) \<Rightarrow> bool" where
  "honest img cell \<longleftrightarrow> (\<forall>k a b. (hStatus (cell k a b) = 206 \<longrightarrow> prefix (concat (hChunks (cell k a b))) (drop a img)) \<and>
                              (hStatus (cell k a b) = 200 \<longrightarrow> prefix (concat (hChunks (cell k a b))) img))"

lemma httpsGet_counting:
  assumes "appends view cb" "httpsGet (counting cb acc len) r (0, s) = (ok, st, got, s')"
  shows "\<exists>x. view s' = view s @ x \<and> got = length x \<and> got \<le> len \<and> (acc \<or> x = []) \<and> prefix x (concat (hChunks r))"
proof (cases "hUp r")
  case True
  obtain ok1 n g s1 where b: "cellBody (counting cb acc len) (hLen r) (hChunks r) 0 (0, s) = (ok1, n, g, s1)" by (metis prod_cases4)
  then have "got = g" "s' = s1" using assms(2) True by (auto simp: httpsGet_def split: if_splits)
  then show ?thesis using cellBody_counting [OF assms(1) b] by simp
next
  case False
  then show ?thesis using assms(2) by (simp add: httpsGet_def)
qed

lemma prefix_take: "prefix x (drop a img) \<Longrightarrow> take a img @ x = take (a + length x) img"
  by (metis prefixE append_eq_conv_conj take_add)

lemma chunkTries_exact:
  assumes "appends view cb" "honest img cell" "fin < length img"
  shows "view s = take offset img \<Longrightarrow> offset \<le> fin \<Longrightarrow> chunkTries cb cell (length img) left k offset fin s = (ok, k1, s1) \<Longrightarrow>
    prefix (view s1) img \<and> (ok \<longrightarrow> view s1 = take (fin + 1) img) \<and> k1 \<le> k + left"
proof (induction left arbitrary: k offset s)
  case 0
  then show ?case by (simp add: take_is_prefix)
next
  case (Suc left)
  let ?r = "cell k offset fin"
  let ?acc = "hStatus ?r = 206 \<or> (hStatus ?r = 200 \<and> offset = 0 \<and> fin = length img - 1)"
  obtain b st got s2 where g: "httpsGet (counting cb ?acc (fin + 1 - offset)) ?r (0, s) = (b, st, got, s2)" by (metis prod_cases4)
  obtain x where x: "view s2 = view s @ x" "got = length x" "got \<le> fin + 1 - offset" "?acc \<or> x = []" "prefix x (concat (hChunks ?r))"
    using httpsGet_counting [OF assms(1) g] by blast
  have "prefix x (drop offset img)"
  proof (cases "x = []")
    case False
    then have "prefix (concat (hChunks ?r)) (drop offset img)" using x(4) assms(2) by (auto simp: honest_def)
    then show ?thesis using x(5) prefix_order.trans by blast
  qed simp
  then have v: "view s2 = take (offset + got) img" using x(1,2) Suc.prems(1) prefix_take by metis
  consider (got_all) "fin < offset + got" "ok" "k1 = k + 1" "s1 = s2" | (stop) "\<not> ok" "k1 = k + 1" "s1 = s2"
    | (again) "\<not> fin < offset + got" "chunkTries cb cell (length img) left (k + 1) (offset + got) fin s2 = (ok, k1, s1)"
    using Suc.prems(3) g by (auto simp: Let_def split: if_splits)
  then show ?case
  proof cases
    case got_all
    then have "offset + got = fin + 1" using x(3) Suc.prems(2) by linarith
    then show ?thesis using got_all v by (simp add: take_is_prefix)
  next
    case stop
    then show ?thesis using v by (simp add: take_is_prefix)
  next
    case again
    then show ?thesis using Suc.IH [OF v _ again(2)] by simp
  qed
qed

lemma chunks_left:
  assumes "offset < n"
  shows "1 + (n - (min (offset + CHUNK - 1) (n - 1) + 1) + (CHUNK - 1)) div CHUNK \<le> (n - offset + (CHUNK - 1)) div CHUNK"
proof (cases "offset + CHUNK \<le> n")
  case True
  have c: "0 < CHUNK" by (simp add: CHUNK_def)
  let ?m = "n - (min (offset + CHUNK - 1) (n - 1) + 1) + (CHUNK - 1)"
  have "n - offset + (CHUNK - 1) = ?m + CHUNK" using True c by auto
  then have "(n - offset + (CHUNK - 1)) div CHUNK = ?m div CHUNK + 1" using c by (simp only: div_add_self2)
  then show ?thesis by (simp only: add.commute)
next
  case False
  have c: "0 < CHUNK" by (simp add: CHUNK_def)
  have "min (offset + CHUNK - 1) (n - 1) + 1 = n" using assms False by auto
  moreover have "CHUNK \<le> n - offset + (CHUNK - 1)" using assms by linarith
  ultimately show ?thesis using c by (simp add: div_greater_zero_iff Suc_le_eq)
qed

lemma chunkLoop_exact:
  assumes "appends view cb" "honest img cell"
  shows "view s = take offset img \<Longrightarrow> offset \<le> length img \<Longrightarrow> chunkLoop cb cell (length img) k offset s = (ok, k1, s1) \<Longrightarrow>
    prefix (view s1) img \<and> (ok \<longrightarrow> view s1 = img) \<and> k1 \<le> k + 3 * ((length img - offset + (CHUNK - 1)) div CHUNK)"
proof (induction "length img - offset" arbitrary: k offset s rule: less_induct)
  case less
  show ?case
  proof (cases "length img \<le> offset")
    case True
    then have "chunkLoop cb cell (length img) k offset s = (True, k, s)" by (subst chunkLoop.simps) simp
    then show ?thesis using less.prems True by simp
  next
    case False
    let ?fin = "min (offset + CHUNK - 1) (length img - 1)"
    have c: "0 < CHUNK" by (simp add: CHUNK_def)
    have fin: "?fin < length img" "offset \<le> ?fin" using False c by auto
    obtain b k2 s2 where t: "chunkTries cb cell (length img) CHUNK_TRIES k offset ?fin s = (b, k2, s2)" by (metis prod_cases3)
    note tr = chunkTries_exact [OF assms fin(1) less.prems(1) fin(2) t]
    have n: "1 + (length img - (?fin + 1) + (CHUNK - 1)) div CHUNK \<le> (length img - offset + (CHUNK - 1)) div CHUNK"
      using False by (intro chunks_left) linarith
    show ?thesis
    proof (cases b)
      case True
      then have l: "chunkLoop cb cell (length img) k2 (?fin + 1) s2 = (ok, k1, s1)" using less.prems(3) t False
        by (subst (asm) chunkLoop.simps) (simp add: Let_def)
      have "length img - (?fin + 1) < length img - offset" using fin by linarith
      from less.hyps [OF this _ _ l] tr True fin(1) show ?thesis using n by (auto simp: CHUNK_TRIES_def)
    next
      case no: False
      then have "ok = False" "k1 = k2" "s1 = s2" using less.prems(3) t False by (subst (asm) chunkLoop.simps, simp add: Let_def)+
      then show ?thesis using tr n by (auto simp: CHUNK_TRIES_def)
    qed
  qed
qed


text \<open>C29: The ranged download over the modem always ends, after at most three requests per 256 KB. From a server that
  honours byte ranges it never writes anything but the image in order, across retries, short and overlong
  answers and flash errors; and when it reports success the flash holds exactly the whole image.\<close>

theorem chunked_download_exact:
  assumes "honest img cell"
    and "downloadBinaryChunkedCellular (otaWrite env) cell url (length img) \<lparr>fWritten = [], fOk = True\<rparr> = (ok, requests, w)"
  shows "requests \<le> 3 * ((length img + (CHUNK - 1)) div CHUNK) \<and> prefix (fWritten w) img \<and> (ok \<longrightarrow> fWritten w = img)"
  using chunkLoop_exact [OF otaWrite_appends [of env] assms(1), of "\<lparr>fWritten = [], fOk = True\<rparr>" 0 0 ok requests w] assms(2)
  by (auto simp: downloadBinaryChunkedCellular_def split: if_splits)

text \<open>A server that stops after two bytes on its first answer and overruns on the second.\<close>

definition shakyCell :: "u8 list \<Rightarrow> nat \<Rightarrow> nat \<Rightarrow> nat \<Rightarrow> cellResp" where
  "shakyCell img k a b = \<lparr>hUp = True, hStatus = 206, hLen = -1, hChunks = (if k = 0 then [take 2 (drop a img)] else [drop a img])\<rparr>"

lemma shaky_honest: "honest img (shakyCell img)"
  by (simp add: honest_def shakyCell_def take_is_prefix)

lemma shaky_run:
  "downloadBinaryChunkedCellular (otaWrite goodEnv) (shakyCell [1, 2, 3, 4, 5]) ''https://b.example/fw.bin'' (length [1, 2, 3, 4, 5 :: u8]) \<lparr>fWritten = [], fOk = True\<rparr> =
   (True, 2, \<lparr>fWritten = [1, 2, 3, 4, 5], fOk = True\<rparr>)"
proof -
  have u: "httpUrlSplit (Some ''https://b.example/fw.bin'') 128 \<noteq> None" by code_simp
  have w: "otaWrite goodEnv d \<lparr>fWritten = x, fOk = True\<rparr> = (True, \<lparr>fWritten = x @ d, fOk = True\<rparr>)" for d x
    by (simp add: otaWrite_def goodEnv_def)
  have t: "CHUNK_TRIES = Suc (Suc (Suc 0))" by (simp add: CHUNK_TRIES_def)
  show ?thesis using u
    by (simp add: downloadBinaryChunkedCellular_def chunkLoop.simps CHUNK_def t shakyCell_def httpsGet_def counting_def w Let_def)
qed

text \<open>The witness of C1: two requests, the image complete.\<close>

theorem chunked_download_exact_witness:
  "honest [1, 2, 3, 4, 5] (shakyCell [1, 2, 3, 4, 5]) \<and>
   2 \<le> 3 * ((length [1, 2, 3, 4, 5 :: u8] + (CHUNK - 1)) div CHUNK) \<and> prefix [1, 2, 3, 4, 5 :: u8] [1, 2, 3, 4, 5]"
  using chunked_download_exact [OF shaky_honest shaky_run] shaky_honest by simp


section \<open>When checks run\<close>

lemma settle_arith:
  assumes "OTA_SETTLE_MS < iv" "d < OTA_SETTLE_MS" shows "d + (iv - OTA_SETTLE_MS) < (iv :: u32)"
proof -
  have n: "unat OTA_SETTLE_MS < unat iv" "unat d < unat OTA_SETTLE_MS" using assms by (simp_all add: word_less_nat_alt)
  have s: "unat (iv - OTA_SETTLE_MS) = unat iv - unat OTA_SETTLE_MS" using assms(1) by (intro unat_sub) simp
  then have "unat d + unat (iv - OTA_SETTLE_MS) < 2 ^ 32" using n unat_less_32 [of iv] by simp
  then have "unat (d + (iv - OTA_SETTLE_MS)) = unat d + unat (iv - OTA_SETTLE_MS)" by (simp add: unat_word_ariths)
  then show ?thesis using s n by (simp add: word_less_nat_alt)
qed

text \<open>With an interval above 30 s the first periodic check comes no sooner than 30 s after the start, also when the
  start lies just before the clock wraps.\<close>

lemma first_check_settles:
  assumes "st = otaBegin en iv env0 st0" "OTA_SETTLE_MS < checkIntervalMs st" "clkMillis (eClk env) = clkMillis (eClk env0) + d" "d < OTA_SETTLE_MS"
    and "\<not> checkRequested st" "\<not> slOn sl"
  shows "fst (otaDue env sl st) = None"
proof -
  have "lastCheck st = clkMillis (eClk env0) - (checkIntervalMs st - OTA_SETTLE_MS)" using assms(1,2) by (simp add: otaBegin_def Let_def)
  then have "clkMillis (eClk env) - lastCheck st = d + (checkIntervalMs st - OTA_SETTLE_MS)" using assms(3) by simp
  then have "\<not> checkIntervalMs st \<le> clkMillis (eClk env) - lastCheck st" using settle_arith [OF assms(2,4)] by simp
  then show ?thesis using assms(5,6) by (simp add: otaDue_def Let_def)
qed

text \<open>A requested check runs whether or not updates are enabled, and exactly once.\<close>

lemma requested_check_once:
  assumes "otaDue env sl (triggerCheck override force st) = (what, sl', st')"
  shows "what = Some (if override = None \<or> override = Some '''' then None else override, force)" "\<not> checkRequested st'" "pendingManifestUrl st' = ''''"
  using assms by (auto simp: otaDue_def triggerCheck_def split: option.splits)

text \<open>A command-topic message never names a manifest of its own.\<close>

lemma cmdTopic_no_override: "\<exists>force. fst (otaDue env sl (cmdTopicTrigger st)) = Some (None, force)"
  by (simp add: otaDue_def cmdTopicTrigger_def)

end
