(* ===== verification/Cli_Page.thy ===== *)
theory Cli_Page
  imports Fw_Prelude
begin

text \<open>
  Paging of command output: \<open>cli_page_policy.h\<close> and the paging loop of \<open>MQTTClient::runCli\<close>. A reply is a JSON
  object that must fit the client's one buffer. Output lines are collected until the next one would overflow
  the page; a line no page can hold goes out in pieces, the page that ends inside a line carrying \<open>cont\<close>.
\<close>

unbundle bit_operations_syntax

section \<open>Definitions\<close>

definition CLI_MQTT_FIXED_HEADER :: nat where "CLI_MQTT_FIXED_HEADER = 7"
definition CLI_CONT_COST :: nat where "CLI_CONT_COST = 12"
definition CLI_STR_OVERHEAD :: nat where "CLI_STR_OVERHEAD = 3"
definition CLI_PAGE_MARGIN :: nat where "CLI_PAGE_MARGIN = 160"

definition cliReplyCap :: "nat \<Rightarrow> nat \<Rightarrow> nat \<Rightarrow> nat" where
  "cliReplyCap bufOut bufIn topicLen =
     (let fixed = CLI_MQTT_FIXED_HEADER + topicLen; inn = (if fixed < bufIn then bufIn - fixed else 0)
      in if bufOut < inn then bufOut else inn)"

definition cliPageLimit :: "nat \<Rightarrow> nat" where
  "cliPageLimit replyCap = (if CLI_PAGE_MARGIN < replyCap then replyCap - CLI_PAGE_MARGIN else replyCap div 2)"

definition cliJsonCharCost :: "char \<Rightarrow> nat" where
  "cliJsonCharCost c =
     (if c \<in> {CHR 0x22, CHR 0x5C, CHR 0x08, CHR 0x0C, CHR 0x0A, CHR 0x0D, CHR 0x09} then 2 else if c = CHR 0x00 then 6 else 1)"

definition cliJsonStrLen :: "string \<Rightarrow> nat" where
  "cliJsonStrLen s = sum_list (map cliJsonCharCost s)"

definition utf8Cont :: "char \<Rightarrow> bool" where
  "utf8Cont c \<longleftrightarrow> (of_char c :: u8) AND 0xC0 = 0x80"

definition utf8Seq :: "char \<Rightarrow> nat" where
  "utf8Seq c = (if (of_char c :: u8) AND 0xE0 = 0xC0 then 2 else if (of_char c :: u8) AND 0xF0 = 0xE0 then 3
     else if (of_char c :: u8) AND 0xF8 = 0xF0 then 4 else 1)"

text \<open>\<open>left\<close> turns of the loop remain, \<open>bk\<close> bytes were looked at.\<close>

fun utf8Loop :: "string \<Rightarrow> nat \<Rightarrow> nat \<Rightarrow> nat \<Rightarrow> nat" where
  "utf8Loop s n 0 bk = n"
| "utf8Loop s n (Suc left) bk =
     (if n \<le> bk then n
      else let c = s ! (n - 1 - bk)
           in if utf8Cont c then utf8Loop s n left (bk + 1)
              else if bk + 1 < utf8Seq c then n - 1 - bk else n)"

definition cliUtf8Cut :: "string \<Rightarrow> nat \<Rightarrow> nat" where
  "cliUtf8Cut s n = utf8Loop s n 4 0"

fun fitLoop :: "string \<Rightarrow> nat \<Rightarrow> nat \<Rightarrow> nat" where
  "fitLoop [] used budget = 0"
| "fitLoop (c # s) used budget =
     (if budget < used + cliJsonCharCost c then 0 else Suc (fitLoop s (used + cliJsonCharCost c) budget))"

definition cliJsonFit :: "string \<Rightarrow> nat \<Rightarrow> nat" where
  "cliJsonFit s budget = (let m = fitLoop s 0 budget in if m = length s then m else cliUtf8Cut s m)"

text \<open>The piece's length, and whether it is less than all of \<open>s\<close>.\<close>

definition cliNextPiece :: "string \<Rightarrow> nat \<Rightarrow> nat \<Rightarrow> nat \<times> bool" where
  "cliNextPiece s pageUsed pageLimit =
     (let used = pageUsed + CLI_STR_OVERHEAD; room = (if used < pageLimit then pageLimit - used else 0);
          whole = (used \<le> pageLimit \<and> cliJsonStrLen s \<le> room)
      in if whole then (length s, False) else (if CLI_CONT_COST < room then cliJsonFit s (room - CLI_CONT_COST) else 0, True))"

subsection \<open>The paging loop\<close>

record page =
  pgOut :: "string list"
  pgCont :: bool

record pager =
  prNum :: nat                  \<comment> \<open>\<open>pageNum\<close>\<close>
  prOut :: "string list"        \<comment> \<open>\<open>output\<close> of the page being filled\<close>
  prPages :: "page list"        \<comment> \<open>pages shipped with \<open>more\<close>\<close>
  prDropped :: bool             \<comment> \<open>\<open>lineDropped\<close>\<close>

definition prStart :: pager where
  "prStart = \<lparr>prNum = 0, prOut = [], prPages = [], prDropped = False\<rparr>"

text \<open>\<open>measureJson(resp)\<close>: \<open>env k\<close> is the reply's size with page number \<open>k\<close> and no output; each string adds its
  escaped text, two quotes, and a comma after the first.\<close>

definition pageSize :: "(nat \<Rightarrow> nat) \<Rightarrow> nat \<Rightarrow> string list \<Rightarrow> nat" where
  "pageSize env k out = env k + sum_list (map (\<lambda>s. cliJsonStrLen s + 2) out) + (length out - 1)"

definition shipPage :: "bool \<Rightarrow> pager \<Rightarrow> pager" where
  "shipPage cont p = p\<lparr>prPages := prPages p @ [\<lparr>pgOut = prOut p, pgCont = cont\<rparr>], prNum := prNum p + 1, prOut := []\<rparr>"

lemma piece_of_empty: "cliNextPiece [] used lim = (n, True) \<Longrightarrow> n = 0"
  by (auto simp: cliNextPiece_def cliJsonStrLen_def Let_def split: if_splits)

function emitLine :: "(nat \<Rightarrow> nat) \<Rightarrow> nat \<Rightarrow> string \<Rightarrow> pager \<Rightarrow> pager" where
  "emitLine env lim line p =
     (let (n, split) = cliNextPiece line (pageSize env (prNum p) (prOut p)) lim
      in if split \<and> prOut p \<noteq> [] then emitLine env lim line (shipPage False p)
         else if split \<and> n = 0 then p\<lparr>prDropped := True\<rparr>
         else let p1 = p\<lparr>prOut := prOut p @ [take n line]\<rparr>
              in if \<not> split then p1 else emitLine env lim (drop n line) (shipPage True p1))"
  by pat_completeness auto
termination
proof (relation "measures [\<lambda>(env, lim, line, p). length line, \<lambda>(env, lim, line, p). length (prOut p)]", goal_cases)
  case (3 env lim line p x n split p1)
  then have "line \<noteq> []" using piece_of_empty by fastforce
  then show ?case using 3 by auto
qed (auto simp: shipPage_def)


declare emitLine.simps [simp del]

text \<open>One output line after another, then the last page.\<close>

definition runPages :: "(nat \<Rightarrow> nat) \<Rightarrow> nat \<Rightarrow> string list \<Rightarrow> pager" where
  "runPages env lim ls = fold (emitLine env lim) ls prStart"

definition allPages :: "pager \<Rightarrow> page list" where
  "allPages p = prPages p @ [\<lparr>pgOut = prOut p, pgCont = False\<rparr>]"

text \<open>The measured size of a published page: \<open>more\<close> is true on all but the last, and \<open>ok\<close> is false only there.\<close>

definition replySize :: "(nat \<Rightarrow> nat) \<Rightarrow> bool \<Rightarrow> bool \<Rightarrow> nat \<Rightarrow> page \<Rightarrow> nat" where
  "replySize env ok mo k pg = pageSize env k (pgOut pg) + (if pgCont pg then CLI_CONT_COST else 0) +
     (if mo then 12 else 13) + (if ok then 0 else 1)"

text \<open>What \<open>publishPage\<close> and \<open>publishCliResponse\<close> let out: the reply must be shorter than the cap. \<open>res\<close> is the shell's result.\<close>

definition publishedPages :: "(nat \<Rightarrow> nat) \<Rightarrow> nat \<Rightarrow> bool \<Rightarrow> pager \<Rightarrow> page list" where
  "publishedPages env cap res p =
     map snd (filter (\<lambda>(k, pg). replySize env (if k < prNum p then True else res \<and> \<not> prDropped p) (k < prNum p) k pg < cap)
       (enumerate 0 (allPages p)))"

section \<open>What a consumer reads\<close>

text \<open>A consumer joins the last string of a page that carries \<open>cont\<close> with the first of the next.\<close>

definition joinPage :: "page \<Rightarrow> string list \<Rightarrow> string list" where
  "joinPage pg r = (if pgCont pg then butlast (pgOut pg) @ (last (pgOut pg) @ hd r) # tl r else pgOut pg @ r)"

definition joinPages :: "page list \<Rightarrow> string list" where
  "joinPages ps = foldr joinPage ps []"

section \<open>Pieces\<close>

lemma cost_bounds: "0 < cliJsonCharCost c" "c \<noteq> CHR 0x00 \<Longrightarrow> cliJsonCharCost c \<le> 2"
  by (auto simp: cliJsonCharCost_def)

lemma fitLoop_le: "fitLoop s used budget \<le> length s"
  by (induction s used budget rule: fitLoop.induct) auto

lemma fitLoop_cost: "used \<le> budget \<Longrightarrow> used + cliJsonStrLen (take (fitLoop s used budget) s) \<le> budget"
  by (induction s used budget rule: fitLoop.induct) (auto simp: cliJsonStrLen_def)

lemma utf8Loop_le: "utf8Loop s n left bk \<le> n"
  by (induction s n left bk rule: utf8Loop.induct) (auto simp: Let_def)

lemma strLen_take: "m \<le> n \<Longrightarrow> cliJsonStrLen (take m s) \<le> cliJsonStrLen (take n s)"
proof -
  assume "m \<le> n"
  then have "take n s = take m s @ take (n - m) (drop m s)" by (metis le_add_diff_inverse take_add)
  then show ?thesis by (simp add: cliJsonStrLen_def)
qed

lemma cliJsonFit_cost: "cliJsonStrLen (take (cliJsonFit s budget) s) \<le> budget"
proof -
  let ?m = "fitLoop s 0 budget"
  have "cliJsonFit s budget \<le> ?m" using utf8Loop_le by (auto simp: cliJsonFit_def cliUtf8Cut_def Let_def)
  then show ?thesis using strLen_take [of "cliJsonFit s budget" ?m s] fitLoop_cost [of 0 budget s] by simp
qed


lemma fitLoop_all: "fitLoop s used budget = length s \<or> fitLoop s used budget < length s \<and>
   budget < used + cliJsonStrLen (take (Suc (fitLoop s used budget)) s)"
  by (induction s used budget rule: fitLoop.induct) (auto simp: cliJsonStrLen_def)

lemma utf8Loop_zero:
  assumes "utf8Loop s n left bk = 0" "0 < n" "bk + left \<le> 4" "bk \<le> n" "\<forall>i < bk. utf8Cont (s ! (n - 1 - i))"
  shows "n \<le> 3 \<and> (\<forall>i < n. 0 < i \<longrightarrow> utf8Cont (s ! i)) \<and> 1 < utf8Seq (s ! 0)"
  using assms
proof (induction s n left bk rule: utf8Loop.induct)
  case (2 s n left bk)
  let ?c = "s ! (n - 1 - bk)"
  have lt: "bk < n" using "2.prems"(1,2) by (auto split: if_splits)
  show ?case
  proof (cases "utf8Cont ?c")
    case True
    then have "\<forall>i < bk + 1. utf8Cont (s ! (n - 1 - i))" using "2.prems"(5) by (simp add: less_Suc_eq)
    then show ?thesis using "2.IH" [OF _ refl True] "2.prems" lt True by (auto simp: Let_def)
  next
    case False
    then have seq: "bk + 1 < utf8Seq ?c" "n - 1 - bk = 0" using "2.prems"(1,2) lt by (auto simp: Let_def split: if_splits)
    then have n: "n = bk + 1" using lt by simp
    have "utf8Seq ?c \<le> 4" by (simp add: utf8Seq_def)
    moreover have "utf8Cont (s ! i)" if "i < n" "0 < i" for i
      using "2.prems"(5) [rule_format, of "n - 1 - i"] that n by simp
    ultimately show ?thesis using seq n by auto
  qed
qed simp

lemma high_cost: "utf8Cont c \<or> 1 < utf8Seq c \<Longrightarrow> cliJsonCharCost c = 1"
  by (auto simp: cliJsonCharCost_def utf8Cont_def utf8Seq_def)

text \<open>A cut at zero means that a character within the first four bytes does not fit.\<close>

lemma cliJsonFit_zero:
  assumes "cliJsonFit s budget = 0" "s \<noteq> []"
  shows "\<exists>i \<le> 3. i < length s \<and> budget < i + cliJsonCharCost (s ! i)"
proof -
  let ?m = "fitLoop s 0 budget"
  have m: "?m < length s" "budget < cliJsonStrLen (take (Suc ?m) s)"
    using fitLoop_all [of s 0 budget] assms by (auto simp: cliJsonFit_def Let_def)
  show ?thesis
  proof (cases "?m = 0")
    case True
    then show ?thesis using m by (cases s) (auto simp: cliJsonStrLen_def)
  next
    case False
    then have u: "?m \<le> 3" "\<forall>i < ?m. 0 < i \<longrightarrow> utf8Cont (s ! i)" "1 < utf8Seq (s ! 0)"
      using utf8Loop_zero [of s ?m 4 0] assms(1) m(1) by (auto simp: cliJsonFit_def cliUtf8Cut_def Let_def)
    have one: "cliJsonCharCost (s ! i) = 1" if "i < ?m" for i using u that high_cost by (cases i) auto
    have "map cliJsonCharCost (take ?m s) = replicate ?m 1" using one m(1) by (intro nth_equalityI) auto
    then have "cliJsonStrLen (take ?m s) = ?m" by (simp add: cliJsonStrLen_def sum_list_replicate)
    then have "budget < ?m + cliJsonCharCost (s ! ?m)" using m by (simp add: cliJsonStrLen_def take_Suc_conv_app_nth [OF m(1)])
    then show ?thesis using u(1) m(1) by blast
  qed
qed

text \<open>With room for five bytes a piece of a NUL-free line is never empty, wherever its characters end; with nine any text has one.\<close>

lemma cliJsonFit_pos:
  assumes "5 \<le> budget" "s \<noteq> []" "CHR 0x00 \<notin> set s"
  shows "0 < cliJsonFit s budget"
proof (rule ccontr)
  assume "\<not> 0 < cliJsonFit s budget"
  then obtain i where "i \<le> 3" "i < length s" "budget < i + cliJsonCharCost (s ! i)" using cliJsonFit_zero assms(2) by blast
  moreover have "cliJsonCharCost (s ! i) \<le> 2" using cost_bounds(2) assms(3) calculation(2) by (metis nth_mem)
  ultimately show False using assms(1) by linarith
qed

lemma cliJsonFit_pos_any:
  assumes "9 \<le> budget" "s \<noteq> []"
  shows "0 < cliJsonFit s budget"
proof (rule ccontr)
  assume "\<not> 0 < cliJsonFit s budget"
  then obtain i where "i \<le> 3" "budget < i + cliJsonCharCost (s ! i)" using cliJsonFit_zero assms(2) by blast
  moreover have "cliJsonCharCost (s ! i) \<le> 6" by (simp add: cliJsonCharCost_def)
  ultimately show False using assms(1) by linarith
qed

section \<open>Nothing is lost and every page fits\<close>

definition pageFits :: "(nat \<Rightarrow> nat) \<Rightarrow> nat \<Rightarrow> nat \<Rightarrow> page \<Rightarrow> bool" where
  "pageFits env lim k pg \<longleftrightarrow> pageSize env k (pgOut pg) + (if pgCont pg then CLI_CONT_COST else 0) \<le> lim"

definition prOk :: "(nat \<Rightarrow> nat) \<Rightarrow> nat \<Rightarrow> pager \<Rightarrow> bool" where
  "prOk env lim p \<longleftrightarrow> prNum p = length (prPages p) \<and> \<not> prDropped p \<and> (prOut p \<noteq> [] \<longrightarrow> pageSize env (prNum p) (prOut p) \<le> lim) \<and>
     (\<forall>i < length (prPages p). pageFits env lim i (prPages p ! i))"

text \<open>Pages begun so far.\<close>

definition prBegun :: "pager \<Rightarrow> nat" where
  "prBegun p = prNum p + (if prOut p = [] then 0 else 1)"

lemma whole_piece:
  assumes "cliNextPiece line (pageSize env k out) lim = (n, False)"
  shows "n = length line" "pageSize env k (out @ [line]) \<le> lim"
  using assms by (auto simp: cliNextPiece_def pageSize_def CLI_STR_OVERHEAD_def Let_def split: if_splits)

lemma split_piece:
  assumes "cliNextPiece line (pageSize env k []) lim = (n, True)" "env k + 20 \<le> lim" "CHR 0x00 \<notin> set line"
  shows "0 < n" "line \<noteq> []" "pageSize env k [take n line] + CLI_CONT_COST \<le> lim"
proof -
  let ?room = "lim - (env k + 3)"
  have n: "n = cliJsonFit line (?room - 12)" and l: "line \<noteq> []" using assms(1,2)
    by (auto simp: cliNextPiece_def pageSize_def CLI_STR_OVERHEAD_def CLI_CONT_COST_def cliJsonStrLen_def Let_def split: if_splits)
  show "line \<noteq> []" by (rule l)
  show "0 < n" unfolding n using cliJsonFit_pos [OF _ l assms(3)] assms(2) by simp
  show "pageSize env k [take n line] + CLI_CONT_COST \<le> lim"
    using cliJsonFit_cost [of line "?room - 12"] n assms(2) by (simp add: pageSize_def CLI_CONT_COST_def)
qed

lemma ship_ok:
  assumes "prNum p = length (prPages p)" "\<not> prDropped p" "\<forall>i < length (prPages p). pageFits env lim i (prPages p ! i)"
    and "pageSize env (prNum p) (prOut p) + (if cont then CLI_CONT_COST else 0) \<le> lim"
  shows "prOk env lim (shipPage cont p)"
  using assms by (auto simp: prOk_def shipPage_def nth_append less_Suc_eq pageFits_def)

lemma join_ship: "foldr joinPage (prPages (shipPage False p)) R = foldr joinPage (prPages p) (prOut p @ R)"
  "foldr joinPage (prPages (shipPage True (p\<lparr>prOut := [x]\<rparr>))) (y # R) = foldr joinPage (prPages p) ((x @ y) # R)"
  by (simp_all add: shipPage_def joinPage_def)

lemma emitLine_ok:
  "\<forall>k \<le> K. env k + 20 \<le> lim \<Longrightarrow> CHR 0x00 \<notin> set line \<Longrightarrow> prOk env lim p \<Longrightarrow> prBegun p + length line + 1 \<le> K \<Longrightarrow>
   prOk env lim (emitLine env lim line p) \<and> prBegun (emitLine env lim line p) \<le> prBegun p + length line + 1 \<and>
   (\<forall>R. foldr joinPage (prPages (emitLine env lim line p)) (prOut (emitLine env lim line p) @ R) = foldr joinPage (prPages p) (prOut p @ line # R))"
proof (induction env lim line p rule: emitLine.induct)
  case (1 env lim line p)
  obtain n split where np: "cliNextPiece line (pageSize env (prNum p) (prOut p)) lim = (n, split)" by fastforce
  have room: "env (prNum p) + 20 \<le> lim" using "1.prems"(1,4) by (simp add: prBegun_def)
  consider (flush) "split" "prOut p \<noteq> []" | (whole) "\<not> split" | (piece) "split" "prOut p = []" by blast
  then show ?case
  proof cases
    case flush
    have e: "emitLine env lim line p = emitLine env lim line (shipPage False p)" using np flush by (subst emitLine.simps) simp
    have ok: "prOk env lim (shipPage False p)" using "1.prems"(3) flush by (intro ship_ok) (auto simp: prOk_def)
    have "prBegun (shipPage False p) = prBegun p" "prOut (shipPage False p) = []" using flush by (simp_all add: prBegun_def shipPage_def)
    then show ?thesis using "1.IH"(1) [OF refl np [symmetric]] flush "1.prems" ok unfolding e join_ship(1) by simp
  next
    case whole
    then have e: "emitLine env lim line p = p\<lparr>prOut := prOut p @ [line]\<rparr>" using np whole_piece(1) [of line env "prNum p" "prOut p" lim n]
      by (subst emitLine.simps) simp
    show ?thesis unfolding e using "1.prems"(3) whole_piece(2) [of line env "prNum p" "prOut p" lim n] np whole by (auto simp: prOk_def prBegun_def)
  next
    case piece
    let ?p = "shipPage True (p\<lparr>prOut := [take n line]\<rparr>)"
    have s: "0 < n" "line \<noteq> []" "pageSize env (prNum p) [take n line] + CLI_CONT_COST \<le> lim"
      using split_piece [of line env "prNum p" lim n] np piece room "1.prems"(2) by auto
    have e: "emitLine env lim line p = emitLine env lim (drop n line) ?p" using np piece s(1) by (subst emitLine.simps) simp
    have ok: "prOk env lim ?p" using "1.prems"(3) s(3) by (intro ship_ok) (auto simp: prOk_def)
    have b: "prBegun ?p = prBegun p + 1" "prOut ?p = []" using piece by (simp_all add: prBegun_def shipPage_def)
    have "length (drop n line) + 1 \<le> length line" using s(1,2) by (cases line) auto
    moreover have "CHR 0x00 \<notin> set (drop n line)" using "1.prems"(2) in_set_dropD by metis
    ultimately show ?thesis
      using "1.IH"(2) [OF refl np [symmetric] _ _ refl] piece s(1) "1.prems"(1,4) ok b unfolding e by (auto simp: join_ship(2))
  qed
qed


text \<open>The pager's invariant over a whole run: after the lines \<open>ls\<close> a consumer reads exactly them.\<close>

lemma runPages_ok:
  assumes "\<forall>k \<le> K. env k + 20 \<le> lim" "\<forall>l \<in> set ls. CHR 0x00 \<notin> set l" "prOk env lim p"
    and "prBegun p + sum_list (map (\<lambda>l. length l + 1) ls) \<le> K"
  shows "prOk env lim (fold (emitLine env lim) ls p) \<and> prBegun (fold (emitLine env lim) ls p) \<le> K \<and>
    foldr joinPage (prPages (fold (emitLine env lim) ls p)) (prOut (fold (emitLine env lim) ls p)) = foldr joinPage (prPages p) (prOut p @ ls)"
  using assms(2-)
proof (induction ls arbitrary: p)
  case (Cons l ls)
  let ?q = "emitLine env lim l p"
  have e: "prOk env lim ?q" "prBegun ?q \<le> prBegun p + length l + 1"
    "\<And>R. foldr joinPage (prPages ?q) (prOut ?q @ R) = foldr joinPage (prPages p) (prOut p @ l # R)"
    using emitLine_ok [OF assms(1), of l p] Cons.prems by auto
  show ?case using Cons.IH [of ?q] Cons.prems e by simp
qed simp

lemma limit_margin: "28 < cap \<Longrightarrow> cliPageLimit cap + 14 < cap"
  by (auto simp: cliPageLimit_def CLI_PAGE_MARGIN_def)

lemma publishedPages_all:
  assumes "prOk env (cliPageLimit cap) p" "env (prNum p) \<le> cliPageLimit cap" "28 < cap"
  shows "publishedPages env cap res p = allPages p"
proof -
  have fit: "pageFits env (cliPageLimit cap) k (allPages p ! k)" if "k < length (allPages p)" for k
    using that assms(1,2) by (cases "prOut p = []") (auto simp: prOk_def allPages_def nth_append less_Suc_eq pageFits_def pageSize_def)
  have "replySize env b m k (allPages p ! k) < cap" if "k < length (allPages p)" for b m k
    using fit [OF that] limit_margin [OF assms(3)] by (auto simp: pageFits_def replySize_def)
  then have "\<forall>x \<in> set (enumerate 0 (allPages p)). (\<lambda>(k, pg). replySize env (if k < prNum p then True else res \<and> \<not> prDropped p) (k < prNum p) k pg < cap) x"
    by (auto simp: in_set_enumerate_eq)
  then show ?thesis unfolding publishedPages_def by (subst filter_True) simp_all
qed




end
