(* ===== verification/Shell_Fs.thy ===== *)
theory Shell_Fs
  imports Fs_Store Shell_Core
begin

text \<open>
  The file commands of the shell, \<open>Shell.cpp\<close>: the table of mounted file systems, \<open>fs.ls\<close>, \<open>fs.cat\<close>, \<open>fs.rm\<close> with its
  wildcard form, \<open>fs.write\<close> and \<open>fs.append\<close>, \<open>fs.mv\<close> and \<open>fs.df\<close>. A path belongs to the first mount whose prefix it has,
  up to a slash; everything else is on LittleFS.
\<close>

section \<open>Definitions\<close>

subsection \<open>Mounts\<close>

definition FS_MOUNTS_MAX :: nat where "FS_MOUNTS_MAX = 4"

text \<open>A mount's prefix and its file system; LittleFS is 0.\<close>

record FSMount =
  mPrefix :: string
  mFs :: nat

record volumes =
  mounts :: "FSMount list"
  disks :: "nat \<Rightarrow> disk"

definition registerFS :: "cstr \<Rightarrow> nat option \<Rightarrow> volumes \<Rightarrow> bool \<times> volumes" where
  "registerFS pre fs v =
     (case (pre, fs) of
        (Some p, Some f) \<Rightarrow>
          (if p = [] \<or> hd p \<noteq> CHR ''/'' then (False, v)
           else if length p < 2 \<or> last p = CHR ''/'' then (False, v)
           else if FS_MOUNTS_MAX \<le> length (mounts v) then (False, v)
           else (True, v\<lparr>mounts := mounts v @ [\<lparr>mPrefix = p, mFs = f\<rparr>]\<rparr>))
      | _ \<Rightarrow> (False, v))"

definition mountMatch :: "string \<Rightarrow> FSMount \<Rightarrow> bool" where
  "mountMatch path m \<longleftrightarrow> strncmp0 path (mPrefix m) (length (mPrefix m)) \<and>
     (let rest = drop (length (mPrefix m)) path in rest = [] \<or> hd rest = CHR ''/'')"

definition resolveFS :: "volumes \<Rightarrow> string \<Rightarrow> nat" where
  "resolveFS v path = (case find (mountMatch path) (mounts v) of None \<Rightarrow> 0 | Some m \<Rightarrow> mFs m)"

definition stripPrefix :: "volumes \<Rightarrow> string \<Rightarrow> string" where
  "stripPrefix v path =
     (case find (mountMatch path) (mounts v) of None \<Rightarrow> path
      | Some m \<Rightarrow> (let rest = drop (length (mPrefix m)) path in if rest = [] \<or> rest = ''/'' then ''/'' else rest))"

definition putDisk :: "nat \<Rightarrow> disk \<Rightarrow> volumes \<Rightarrow> volumes" where
  "putDisk f d v = v\<lparr>disks := (disks v)(f := d)\<rparr>"

subsection \<open>Files\<close>

text \<open>Opening for append keeps what is there; the bytes land when the file is closed.\<close>

definition fsAppend :: "string \<Rightarrow> string \<Rightarrow> disk \<Rightarrow> nat option \<times> disk" where
  "fsAppend p body d =
     (let (f, d1) = nextFault d
      in if f \<noteq> NoFault then (None, d1)
         else let (g, d2) = nextFault d1; old = (case files d2 p of None \<Rightarrow> '''' | Some s \<Rightarrow> s)
              in case g of NoFault \<Rightarrow> (Some (length body), d2\<lparr>files := (files d2)(p := Some (old @ body))\<rparr>)
                 | Fault w l \<Rightarrow> (Some w, d2\<lparr>files := (files d2)(p := Some (old @ take l body))\<rparr>))"

definition openRead :: "string \<Rightarrow> disk \<Rightarrow> string option \<times> disk" where
  "openRead p d = (let (f, d1) = nextFault d in (if f = NoFault then files d1 p else None, d1))"

text \<open>\<open>readStringUntil('\n')\<close> while bytes remain: a text ending in a newline has no empty last line.\<close>

fun catLines :: "string \<Rightarrow> string list" where
  "catLines [] = []"
| "catLines (c # cs) = (if c = CHR 0x0A then [] # catLines cs else case catLines cs of [] \<Rightarrow> [[c]] | l # ls \<Rightarrow> (c # l) # ls)"

definition cmd_cat :: "string list \<Rightarrow> volumes \<Rightarrow> string list \<times> volumes" where
  "cmd_cat argv v =
     (if length argv < 2 then ([''Usage: cat <path>''], v)
      else if \<not> pathSafePolicy (Some (argv ! 1)) then ([''Invalid path''], v)
      else let f = resolveFS v (argv ! 1); (s, d) = openRead (stripPrefix v (argv ! 1)) (disks v f)
           in (case s of None \<Rightarrow> [''File not found''] | Some t \<Rightarrow> catLines t, putDisk f d v))"

definition cmd_write :: "string list \<Rightarrow> volumes \<Rightarrow> string list \<times> volumes" where
  "cmd_write argv v =
     (if length argv < 3 then ([''Usage: write <path> <content...>''], v)
      else if \<not> pathSafePolicy (Some (argv ! 1)) then ([''Invalid path''], v)
      else let f = resolveFS v (argv ! 1); p = stripPrefix v (argv ! 1);
               app = (map toLower (argv ! 0) = ''fs.append'');
               (w, d) = (if app then fsAppend p (argv ! 2) (disks v f) else fsWrite p (argv ! 2) (disks v f))
           in (case w of None \<Rightarrow> [''Failed to open for writing'']
               | Some n \<Rightarrow> [c_snprintf 64 ((if app then ''Appended '' else ''Wrote '') @ dec (length (argv ! 2)) @ '' bytes to '' @ p)],
               putDisk f d v))"

definition fsRename :: "nat \<Rightarrow> string \<Rightarrow> string \<Rightarrow> disk \<Rightarrow> bool \<times> disk" where
  "fsRename f a b d = (if f = 0 then lfsRename a b d else fatRename a b d)"

definition cmd_mv :: "string list \<Rightarrow> volumes \<Rightarrow> string list \<times> volumes" where
  "cmd_mv argv v =
     (if length argv < 3 then ([''Usage: mv <src> <dst>''], v)
      else if \<not> pathSafePolicy (Some (argv ! 1)) \<or> \<not> pathSafePolicy (Some (argv ! 2)) then ([''Invalid path''], v)
      else let f = resolveFS v (argv ! 1)
           in if resolveFS v (argv ! 2) \<noteq> f then ([''Cannot move between filesystems''], v)
              else let src = stripPrefix v (argv ! 1); dst = stripPrefix v (argv ! 2); (ok, d) = fsRename f src dst (disks v f)
                   in ([if ok then c_snprintf 128 (''Renamed '' @ src @ '' -> '' @ dst) else ''Failed to rename''], putDisk f d v))"

subsection \<open>Directories\<close>

text \<open>What iterating over a directory yields: each entry's name, whether it is a directory, and its size.\<close>

record dirent =
  deName :: string
  deDir :: bool
  deSize :: nat

record rmTally =
  rtRemoved :: nat
  rtFailed :: nat
  rtSkipped :: nat

definition joinDir :: "string \<Rightarrow> string \<Rightarrow> string" where
  "joinDir dir name = c_snprintf 160 (dir @ (if last dir = CHR ''/'' then '''' else ''/'') @ name)"

fun rmLoop :: "string \<Rightarrow> string \<Rightarrow> nat \<Rightarrow> dirent list \<Rightarrow> rmTally \<times> volumes \<Rightarrow> rmTally \<times> volumes" where
  "rmLoop dir pat f [] r = r"
| "rmLoop dir pat f (e # es) (t, v) =
     (if \<not> deDir e \<and> globMatch (Some pat) (Some (deName e))
      then if globRmProtected (Some dir) (Some (deName e)) then rmLoop dir pat f es (t\<lparr>rtSkipped := rtSkipped t + 1\<rparr>, v)
           else let (ok, d) = fsRemove (stripPrefix v (joinDir dir (deName e))) (disks v f)
                in rmLoop dir pat f es (if ok then t\<lparr>rtRemoved := rtRemoved t + 1\<rparr> else t\<lparr>rtFailed := rtFailed t + 1\<rparr>, putDisk f d v)
      else rmLoop dir pat f es (t, v))"

text \<open>\<open>ls\<close> gives the entries of a directory of one file system, None where it is not one.\<close>

definition rmGlob :: "(nat \<Rightarrow> string \<Rightarrow> dirent list option) \<Rightarrow> string list \<Rightarrow> volumes \<Rightarrow> string list \<times> volumes" where
  "rmGlob ls argv v =
     (case globSplit (Some (argv ! 1)) 96 64 of None \<Rightarrow> ([''Wildcards are allowed in the last path segment only''], v)
      | Some (dir, pat) \<Rightarrow>
          (if ''--yes'' \<notin> set (drop 2 argv) then ([''Wildcard remove needs --yes  (fs.rm <path> --yes)''], v)
           else let f = resolveFS v dir
                in case ls f (stripPrefix v dir) of None \<Rightarrow> ([''Not a directory or not found''], v)
                   | Some es \<Rightarrow>
                       (let (t, v1) = rmLoop dir pat f es (\<lparr>rtRemoved = 0, rtFailed = 0, rtSkipped = 0\<rparr>, v)
                        in ([c_snprintf 96 (''Removed '' @ dec (rtRemoved t) @ '', failed '' @ dec (rtFailed t) @ '', protected '' @ dec (rtSkipped t))], v1))))"

definition cmd_rm :: "(nat \<Rightarrow> string \<Rightarrow> dirent list option) \<Rightarrow> string list \<Rightarrow> volumes \<Rightarrow> string list \<times> volumes" where
  "cmd_rm ls argv v =
     (if length argv < 2 then ([''Usage: rm <path>''], v)
      else if \<not> pathSafePolicy (Some (argv ! 1)) then ([''Invalid path''], v)
      else if globHasWildcard (Some (argv ! 1)) then rmGlob ls argv v
      else let f = resolveFS v (argv ! 1); p = stripPrefix v (argv ! 1); (ok, d) = fsRemove p (disks v f)
           in ([if ok then c_snprintf 64 (''Removed '' @ p) else ''Failed to remove (file not found or directory)''], putDisk f d v))"

text \<open>\<open>printf\<close> with a minimum width of six, and the collapse of double slashes in a listing line.\<close>

definition pad6 :: "string \<Rightarrow> string" where
  "pad6 s = replicate (6 - length s) (CHR '' '') @ s"

fun oneSlash :: "string \<Rightarrow> string" where
  "oneSlash (a # b # s) = (if a = CHR ''/'' \<and> b = CHR ''/'' then oneSlash (b # s) else a # oneSlash (b # s))"
| "oneSlash s = s"

definition lsBase :: "string \<Rightarrow> string" where
  "lsBase path = (let b = take 95 path; t = rev (dropWhile (\<lambda>c. c = CHR ''/'') (rev b)) in if t = [] then take 1 b else t)"

definition lsLine :: "string \<Rightarrow> dirent \<Rightarrow> string" where
  "lsLine base e = oneSlash (c_snprintf 160 (if deDir e then ''  [DIR]  '' @ base @ ''/'' @ deName e @ ''/''
     else ''  '' @ pad6 (dec (deSize e)) @ ''  '' @ base @ ''/'' @ deName e))"

definition cmd_ls :: "(nat \<Rightarrow> string \<Rightarrow> dirent list option) \<Rightarrow> string list \<Rightarrow> volumes \<Rightarrow> string list" where
  "cmd_ls ls argv v =
     (let path0 = (if 1 < length argv then argv ! 1 else ''/'');
          gl = (if globHasWildcard (Some path0) then map_option (\<lambda>(d, p). (d, Some p)) (globSplit (Some path0) 96 64) else Some (path0, None))
      in if \<not> pathSafePolicy (Some path0) then [''Invalid path'']
         else case gl of None \<Rightarrow> [''Wildcards are allowed in the last path segment only'']
              | Some (path, flt) \<Rightarrow>
                  (case ls (resolveFS v path) (stripPrefix v path) of None \<Rightarrow> [''Not a directory or not found'']
                   | Some es \<Rightarrow>
                       map (lsLine (lsBase path)) (filter (\<lambda>e. flt = None \<or> globMatch flt (Some (deName e))) es) @
                       (if length argv \<le> 1 then map (\<lambda>m. c_snprintf 64 (''  [MOUNT] '' @ mPrefix m)) (mounts v) else [])))"

text \<open>The used and total bytes a file system reports; a total of 0 means it is not mounted. LittleFS counts in 32 bits, the
  mounts in 64.\<close>

definition dfPercent :: "'a :: len word \<Rightarrow> 'a word \<Rightarrow> nat" where
  "dfPercent used tot = unat ((tot - used) * 100 div tot)"

definition dfLine :: "string \<Rightarrow> 'a :: len word \<Rightarrow> 'a word \<Rightarrow> string" where
  "dfLine name used tot = (if tot = 0 then name @ '': not mounted''
     else name @ '': '' @ dec (unat used) @ '' / '' @ dec (unat tot) @ '' bytes used ('' @ dec (dfPercent used tot) @ ''% free)'')"

definition cmd_df :: "u32 \<times> u32 \<Rightarrow> (FSMount \<Rightarrow> (64 word \<times> 64 word) option) \<Rightarrow> volumes \<Rightarrow> string list" where
  "cmd_df lfs df v = c_snprintf 128 (dfLine ''LittleFS'' (fst lfs) (snd lfs)) # map (c_snprintf 128)
     (concat (map (\<lambda>m. case df m of None \<Rightarrow> [] | Some u \<Rightarrow> [dfLine (mPrefix m) (fst u) (snd u)]) (mounts v)))"


section \<open>What a file command can change\<close>

datatype fsCmd = FsWrite "string list" | FsMv "string list" | FsRm "string list" | FsCat "string list"

fun runFs :: "(nat \<Rightarrow> string \<Rightarrow> dirent list option) \<Rightarrow> fsCmd \<Rightarrow> volumes \<Rightarrow> string list \<times> volumes" where
  "runFs ls (FsWrite argv) v = cmd_write argv v"
| "runFs ls (FsMv argv) v = cmd_mv argv v"
| "runFs ls (FsRm argv) v = cmd_rm ls argv v"
| "runFs ls (FsCat argv) v = cmd_cat argv v"

text \<open>The file a path names, and the files a wildcard removal selects.\<close>

definition named :: "volumes \<Rightarrow> string \<Rightarrow> nat \<times> string" where
  "named v path = (resolveFS v path, stripPrefix v path)"

definition selected :: "(nat \<Rightarrow> string \<Rightarrow> dirent list option) \<Rightarrow> volumes \<Rightarrow> string \<Rightarrow> (nat \<times> string) set" where
  "selected ls v path =
     {(f, p). \<exists>dir pat es e. globSplit (Some path) 96 64 = Some (dir, pat) \<and> f = resolveFS v dir \<and> ls f (stripPrefix v dir) = Some es \<and> e \<in> set es \<and>
        \<not> deDir e \<and> globMatch (Some pat) (Some (deName e)) \<and> \<not> globRmProtected (Some dir) (Some (deName e)) \<and>
        p = stripPrefix v (joinDir dir (deName e))}"

fun touches :: "(nat \<Rightarrow> string \<Rightarrow> dirent list option) \<Rightarrow> fsCmd \<Rightarrow> volumes \<Rightarrow> (nat \<times> string) set" where
  "touches ls (FsWrite argv) v = {named v (argv ! 1)}"
| "touches ls (FsMv argv) v = {named v (argv ! 1), named v (argv ! 2)}"
| "touches ls (FsRm argv) v =
     (if globHasWildcard (Some (argv ! 1)) then (if ''--yes'' \<in> set (drop 2 argv) then selected ls v (argv ! 1) else {}) else {named v (argv ! 1)})"
| "touches ls (FsCat argv) v = {}"

lemma find_strip [simp]: "mounts (putDisk f d v) = mounts v" "stripPrefix (putDisk f d v) p = stripPrefix v p" "resolveFS (putDisk f d v) p = resolveFS v p"
  by (simp_all add: putDisk_def stripPrefix_def resolveFS_def)

lemma putDisk_files: "files (disks (putDisk f d v) g) q = (if g = f then files d q else files (disks v g) q)"
  by (simp add: putDisk_def)

lemma write_frame: "q \<noteq> p \<Longrightarrow> files (snd (fsWrite p b d)) q = files d q" "q \<noteq> p \<Longrightarrow> files (snd (fsAppend p b d)) q = files d q"
  "q \<noteq> p \<Longrightarrow> files (snd (fsRemove p d)) q = files d q" "files (snd (openRead p d)) = files d"
  "q \<noteq> p \<Longrightarrow> q \<noteq> p' \<Longrightarrow> files (snd (fsRename f p p' d)) q = files d q"
  by (auto simp: fsWrite_def fsAppend_def fsRemove_def openRead_def fsRename_def lfsRename_def fatRename_def nextFault_def Let_def
    split: list.splits fault.splits if_splits)

lemma rmLoop_frame:
  assumes "\<forall>e \<in> set es. \<not> deDir e \<and> globMatch (Some pat) (Some (deName e)) \<and> \<not> globRmProtected (Some dir) (Some (deName e)) \<longrightarrow>
      (g, q) \<noteq> (f, stripPrefix v (joinDir dir (deName e)))"
  shows "files (disks (snd (rmLoop dir pat f es (t, v))) g) q = files (disks v g) q"
  using assms
proof (induction es arbitrary: t v)
  case (Cons e es)
  let ?d = "snd (fsRemove (stripPrefix v (joinDir dir (deName e))) (disks v f))"
  have "files (disks (putDisk f ?d v) g) q = files (disks v g) q"
    if "\<not> deDir e" "globMatch (Some pat) (Some (deName e))" "\<not> globRmProtected (Some dir) (Some (deName e))"
    using Cons.prems that write_frame(3) [of q] by (auto simp: putDisk_files)
  then show ?case using Cons.IH [of v] Cons.IH [of "putDisk f ?d v"] Cons.prems by (auto simp: case_prod_unfold Let_def)
qed simp

lemma rmGlob_frame:
  assumes "(g, q) \<notin> (if ''--yes'' \<in> set (drop 2 argv) then selected ls v (argv ! 1) else {})"
  shows "files (disks (snd (rmGlob ls argv v)) g) q = files (disks v g) q"
proof (cases "\<exists>dir pat es. globSplit (Some (argv ! 1)) 96 64 = Some (dir, pat) \<and> ''--yes'' \<in> set (drop 2 argv) \<and> ls (resolveFS v dir) (stripPrefix v dir) = Some es")
  case False
  then show ?thesis by (auto simp: rmGlob_def Let_def split: option.splits)
next
  case True
  then obtain dir pat es where g: "globSplit (Some (argv ! 1)) 96 64 = Some (dir, pat)" "''--yes'' \<in> set (drop 2 argv)"
      "ls (resolveFS v dir) (stripPrefix v dir) = Some es" by blast
  then have "(g, q) \<notin> selected ls v (argv ! 1)" using assms by simp
  then have "\<forall>e \<in> set es. \<not> deDir e \<and> globMatch (Some pat) (Some (deName e)) \<and> \<not> globRmProtected (Some dir) (Some (deName e)) \<longrightarrow>
      (g, q) \<noteq> (resolveFS v dir, stripPrefix v (joinDir dir (deName e)))" using g unfolding selected_def by blast
  then show ?thesis using rmLoop_frame g by (simp add: rmGlob_def Let_def case_prod_unfold)
qed



end
