(* ===== verification/Shell_Config.thy ===== *)
theory Shell_Config
  imports Config_Doc Shell_Core
begin

text \<open>
  The configuration commands of the shell, \<open>Shell.cpp\<close>: \<open>config.get\<close>, \<open>config.set\<close>, \<open>config.del\<close>, \<open>config.save\<close>,
  \<open>config.dump\<close> and \<open>config.reload\<close>. A key is a dotted path through objects and arrays. A write changes the document read back from
  \<open>/config.json\<close>, replaces the file, and loads it again; a topic prefix held over the live document is captured before
  and restored after.
\<close>

section \<open>Definitions\<close>

text \<open>What a command does: \<open>Shell::fail\<close> was called, the lines it printed, and the configuration after it.\<close>

record cmdOut =
  cmdFailed :: bool
  cmdLines :: "string list"
  cmdCfg :: config

definition outLine :: "string \<Rightarrow> config \<Rightarrow> cmdOut" where
  "outLine m c = \<lparr>cmdFailed = False, cmdLines = [m], cmdCfg = c\<rparr>"

definition failWith :: "string \<Rightarrow> config \<Rightarrow> cmdOut" where
  "failWith m c = \<lparr>cmdFailed = True, cmdLines = [m], cmdCfg = c\<rparr>"

subsection \<open>Keys\<close>

text \<open>\<open>strtok\<close> on the separator: runs of it count once, and nothing is found at either end.\<close>

fun splitOn :: "char \<Rightarrow> string \<Rightarrow> string list" where
  "splitOn s [] = [[]]"
| "splitOn s (c # cs) = (if c = s then [] # splitOn s cs else (c # hd (splitOn s cs)) # tl (splitOn s cs))"

definition strtokAll :: "char \<Rightarrow> string \<Rightarrow> string list" where
  "strtokAll s t = filter (\<lambda>w. w \<noteq> []) (splitOn s t)"

text \<open>The index is a \<open>size_t\<close>, 32 bits wide on this chip, and wraps.\<close>

definition parseArrayIndex :: "string \<Rightarrow> nat option" where
  "parseArrayIndex tok =
     (if tok = [] \<or> \<not> list_all isDigit tok then None
      else Some (unat (foldl (\<lambda>v c. v * 10 + of_nat (digitVal c)) (0 :: u32) tok)))"

text \<open>\<open>strrchr(key, '.')\<close> and the cut there: the parent path and the final key.\<close>

definition cutLastDot :: "string \<Rightarrow> (string \<times> string) option" where
  "cutLastDot key = map_option (\<lambda>i. (take i key, drop (Suc i) key)) (c_strrchr key (CHR ''.''))"

definition jnull :: "json option \<Rightarrow> bool" where
  "jnull v \<longleftrightarrow> v = None \<or> v = Some JNull"

subsection \<open>Reading\<close>

definition keyNotFound :: string where "keyNotFound = ''Key not found''"

fun getWalk :: "json \<Rightarrow> string list \<Rightarrow> string + json" where
  "getWalk cur [] = Inr cur"
| "getWalk cur (t # ts) =
     (case cur of
        JArr a \<Rightarrow> (case parseArrayIndex t of None \<Rightarrow> Inl keyNotFound
                  | Some i \<Rightarrow> if length a \<le> i then Inl ''Array index out of range'' else getWalk (a ! i) ts)
      | JObj m \<Rightarrow> getWalk (case map_of m t of None \<Rightarrow> JNull | Some v \<Rightarrow> v) ts
      | _ \<Rightarrow> Inl keyNotFound)"

definition cmd_config_get :: "(bool \<Rightarrow> json \<Rightarrow> string) \<Rightarrow> string list \<Rightarrow> config \<Rightarrow> cmdOut" where
  "cmd_config_get pr argv c =
     (if length argv < 2 then outLine ''Usage: config.get <key>  (dot notation, e.g. wifi.networks.0.ssid)'' c
      else if \<not> shellFits (Some (argv ! 1)) 128 then outLine ''Key too long (max 127 bytes)'' c
      else case getWalk (doc c) (strtokAll (CHR ''.'') (argv ! 1)) of
             Inl m \<Rightarrow> outLine m c
           | Inr v \<Rightarrow> outLine (if v = JNull then ''null'' else pr True v) c)"

definition cmd_config_dump :: "(bool \<Rightarrow> json \<Rightarrow> string) \<Rightarrow> config \<Rightarrow> cmdOut" where
  "cmd_config_dump pr c = outLine (pr True (doc c)) c"

subsection \<open>The value as typed\<close>

definition stripQuotes :: "string \<Rightarrow> string" where
  "stripQuotes v = (if 2 \<le> length v \<and> hd v = CHR 0x22 \<and> last v = CHR 0x22 then butlast (tl v) else v)"

definition isSpace :: "char \<Rightarrow> bool" where
  "isSpace c \<longleftrightarrow> c = CHR '' '' \<or> 9 \<le> ccode c \<and> ccode c \<le> 13"

definition trimSpace :: "string \<Rightarrow> string" where
  "trimSpace v = rev (dropWhile isSpace (rev (dropWhile isSpace v)))"

definition cSign :: "string \<Rightarrow> bool \<times> string" where
  "cSign s = (case s of c # t \<Rightarrow> if c = CHR ''-'' then (True, t) else if c = CHR ''+'' then (False, t) else (False, s) | [] \<Rightarrow> (False, s))"

text \<open>\<open>strtol\<close> base 10 where it consumes the whole text; a \<open>long\<close> has 32 bits and the result saturates.\<close>

definition strtolWhole :: "string \<Rightarrow> int option" where
  "strtolWhole s =
     (let (neg, u) = cSign (dropWhile isSpace s)
      in if u = [] \<or> \<not> list_all isDigit u then None
         else let n = int (decVal 0 u) in Some (if neg then max (- (2 ^ 31)) (- n) else min (2 ^ 31 - 1) n))"

text \<open>The texts \<open>strtof\<close> consumes whole: decimal or hexadecimal with a fraction and an exponent, infinity, NaN.\<close>

definition isHex :: "char \<Rightarrow> bool" where
  "isHex c \<longleftrightarrow> isHexLower (toLower c)"

definition expWhole :: "char \<Rightarrow> string \<Rightarrow> bool" where
  "expWhole e s = (case s of [] \<Rightarrow> True | c # t \<Rightarrow> toLower c = e \<and> digits (snd (cSign t)))"

definition fracWhole :: "(char \<Rightarrow> bool) \<Rightarrow> char \<Rightarrow> string \<Rightarrow> bool" where
  "fracWhole dig e s =
     (let i = takeWhile dig s; r = dropWhile dig s
      in case r of c # f \<Rightarrow> if c = CHR ''.'' then (i \<noteq> [] \<or> takeWhile dig f \<noteq> []) \<and> expWhole e (dropWhile dig f) else i \<noteq> [] \<and> expWhole e r
         | [] \<Rightarrow> i \<noteq> [])"

definition nanTail :: "string \<Rightarrow> bool" where
  "nanTail s \<longleftrightarrow> s = [] \<or> hd s = CHR ''('' \<and> 2 \<le> length s \<and> last s = CHR '')'' \<and>
     list_all (\<lambda>c. isDigit c \<or> isUpper c \<or> isLower c \<or> c = CHR ''_'') (butlast (tl s))"

definition strtofWhole :: "string \<Rightarrow> bool" where
  "strtofWhole s =
     (let u = snd (cSign (dropWhile isSpace s)); l = map toLower u
      in fracWhole isDigit (CHR ''e'') u \<or> take 2 l = ''0x'' \<and> fracWhole isHex (CHR ''p'') (drop 2 u) \<or>
         l = ''inf'' \<or> l = ''infinity'' \<or> take 3 l = ''nan'' \<and> nanTail (drop 3 l))"

text \<open>What \<open>config.set\<close> stores for a value: a JSON literal, a boolean, a number, else the text itself.\<close>

definition scalarJson :: "string \<Rightarrow> json" where
  "scalarJson v =
     (if v = ''true'' then JBool True else if v = ''false'' then JBool False
      else case strtolWhole v of Some n \<Rightarrow> JNum n | None \<Rightarrow> if strtofWhole v then JFloat v else JStr v)"

definition typedJson :: "(string \<Rightarrow> bool \<times> json) \<Rightarrow> string \<Rightarrow> json" where
  "typedJson parse v =
     (let t = trimSpace v
      in if t \<noteq> [] \<and> (hd t = CHR ''{'' \<or> hd t = CHR ''['') \<and> fst (parse t) then snd (parse t) else scalarJson v)"

subsection \<open>Writing\<close>

definition walkedPath :: "string \<Rightarrow> string \<Rightarrow> string" where
  "walkedPath walked t = (if walked \<noteq> [] then walked @ ''.'' @ t else t)"

text \<open>The descent to the parent of the final key; \<open>f\<close> is what happens there. The document is local to the
  command, so a refusal leaves nothing behind.\<close>

fun setWalk :: "(json \<Rightarrow> string + json) \<Rightarrow> string \<Rightarrow> string list \<Rightarrow> json \<Rightarrow> string + json" where
  "setWalk f walked [] par = f par"
| "setWalk f walked (t # ts) par =
     (case par of
        JArr a \<Rightarrow>
          (case parseArrayIndex t of None \<Rightarrow> Inl ''Parent key not found''
           | Some i \<Rightarrow> if length a \<le> i then Inl ''Parent array index out of range''
                      else map_sum id (\<lambda>v. JArr (a[i := v])) (setWalk f (walkedPath walked t) ts (a ! i)))
      | JObj m \<Rightarrow>
          (if jnull (map_of m t) \<and> ts \<noteq> [] \<and> parseArrayIndex (hd ts) \<noteq> None
           then let p = walkedPath walked t
                in Inl (c_snprintf 160 (''Parent path '' @ [CHR 0x27] @ p @ [CHR 0x27] @ '' doesn'' @ [CHR 0x27] @ ''t exist. Run config.set '' @ p @ '' [] first.''))
           else map_sum id (\<lambda>v. JObj (memPut t v m))
                  (setWalk f (walkedPath walked t) ts (if jnull (map_of m t) then JObj [] else the (map_of m t))))
      | _ \<Rightarrow> Inl ''Parent key not found'')"

text \<open>None: \<open>--delete\<close>. An object loses the member, an array keeps the slot as null.\<close>

definition setFinal :: "string \<Rightarrow> string \<Rightarrow> json option \<Rightarrow> json \<Rightarrow> string + json" where
  "setFinal parentPath finalKey val par =
     (case (parseArrayIndex finalKey, par) of
        (Some i, JArr a) \<Rightarrow>
          (let v = (case val of None \<Rightarrow> JNull | Some v \<Rightarrow> v)
           in if length a < i then Inl ''Array index out of range (would leave hole)''
              else Inr (JArr (if i = length a then a @ [v] else a[i := v])))
      | (Some i, _) \<Rightarrow>
          Inl (c_snprintf 160 (''Parent path '' @ [CHR 0x27] @ parentPath @ [CHR 0x27] @ '' is not an array. Run config.set '' @ parentPath @ '' [] first.''))
      | (None, JObj m) \<Rightarrow> Inr (case val of None \<Rightarrow> jremove finalKey (JObj m) | Some v \<Rightarrow> JObj (memPut finalKey v m))
      | (None, _) \<Rightarrow> Inl ''Parent is not an object or array'')"

definition setDoc :: "string \<Rightarrow> json option \<Rightarrow> json \<Rightarrow> string + json" where
  "setDoc key val d =
     (case cutLastDot key of
        None \<Rightarrow> Inl ''Cannot set top-level keys directly (use section.key format)''
      | Some (parentPath, finalKey) \<Rightarrow> setWalk (setFinal parentPath finalKey val) '''' (strtokAll (CHR ''.'') parentPath) d)"

text \<open>The file as both writing commands read it: not found, not readable, not parsed.\<close>

definition readConfigFile :: "(string \<Rightarrow> bool \<times> json) \<Rightarrow> config \<Rightarrow> (string + json) \<times> config" where
  "readConfigFile parse c =
     (let (there, d1) = fsExists ''/config.json'' (cdisk c)
      in if \<not> there then (Inl ''config.json not found'', c\<lparr>cdisk := d1\<rparr>)
         else let (s, d2) = fsRead ''/config.json'' d1
              in (case s of None \<Rightarrow> Inl ''Failed to read config.json''
                  | Some t \<Rightarrow> if fst (parse t) then Inr (snd (parse t)) else Inl ''JSON parse error in config.json'',
                  c\<lparr>cdisk := d2\<rparr>))"

text \<open>Inl: a held prefix does not fit and the command stops.\<close>

definition captureBootPrefix :: "config \<Rightarrow> string + string option" where
  "captureBootPrefix c =
     (if \<not> topicPrefixHeld c then Inr None
      else case copyBootTopicPrefix TOPIC_PREFIX_CAP c of None \<Rightarrow> Inl ''Refused: boot topic prefix does not fit'' | Some p \<Rightarrow> Inr (Some p))"

definition restoreBootPrefix :: "string option \<Rightarrow> string \<Rightarrow> config \<Rightarrow> config" where
  "restoreBootPrefix kept key c =
     (if kept = None \<or> key = ''mqtt'' \<or> key = ''mqtt.topic_prefix'' then c else snd (holdTopicPrefix kept c))"

definition shellConfigWrite :: "(bool \<Rightarrow> json \<Rightarrow> string) \<Rightarrow> json \<Rightarrow> config \<Rightarrow> nat option \<times> config" where
  "shellConfigWrite pr src c = (let (r, d) = cfgWriteFile pr src True (cdisk c) in (r, c\<lparr>cdisk := d\<rparr>))"

text \<open>The common end of the writing commands: replace the file, load it, hold the boot prefix again.\<close>

definition writeAndLoad :: "(string \<Rightarrow> bool \<times> json) \<Rightarrow> (bool \<Rightarrow> json \<Rightarrow> string) \<Rightarrow> string option \<Rightarrow> string \<Rightarrow> string \<Rightarrow> json \<Rightarrow> config \<Rightarrow> cmdOut" where
  "writeAndLoad parse pr kept key msg d c =
     (case shellConfigWrite pr d c of
        (None, c1) \<Rightarrow> failWith ''Failed to write config.json (fs full?)'' c1
      | (Some b, c1) \<Rightarrow> outLine (c_snprintf 128 msg) (restoreBootPrefix kept key (cfgLoad parse c1)))"

definition setMsg :: "string \<Rightarrow> string \<Rightarrow> string" where
  "setMsg key value =
     (if value = ''--delete'' then ''Deleted '' @ key @ '' (saved)''
      else ''Set '' @ key @ '' = '' @ value @ '' (saved - run config.reload to apply network changes)'')"

definition cmd_config_set :: "(string \<Rightarrow> bool \<times> json) \<Rightarrow> (bool \<Rightarrow> json \<Rightarrow> string) \<Rightarrow> string list \<Rightarrow> config \<Rightarrow> cmdOut" where
  "cmd_config_set parse pr argv c =
     (if length argv < 3 then failWith ''Usage: config.set <key> <value>  (then config.save to persist)'' c
      else if \<not> shellFits (Some (argv ! 1)) 128 then failWith ''Key too long (max 127 bytes)'' c
      else case captureBootPrefix c of Inl m \<Rightarrow> failWith m c
           | Inr kept \<Rightarrow>
               (let value = stripQuotes (argv ! 2)
                in case readConfigFile parse c of (Inl m, c1) \<Rightarrow> failWith m c1
                   | (Inr d, c1) \<Rightarrow>
                       (case setDoc (argv ! 1) (if value = ''--delete'' then None else Some (typedJson parse value)) d of
                          Inl m \<Rightarrow> failWith m c1
                        | Inr d1 \<Rightarrow> writeAndLoad parse pr kept (argv ! 1) (setMsg (argv ! 1) value) d1 c1)))"

definition delSection :: "(string \<Rightarrow> bool \<times> json) \<Rightarrow> (bool \<Rightarrow> json \<Rightarrow> string) \<Rightarrow> string option \<Rightarrow> string \<Rightarrow> config \<Rightarrow> cmdOut" where
  "delSection parse pr kept key c =
     (case readConfigFile parse c of (Inl m, c1) \<Rightarrow> failWith m c1
      | (Inr d, c1) \<Rightarrow>
          (if jnull (jget d key) then failWith keyNotFound c1
           else writeAndLoad parse pr kept key (setMsg key ''--delete'') (jremove key d) c1))"

definition cmd_config_del :: "(string \<Rightarrow> bool \<times> json) \<Rightarrow> (bool \<Rightarrow> json \<Rightarrow> string) \<Rightarrow> string list \<Rightarrow> config \<Rightarrow> cmdOut" where
  "cmd_config_del parse pr argv c =
     (if length argv < 2 then failWith ''Usage: config.del <key>  (dot notation; bare section name deletes the section)'' c
      else case captureBootPrefix c of Inl m \<Rightarrow> failWith m c
           | Inr kept \<Rightarrow> (if CHR ''.'' \<notin> set (argv ! 1) then delSection parse pr kept (argv ! 1) c
                         else cmd_config_set parse pr [argv ! 0, argv ! 1, ''--delete''] c))"

definition cmd_config_save :: "(string \<Rightarrow> bool \<times> json) \<Rightarrow> (bool \<Rightarrow> json \<Rightarrow> string) \<Rightarrow> config \<Rightarrow> cmdOut" where
  "cmd_config_save parse pr c =
     (case copyDiskDoc parse pr c of None \<Rightarrow> failWith ''Failed to snapshot config'' c
      | Some d \<Rightarrow>
          (case shellConfigWrite pr d c of (None, c1) \<Rightarrow> failWith ''Failed to write config.json (fs full?)'' c1
           | (Some b, c1) \<Rightarrow> outLine (c_snprintf 64 (''Config saved to /config.json ('' @ dec b @ '' bytes)'')) c1))"

text \<open>The settings whose change makes a reload start the session again. Each old one was copied into a fixed buffer
  and cut there; the new ones are compared whole.\<close>

definition netStrings :: "json \<Rightarrow> string list" where
  "netStrings d = (let m = jget d ''mqtt''
     in [strMember m ''topic_prefix'' DEFAULT_PREFIX, strMember m ''broker'' '''', strMember m ''user'' '''', strMember m ''password'' '''',
         strMember (jget d ''ota'') ''cmd_topic'' ''''])"

definition netCaps :: "nat list" where
  "netCaps = [TOPIC_PREFIX_CAP, 96, 64, 64, 160]"

definition networkChanged :: "json \<Rightarrow> json \<Rightarrow> bool" where
  "networkChanged old new \<longleftrightarrow>
     map2 (\<lambda>cap s. take (cap - 1) s) netCaps (netStrings old) \<noteq> netStrings new \<or>
     intMember (jget old ''mqtt'') ''port'' 8883 mod 65536 \<noteq> intMember (jget new ''mqtt'') ''port'' 8883"

definition cmd_config_reload :: "(string \<Rightarrow> bool \<times> json) \<Rightarrow> config \<Rightarrow> bool \<times> cmdOut" where
  "cmd_config_reload parse c =
     (let c1 = cfgLoad parse c; ch = networkChanged (doc c) (doc c1);
          msg = c_snprintf 96 (''Config reloaded from /config.json (device: '' @ strMember (jget (doc c1) ''device'') ''name'' ''?'' @ '')'')
      in (ch, \<lparr>cmdFailed = False, cmdLines = (if ch then [''Network config changed - reinitializing MQTT subscriptions''] else []) @ [msg], cmdCfg = c1\<rparr>))"


section \<open>Paths\<close>

lemma splitOn_nonempty [simp]: "splitOn s t \<noteq> []"
  by (cases t) auto

lemma splitOn_append: "splitOn s (a @ s # b) = splitOn s a @ splitOn s b"
  by (induction a) (auto simp: hd_append tl_append split: list.splits)

lemma splitOn_word: "s \<notin> set t \<Longrightarrow> splitOn s t = [t]"
  by (induction t) auto

lemma strtokAll_last: "f \<noteq> [] \<Longrightarrow> s \<notin> set f \<Longrightarrow> strtokAll s (p @ s # f) = strtokAll s p @ [f]"
  by (simp add: strtokAll_def splitOn_append splitOn_word)

lemma cutLastDot_Some:
  assumes "cutLastDot key = Some (p, f)"
  shows "key = p @ CHR ''.'' # f \<and> CHR ''.'' \<notin> set f"
proof -
  obtain i where i: "c_strrchr key (CHR ''.'') = Some i" "p = take i key" "f = drop (Suc i) key" using assms by (auto simp: cutLastDot_def)
  then show ?thesis using c_strrchr_Some [OF i(1)] id_take_nth_drop [of i key] by simp
qed

lemma map_sum_Inr: "map_sum f g x = Inr y \<longleftrightarrow> (\<exists>z. x = Inr z \<and> y = g z)"
  by (cases x) auto

lemma getWalk_append: "getWalk d (p @ q) = (case getWalk d p of Inl m \<Rightarrow> Inl m | Inr v \<Rightarrow> getWalk v q)"
  by (induction p arbitrary: d) (auto split: json.splits option.splits)

lemma setWalk_JArr:
  assumes "setWalk f walked (t # ts) (JArr a) = Inr d'"
  obtains i v where "parseArrayIndex t = Some i" "i < length a" "setWalk f (walkedPath walked t) ts (a ! i) = Inr v" "d' = JArr (a[i := v])"
  using assms by (auto simp: map_sum_Inr split: option.splits if_splits)

text \<open>After a successful descent the changed parent stands at the path that led to it.\<close>

lemma setWalk_get:
  "setWalk f walked ts d = Inr d' \<Longrightarrow> \<exists>par par'. f par = Inr par' \<and> getWalk d' ts = Inr par'"
proof (induction ts arbitrary: walked d d')
  case (Cons t ts)
  show ?case
  proof (cases d)
    case (JArr a)
    then obtain i v where v: "parseArrayIndex t = Some i" "i < length a" "setWalk f (walkedPath walked t) ts (a ! i) = Inr v" "d' = JArr (a[i := v])"
      using Cons.prems setWalk_JArr by blast
    then show ?thesis using Cons.IH [OF v(3)] by simp
  next
    case (JObj m)
    then obtain x v where v: "setWalk f (walkedPath walked t) ts x = Inr v" "d' = JObj (memPut t v m)"
      using Cons.prems by (auto simp: map_sum_Inr Let_def split: if_splits)
    then show ?thesis using Cons.IH [OF v(1)] by (simp add: map_of_memPut)
  qed (use Cons.prems in auto)
qed auto

lemma setFinal_get:
  assumes "setFinal pp k (Some v) par = Inr par'"
  shows "getWalk par' [k] = Inr v"
  using assms by (auto simp: setFinal_def Let_def map_of_memPut nth_append split: option.splits json.splits if_splits)

lemma setFinal_frame:
  assumes "setFinal pp k val (JObj m) = Inr par'" "t \<noteq> k"
  shows "getWalk par' (t # q) = getWalk (JObj m) (t # q)"
  using assms by (auto simp: setFinal_def map_of_memPut map_of_filter_key split: option.splits)

lemma getWalk_obj_notnull: "getWalk JNull r \<noteq> Inr (JObj m)"
  by (cases r) auto

lemma setWalk_frame:
  assumes "setWalk (setFinal pp k val) walked ts d = Inr d'" "ts @ [k] = r @ t2 # p'"
    and "getWalk d r = Inr (JObj m)" "t1 \<noteq> t2"
  shows "getWalk d' (r @ t1 # q) = getWalk d (r @ t1 # q)"
  using assms
proof (induction r arbitrary: walked ts d d')
  case Nil
  then have d: "d = JObj m" by simp
  show ?case
  proof (cases ts)
    case Nil
    then show ?thesis using Nil.prems d setFinal_frame [of pp k val m d' t1 q] by simp
  next
    case (Cons t ts')
    then obtain v where "d' = JObj (memPut t2 v m)" using Nil.prems d by (auto simp: map_sum_Inr Let_def split: if_splits)
    then show ?thesis using d Nil.prems(4) by (simp add: map_of_memPut)
  qed
next
  case (Cons x r)
  obtain ts' where ts: "ts = x # ts'" "ts' @ [k] = r @ t2 # p'" using Cons.prems(2) by (cases ts) auto
  show ?case
  proof (cases d)
    case (JArr a)
    then obtain i v where v: "parseArrayIndex x = Some i" "i < length a" "setWalk (setFinal pp k val) (walkedPath walked x) ts' (a ! i) = Inr v"
        "d' = JArr (a[i := v])"
      using Cons.prems(1) ts setWalk_JArr by blast
    then show ?thesis using Cons.IH [OF v(3) ts(2) _ Cons.prems(4)] Cons.prems(3) JArr by simp
  next
    case (JObj o')
    then have nn: "\<not> jnull (map_of o' x)" using Cons.prems(3) getWalk_obj_notnull by (cases "map_of o' x") (auto simp: jnull_def)
    then obtain s where s: "map_of o' x = Some s" by (auto simp: jnull_def)
    obtain v where v: "setWalk (setFinal pp k val) (walkedPath walked x) ts' s = Inr v" "d' = JObj (memPut x v o')"
      using Cons.prems(1) ts JObj nn s by (auto simp: map_sum_Inr)
    then show ?thesis using Cons.IH [OF v(1) ts(2) _ Cons.prems(4)] Cons.prems(3) JObj s by (simp add: map_of_memPut)
  qed (use Cons.prems in auto)
qed

text \<open>The document \<open>config.set\<close> writes: the value is at the key, and every path that parts from the key at an object
  is as before.\<close>

lemma setDoc_get:
  assumes "setDoc key (Some v) d = Inr d'" "last key \<noteq> CHR ''.''"
  shows "getWalk d' (strtokAll (CHR ''.'') key) = Inr v"
proof -
  obtain p f where k: "cutLastDot key = Some (p, f)" and w: "setWalk (setFinal p f (Some v)) '''' (strtokAll (CHR ''.'') p) d = Inr d'"
    using assms(1) by (auto simp: setDoc_def split: option.splits)
  have key: "key = p @ CHR ''.'' # f" "CHR ''.'' \<notin> set f" using cutLastDot_Some [OF k] by auto
  then have "f \<noteq> []" using assms(2) by auto
  then have t: "strtokAll (CHR ''.'') key = strtokAll (CHR ''.'') p @ [f]" using key strtokAll_last by simp
  show ?thesis using setWalk_get [OF w] setFinal_get unfolding t getWalk_append by auto
qed

lemma setDoc_frame:
  assumes "setDoc key val d = Inr d'" "last key \<noteq> CHR ''.''" "strtokAll (CHR ''.'') key = r @ t2 # p'"
    and "getWalk d r = Inr (JObj m)" "t1 \<noteq> t2"
  shows "getWalk d' (r @ t1 # q) = getWalk d (r @ t1 # q)"
proof -
  obtain p f where k: "cutLastDot key = Some (p, f)" and w: "setWalk (setFinal p f val) '''' (strtokAll (CHR ''.'') p) d = Inr d'"
    using assms(1) by (auto simp: setDoc_def split: option.splits)
  have key: "key = p @ CHR ''.'' # f" "CHR ''.'' \<notin> set f" using cutLastDot_Some [OF k] by auto
  then have "f \<noteq> []" using assms(2) by auto
  then have "strtokAll (CHR ''.'') p @ [f] = r @ t2 # p'" using key strtokAll_last assms(3) by simp
  then show ?thesis using setWalk_frame [OF w _ assms(4,5)] by simp
qed


section \<open>The commands\<close>

lemma readConfigFile_keeps:
  assumes "readConfigFile parse c = (r, c1)"
  shows "doc c1 = doc c" "files (cdisk c1) = files (cdisk c)" "topicPrefixHeld c1 = topicPrefixHeld c" "faults (cdisk c) = [] \<Longrightarrow> faults (cdisk c1) = []"
    "r = Inr d \<Longrightarrow> \<exists>t. files (cdisk c) ''/config.json'' = Some t \<and> parse t = (True, d)"
  using assms
  by (auto simp: readConfigFile_def fsExists_def fsRead_def nextFault_def prod_eq_iff Let_def split: if_splits list.splits option.splits)

lemma writeAndLoad_failed:
  assumes "cmdFailed (writeAndLoad parse pr kept key msg d c)"
  shows "doc (cmdCfg (writeAndLoad parse pr kept key msg d c)) = doc c"
    "files (cdisk (cmdCfg (writeAndLoad parse pr kept key msg d c))) ''/config.json'' = files (cdisk c) ''/config.json''"
proof -
  obtain r d' where w: "cfgWriteFile pr d True (cdisk c) = (r, d')" by fastforce
  then have "r = None" using assms by (auto simp: writeAndLoad_def shellConfigWrite_def outLine_def split: option.splits)
  then show "doc (cmdCfg (writeAndLoad parse pr kept key msg d c)) = doc c"
    "files (cdisk (cmdCfg (writeAndLoad parse pr kept key msg d c))) ''/config.json'' = files (cdisk c) ''/config.json''"
    using cfgWriteFile_safe [OF w] w by (auto simp: writeAndLoad_def shellConfigWrite_def failWith_def)
qed

lemma cmd_config_set_failed:
  assumes "cmdFailed (cmd_config_set parse pr argv c)"
  shows "doc (cmdCfg (cmd_config_set parse pr argv c)) = doc c"
    "files (cdisk (cmdCfg (cmd_config_set parse pr argv c))) ''/config.json'' = files (cdisk c) ''/config.json''"
proof -
  obtain r c1 where rd: "readConfigFile parse c = (r, c1)" by fastforce
  note k = readConfigFile_keeps(1,2) [OF rd]
  show "doc (cmdCfg (cmd_config_set parse pr argv c)) = doc c"
    "files (cdisk (cmdCfg (cmd_config_set parse pr argv c))) ''/config.json'' = files (cdisk c) ''/config.json''"
    using assms rd k writeAndLoad_failed by (auto simp: cmd_config_set_def failWith_def Let_def split: if_splits sum.splits)
qed

lemma delSection_failed:
  assumes "cmdFailed (delSection parse pr kept key c)"
  shows "doc (cmdCfg (delSection parse pr kept key c)) = doc c"
    "files (cdisk (cmdCfg (delSection parse pr kept key c))) ''/config.json'' = files (cdisk c) ''/config.json''"
proof -
  obtain r c1 where rd: "readConfigFile parse c = (r, c1)" by fastforce
  note k = readConfigFile_keeps(1,2) [OF rd]
  show "doc (cmdCfg (delSection parse pr kept key c)) = doc c"
    "files (cdisk (cmdCfg (delSection parse pr kept key c))) ''/config.json'' = files (cdisk c) ''/config.json''"
    using assms rd k writeAndLoad_failed by (auto simp: delSection_def failWith_def split: if_splits sum.splits)
qed

lemma cmd_config_save_failed:
  assumes "cmdFailed (cmd_config_save parse pr c)"
  shows "doc (cmdCfg (cmd_config_save parse pr c)) = doc c"
    "files (cdisk (cmdCfg (cmd_config_save parse pr c))) ''/config.json'' = files (cdisk c) ''/config.json''"
proof -
  have "doc (cmdCfg (cmd_config_save parse pr c)) = doc c \<and>
    files (cdisk (cmdCfg (cmd_config_save parse pr c))) ''/config.json'' = files (cdisk c) ''/config.json''"
  proof (cases "copyDiskDoc parse pr c")
    case None
    then show ?thesis by (simp add: cmd_config_save_def failWith_def)
  next
    case (Some d)
    obtain r d' where w: "cfgWriteFile pr d True (cdisk c) = (r, d')" by fastforce
    then have "r = None" using assms Some by (auto simp: cmd_config_save_def shellConfigWrite_def outLine_def split: option.splits)
    then show ?thesis using cfgWriteFile_safe [OF w] w Some by (auto simp: cmd_config_save_def shellConfigWrite_def failWith_def)
  qed
  then show "doc (cmdCfg (cmd_config_save parse pr c)) = doc c"
    "files (cdisk (cmdCfg (cmd_config_save parse pr c))) ''/config.json'' = files (cdisk c) ''/config.json''" by simp_all
qed

text \<open>The three commands that write the configuration.\<close>

datatype cfgCmd = CmdSet "string list" | CmdDel "string list" | CmdSave

fun runCfgCmd :: "(string \<Rightarrow> bool \<times> json) \<Rightarrow> (bool \<Rightarrow> json \<Rightarrow> string) \<Rightarrow> cfgCmd \<Rightarrow> config \<Rightarrow> cmdOut" where
  "runCfgCmd parse pr (CmdSet argv) c = cmd_config_set parse pr argv c"
| "runCfgCmd parse pr (CmdDel argv) c = cmd_config_del parse pr argv c"
| "runCfgCmd parse pr CmdSave c = cmd_config_save parse pr c"

lemma cmd_config_del_failed:
  assumes "cmdFailed (cmd_config_del parse pr argv c)"
  shows "doc (cmdCfg (cmd_config_del parse pr argv c)) = doc c"
    "files (cdisk (cmdCfg (cmd_config_del parse pr argv c))) ''/config.json'' = files (cdisk c) ''/config.json''"
  using assms delSection_failed cmd_config_set_failed
  by (auto simp: cmd_config_del_def failWith_def split: if_splits sum.splits)

text \<open>C13: A configuration command that reports failure changed nothing: neither the live document nor \<open>/config.json\<close>,
  whichever file operation failed or fell short.\<close>

theorem config_cmd_failed_keeps:
  assumes "cmdFailed (runCfgCmd parse pr x c)"
  shows "doc (cmdCfg (runCfgCmd parse pr x c)) = doc c \<and>
    files (cdisk (cmdCfg (runCfgCmd parse pr x c))) ''/config.json'' = files (cdisk c) ''/config.json''"
  using assms by (cases x) (simp_all add: cmd_config_set_failed cmd_config_del_failed cmd_config_save_failed)


theorem config_cmd_failed_keeps_witness:
  "let parse = \<lambda>t. (True, JObj []); pr = \<lambda>p d. ''{}''; d = \<lparr>files = [''/config.json'' \<mapsto> ''{}''], faults = [NoFault, NoFault, Fault 0 0]\<rparr>;
       c = \<lparr>doc = JObj [], diskTopicPrefix = '''', diskTopicPrefixPresent = False, topicPrefixHeld = False, revision = 0, cdisk = d\<rparr>;
       r = runCfgCmd parse pr (CmdSet [''config.set'', ''mqtt.port'', ''8884'']) c
   in cmdFailed r \<and> doc (cmdCfg r) = JObj [] \<and> files (cdisk (cmdCfg r)) ''/config.json'' = Some ''{}''"
proof -
  let ?d = "\<lparr>files = [''/config.json'' \<mapsto> ''{}''], faults = [NoFault, NoFault, Fault 0 0]\<rparr>"
  let ?c = "\<lparr>doc = JObj [], diskTopicPrefix = '''', diskTopicPrefixPresent = False, topicPrefixHeld = False, revision = 0, cdisk = ?d\<rparr>"
  let ?x = "CmdSet [''config.set'', ''mqtt.port'', ''8884'']"
  have "cmdFailed (runCfgCmd (\<lambda>t. (True, JObj [])) (\<lambda>p d. ''{}'') ?x ?c)" by code_simp
  then show ?thesis using config_cmd_failed_keeps [where parse = "\<lambda>t. (True, JObj [])" and pr = "\<lambda>p d. ''{}''" and x = ?x and c = ?c]
    by (simp add: Let_def del: runCfgCmd.simps)
qed

section \<open>Set, then get\<close>

lemma cfgWriteFile_nofault:
  assumes "faults d = []" "pr pretty s \<noteq> []"
  shows "cfgWriteFile pr s pretty d =
    (Some (length (pr pretty s)), d\<lparr>files := (files d)(''/config.json.tmp'' := None, ''/config.json'' := Some (pr pretty s))\<rparr>)"
  using assms by (simp add: cfgWriteFile_def fsWrite_def fsSize_def lfsRename_def nextFault_def configWriteLanded_def fileWriteLanded_def fun_upd_twist)

lemma cfgLoad_nofault:
  assumes "faults (cdisk c) = []" "files (cdisk c) ''/config.json'' = Some t" "parse t = (True, d)"
  shows "doc (cfgLoad parse c) = d" "topicPrefixHeld (cfgLoad parse c) = False"
    "faults (cdisk (cfgLoad parse c)) = []"
  using assms by (simp_all add: cfgLoad_def fsRead_def nextFault_def clearHeldTopicPrefix_def configChanged_def)

text \<open>The live document is the one in the file, no prefix is held, and no file operation fails.\<close>

definition inSync :: "(string \<Rightarrow> bool \<times> json) \<Rightarrow> (bool \<Rightarrow> json \<Rightarrow> string) \<Rightarrow> config \<Rightarrow> bool" where
  "inSync parse pr c \<longleftrightarrow> \<not> topicPrefixHeld c \<and> faults (cdisk c) = [] \<and> pr True (doc c) \<noteq> [] \<and>
     files (cdisk c) ''/config.json'' = Some (pr True (doc c)) \<and> parse (pr True (doc c)) = (True, doc c)"

lemma writeAndLoad_sync:
  assumes "\<not> topicPrefixHeld c" "faults (cdisk c) = []" "pr True d \<noteq> []" "parse (pr True d) = (True, d)"
  shows "inSync parse pr (cmdCfg (writeAndLoad parse pr None key msg d c)) \<and> \<not> cmdFailed (writeAndLoad parse pr None key msg d c) \<and>
    doc (cmdCfg (writeAndLoad parse pr None key msg d c)) = d"
proof -
  let ?c = "c\<lparr>cdisk := (cdisk c)\<lparr>files := (files (cdisk c))(''/config.json.tmp'' := None, ''/config.json'' := Some (pr True d))\<rparr>\<rparr>"
  have l: "doc (cfgLoad parse ?c) = d" "topicPrefixHeld (cfgLoad parse ?c) = False" "faults (cdisk (cfgLoad parse ?c)) = []"
    using cfgLoad_nofault [of ?c "pr True d" parse d] assms by simp_all
  have "writeAndLoad parse pr None key msg d c = outLine (c_snprintf 128 msg) (cfgLoad parse ?c)"
    using cfgWriteFile_nofault [of "cdisk c" pr True d] assms by (simp add: writeAndLoad_def shellConfigWrite_def restoreBootPrefix_def)
  then show ?thesis using l assms(3,4) cfgLoad_file [of parse ?c] by (simp add: inSync_def outLine_def)
qed

text \<open>C12: \<open>config.set\<close> and \<open>config.get\<close>. Where the live document is the one on disk and the JSON reader gives back the document
  that is written, setting a key stores the value as typed: reading the key prints it, a key whose path
  leaves the set one at an object reads as before, and the file and the live document agree again.\<close>

theorem config_set_get:
  assumes "inSync parse pr c" "length key < 128" "last key \<noteq> CHR ''.''" "stripQuotes val \<noteq> ''--delete''"
    and "setDoc key (Some (typedJson parse (stripQuotes val))) (doc c) = Inr d1" "pr True d1 \<noteq> []" "parse (pr True d1) = (True, d1)"
  shows "(let r = cmd_config_set parse pr [''config.set'', key, val] c; v = typedJson parse (stripQuotes val)
    in \<not> cmdFailed r \<and> inSync parse pr (cmdCfg r) \<and>
       cmdLines (cmd_config_get pr [''config.get'', key] (cmdCfg r)) = [if v = JNull then ''null'' else pr True v] \<and>
       (\<forall>other p t1 t2 q1 q2 m. strtokAll (CHR ''.'') key = p @ t1 # q1 \<and> strtokAll (CHR ''.'') other = p @ t2 # q2 \<and> t1 \<noteq> t2 \<and>
          getWalk (doc c) p = Inr (JObj m) \<longrightarrow>
          cmdLines (cmd_config_get pr [''config.get'', other] (cmdCfg r)) = cmdLines (cmd_config_get pr [''config.get'', other] c)))"
proof -
  let ?r = "cmd_config_set parse pr [''config.set'', key, val] c"
  let ?v = "typedJson parse (stripQuotes val)"
  have s: "\<not> topicPrefixHeld c" "faults (cdisk c) = []" "files (cdisk c) ''/config.json'' = Some (pr True (doc c))" "parse (pr True (doc c)) = (True, doc c)"
    using assms(1) by (simp_all add: inSync_def)
  have rd: "readConfigFile parse c = (Inr (doc c), c)" using s by (simp add: readConfigFile_def fsExists_def fsRead_def nextFault_def)
  have r: "?r = writeAndLoad parse pr None key (setMsg key (stripQuotes val)) d1 c"
    using assms(2,4,5) s(1) rd by (simp add: cmd_config_set_def captureBootPrefix_def shellFits_def Let_def)
  have w: "inSync parse pr (cmdCfg ?r)" "\<not> cmdFailed ?r" "doc (cmdCfg ?r) = d1"
    using writeAndLoad_sync [of c pr d1 parse] s(1,2) assms(6,7) unfolding r by blast+
  have g: "getWalk d1 (strtokAll (CHR ''.'') key) = Inr ?v" by (rule setDoc_get [OF assms(5,3)])
  have lines: "cmdLines (cmd_config_get pr [''config.get'', key] (cmdCfg ?r)) = [if ?v = JNull then ''null'' else pr True ?v]"
    using g w(3) assms(2) by (simp add: cmd_config_get_def shellFits_def outLine_def)
  have "cmdLines (cmd_config_get pr [''config.get'', other] (cmdCfg ?r)) = cmdLines (cmd_config_get pr [''config.get'', other] c)"
    if "strtokAll (CHR ''.'') key = p @ t1 # q1" "strtokAll (CHR ''.'') other = p @ t2 # q2" "t1 \<noteq> t2" "getWalk (doc c) p = Inr (JObj m)"
    for other p t1 t2 q1 q2 m
    using setDoc_frame [OF assms(5,3) that(1,4), of t2 q2] that(2,3) w(3) by (simp add: cmd_config_get_def outLine_def split: sum.splits)
  then show ?thesis unfolding Let_def using w(1,2) lines by blast
qed


definition sampleConfig :: "int \<Rightarrow> json" where
  "sampleConfig p = JObj [(''mqtt'', JObj [(''port'', JNum p), (''broker'', JStr ''b'')])]"

definition sampleReader :: "string \<Rightarrow> bool \<times> json" where
  "sampleReader t = (True, if t = ''old'' then sampleConfig 1883 else sampleConfig 8884)"

definition samplePrinter :: "bool \<Rightarrow> json \<Rightarrow> string" where
  "samplePrinter pretty d =
     (if d = sampleConfig 1883 then ''old'' else if d = sampleConfig 8884 then ''new''
      else if d = JNum 8884 then ''8884'' else if d = JStr ''b'' then ''b'' else ''?'')"

definition sampleState :: config where
  "sampleState = \<lparr>doc = sampleConfig 1883, diskTopicPrefix = '''', diskTopicPrefixPresent = False, topicPrefixHeld = False, revision = 0,
     cdisk = \<lparr>files = [''/config.json'' \<mapsto> ''old''], faults = []\<rparr>\<rparr>"

theorem config_set_get_witness:
  "let r = cmd_config_set sampleReader samplePrinter [''config.set'', ''mqtt.port'', ''8884''] sampleState
   in \<not> cmdFailed r \<and> cmdLines (cmd_config_get samplePrinter [''config.get'', ''mqtt.port''] (cmdCfg r)) = [''8884''] \<and>
      cmdLines (cmd_config_get samplePrinter [''config.get'', ''mqtt.broker''] (cmdCfg r)) = [''b'']"
proof -
  have v: "typedJson sampleReader (stripQuotes ''8884'') = JNum 8884" by code_simp
  have h: "setDoc ''mqtt.port'' (Some (JNum 8884)) (sampleConfig 1883) = Inr (sampleConfig 8884)" by code_simp
  have p: "strtokAll (CHR ''.'') ''mqtt.port'' = [''mqtt''] @ ''port'' # []" "strtokAll (CHR ''.'') ''mqtt.broker'' = [''mqtt''] @ ''broker'' # []"
    by code_simp+
  have c: "inSync sampleReader samplePrinter sampleState" by (simp add: inSync_def sampleState_def samplePrinter_def sampleReader_def)
  have q: "stripQuotes ''8884'' \<noteq> ''--delete''" "samplePrinter True (sampleConfig 8884) \<noteq> []"
    "sampleReader (samplePrinter True (sampleConfig 8884)) = (True, sampleConfig 8884)" by code_simp+
  have b: "cmdLines (cmd_config_get samplePrinter [''config.get'', ''mqtt.broker''] sampleState) = [''b'']" by code_simp
  have o: "getWalk (doc sampleState) [''mqtt''] = Inr (JObj [(''port'', JNum 1883), (''broker'', JStr ''b'')])" by code_simp
  have d: "doc sampleState = sampleConfig 1883" "samplePrinter True (JNum 8884) = ''8884''" by code_simp+
  note t = config_set_get [OF c, of "''mqtt.port''" "''8884''" "sampleConfig 8884", unfolded v d(1), OF _ _ q(1) h q(2,3), unfolded Let_def]
  have k: "length ''mqtt.port'' < 128" "last ''mqtt.port'' \<noteq> CHR ''.''" "JNum 8884 \<noteq> JNull" "''port'' \<noteq> ''broker''" by simp_all
  note u = t [OF k(1,2)]
  let ?c = "cmdCfg (cmd_config_set sampleReader samplePrinter [''config.set'', ''mqtt.port'', ''8884''] sampleState)"
  have "cmdLines (cmd_config_get samplePrinter [''config.get'', ''mqtt.broker''] ?c) = [''b'']"
    using u p o b d(1) k(4) by metis
  then show ?thesis unfolding Let_def using u k(3) d(2) by simp
qed


section \<open>Documents stay well formed\<close>

text \<open>A well-formed document: no object names a member twice, and an integer is a 32-bit \<open>long\<close>.\<close>

fun wfJson :: "json \<Rightarrow> bool" where
  "wfJson (JObj m) \<longleftrightarrow> distinct (map fst m) \<and> (\<forall>e \<in> set m. wfJson (snd e))"
| "wfJson (JArr a) \<longleftrightarrow> (\<forall>v \<in> set a. wfJson v)"
| "wfJson (JNum n) \<longleftrightarrow> - (2 ^ 31) \<le> n \<and> n < 2 ^ 31"
| "wfJson _ \<longleftrightarrow> True"

lemma memPut_keys: "set (map fst (memPut k v m)) = insert k (set (map fst m))"
  by (induction k v m rule: memPut.induct) auto

lemma memPut_distinct: "distinct (map fst m) \<Longrightarrow> distinct (map fst (memPut k v m))"
proof (induction k v m rule: memPut.induct)
  case (2 k v k' v' m)
  then show ?case using memPut_keys [of k v m] by auto
qed simp

lemma memPut_elems: "e \<in> set (memPut k v m) \<Longrightarrow> e = (k, v) \<or> e \<in> set m"
  by (induction k v m rule: memPut.induct) (auto split: if_splits)

lemma wfJson_memPut: "wfJson (JObj m) \<Longrightarrow> wfJson v \<Longrightarrow> wfJson (JObj (memPut k v m))"
  using memPut_elems memPut_distinct by fastforce

lemma wfJson_member: "wfJson (JObj m) \<Longrightarrow> map_of m k = Some v \<Longrightarrow> wfJson v"
  by (metis map_of_SomeD snd_conv wfJson.simps(1))

lemma wfJson_update: "wfJson (JArr a) \<Longrightarrow> wfJson v \<Longrightarrow> wfJson (JArr (a[i := v]))"
  using set_update_subset_insert by fastforce

lemma setFinal_wf:
  assumes "setFinal pp k val par = Inr par'" "wfJson par" "\<forall>v. val = Some v \<longrightarrow> wfJson v"
  shows "wfJson par'"
proof (cases "parseArrayIndex k")
  case None
  then obtain m where m: "par = JObj m" "par' = (case val of None \<Rightarrow> jremove k (JObj m) | Some v \<Rightarrow> JObj (memPut k v m))"
    using assms(1) by (auto simp: setFinal_def split: json.splits)
  show ?thesis
  proof (cases val)
    case None
    then show ?thesis using m assms(2) distinct_map_filter by fastforce
  next
    case (Some v)
    then show ?thesis using m assms(2,3) wfJson_memPut by simp
  qed
next
  case (Some i)
  then obtain a where a: "par = JArr a" "par' = JArr (if i = length a then a @ [case val of None \<Rightarrow> JNull | Some v \<Rightarrow> v] else a[i := case val of None \<Rightarrow> JNull | Some v \<Rightarrow> v])"
    using assms(1) by (auto simp: setFinal_def Let_def split: json.splits if_splits)
  have "wfJson (case val of None \<Rightarrow> JNull | Some v \<Rightarrow> v)" using assms(3) by (cases val) auto
  then show ?thesis using a assms(2) wfJson_update [of a] by auto
qed

lemma setWalk_wf:
  assumes "setWalk f walked ts d = Inr d'" "wfJson d" "\<And>par par'. f par = Inr par' \<Longrightarrow> wfJson par \<Longrightarrow> wfJson par'"
  shows "wfJson d'"
  using assms(1,2)
proof (induction ts arbitrary: walked d d')
  case Nil
  then show ?case using assms(3) by simp
next
  case (Cons t ts)
  show ?case
  proof (cases d)
    case (JArr a)
    then obtain i v where v: "i < length a" "setWalk f (walkedPath walked t) ts (a ! i) = Inr v" "d' = JArr (a[i := v])"
      using Cons.prems(1) setWalk_JArr by blast
    then show ?thesis using Cons.IH [OF v(2)] wfJson_update [of a v i] JArr Cons.prems(2) by simp
  next
    case (JObj m)
    then obtain v where v: "setWalk f (walkedPath walked t) ts (if jnull (map_of m t) then JObj [] else the (map_of m t)) = Inr v" "d' = JObj (memPut t v m)"
      using Cons.prems(1) by (auto simp: map_sum_Inr Let_def split: if_splits)
    have "wfJson (if jnull (map_of m t) then JObj [] else the (map_of m t))"
      using Cons.prems(2) wfJson_member [of m t] JObj by (auto simp: jnull_def)
    then show ?thesis using Cons.IH [OF v(1)] v(2) wfJson_memPut Cons.prems(2) JObj by simp
  qed (use Cons.prems in auto)
qed

lemma scalarJson_wf: "wfJson (scalarJson v)"
  by (auto simp: scalarJson_def strtolWhole_def Let_def case_prod_unfold split: option.splits if_splits)



end
