(* ===== verification/Cli_Run.thy ===== *)
theory Cli_Run
  imports Cli_Authz Cli_Page Cert_Store Secret_Store Shell_Fs Shell_Config
begin

text \<open>
  One command from the broker, \<open>MQTTClient::runCli\<close>: the request envelope, the authorization gate, the handlers whose payload
  is not a shell line (\<open>fs.write\<close>, \<open>fs.append\<close>, ranged \<open>fs.cat\<close>, \<open>cert.set\<close>, \<open>secret.set\<close>), and the shell for the rest.

  The JSON reader and the size it reports for a reply are parameters. The shell's handlers are functions registered at run time:
  one is known by its name and what it does to the device on its arguments.
\<close>

section \<open>Definitions\<close>

subsection \<open>The built-in commands\<close>

text \<open>\<open>Shell::begin\<close>: each command's name and the argument from which the rest of the line is one word (0: none).\<close>

definition entry :: "string \<Rightarrow> nat \<Rightarrow> ShellEntry" where
  "entry n r = \<lparr>cmdName = n, cmdRestFrom = r\<rparr>"

definition shellBuiltins :: "ShellEntry list" where
  "shellBuiltins = map (\<lambda>(n, r). entry n r)
     [(''help'', 0), (''version'', 0), (''console.mode'', 0), (''restart'', 0), (''heap'', 0), (''uptime'', 0), (''sensors'', 0), (''selftest'', 0),
      (''fs.ls'', 0), (''fs.cat'', 0), (''fs.rm'', 0), (''fs.write'', 2), (''fs.append'', 2), (''fs.mv'', 0), (''fs.df'', 0), (''fs.format'', 0),
      (''config.get'', 0), (''config.set'', 2), (''config.del'', 0), (''config.save'', 0), (''config.reload'', 0), (''config.dump'', 0),
      (''net.ip'', 0), (''net.scan'', 0), (''net.ping'', 0), (''net.ntp'', 0), (''net.mqtt'', 0), (''net.http'', 0), (''ota.check'', 0), (''ota.status'', 0),
      (''cert.info'', 0), (''cert.apply'', 0), (''cert.clear'', 0), (''secret.set'', 2), (''secret.info'', 0), (''secret.clear'', 0), (''boot.info'', 0),
      (''partitions'', 0), (''chip.info'', 0), (''identity.info'', 0), (''identity.reset'', 0), (''sdkconfig'', 0), (''module.list'', 0), (''module.status'', 0)]"

subsection \<open>State, surroundings, replies\<close>

text \<open>What a command can change: the volumes, the stored certificate, the secrets, and the rest of the device, which only shell
  handlers reach.\<close>

record 'm cliSys =
  sysVol :: volumes
  sysCert :: certNvs
  sysSec :: secretNs
  sysRest :: 'm

datatype replyBody =
    BodyText string
  | BodyRange nat nat nat bool string      \<comment> \<open>\<open>total\<close>, \<open>offset\<close>, \<open>length\<close>, \<open>done\<close>, \<open>data\<close>\<close>
  | BodyRangeFail nat nat string           \<comment> \<open>\<open>total\<close>, \<open>offset\<close>, and the failure\<close>
  | BodyPage nat "string list" bool bool   \<comment> \<open>\<open>page\<close>, \<open>output\<close>, \<open>cont\<close>, \<open>more\<close>\<close>

record cliReply =
  rpCmd :: string
  rpReq :: "json option"
  rpOk :: bool
  rpBody :: replyBody

text \<open>\<open>ceMeas\<close> is the size of a reply's JSON text, \<open>ceTopic\<close> whether the response topic fits its buffer, \<open>ceHeap\<close> whether the reply's
  text allocates, \<open>ceAlloc\<close> whether a handler's buffer does, \<open>ceRun\<close> the registered handlers: failure, output, and the device after.\<close>

record 'm cliEnv =
  ceParse :: "string \<Rightarrow> bool \<times> json"
  ceMeas :: "cliReply \<Rightarrow> nat"
  ceTopic :: bool
  ceHeap :: bool
  ceAlloc :: bool
  ceBufOut :: nat
  ceBufIn :: nat
  ceCert :: certIo
  ceSec :: secIo
  ceCmds :: "ShellEntry list"
  ceDepth :: int
  ceRun :: "string \<Rightarrow> string list \<Rightarrow> 'm cliSys \<Rightarrow> bool \<times> string list \<times> 'm cliSys"

definition replyCap :: "'m cliEnv \<Rightarrow> nat" where
  "replyCap e = cliReplyCap (ceBufOut e) (ceBufIn e) (CLI_TOPIC_CAP - 1)"

definition publishCliResponse :: "'m cliEnv \<Rightarrow> cliReply \<Rightarrow> cliReply list" where
  "publishCliResponse e r = (if \<not> ceTopic e then [] else if replyCap e \<le> ceMeas e r then [] else if \<not> ceHeap e then [] else [r])"

subsection \<open>The envelope\<close>

record envelope =
  evReq :: "json option"
  evPayload :: cstr
  evNoArgs :: bool

definition cliEnvelope :: "(string \<Rightarrow> bool \<times> json) \<Rightarrow> cstr \<Rightarrow> envelope" where
  "cliEnvelope parse payload =
     (let plain = \<lparr>evReq = None, evPayload = payload, evNoArgs = False\<rparr>
      in case payload of None \<Rightarrow> plain
         | Some p \<Rightarrow>
             (if p = [] \<or> hd p \<noteq> CHR ''{'' then plain
              else case parse p of
                     (True, JObj m) \<Rightarrow>
                       (let req = (if jnull (map_of m ''req_id'') then None else map_of m ''req_id'');
                            args = (case map_of m ''args'' of Some (JStr s) \<Rightarrow> Some (takeWhile (\<lambda>c. c \<noteq> CHR 0x00) s) | _ \<Rightarrow> None)
                        in \<lparr>evReq = req, evPayload = (if args = None then payload else args),
                            evNoArgs = (req \<noteq> None \<and> (length m = 1 \<or> args = Some ''''))\<rparr>)
                   | _ \<Rightarrow> plain))"

subsection \<open>The binary handlers\<close>

definition textReply :: "string \<Rightarrow> envelope \<Rightarrow> bool \<Rightarrow> string \<Rightarrow> cliReply" where
  "textReply cmd ev ok m = \<lparr>rpCmd = cmd, rpReq = evReq ev, rpOk = ok, rpBody = BodyText m\<rparr>"

definition answer :: "'m cliEnv \<Rightarrow> string \<Rightarrow> envelope \<Rightarrow> bool \<Rightarrow> string \<Rightarrow> 'm cliSys \<Rightarrow> cliReply list \<times> 'm cliSys" where
  "answer e cmd ev ok m s = (publishCliResponse e (textReply cmd ev ok m), s)"

definition kPathCap :: nat where "kPathCap = 64"

definition cliFsWrite :: "'m cliEnv \<Rightarrow> string \<Rightarrow> envelope \<Rightarrow> string \<Rightarrow> 'm cliSys \<Rightarrow> cliReply list \<times> 'm cliSys" where
  "cliFsWrite e cmd ev p s =
     (let app = (cmd = ''fs.append'')
      in case c_memchr p (CHR 0x0A) (length p) of None \<Rightarrow> answer e cmd ev False (''Usage: payload = <path>'' @ [CHR 0x5C] @ ''n<content>'') s
         | Some i \<Rightarrow>
             (if kPathCap \<le> i then answer e cmd ev False ''Path too long'' s
              else if \<not> pathSafePolicy (Some (take i p)) then answer e cmd ev False ''Invalid path'' s
              else let path = take i p; body = drop (Suc i) p; f = resolveFS (sysVol s) path; q = stripPrefix (sysVol s) path;
                       (w, d) = (if app then fsAppend q body (disks (sysVol s) f) else fsWrite q body (disks (sysVol s) f));
                       s1 = s\<lparr>sysVol := putDisk f d (sysVol s)\<rparr>
                   in case w of None \<Rightarrow> answer e cmd ev False ''Failed to open file'' s1
                      | Some n \<Rightarrow> answer e cmd ev True (c_snprintf 64 ((if app then ''Appended '' else ''Wrote '') @ dec n @ '' bytes to '' @ path)) s1))"

text \<open>\<open>(size_t)atol\<close>: the digits that lead, a sign, saturation at 32 bits, and the cast.\<close>

definition atolSize :: "string \<Rightarrow> nat" where
  "atolSize t =
     (let (neg, u) = cSign (dropWhile isSpace t); n = int (decVal 0 (takeWhile isDigit u));
          l = (if neg then max (- (2 ^ 31)) (- n) else min (2 ^ 31 - 1) n)
      in unat (of_int l :: u32))"

definition chunkLen :: "'m cliEnv \<Rightarrow> nat \<Rightarrow> nat" where
  "chunkLen e want = (let maxChunk = (if 512 < ceBufOut e then ceBufOut e div 2 else 512) in if want = 0 \<or> maxChunk < want then maxChunk else want)"

text \<open>One range of an open file's bytes; \<open>g\<close> is the fault of the read.\<close>

definition rangeReply :: "'m cliEnv \<Rightarrow> string \<Rightarrow> envelope \<Rightarrow> fault \<Rightarrow> string \<Rightarrow> nat \<Rightarrow> nat \<Rightarrow> cliReply" where
  "rangeReply e cmd ev g body off want =
     (let tot = length body; rep = (\<lambda>ok b. \<lparr>rpCmd = cmd, rpReq = evReq ev, rpOk = ok, rpBody = b\<rparr>)
      in if tot \<le> off then rep True (BodyRange tot off 0 True '''')
         else let toRead = min (chunkLen e want) (tot - off)
              in if \<not> ceAlloc e then rep False (BodyRangeFail tot off ''malloc failed'')
                 else let got = (case g of NoFault \<Rightarrow> take toRead (drop off body) | Fault w l \<Rightarrow> take (min l toRead) (drop off body));
                          env = ceMeas e (rep True (BodyRange tot off (length got) False ''''));
                          n = cliJsonFit got (if env + 1 < replyCap e then replyCap e - env - 1 else 0)
                      in if n = 0 then rep False (BodyRangeFail tot off (if got \<noteq> [] then ''Chunk does not fit the reply buffer'' else ''Read failed''))
                         else rep True (BodyRange tot off n (tot \<le> off + n) (take n got)))"

definition cliFsCat :: "'m cliEnv \<Rightarrow> string \<Rightarrow> envelope \<Rightarrow> string \<Rightarrow> nat \<Rightarrow> nat \<Rightarrow> 'm cliSys \<Rightarrow> cliReply list \<times> 'm cliSys" where
  "cliFsCat e cmd ev path off want s =
     (if \<not> pathSafePolicy (Some path) then answer e cmd ev False ''Invalid path'' s
      else let f = resolveFS (sysVol s) path; (b, d1) = openRead (stripPrefix (sysVol s) path) (disks (sysVol s) f)
           in case b of None \<Rightarrow> answer e cmd ev False ''File not found'' (s\<lparr>sysVol := putDisk f d1 (sysVol s)\<rparr>)
              | Some body \<Rightarrow>
                  (let (g, d2) = nextFault d1
                   in (publishCliResponse e (rangeReply e cmd ev g body off want), s\<lparr>sysVol := putDisk f d2 (sysVol s)\<rparr>)))"

definition cliCertSet :: "'m cliEnv \<Rightarrow> string \<Rightarrow> envelope \<Rightarrow> string \<Rightarrow> 'm cliSys \<Rightarrow> cliReply list \<times> 'm cliSys" where
  "cliCertSet e cmd ev p s =
     (let sp = cliSplitFieldValue (Some p) (length p) '''' 32; pem = take (valueLen sp) (drop (valueOff sp) p)
      in if status sp = CliSplit_NoNewline then answer e cmd ev False (''Usage: payload = <type>'' @ [CHR 0x5C] @ ''n<PEM>  (type: client_cert|client_key)'') s
         else if status sp = CliSplit_FieldTooLong then answer e cmd ev False ''type too long'' s
         else if CERT_MAX_LEN \<le> valueLen sp then answer e cmd ev False ''PEM too large (>4000 B)'' s
         else if fieldOut sp = ''client_cert'' then
           (if \<not> ceAlloc e then answer e cmd ev False ''malloc failed'' s
            else let (ok, n) = storeClientCert (ceCert e) (Some pem) None (sysCert s)
                 in answer e cmd ev ok (if ok then ''Client cert stored in NVS'' else ''NVS write failed'') (s\<lparr>sysCert := n\<rparr>))
         else if fieldOut sp = ''client_key'' then
           (if \<not> ceAlloc e then answer e cmd ev False ''malloc failed'' s
            else let (ok, n) = storeClientCert (ceCert e) None (Some pem) (sysCert s)
                 in answer e cmd ev ok (if ok then ''Client key stored in NVS'' else ''NVS write failed'') (s\<lparr>sysCert := n\<rparr>))
         else answer e cmd ev False ''Unknown type - expected client_cert or client_key'' s)"

definition cliSecretSet :: "'m cliEnv \<Rightarrow> string \<Rightarrow> envelope \<Rightarrow> string \<Rightarrow> 'm cliSys \<Rightarrow> cliReply list \<times> 'm cliSys" where
  "cliSecretSet e cmd ev p s =
     (let sp = cliSplitFieldValue (Some p) (length p) '''' 48; v = take (valueLen sp) (drop (valueOff sp) p)
      in if status sp = CliSplit_NoNewline then answer e cmd ev False (''Usage: payload = <field>'' @ [CHR 0x5C] @ ''n<value>'') s
         else if status sp = CliSplit_FieldTooLong then answer e cmd ev False ''field too long'' s
         else if SECRET_MAX_LEN \<le> valueLen sp then answer e cmd ev False ''value too long'' s
         else if \<not> ceAlloc e then answer e cmd ev False ''malloc failed'' s
         else let (ok, ns) = secretSet (ceSec e) (Some (fieldOut sp)) (Some v) (sysSec s)
              in answer e cmd ev ok (if ok then ''secret stored in NVS'' else ''unknown field or NVS write failed'') (s\<lparr>sysSec := ns\<rparr>))"

subsection \<open>The shell\<close>

definition cliLine :: "string \<Rightarrow> envelope \<Rightarrow> string" where
  "cliLine cmd ev = (case evPayload ev of None \<Rightarrow> cmd
     | Some p \<Rightarrow> if p \<noteq> [] \<and> p \<noteq> ''{}'' \<and> \<not> evNoArgs ev then cmd @ '' '' @ p else cmd)"

text \<open>\<open>Shell::execute\<close> with the text it prints when no handler runs. The handler found is the one \<open>execute\<close> dispatches to.\<close>

definition shellRefusal :: "'m cliEnv \<Rightarrow> string \<Rightarrow> string list" where
  "shellRefusal e line =
     (let s1 = shellSplitLine (Some line) SHELL_LINE_MAX SHELL_ARGS_MAX 1
      in if line = [] then []
         else if shellParseSlot (ceDepth e) < 0 then [''Shell busy (nested command) - not run'']
         else if fst s1 = ShellLine_TooLong then [''Line too long (max 1023 bytes) - not run'']
         else if fst s1 = ShellLine_Ok \<and> snd s1 \<noteq> [] \<and> findCommand (hd (snd s1)) (ceCmds e) = None
              then [c_snprintf 128 (''Unknown command: '' @ hd (snd s1) @ ''  (type '' @ [CHR 0x27] @ ''help'' @ [CHR 0x27] @ '')'')]
         else if fst s1 = ShellLine_Ok \<and> snd s1 = [] then [] else [''Too many arguments (max 16 words) - not run''])"

definition shellRun :: "'m cliEnv \<Rightarrow> string \<Rightarrow> 'm cliSys \<Rightarrow> bool \<times> string list \<times> 'm cliSys" where
  "shellRun e line s =
     (let r = execute (\<lambda>n a. fst (ceRun e n a s)) (ceCmds e) (ceDepth e) (Some line)
      in case snd r of None \<Rightarrow> (fst r = ShellResult_Ok, shellRefusal e line, s)
         | Some (n, a) \<Rightarrow> (fst r = ShellResult_Ok, fst (snd (ceRun e n a s)), snd (snd (ceRun e n a s))))"

text \<open>The pages, each handed to \<open>publishCliResponse\<close>; only the last one carries the command's result.\<close>

definition pageReply :: "string \<Rightarrow> envelope \<Rightarrow> bool \<Rightarrow> nat \<Rightarrow> nat \<times> page \<Rightarrow> cliReply" where
  "pageReply cmd ev ok lastPage = (\<lambda>(k, pg). \<lparr>rpCmd = cmd, rpReq = evReq ev, rpOk = (k < lastPage \<or> ok), rpBody = BodyPage k (pgOut pg) (pgCont pg) (k < lastPage)\<rparr>)"

definition emptyPage :: "string \<Rightarrow> envelope \<Rightarrow> nat \<Rightarrow> cliReply" where
  "emptyPage cmd ev k = \<lparr>rpCmd = cmd, rpReq = evReq ev, rpOk = True, rpBody = BodyPage k [] False False\<rparr>"

definition cliShell :: "'m cliEnv \<Rightarrow> string \<Rightarrow> envelope \<Rightarrow> 'm cliSys \<Rightarrow> cliReply list \<times> 'm cliSys" where
  "cliShell e cmd ev s =
     (let line = cliLine cmd ev
      in if SHELL_LINE_MAX \<le> length line then answer e cmd ev False ''Command line too long for shell - use chunked variant'' s
         else let (ok, ls, s1) = shellRun e line s;
                  p = runPages (\<lambda>k. ceMeas e (emptyPage cmd ev k)) (cliPageLimit (replyCap e)) ls
              in (concat (map (\<lambda>x. publishCliResponse e (pageReply cmd ev (ok \<and> \<not> prDropped p) (prNum p) x)) (enumerate 0 (allPages p))), s1))"

subsection \<open>The command\<close>

definition authPayload :: "envelope \<Rightarrow> cstr" where
  "authPayload ev = (if evNoArgs ev then None else evPayload ev)"

definition catRange :: "string \<Rightarrow> (string \<times> nat \<times> nat) option" where
  "catRange p = (case strtokAll (CHR '' '') p of path # off # len # _ \<Rightarrow> Some (path, atolSize off, atolSize len) | _ \<Rightarrow> None)"

definition cliDispatch :: "'m cliEnv \<Rightarrow> string \<Rightarrow> envelope \<Rightarrow> 'm cliSys \<Rightarrow> cliReply list \<times> 'm cliSys" where
  "cliDispatch e cmd ev s =
     (case evPayload ev of None \<Rightarrow> cliShell e cmd ev s
      | Some p \<Rightarrow>
          (if p = [] then cliShell e cmd ev s
           else if cmd = ''fs.write'' \<or> cmd = ''file.write'' \<or> cmd = ''fs.append'' then cliFsWrite e cmd ev p s
           else if cmd = ''fs.cat'' \<and> 256 \<le> length p then answer e cmd ev False ''Args too long'' s
           else if cmd = ''fs.cat'' \<and> catRange p \<noteq> None then (let (path, off, want) = the (catRange p) in cliFsCat e cmd ev path off want s)
           else if cmd = ''cert.set'' then cliCertSet e cmd ev p s
           else if cmd = ''secret.set'' then cliSecretSet e cmd ev p s
           else cliShell e cmd ev s))"

definition runCli :: "'m cliEnv \<Rightarrow> CliAuthMode \<Rightarrow> string \<Rightarrow> cstr \<Rightarrow> 'm cliSys \<Rightarrow> cliReply list \<times> 'm cliSys" where
  "runCli e auth cmd payload s =
     (if cmd = [] then ([], s)
      else let ev = cliEnvelope (ceParse e) payload
           in if \<not> cliAuthzAllowed auth (Some cmd) (authPayload ev) (storedCertBroken (sysCert s))
              then answer e cmd ev False ''Denied: not permitted on this connection'' s
              else cliDispatch e cmd ev s)"


section \<open>The words of a command line\<close>

lemma blank_isBlank: "blank = isBlank"
  by (simp add: fun_eq_iff blank_def isBlank_def)

lemma splitLoop_skip: "list_all blank b \<Longrightarrow> splitLoop k r n (b @ p) = splitLoop k r n p"
  by (subst (1 2) splitLoop.simps) (simp add: dropWhile_append list_all_iff)

lemma splitLoop_word:
  assumes "w \<noteq> []" "list_all (\<lambda>c. \<not> blank c) w" "n < k" "\<not> (n = r \<and> 0 < r)" "p = [] \<or> blank (hd p)"
  shows "splitLoop k r n (w @ p) = (fst (splitLoop k r (Suc n) p), w # snd (splitLoop k r (Suc n) p))"
proof -
  have d: "dropWhile blank (w @ p) = w @ p" using assms(1,2) by (cases w) auto
  have t: "takeWhile (\<lambda>c. \<not> blank c) (w @ p) = w" "dropWhile (\<lambda>c. \<not> blank c) (w @ p) = p"
    using assms(2,5) by (cases p; simp add: takeWhile_append dropWhile_append list_all_iff)+
  show ?thesis using assms(1,3,4) by (subst splitLoop.simps) (auto simp add: Let_def d t)
qed

text \<open>A line whose first word is \<open>cmd\<close>: its words, and its words where the third takes the rest.\<close>

lemma split_first:
  assumes "cmd \<noteq> []" "list_all (\<lambda>c. \<not> blank c) cmd" "p = [] \<or> blank (hd p)" "shellSplitLine (Some (cmd @ p)) b 16 r = (ShellLine_Ok, a)"
  shows "hd a = cmd"
proof -
  have "splitLoop 16 r 0 (cmd @ p) = (fst (splitLoop 16 r 1 p), cmd # snd (splitLoop 16 r 1 p))"
    using splitLoop_word [of cmd 0 16 r p] assms(1-3) by auto
  then show ?thesis using assms(4) by (auto simp: shellSplitLine_def Let_def split: if_splits)
qed

lemma split_rest2:
  assumes "cmd \<noteq> []" "list_all (\<lambda>c. \<not> blank c) cmd" "length cmd + length p + 1 < b"
  shows "shellSplitLine (Some (cmd @ '' '' @ p)) b 16 2 =
    (ShellLine_Ok, let q = dropWhile blank p; z = dropWhile blank (dropWhile (\<lambda>c. \<not> blank c) q)
       in cmd # (if q = [] then [] else takeWhile (\<lambda>c. \<not> blank c) q # (if z = [] then [] else [trimEnd z])))"
proof -
  let ?q = "dropWhile blank p" let ?z = "dropWhile (\<lambda>c. \<not> blank c) ?q"
  have two: "splitLoop 16 2 2 y = (ShellLine_Ok, if dropWhile blank y = [] then [] else [trimEnd (dropWhile blank y)])" for y
    by (subst splitLoop.simps) (simp add: Let_def)
  have one: "splitLoop 16 2 1 ('' '' @ p) = (ShellLine_Ok, if ?q = [] then [] else takeWhile (\<lambda>c. \<not> blank c) ?q # snd (splitLoop 16 2 2 ?z))"
    by (subst splitLoop.simps) (simp add: Let_def two numeral_2_eq_2 [symmetric] blank_def)
  have "splitLoop 16 2 0 (cmd @ '' '' @ p) = (fst (splitLoop 16 2 1 ('' '' @ p)), cmd # snd (splitLoop 16 2 1 ('' '' @ p)))"
    using splitLoop_word [of cmd 0 16 2 "'' '' @ p"] assms(1,2) by (simp add: blank_def)
  then show ?thesis unfolding one using assms(3) by (simp add: shellSplitLine_def shellFits_def Let_def two)
qed

lemma execute_handler:
  assumes "snd (execute f cmds d (Some line)) = Some (n, a)"
  shows "\<exists>x w. x \<in> set cmds \<and> n = cmdName x \<and> shellSplitLine (Some line) SHELL_LINE_MAX SHELL_ARGS_MAX 1 = (ShellLine_Ok, w) \<and> w \<noteq> [] \<and>
    map toLower n = map toLower (hd w) \<and> shellSplitLine (Some line) SHELL_LINE_MAX SHELL_ARGS_MAX (cmdRestFrom x) = (ShellLine_Ok, a)"
proof -
  let ?s1 = "shellSplitLine (Some line) SHELL_LINE_MAX SHELL_ARGS_MAX 1"
  obtain x where x: "fst ?s1 = ShellLine_Ok" "snd ?s1 \<noteq> []" "findCommand (hd (snd ?s1)) cmds = Some x" "n = cmdName x"
      "fst (shellSplitLine (Some line) SHELL_LINE_MAX SHELL_ARGS_MAX (cmdRestFrom x)) = ShellLine_Ok"
      "a = snd (shellSplitLine (Some line) SHELL_LINE_MAX SHELL_ARGS_MAX (cmdRestFrom x))"
    using assms by (auto simp: execute_def Let_def split: if_splits option.splits)
  then have "x \<in> set cmds" "map toLower (cmdName x) = map toLower (hd (snd ?s1))" by (auto simp: findCommand_def find_Some_iff)
  then show ?thesis using x by (metis prod.collapse)
qed

lemma blank_lower: "blank c \<Longrightarrow> blank (toLower c)"
  by (auto simp: blank_def toLower_def isUpper_def)

lemma lower_no_blank: "list_all (\<lambda>c. \<not> blank c) (map toLower w) \<Longrightarrow> list_all (\<lambda>c. \<not> blank c) w"
  using blank_lower by (auto simp: list_all_iff)


section \<open>The broker port through the gate and the shell\<close>

lemma dropWhile_snoc: "\<not> P x \<Longrightarrow> dropWhile P (xs @ [x]) = dropWhile P xs @ [x]"
  by (induction xs) auto

lemma trimEnd_append: "trimEnd (a @ b) = (if trimEnd b = [] then trimEnd a else a @ trimEnd b)"
  by (simp add: trimEnd_def dropWhile_append)

lemma trimEnd_set: "set (trimEnd s) \<subseteq> set s"
  by (auto simp: trimEnd_def dest: set_dropWhileD)

lemma trimEnd_last: "trimEnd s \<noteq> [] \<Longrightarrow> \<not> blank (last (trimEnd s))"
  by (simp add: trimEnd_def last_rev hd_dropWhile)

lemma trimEnd_Nil: "trimEnd s = [] \<longleftrightarrow> list_all blank s"
  by (simp add: trimEnd_def list_all_iff)

lemma digit_not_blank: "isDigit c \<Longrightarrow> \<not> blank c"
  by (auto simp: isDigit_def blank_def)

lemma trimEnd_digits: "digits ds \<Longrightarrow> trimEnd ds = ds"
proof -
  assume "digits ds"
  then have "rev ds \<noteq> [] \<and> \<not> blank (hd (rev ds))" using digit_not_blank by (auto simp: digits_def list_all_iff hd_rev)
  then show ?thesis by (cases "rev ds") (auto simp: trimEnd_def)
qed

text \<open>The arguments the shell gives \<open>config.set\<close> for a payload the gate reads as a port.\<close>

lemma port_argv:
  assumes "p = w1 @ ''mqtt.port'' @ w2 @ ds @ w3" "list_all isBlank w1" "list_all isBlank w2" "w2 \<noteq> []" "digits ds"
    and "cmd \<noteq> []" "list_all (\<lambda>c. \<not> blank c) cmd" "length cmd + length p + 1 < b"
  shows "shellSplitLine (Some (cmd @ '' '' @ p)) b 16 2 = (ShellLine_Ok, [cmd, ''mqtt.port'', ds @ trimEnd w3])"
proof -
  have d: "ds \<noteq> []" "\<not> blank (hd ds)" using assms(5) digit_not_blank by (cases ds; simp add: digits_def)+
  have q: "dropWhile blank p = ''mqtt.port'' @ w2 @ ds @ w3"
    unfolding assms(1) blank_isBlank by (intro dropWhile_all_append assms(2)) (simp add: isBlank_def)
  have b2: "\<exists>x y. w2 = x # y \<and> blank x" using assms(3,4) by (cases w2) (auto simp: blank_isBlank)
  have t: "takeWhile (\<lambda>c. \<not> blank c) (''mqtt.port'' @ w2 @ ds @ w3) = ''mqtt.port''" "dropWhile (\<lambda>c. \<not> blank c) (''mqtt.port'' @ w2 @ ds @ w3) = w2 @ ds @ w3"
    using b2 by (auto simp: blank_def)
  have z: "dropWhile blank (w2 @ ds @ w3) = ds @ w3"
    using d assms(3) unfolding blank_isBlank by (intro dropWhile_all_append) (auto simp: hd_append)
  have e: "trimEnd (ds @ w3) = ds @ trimEnd w3" using trimEnd_digits [OF assms(5)] by (simp add: trimEnd_append)
  show ?thesis unfolding split_rest2 [OF assms(6-8)] q Let_def t z e using d by simp
qed


text \<open>A text \<open>strtof\<close> consumes whole does not end in a space character.\<close>

lemma cSign_suffix: "suffix (snd (cSign s)) s"
  by (auto simp: cSign_def suffix_def split: list.splits)

lemma last_takeWhile_all: "dropWhile P s = [] \<Longrightarrow> s \<noteq> [] \<Longrightarrow> P (last s)"
  by (metis dropWhile_eq_Nil_conv last_in_set)

lemma expWhole_last: "expWhole x s \<Longrightarrow> s \<noteq> [] \<Longrightarrow> isDigit (last s)"
proof -
  assume "expWhole x s" "s \<noteq> []"
  then obtain c t where s: "s = c # t" "digits (snd (cSign t))" by (cases s) (auto simp: expWhole_def)
  then have "snd (cSign t) \<noteq> []" "isDigit (last (snd (cSign t)))" by (auto simp: digits_def list_all_iff)
  moreover obtain z where "t = z @ snd (cSign t)" using cSign_suffix [of t] by (auto simp: suffix_def)
  ultimately show ?thesis unfolding s(1) by (metis append_is_Nil_conv last_ConsR last_appendR)
qed

lemma fracWhole_last: "fracWhole dig x s \<Longrightarrow> s \<noteq> [] \<and> (dig (last s) \<or> last s = CHR ''.'' \<or> isDigit (last s))"
proof -
  assume f: "fracWhole dig x s"
  let ?r = "dropWhile dig s"
  have ne: "s \<noteq> []" using f by (auto simp: fracWhole_def)
  have suf: "?r \<noteq> [] \<Longrightarrow> last s = last ?r" by (metis last_append takeWhile_dropWhile_id)
  show ?thesis
  proof (cases ?r)
    case Nil
    then show ?thesis using last_takeWhile_all ne by blast
  next
    case (Cons c g)
    let ?g = "dropWhile dig g"
    show ?thesis
    proof (cases "c = CHR ''.''")
      case False
      then have "expWhole x ?r" using f Cons by (simp add: fracWhole_def)
      then show ?thesis using ne suf Cons expWhole_last [of x ?r] by simp
    next
      case True
      then have x: "expWhole x ?g" using f Cons by (simp add: fracWhole_def)
      have l: "last s = (if g = [] then CHR ''.'' else last g)" using True Cons suf by simp
      have "?g \<noteq> [] \<Longrightarrow> last g = last ?g" by (metis last_append takeWhile_dropWhile_id)
      then have "?g \<noteq> [] \<Longrightarrow> isDigit (last g)" using expWhole_last [OF x] by simp
      moreover have "?g = [] \<Longrightarrow> g \<noteq> [] \<Longrightarrow> dig (last g)" by (rule last_takeWhile_all)
      ultimately show ?thesis using l ne by (cases "g = []") metis+
    qed
  qed
qed

lemma toLower_space: "isSpace c \<Longrightarrow> toLower c = c"
  by (auto simp: isSpace_def toLower_def isUpper_def)

lemma space_code: "isSpace c \<Longrightarrow> ccode c \<le> 32"
  by (auto simp: isSpace_def)

lemma not_space: "isDigit c \<Longrightarrow> \<not> isSpace c" "isHex c \<Longrightarrow> \<not> isSpace c" "\<not> isSpace (CHR ''.'')"
proof -
  show "isDigit c \<Longrightarrow> \<not> isSpace c" using space_code [of c] by (auto simp: isDigit_def)
  show "isHex c \<Longrightarrow> \<not> isSpace c" using space_code [of c] toLower_space [of c] by (auto simp: isHex_def isHexLower_def isDigit_def)
  show "\<not> isSpace (CHR ''.'')" by (simp add: isSpace_def)
qed

lemma nanTail_last: "nanTail t \<Longrightarrow> t \<noteq> [] \<Longrightarrow> last t = CHR '')''"
  by (auto simp: nanTail_def)

lemma strtofWhole_last:
  assumes "strtofWhole s"
  shows "s \<noteq> [] \<and> \<not> isSpace (last s)"
proof -
  define u where "u = snd (cSign (dropWhile isSpace s))"
  define l where "l = map toLower u"
  have suf: "suffix u s" unfolding u_def by (meson cSign_suffix suffix_dropWhile suffix_order.trans)
  have ends: "u \<noteq> [] \<and> \<not> isSpace (last u)" if "l \<noteq> []" "32 < ccode (last l)"
    using that toLower_space [of "last u"] space_code [of "last u"] by (auto simp: l_def last_map)
  have "u \<noteq> [] \<and> \<not> isSpace (last u)"
  proof -
    consider (a) "fracWhole isDigit (CHR ''e'') u" | (b) "fracWhole isHex (CHR ''p'') (drop 2 u)" | (c) "l = ''inf'' \<or> l = ''infinity''"
      | (d) "take 3 l = ''nan''" "nanTail (drop 3 l)"
      using assms unfolding strtofWhole_def u_def l_def Let_def by blast
    then show ?thesis
    proof cases
      case a
      then show ?thesis using fracWhole_last [OF a] not_space by auto
    next
      case b
      then have "drop 2 u \<noteq> []" "\<not> isSpace (last (drop 2 u))" using fracWhole_last [OF b] not_space by auto
      then show ?thesis by (metis drop_Nil last_drop drop_all linorder_not_le)
    next
      case c
      then have "l \<noteq> []" "32 < ccode (last l)" by auto
      then show ?thesis by (rule ends)
    next
      case d
      have "l = ''nan'' @ drop 3 l" using d(1) by (metis append_take_drop_id)
      then have "l \<noteq> []" "last l = (if drop 3 l = [] then CHR ''n'' else CHR '')'')" using nanTail_last [OF d(2)] by (metis append_is_Nil_conv list.distinct(1), metis append_Nil2 last.simps last_appendR list.distinct(1))
      then have "l \<noteq> []" "32 < ccode (last l)" by (simp_all split: if_splits)
      then show ?thesis by (rule ends)
    qed
  qed
  then show ?thesis using suf by (auto simp: suffix_def)
qed


text \<open>The value \<open>config.set\<close> stores for digits with line ends after them.\<close>

lemma sep_space: "isSep c \<Longrightarrow> isSpace c"
  by (auto simp: isSep_def isBlank_def isSpace_def)

lemma typed_port:
  assumes "digits ds" "decVal 0 ds < 2 ^ 31" "list_all isSep w" "w \<noteq> [] \<Longrightarrow> \<not> blank (last w)"
  shows "typedJson parse (stripQuotes (ds @ w)) = (if w = [] then JNum (int (decVal 0 ds)) else JStr (ds @ w))"
proof -
  obtain x xs where ds: "ds = x # xs" "isDigit x" "list_all isDigit ds" using assms(1) by (cases ds) (auto simp: digits_def)
  have nx: "\<not> isSpace x" "x \<noteq> CHR 0x22" "x \<noteq> CHR ''{''" "x \<noteq> CHR ''[''" "x \<noteq> CHR ''t''" "x \<noteq> CHR ''f''" "x \<noteq> CHR ''-''" "x \<noteq> CHR ''+''"
    using ds(2) not_space(1) by (auto simp: isDigit_def)
  have q: "stripQuotes (ds @ w) = ds @ w" using ds(1) nx(2) by (simp add: stripQuotes_def)
  have "\<exists>y. trimSpace (ds @ w) = x # y"
  proof -
    have "dropWhile isSpace (ds @ w) = ds @ w" using ds(1) nx(1) by simp
    moreover have "dropWhile isSpace ((rev w @ rev xs) @ [x]) = dropWhile isSpace (rev w @ rev xs) @ [x]"
      using dropWhile_snoc [of isSpace x "rev w @ rev xs"] nx(1) by blast
    then obtain z where "dropWhile isSpace (rev (ds @ w)) = z @ [x]" using ds(1) by simp
    ultimately have "trimSpace (ds @ w) = x # rev z" by (simp add: trimSpace_def)
    then show ?thesis by blast
  qed
  then have t: "typedJson parse (ds @ w) = scalarJson (ds @ w)" using nx by (auto simp: typedJson_def Let_def)
  have s: "cSign (dropWhile isSpace (ds @ w)) = (False, ds @ w)" using ds(1) nx by (simp add: cSign_def)
  have tf: "ds @ w \<noteq> ''true''" "ds @ w \<noteq> ''false''" using ds(1) nx by auto
  show ?thesis
  proof (cases "w = []")
    case True
    have "strtolWhole ds = Some (int (decVal 0 ds))" using s True ds assms(2) by (simp add: strtolWhole_def Let_def min_def)
    then show ?thesis using True q t tf by (simp add: scalarJson_def)
  next
    case False
    then have sp: "isSpace (last (ds @ w))" "\<not> isDigit (last (ds @ w))" "last (ds @ w) \<in> set (ds @ w)"
      using assms(3) sep_space by (auto simp: list_all_iff)
    then have "strtolWhole (ds @ w) = None" using s by (auto simp: strtolWhole_def list_all_iff)
    moreover have "\<not> strtofWhole (ds @ w)" using strtofWhole_last sp(1) by blast
    ultimately show ?thesis using False q t tf by (simp add: scalarJson_def)
  qed
qed

lemma port_member:
  assumes "getWalk d [''mqtt'', ''port''] = Inr v" "v \<noteq> JNull"
  shows "\<exists>m. jget d ''mqtt'' = Some (JObj m) \<and> map_of m ''port'' = Some v"
proof -
  have p: "parseArrayIndex ''mqtt'' = None" "parseArrayIndex ''port'' = None" by (simp_all add: parseArrayIndex_def isDigit_def)
  then show ?thesis using assms by (auto split: json.splits option.splits)
qed


lemma lf_cr_not_blank: "\<not> isBlank (CHR 0x0A)" "\<not> isBlank (CHR 0x0D)"
  by (simp_all add: isBlank_def)

text \<open>C11: From the gate to the port the client dials. Where the gate reads a broker port in a \<open>config.set\<close> payload and the shell's
  arguments for it are written into a document, the client later takes from that document exactly the port the gate
  read if the payload has no line end, and otherwise the default 8883: the gate skips a trailing CR or LF, but the
  shell keeps it and the value is stored as text.\<close>

theorem port_gate_store:
  assumes "cliAuthzPortValueOk (Some p) CLI_AUTHZ_PW_CONFIG_KEY" "length p + 11 < SHELL_LINE_MAX"
    and "argv = snd (shellSplitLine (Some (''config.set '' @ p)) SHELL_LINE_MAX SHELL_ARGS_MAX 2)"
    and "setDoc (argv ! 1) (Some (typedJson parse (stripQuotes (argv ! 2)))) d = Inr d1"
  shows "argv ! 1 = ''mqtt.port'' \<and> (\<exists>ds. portPayload p ds \<and>
    intMember (jget d1 ''mqtt'') ''port'' 8883 = (if CHR 0x0A \<in> set p \<or> CHR 0x0D \<in> set p then 8883 else int (decVal 0 ds)))"
proof -
  obtain ds where pp: "portPayload p ds" using assms(1) cliAuthzPortValueOk_iff unfolding CLI_AUTHZ_PW_CONFIG_KEY_def by blast
  then obtain w1 w2 w3 where w: "p = w1 @ ''mqtt.port'' @ w2 @ ds @ w3" "list_all isBlank w1" "list_all isBlank w2" "w2 \<noteq> []" "digits ds"
      "list_all isSep w3" "1 \<le> decVal 0 ds" "decVal 0 ds \<le> 65535" unfolding portPayload_def by blast
  have "shellSplitLine (Some (''config.set'' @ '' '' @ p)) SHELL_LINE_MAX 16 2 = (ShellLine_Ok, [''config.set'', ''mqtt.port'', ds @ trimEnd w3])"
    using assms(2) by (intro port_argv [OF w(1-5)]) (simp_all add: blank_def)
  then have a: "argv = [''config.set'', ''mqtt.port'', ds @ trimEnd w3]" using assms(3) by (simp add: SHELL_ARGS_MAX_def)
  let ?v = "if trimEnd w3 = [] then JNum (int (decVal 0 ds)) else JStr (ds @ trimEnd w3)"
  have "list_all isSep (trimEnd w3)" using w(6) trimEnd_set [of w3] by (auto simp: list_all_iff)
  then have v: "typedJson parse (stripQuotes (ds @ trimEnd w3)) = ?v"
    using w(5,8) trimEnd_last [of w3] by (intro typed_port) auto
  have "getWalk d1 (strtokAll (CHR ''.'') ''mqtt.port'') = Inr ?v" using assms(4) a v by (intro setDoc_get) auto
  then have g: "getWalk d1 [''mqtt'', ''port''] = Inr ?v" by (simp add: strtokAll_def)
  have "?v \<noteq> JNull" by simp
  then obtain m where "jget d1 ''mqtt'' = Some (JObj m)" "map_of m ''port'' = Some ?v" using port_member [OF g] by blast
  then have i: "intMember (jget d1 ''mqtt'') ''port'' 8883 = (if trimEnd w3 = [] then int (decVal 0 ds) else 8883)"
    using w(8) by (simp add: intMember_def)
  have only: "c \<in> set p \<longleftrightarrow> c \<in> set w3" if "\<not> isBlank c" "\<not> isDigit c" "c \<notin> set ''mqtt.port''" for c
  proof -
    have "c \<notin> set w1" "c \<notin> set w2" "c \<notin> set ds" using that w(2,3,5) by (auto simp: list_all_iff digits_def)
    then show ?thesis unfolding w(1) using that(3) by simp
  qed
  have "CHR 0x0A \<in> set p \<or> CHR 0x0D \<in> set p \<longleftrightarrow> CHR 0x0A \<in> set w3 \<or> CHR 0x0D \<in> set w3"
    using only [of "CHR 0x0A"] only [of "CHR 0x0D"] by (simp add: isBlank_def isDigit_def)
  also have "\<dots> \<longleftrightarrow> trimEnd w3 \<noteq> []"
  proof -
    have "list_all isBlank w3 \<longleftrightarrow> CHR 0x0A \<notin> set w3 \<and> CHR 0x0D \<notin> set w3"
      using w(6) unfolding list_all_iff isSep_def by (metis lf_cr_not_blank)
    then show ?thesis unfolding trimEnd_Nil blank_isBlank by blast
  qed
  finally show ?thesis using i a pp by auto
qed

theorem port_gate_store_witness:
  "let old = JObj [(''mqtt'', JObj [(''port'', JNum 1883)])]; p = ''mqtt.port 8884'' @ [CHR 0x0A];
       argv = snd (shellSplitLine (Some (''config.set '' @ p)) SHELL_LINE_MAX SHELL_ARGS_MAX 2)
   in cliAuthzAllowed CLI_AUTH_PASSWORD (Some ''config.set'') (Some p) False \<and>
      (\<exists>d1. setDoc (argv ! 1) (Some (typedJson sampleReader (stripQuotes (argv ! 2)))) old = Inr d1 \<and> intMember (jget d1 ''mqtt'') ''port'' 8883 = 8883)"
proof -
  let ?p = "''mqtt.port 8884'' @ [CHR 0x0A]" let ?old = "JObj [(''mqtt'', JObj [(''port'', JNum 1883)])]"
  let ?argv = "snd (shellSplitLine (Some (''config.set '' @ ?p)) SHELL_LINE_MAX SHELL_ARGS_MAX 2)"
  have ok: "cliAuthzPortValueOk (Some ?p) CLI_AUTHZ_PW_CONFIG_KEY"
    by (simp add: cliAuthzPortValueOk_def CLI_AUTHZ_PW_CONFIG_KEY_def cliAuthzFirstTokenIs_def cliPortToken_def strncmp0_def isBlank_def isSep_def isDigit_def digitVal_def)
  then have al: "cliAuthzAllowed CLI_AUTH_PASSWORD (Some ''config.set'') (Some ?p) False"
    using portValueOk_not_bad [of "Some ?p"] by (simp add: cliAuthzAllowed_def Let_def cliAuthzCmdEq_iff)
  have a: "?argv = [''config.set'', ''mqtt.port'', ''8884'' @ [CHR 0x0A]]" by code_simp
  have s: "setDoc ''mqtt.port'' (Some v) ?old = Inr (JObj [(''mqtt'', JObj [(''port'', v)])])" for v
    by (simp add: setDoc_def cutLastDot_def strtokAll_def jnull_def setFinal_def parseArrayIndex_def isDigit_def)
  let ?d1 = "JObj [(''mqtt'', JObj [(''port'', typedJson sampleReader (stripQuotes (?argv ! 2)))])]"
  have "setDoc (?argv ! 1) (Some (typedJson sampleReader (stripQuotes (?argv ! 2)))) ?old = Inr ?d1" using s a by simp
  then show ?thesis unfolding Let_def
    using port_gate_store [OF ok _ refl, of sampleReader ?old ?d1] al by (auto simp: SHELL_LINE_MAX_def)
qed


text \<open>The gate compares the key as text, the command walks it: a doubled dot names the same member and is not checked.\<close>

lemma port_gate_alias:
  "cliAuthzAllowed CLI_AUTH_MTLS (Some ''config.set'') (Some ''mqtt..port 8884}'') False"
  "setDoc ''mqtt..port'' (Some v) (JObj [(''mqtt'', JObj [(''port'', JNum 1883)])]) = Inr (JObj [(''mqtt'', JObj [(''port'', v)])])"
proof -
  show "cliAuthzAllowed CLI_AUTH_MTLS (Some ''config.set'') (Some ''mqtt..port 8884}'') False" by code_simp
  show "setDoc ''mqtt..port'' (Some v) (JObj [(''mqtt'', JObj [(''port'', JNum 1883)])]) = Inr (JObj [(''mqtt'', JObj [(''port'', v)])])"
    by (simp add: setDoc_def cutLastDot_def strtokAll_def jnull_def setFinal_def parseArrayIndex_def isDigit_def)
qed

section \<open>What a password session can do\<close>

definition claimField :: string where "claimField = ''enroll.claim_code''"

definition pairingNames :: "string list" where
  "pairingNames = [''cert.set'', ''cert.apply'', ''cert.info'', ''restart'', ''version'', ''chip.info'', ''heap'']"

text \<open>The handlers of the shell a password session reaches, with the arguments it can give them.\<close>

definition pwHandler :: "bool \<Rightarrow> string \<Rightarrow> string list \<Rightarrow> bool" where
  "pwHandler broken name argv \<longleftrightarrow>
     (let c = map toLower name
      in c \<in> set pairingNames \<or> (c = ''cert.clear'' \<and> broken) \<or>
         (c = ''config.set'' \<and> (\<exists>cmd ds w. argv = [cmd, ''mqtt.port'', ds @ w] \<and> digits ds \<and> 1 \<le> decVal 0 ds \<and> decVal 0 ds \<le> 65535 \<and> list_all isSep w)) \<or>
         (c = ''secret.set'' \<and> (1 < length argv \<longrightarrow> argv ! 1 \<noteq> claimField)))"

lemma password_allowed:
  assumes "cliAuthzAllowed CLI_AUTH_PASSWORD (Some cmd) ap broken"
  shows "map toLower cmd \<in> set pairingNames \<or> (map toLower cmd = ''cert.clear'' \<and> broken) \<or>
    (map toLower cmd = ''config.set'' \<and> (\<exists>p ds. ap = Some p \<and> portPayload p ds)) \<or>
    (map toLower cmd = ''secret.set'' \<and> (\<forall>p. ap = Some p \<longrightarrow> secretPayloadOk p))"
proof (cases ap)
  case (Some p)
  then show ?thesis using assms cliAuthzAllowed_password [of cmd p broken] by (auto simp: Let_def pairingNames_def)
next
  case None
  have eq: "cliAuthzCmdEq (Some cmd) (Some k) \<longleftrightarrow> map toLower cmd = k" if "k \<in> set (''config.set'' # ''secret.set'' # ''cert.clear'' # kAllowed)" for k
    using lower_literals [OF that] by (simp add: cliAuthzCmdEq_iff)
  have "\<not> cliAuthzCmdEq (Some cmd) (Some ''config.set'')"
    using assms None by (auto simp: cliAuthzAllowed_def cliAuthzPortValueOk_def cliAuthzFirstTokenIs_def Let_def split: if_splits)
  then have "cliAuthzCmdEq (Some cmd) (Some ''secret.set'') \<or> cliAuthzPasswordCmdAllowed (Some cmd) broken"
    using assms by (auto simp: cliAuthzAllowed_def Let_def split: if_splits)
  then have "map toLower cmd = ''secret.set'' \<or> (broken \<and> map toLower cmd = ''cert.clear'') \<or> map toLower cmd \<in> set kAllowed"
    using eq by (auto simp: cliAuthzPasswordCmdAllowed_def list_ex_iff split: if_splits)
  then show ?thesis using None by (auto simp: kAllowed_def pairingNames_def)
qed

text \<open>The gate refuses the claim code however the payload is cut: by the newline of the binary form or the blanks of the shell.\<close>

lemma takeWhile_word: "list_all P a \<Longrightarrow> r = [] \<or> \<not> P (hd r) \<Longrightarrow> takeWhile P (a @ r) = a"
  by (induction a) (cases r; auto)+

lemma claim_cut:
  assumes "takeWhile (\<lambda>c. \<not> blank c) (dropWhile blank p) = claimField"
  shows "\<not> secretPayloadOk p"
proof -
  let ?q = "dropWhile isBlank p"
  have q: "takeWhile (\<lambda>c. \<not> isBlank c) ?q = claimField" using assms by (simp add: blank_isBlank)
  have c: "list_all (\<lambda>c. \<not> isSep c) claimField" by (simp add: claimField_def isSep_def isBlank_def)
  have r: "?q = claimField @ dropWhile (\<lambda>c. \<not> isBlank c) ?q" using q by (metis takeWhile_dropWhile_id)
  have "dropWhile (\<lambda>c. \<not> isBlank c) ?q = [] \<or> isSep (hd (dropWhile (\<lambda>c. \<not> isBlank c) ?q))"    using hd_dropWhile [of "\<lambda>c. \<not> isBlank c" ?q] unfolding isSep_def by blast
  then have "takeWhile (\<lambda>c. \<not> isSep c) (claimField @ dropWhile (\<lambda>c. \<not> isBlank c) ?q) = claimField"
    using takeWhile_word [OF c] by blast
  then have "takeWhile (\<lambda>c. \<not> isSep c) ?q = claimField" using r by simp
  then show ?thesis by (simp add: secretPayloadOk_def claimField_def)
qed

lemma claim_newline: "\<not> secretPayloadOk (claimField @ CHR 0x0A # v)"
  by (simp add: secretPayloadOk_def claimField_def isSep_def isBlank_def)


lemma answer_state [simp]: "snd (answer e cmd ev ok m s) = s"
  by (simp add: answer_def)

lemma cliCertSet_effect:
  "snd (cliCertSet e cmd ev p s) = s \<or> (\<exists>c k. snd (cliCertSet e cmd ev p s) = s\<lparr>sysCert := snd (storeClientCert (ceCert e) c k (sysCert s))\<rparr>)"
  by (auto simp: cliCertSet_def Let_def case_prod_unfold)

lemma cliSecretSet_effect:
  "snd (cliSecretSet e cmd ev p s) = s \<or>
   (\<exists>f v r. p = f @ CHR 0x0A # r \<and> snd (cliSecretSet e cmd ev p s) = s\<lparr>sysSec := snd (secretSet (ceSec e) (Some f) v (sysSec s))\<rparr>)"
proof (cases "status (cliSplitFieldValue (Some p) (length p) '''' 48) = CliSplit_Ok")
  case True
  then obtain f v where "p = f @ CHR 0x0A # v" "fieldOut (cliSplitFieldValue (Some p) (length p) '''' 48) = f"
    unfolding cliSplitFieldValue_Ok_iff Let_def by blast
  then show ?thesis by (auto simp: cliSecretSet_def Let_def case_prod_unfold)
next
  case False
  then have "status (cliSplitFieldValue (Some p) (length p) '''' 48) \<in> {CliSplit_NoNewline, CliSplit_FieldTooLong}"
    by (cases "status (cliSplitFieldValue (Some p) (length p) '''' 48)") auto
  then show ?thesis by (auto simp: cliSecretSet_def Let_def)
qed

lemma cliShell_effect:
  "snd (cliShell e cmd ev s) = s \<or> (\<exists>n a. snd (execute (\<lambda>n a. fst (ceRun e n a s)) (ceCmds e) (ceDepth e) (Some (cliLine cmd ev))) = Some (n, a) \<and>
     length (cliLine cmd ev) < SHELL_LINE_MAX \<and> snd (cliShell e cmd ev s) = snd (snd (ceRun e n a s)))"
  by (auto simp: cliShell_def shellRun_def Let_def case_prod_unfold split: option.splits)

text \<open>An envelope that counts as no arguments leaves either no payload or its own text, which starts with a brace.\<close>

lemma one_member: "length m = Suc 0 \<Longrightarrow> map_of m k = Some v \<Longrightarrow> map_of m k' = Some v' \<Longrightarrow> k = k'"
  by (cases m) (auto split: if_splits)

lemma envelope_noArgs: "evNoArgs (cliEnvelope parse payload) \<Longrightarrow> evPayload (cliEnvelope parse payload) = Some p \<Longrightarrow> p \<noteq> [] \<Longrightarrow> hd p = CHR ''{''"
  by (auto simp: cliEnvelope_def Let_def split: option.splits if_splits prod.splits bool.splits json.splits dest: one_member)


lemma allowed_word:
  assumes "cliAuthzAllowed CLI_AUTH_PASSWORD (Some cmd) ap broken"
  shows "cmd \<noteq> []" "list_all (\<lambda>c. \<not> blank c) cmd"
proof -
  have "map toLower cmd \<in> set (''config.set'' # ''secret.set'' # ''cert.clear'' # pairingNames)" using password_allowed [OF assms] by auto
  then have "map toLower cmd \<noteq> []" "list_all (\<lambda>c. \<not> blank c) (map toLower cmd)"
    by (auto simp: pairingNames_def blank_def simp del: list.pred_map list.map_disc_iff)
  then show "cmd \<noteq> []" "list_all (\<lambda>c. \<not> blank c) cmd" using lower_no_blank by auto
qed

lemma cliLine_cases:
  obtains (bare) "cliLine cmd ev = cmd" | (args) p where "evPayload ev = Some p" "\<not> evNoArgs ev" "cliLine cmd ev = cmd @ '' '' @ p"
proof (cases "\<exists>p. evPayload ev = Some p \<and> p \<noteq> [] \<and> p \<noteq> ''{}'' \<and> \<not> evNoArgs ev")
  case True
  then obtain p where "evPayload ev = Some p" "p \<noteq> [] \<and> p \<noteq> ''{}'' \<and> \<not> evNoArgs ev" by blast
  then show ?thesis using args [of p] by (simp add: cliLine_def)
next
  case False
  then have "cliLine cmd ev = cmd" unfolding cliLine_def by (cases "evPayload ev") auto
  then show ?thesis by (rule bare)
qed

lemma config_argv:
  assumes "portPayload p ds" "cmd \<noteq> []" "list_all (\<lambda>c. \<not> blank c) cmd" "length (cmd @ '' '' @ p) < SHELL_LINE_MAX"
  shows "\<exists>w. snd (shellSplitLine (Some (cmd @ '' '' @ p)) SHELL_LINE_MAX SHELL_ARGS_MAX 2) = [cmd, ''mqtt.port'', ds @ w] \<and> list_all isSep w"
proof -
  obtain w1 w2 w3 where w: "p = w1 @ ''mqtt.port'' @ w2 @ ds @ w3" "list_all isBlank w1" "list_all isBlank w2" "w2 \<noteq> []" "digits ds" "list_all isSep w3"
    using assms(1) unfolding portPayload_def by blast
  have "list_all isSep (trimEnd w3)" using w(6) trimEnd_set [of w3] by (auto simp: list_all_iff)
  moreover have "shellSplitLine (Some (cmd @ '' '' @ p)) SHELL_LINE_MAX 16 2 = (ShellLine_Ok, [cmd, ''mqtt.port'', ds @ trimEnd w3])"
    using assms(4) by (intro port_argv [OF w(1-5) assms(2,3)]) simp
  ultimately show ?thesis by (auto simp: SHELL_ARGS_MAX_def)
qed

lemma secret_argv:
  assumes "secretPayloadOk p" "cmd \<noteq> []" "list_all (\<lambda>c. \<not> blank c) cmd" "length (cmd @ '' '' @ p) < SHELL_LINE_MAX"
    and "a = snd (shellSplitLine (Some (cmd @ '' '' @ p)) SHELL_LINE_MAX SHELL_ARGS_MAX 2)" "1 < length a"
  shows "a ! 1 \<noteq> claimField"
proof -
  let ?q = "dropWhile blank p"
  have "length cmd + length p + 1 < SHELL_LINE_MAX" using assms(4) by simp
  from split_rest2 [OF assms(2,3) this] have a: "a = cmd # (if ?q = [] then [] else takeWhile (\<lambda>c. \<not> blank c) ?q #
      (if dropWhile blank (dropWhile (\<lambda>c. \<not> blank c) ?q) = [] then [] else [trimEnd (dropWhile blank (dropWhile (\<lambda>c. \<not> blank c) ?q))]))"
    using assms(5) unfolding SHELL_ARGS_MAX_def Let_def by simp
  then have "?q \<noteq> []" using assms(6) by (cases "?q = []") (simp_all del: dropWhile_eq_Nil_conv)
  then have "a ! 1 = takeWhile (\<lambda>c. \<not> blank c) ?q" using a by (simp del: dropWhile_eq_Nil_conv)
  then show ?thesis using claim_cut [of p] assms(1) by auto
qed

lemma bare_argv:
  assumes "cmd \<noteq> []" "list_all (\<lambda>c. \<not> blank c) cmd" "length cmd < SHELL_LINE_MAX"
  shows "snd (shellSplitLine (Some cmd) SHELL_LINE_MAX SHELL_ARGS_MAX 2) = [cmd]"
proof -
  have "splitLoop 16 2 1 [] = (ShellLine_Ok, [])" by (simp add: splitLoop.simps)
  then show ?thesis using splitLoop_word [of cmd 0 16 2 "[]"] assms by (simp add: shellSplitLine_def shellFits_def SHELL_ARGS_MAX_def)
qed

lemma shell_password:
  assumes R: "\<forall>x \<in> set (ceCmds e). map toLower (cmdName x) \<in> {''config.set'', ''secret.set''} \<longrightarrow> cmdRestFrom x = 2"
    and al: "cliAuthzAllowed CLI_AUTH_PASSWORD (Some cmd) (authPayload ev) broken"
    and ex: "snd (execute f (ceCmds e) d (Some (cliLine cmd ev))) = Some (n, a)" and len: "length (cliLine cmd ev) < SHELL_LINE_MAX"
  shows "pwHandler broken n a"
proof -
  note cw = allowed_word [OF al]
  obtain x w where x: "x \<in> set (ceCmds e)" "n = cmdName x" "shellSplitLine (Some (cliLine cmd ev)) SHELL_LINE_MAX SHELL_ARGS_MAX 1 = (ShellLine_Ok, w)"
      "map toLower n = map toLower (hd w)" "shellSplitLine (Some (cliLine cmd ev)) SHELL_LINE_MAX SHELL_ARGS_MAX (cmdRestFrom x) = (ShellLine_Ok, a)"
    using execute_handler [OF ex] by blast
  obtain r where r: "cliLine cmd ev = cmd @ r" "r = [] \<or> blank (hd r)" by (rule cliLine_cases [of cmd ev]) (auto simp: blank_def)
  have n: "map toLower n = map toLower cmd" using split_first [OF cw r(2)] x(3,4) r(1) by (simp add: SHELL_ARGS_MAX_def)
  have two: "map toLower cmd \<in> {''config.set'', ''secret.set''} \<Longrightarrow> a = snd (shellSplitLine (Some (cliLine cmd ev)) SHELL_LINE_MAX SHELL_ARGS_MAX 2)"
    using R x n by (metis snd_conv)
  from password_allowed [OF al] consider (pair) "map toLower cmd \<in> set pairingNames \<or> map toLower cmd = ''cert.clear'' \<and> broken"
    | (port) p ds where "map toLower cmd = ''config.set''" "authPayload ev = Some p" "portPayload p ds"
    | (secret) "map toLower cmd = ''secret.set''" "\<forall>p. authPayload ev = Some p \<longrightarrow> secretPayloadOk p"
    by (elim disjE conjE exE) blast+
  then show ?thesis
  proof cases
    case pair
    then show ?thesis using n by (auto simp: pwHandler_def)
  next
    case port
    have "p \<noteq> []" "p \<noteq> ''{}''" using port(3) by (auto simp: portPayload_def Cons_eq_append_conv)
    then have "cliLine cmd ev = cmd @ '' '' @ p" using port(2) by (auto simp: cliLine_def authPayload_def split: if_splits)
    then obtain v where "a = [cmd, ''mqtt.port'', ds @ v]" "list_all isSep v" using config_argv [OF port(3) cw] two port(1) len by auto
    then show ?thesis using n port(1,3) by (auto simp: pwHandler_def portPayload_def)
  next
    case secret
    have "1 < length a \<Longrightarrow> a ! 1 \<noteq> claimField"
    proof (cases rule: cliLine_cases [of cmd ev])
      case bare
      then show "1 < length a \<Longrightarrow> a ! 1 \<noteq> claimField" using bare_argv [OF cw] two secret(1) len by simp
    next
      case (args p)
      then show "1 < length a \<Longrightarrow> a ! 1 \<noteq> claimField" using secret_argv [OF _ cw, of p a] two secret len by (simp add: authPayload_def)
    qed
    then show ?thesis using n secret(1) by (simp add: pwHandler_def)
  qed
qed


lemma not_pairing:
  assumes "cliAuthzAllowed CLI_AUTH_PASSWORD (Some cmd) ap broken"
  shows "cmd \<notin> {''fs.write'', ''file.write'', ''fs.append'', ''fs.cat''}"
proof
  assume "cmd \<in> {''fs.write'', ''file.write'', ''fs.append'', ''fs.cat''}"
  then have "map toLower cmd \<in> {''fs.write'', ''file.write'', ''fs.append'', ''fs.cat''}" by (auto simp: toLower_def isUpper_def)
  then show False using password_allowed [OF assms] by (auto simp: pairingNames_def)
qed

lemma secret_password:
  assumes "cliAuthzAllowed CLI_AUTH_PASSWORD (Some ''secret.set'') (authPayload ev) broken" "evPayload ev = Some (f @ CHR 0x0A # r)"
    and "ev = cliEnvelope parse payload"
  shows "f \<noteq> claimField"
proof (cases "evNoArgs ev")
  case True
  then have "hd (f @ CHR 0x0A # r) = CHR ''{''" using envelope_noArgs assms(2,3) by blast
  then show ?thesis by (auto simp: claimField_def)
next
  case False
  have "map toLower ''secret.set'' = ''secret.set''" by code_simp
  then have "secretPayloadOk (f @ CHR 0x0A # r)" using password_allowed [OF assms(1)] assms(2) False
    by (auto simp: authPayload_def pairingNames_def)
  then show ?thesis using claim_newline by blast
qed

text \<open>C10: What a password session can do, through the whole command path. Whatever the topic and payload it sends, the device is either
  unchanged, or its stored certificate or key was set, or one secret other than the claim code was, or one shell handler
  ran: a pairing command, clearing a certificate that is broken anyway, \<open>config.set\<close> of the broker port with a
  port's digits, or \<open>secret.set\<close> of something else than the claim code. No file is written or read by it.\<close>

theorem password_session_contained:
  assumes "\<forall>x \<in> set (ceCmds e). map toLower (cmdName x) \<in> {''config.set'', ''secret.set''} \<longrightarrow> cmdRestFrom x = 2"
    and "s' = snd (runCli e CLI_AUTH_PASSWORD cmd payload s)"
  shows "s' = s \<or> (\<exists>c k. s' = s\<lparr>sysCert := snd (storeClientCert (ceCert e) c k (sysCert s))\<rparr>) \<or>
    (\<exists>f v. f \<noteq> claimField \<and> s' = s\<lparr>sysSec := snd (secretSet (ceSec e) (Some f) v (sysSec s))\<rparr>) \<or>
    (\<exists>name argv. pwHandler (storedCertBroken (sysCert s)) name argv \<and> s' = snd (snd (ceRun e name argv s)))"
proof (cases "cmd \<noteq> [] \<and> cliAuthzAllowed CLI_AUTH_PASSWORD (Some cmd) (authPayload (cliEnvelope (ceParse e) payload)) (storedCertBroken (sysCert s))")
  case False
  then show ?thesis using assms(2) by (auto simp: runCli_def Let_def)
next
  case True
  define ev where "ev = cliEnvelope (ceParse e) payload"
  have al: "cliAuthzAllowed CLI_AUTH_PASSWORD (Some cmd) (authPayload ev) (storedCertBroken (sysCert s))" using True by (simp add: ev_def)
  have s': "s' = snd (cliDispatch e cmd ev s)" using True assms(2) by (simp add: runCli_def Let_def ev_def)
  have nf: "cmd \<noteq> ''fs.write''" "cmd \<noteq> ''file.write''" "cmd \<noteq> ''fs.append''" "cmd \<noteq> ''fs.cat''" using not_pairing [OF al] by simp_all
  consider (shell) "s' = snd (cliShell e cmd ev s)" | (cert) p where "s' = snd (cliCertSet e cmd ev p s)"
    | (sec) p where "cmd = ''secret.set''" "evPayload ev = Some p" "s' = snd (cliSecretSet e cmd ev p s)"
    using s' nf by (cases "evPayload ev") (auto simp: cliDispatch_def split: if_splits)
  then show ?thesis
  proof cases
    case shell
    then show ?thesis using cliShell_effect [of e cmd ev s] shell_password [OF assms(1) al] by blast
  next
    case cert
    then show ?thesis using cliCertSet_effect [of e cmd ev p s] by blast
  next
    case sec
    then show ?thesis using cliSecretSet_effect [of e cmd ev p s] secret_password [OF _ _ ev_def] al by blast
  qed
qed


text \<open>Handlers that record their name: no payload makes a password session reformat the file system.\<close>

definition sampleEnv :: "string cliEnv" where
  "sampleEnv = \<lparr>ceParse = (\<lambda>t. (False, JNull)), ceMeas = (\<lambda>r. case rpBody r of BodyRange t f n d x \<Rightarrow> 50 + cliJsonStrLen x | _ \<Rightarrow> 60), ceTopic = True,
     ceHeap = True, ceAlloc = True, ceBufOut = 300, ceBufIn = 300, ceCert = \<lparr>cOpen = True, cCertOk = True, cKeyOk = True, cHeap = True\<rparr>, ceSec = secOk,
     ceCmds = shellBuiltins, ceDepth = 0, ceRun = (\<lambda>n a s. (False, [], s\<lparr>sysRest := n\<rparr>))\<rparr>"

definition sampleSys :: "string cliSys" where
  "sampleSys = \<lparr>sysVol = \<lparr>mounts = [], disks = \<lambda>f. \<lparr>files = [''/a'' \<mapsto> ''one two three''], faults = []\<rparr>\<rparr>,
     sysCert = \<lparr>nvCert = None, nvKey = None, storedCertBroken = False, certRebootPending = False, certRebootAtMs = 0\<rparr>, sysSec = None, sysRest = ''''\<rparr>"

theorem password_session_contained_witness:
  "map toLower (sysRest (snd (runCli sampleEnv CLI_AUTH_PASSWORD ''fs.format'' (Some ''--yes'') sampleSys))) \<noteq> ''fs.format''"
proof -
  define s' where "s' = snd (runCli sampleEnv CLI_AUTH_PASSWORD ''fs.format'' (Some ''--yes'') sampleSys)"
  have R: "\<forall>x \<in> set (ceCmds sampleEnv). map toLower (cmdName x) \<in> {''config.set'', ''secret.set''} \<longrightarrow> cmdRestFrom x = 2" by code_simp
  have run: "ceRun sampleEnv = (\<lambda>n a s. (False, [], s\<lparr>sysRest := n\<rparr>))" "sysRest sampleSys = ''''" by (simp_all add: sampleEnv_def sampleSys_def)
  have "\<not> pwHandler b n a" if "map toLower n = ''fs.format''" for b n a using that by (simp add: pwHandler_def pairingNames_def Let_def)
  then show ?thesis using password_session_contained [OF R s'_def] run unfolding s'_def [symmetric] by auto
qed

end
