(* ===== verification/Cli_Cat.thy ===== *)
theory Cli_Cat
  imports Cli_Run
begin

text \<open>
  A file read through \<open>runCli\<close> in ranges: each reply carries as many bytes as fit the client's buffer and says where the
  next one starts. Asking from there until a reply says it is the last gives the whole file.
\<close>

section \<open>Reading a file by ranges\<close>

text \<open>A client that asks for range after range from where the last one ended.\<close>

fun catAll :: "'m cliEnv \<Rightarrow> string \<Rightarrow> nat \<Rightarrow> nat \<Rightarrow> 'm cliSys \<Rightarrow> string option" where
  "catAll e path 0 off s = None"
| "catAll e path (Suc n) off s =
     (case runCli e CLI_AUTH_MTLS ''fs.cat'' (Some (path @ '' '' @ dec off @ '' 0'')) s of
        ([r], s1) \<Rightarrow> (case rpBody r of BodyRange tot f len dn x \<Rightarrow> if dn then Some x else map_option ((@) x) (catAll e path n (off + len) s1) | _ \<Rightarrow> None)
      | _ \<Rightarrow> None)"

lemma atol_dec: "n < 2 ^ 31 \<Longrightarrow> atolSize (dec n) = n"
proof -
  assume n: "n < 2 ^ 31"
  obtain x xs where d: "dec n = x # xs" "isDigit x" "list_all isDigit (dec n)" using dec_digits [of n] by (cases "dec n") (auto simp: digits_def)
  have x: "\<not> isSpace x" "x \<noteq> CHR ''-''" "x \<noteq> CHR ''+''" using d(2) not_space by (auto simp: isDigit_def)
  have s: "cSign (dropWhile isSpace (dec n)) = (False, dec n)" using d(1) x by (simp add: cSign_def)
  have t: "takeWhile isDigit (dec n) = dec n" using d(3) by (simp add: takeWhile_eq_all_conv list_all_iff)
  have "min (2 ^ 31 - 1) (int n) = int n" using n by simp
  then have "atolSize (dec n) = unat (of_int (int n) :: u32)" unfolding atolSize_def Let_def s by (simp add: t decVal_dec)
  then show ?thesis using n by (simp add: unat_of_nat take_bit_nat_eq_self)
qed

lemma cat_request:
  assumes "CHR '' '' \<notin> set path" "path \<noteq> []" "off < 2 ^ 31"
  shows "catRange (path @ '' '' @ dec off @ '' 0'') = Some (path, off, 0)"
proof -
  have d: "CHR '' '' \<notin> set (dec off)" "dec off \<noteq> []" using dec_digits [of off] by (auto simp: digits_def list_all_iff isDigit_def)
  have "strtokAll (CHR '' '') (path @ CHR '' '' # (dec off @ CHR '' '' # ''0'')) = [path, dec off, ''0'']"
    using assms(1,2) d by (simp add: strtokAll_def splitOn_append splitOn_word)
  moreover have "atolSize ''0'' = 0" by (simp add: atolSize_def isSpace_def cSign_def isDigit_def digitVal_def)
  ultimately show ?thesis using atol_dec [OF assms(3)] by (simp add: catRange_def)
qed


definition rangeAnswer :: "nat \<Rightarrow> nat \<Rightarrow> nat \<Rightarrow> bool \<Rightarrow> string \<Rightarrow> cliReply" where
  "rangeAnswer t f n d x = \<lparr>rpCmd = ''fs.cat'', rpReq = None, rpOk = True, rpBody = BodyRange t f n d x\<rparr>"

text \<open>The surroundings of a transfer: buffers allocate, a reply's size grows with its data's escaped length and not by a smaller count or
  the flag, and its frame leaves ten bytes under the cap.\<close>

definition transferOk :: "'m cliEnv \<Rightarrow> nat \<Rightarrow> bool" where
  "transferOk e total' \<longleftrightarrow> ceTopic e \<and> ceHeap e \<and> ceAlloc e \<and>
     (\<forall>f k n d x. n \<le> k \<longrightarrow> ceMeas e (rangeAnswer total' f n d x) \<le> ceMeas e (rangeAnswer total' f k False '''') + cliJsonStrLen x) \<and>
     (\<forall>f k. f \<le> total' \<longrightarrow> k \<le> total' \<longrightarrow> ceMeas e (rangeAnswer total' f k False '''') + 10 \<le> replyCap e)"

text \<open>The file is there, under a path the transfer can name, and no operation on its volume fails.\<close>

definition fileAt :: "volumes \<Rightarrow> string \<Rightarrow> string \<Rightarrow> bool" where
  "fileAt v path body \<longleftrightarrow> pathSafePolicy (Some path) \<and> CHR '' '' \<notin> set path \<and> length path \<le> 200 \<and> length body < 2 ^ 31 \<and>
     faults (disks v (resolveFS v path)) = [] \<and> files (disks v (resolveFS v path)) (stripPrefix v path) = Some body"

lemma cliJsonFit_le: "cliJsonFit s b \<le> length s"
  using utf8Loop_le [of s "fitLoop s 0 b"] fitLoop_le [of s 0 b] by (auto simp: cliJsonFit_def cliUtf8Cut_def Let_def intro: le_trans)

lemma take_within: "n \<le> length (take k l) \<Longrightarrow> take n (take k l) = take n l"
  by (simp add: min.absorb1)

lemma rangeReply_inside:
  assumes "off < length body" "ceAlloc e" "evReq ev = None" "got = take (min (chunkLen e 0) (length body - off)) (drop off body)"
    and "env = ceMeas e (rangeAnswer (length body) off (length got) False '''')" "n = cliJsonFit got (if env + 1 < replyCap e then replyCap e - env - 1 else 0)" "n \<noteq> 0"
  shows "rangeReply e ''fs.cat'' ev NoFault body off 0 = rangeAnswer (length body) off n (length body \<le> off + n) (take n got)"
  using assms(1,2,7)
  unfolding rangeReply_def Let_def fault.case assms(3) assms(4) [symmetric] rangeAnswer_def [symmetric] assms(5) [symmetric] assms(6) [symmetric] by simp

text \<open>One request, at an offset inside the file: the bytes from there, at least one, and the reply is let out.\<close>

lemma range_inside:
  assumes "transferOk e (length body)" "off < length body" "evReq ev = None"
  shows "\<exists>n > 0. off + n \<le> length body \<and>
    rangeReply e ''fs.cat'' ev NoFault body off 0 = rangeAnswer (length body) off n (length body \<le> off + n) (take n (drop off body)) \<and>
    ceMeas e (rangeAnswer (length body) off n (length body \<le> off + n) (take n (drop off body))) < replyCap e"
proof -
  define got where "got = take (min (chunkLen e 0) (length body - off)) (drop off body)"
  define env where "env = ceMeas e (rangeAnswer (length body) off (length got) False '''')"
  define n where "n = cliJsonFit got (replyCap e - env - 1)"
  have "0 < chunkLen e 0" by (simp add: chunkLen_def Let_def)
  then have ne: "got \<noteq> []" using assms(2) by (simp add: got_def)
  have len: "length got \<le> length body - off" by (simp add: got_def)
  have cap: "env + 10 \<le> replyCap e" using assms(1,2) len unfolding transferOk_def env_def by (metis diff_le_self le_trans less_imp_le)
  then have pos: "0 < n" using ne unfolding n_def by (intro cliJsonFit_pos_any) auto
  have le: "n \<le> length got" unfolding n_def by (rule cliJsonFit_le)
  have x: "take n got = take n (drop off body)" using le unfolding got_def by (rule take_within)
  have "ceMeas e (rangeAnswer (length body) off n (length body \<le> off + n) (take n got)) \<le> env + cliJsonStrLen (take n got)"
    using assms(1) le unfolding transferOk_def env_def by blast
  also have "\<dots> \<le> env + (replyCap e - env - 1)" using cliJsonFit_cost [of got "replyCap e - env - 1"] unfolding n_def by simp
  also have "\<dots> < replyCap e" using cap by linarith
  finally have m: "ceMeas e (rangeAnswer (length body) off n (length body \<le> off + n) (take n got)) < replyCap e" .
  have "n = cliJsonFit got (if env + 1 < replyCap e then replyCap e - env - 1 else 0)" using cap by (simp add: n_def)
  then have "rangeReply e ''fs.cat'' ev NoFault body off 0 = rangeAnswer (length body) off n (length body \<le> off + n) (take n got)"
    using rangeReply_inside [OF assms(2) _ assms(3) got_def env_def] assms(1) pos unfolding transferOk_def by blast
  then show ?thesis using pos le len m x assms(2) by (intro exI [of _ n]) auto
qed

lemma cat_step:
  assumes "fileAt (sysVol s) path body" "transferOk e (length body)" "off \<le> length body"
  shows "\<exists>n d x. runCli e CLI_AUTH_MTLS ''fs.cat'' (Some (path @ '' '' @ dec off @ '' 0'')) s = ([rangeAnswer (length body) off n d x], s) \<and>
    drop off body = x @ drop (off + n) body \<and> off + n \<le> length body \<and> (d \<longleftrightarrow> off + n = length body) \<and> (0 < n \<or> d)"
proof -
  let ?req = "path @ '' '' @ dec off @ '' 0''" let ?ev = "\<lparr>evReq = None, evPayload = Some ?req, evNoArgs = False\<rparr>"
  have p: "path \<noteq> []" "hd path = CHR ''/''" "pathSafePolicy (Some path)" using assms(1) by (auto simp: fileAt_def pathSafePolicy_def split: if_splits)
  have o31: "off < 2 ^ 31" "off < 10 ^ 10" using assms(1,3) by (auto simp: fileAt_def)
  have short: "length ?req < 256" using dec_length [OF o31(2)] assms(1) by (simp add: fileAt_def)
  have ev: "cliEnvelope (ceParse e) (Some ?req) = ?ev" using p(1,2) by (simp add: cliEnvelope_def Let_def)
  have cr: "catRange ?req = Some (path, off, 0)" using cat_request [OF _ p(1) o31(1)] assms(1) by (simp add: fileAt_def)
  have al: "cliAuthzAllowed CLI_AUTH_MTLS (Some ''fs.cat'') q b" for q b by (simp add: cliAuthzAllowed_def Let_def cliAuthzCmdEq_iff toLower_def isUpper_def)
  let ?v = "sysVol s" let ?f = "resolveFS ?v path"
  have "openRead (stripPrefix ?v path) (disks ?v ?f) = (Some body, disks ?v ?f)" "nextFault (disks ?v ?f) = (NoFault, disks ?v ?f)"
    using assms(1) by (simp_all add: fileAt_def openRead_def nextFault_def)
  then have "cliFsCat e ''fs.cat'' ?ev path off 0 s = (publishCliResponse e (rangeReply e ''fs.cat'' ?ev NoFault body off 0), s)"
    using p(3) by (simp add: cliFsCat_def putDisk_def Let_def)
  then have run: "runCli e CLI_AUTH_MTLS ''fs.cat'' (Some ?req) s = (publishCliResponse e (rangeReply e ''fs.cat'' ?ev NoFault body off 0), s)"
    using ev al short cr p(1) unfolding runCli_def cliDispatch_def Let_def by simp
  have pub: "publishCliResponse e r = [r]" if "ceMeas e r < replyCap e" for r using that assms(2) by (simp add: publishCliResponse_def transferOk_def)
  show ?thesis
  proof (cases "off < length body")
    case True
    then obtain n where n: "0 < n" "off + n \<le> length body"
        "rangeReply e ''fs.cat'' ?ev NoFault body off 0 = rangeAnswer (length body) off n (length body \<le> off + n) (take n (drop off body))"
        "ceMeas e (rangeAnswer (length body) off n (length body \<le> off + n) (take n (drop off body))) < replyCap e"
      using range_inside [OF assms(2) True, of ?ev] by auto
    have "drop off body = take n (drop off body) @ drop (off + n) body" by (metis add.commute append_take_drop_id drop_drop)
    then show ?thesis using run n pub [OF n(4)] by (intro exI [of _ n] exI [of _ "length body \<le> off + n"] exI [of _ "take n (drop off body)"]) auto
  next
    case False
    then have o: "off = length body" using assms(3) by simp
    have r: "rangeReply e ''fs.cat'' ?ev NoFault body off 0 = rangeAnswer (length body) off 0 True ''''" using o by (simp add: rangeReply_def rangeAnswer_def Let_def)
    have "ceMeas e (rangeAnswer (length body) off 0 True '''') \<le> ceMeas e (rangeAnswer (length body) off 0 False '''') + cliJsonStrLen ''''"
      using assms(2) unfolding transferOk_def by blast
    moreover have "ceMeas e (rangeAnswer (length body) off 0 False '''') + 10 \<le> replyCap e" using assms(2,3) unfolding transferOk_def by blast
    ultimately have "ceMeas e (rangeAnswer (length body) off 0 True '''') < replyCap e" by (simp add: cliJsonStrLen_def)
    then show ?thesis using run r pub o by (intro exI [of _ 0] exI [of _ True] exI [of _ "''''"]) simp
  qed
qed

lemma catAll_from:
  assumes "fileAt (sysVol s) path body" "transferOk e (length body)" "off \<le> length body" "length body - off < fuel"
  shows "catAll e path fuel off s = Some (drop off body)"
  using assms(3,4)
proof (induction fuel arbitrary: off)
  case (Suc fuel)
  obtain n d x where st: "runCli e CLI_AUTH_MTLS ''fs.cat'' (Some (path @ '' '' @ dec off @ '' 0'')) s = ([rangeAnswer (length body) off n d x], s)"
      "drop off body = x @ drop (off + n) body" "off + n \<le> length body" "d \<longleftrightarrow> off + n = length body" "0 < n \<or> d"
    using cat_step [OF assms(1,2) Suc.prems(1)] by blast
  show ?case
  proof (cases d)
    case True
    then show ?thesis using st by (simp add: rangeAnswer_def)
  next
    case False
    then have "catAll e path fuel (off + n) s = Some (drop (off + n) body)" using Suc.IH [of "off + n"] Suc.prems st by simp
    then show ?thesis using st False by (simp add: rangeAnswer_def)
  qed
qed simp

text \<open>C16: A file survives being read by ranges. Asking from where the last reply ended, a client gets the whole file and exactly its
  bytes, whatever they are, after at most one request per byte and one more: no reply is empty before the last, and each fits
  the buffer.\<close>

theorem fs_cat_reassembles:
  assumes "fileAt (sysVol s) path body" "transferOk e (length body)"
  shows "catAll e path (length body + 1) 0 s = Some body"
  using catAll_from [OF assms, of 0 "length body + 1"] by simp

theorem fs_cat_reassembles_witness: "catAll sampleEnv ''/a'' 14 0 sampleSys = Some ''one two three''"
proof -
  have f: "fileAt (sysVol sampleSys) ''/a'' ''one two three''"
    by (simp add: fileAt_def sampleSys_def resolveFS_def stripPrefix_def pathSafePolicy_def)
  have t: "transferOk sampleEnv (length ''one two three'')"
    by (simp add: transferOk_def sampleEnv_def rangeAnswer_def replyCap_def cliReplyCap_def CLI_TOPIC_CAP_def CLI_MQTT_FIXED_HEADER_def cliJsonStrLen_def)
  have "length ''one two three'' + 1 = 14" by simp
  then show ?thesis using fs_cat_reassembles [OF f t] by metis
qed

end
