(* ===== verification/Sd_Log.thy ===== *)
theory Sd_Log
  imports Shell_Fs
begin

text \<open>
  The card logger: \<open>sd_log_policy.h\<close> and \<open>SDModule.cpp\<close>. One listing of the card's root marks which of the names
  \<open>log001.csv\<close> to \<open>log999.csv\<close> are taken; on boot the highest is resumed, a full one is followed by the lowest free slot.

  FAT compares names without case: files are kept under their lower-case names. Mounting, pins and the text of a
  timestamp are inputs.
\<close>

unbundle bit_operations_syntax

section \<open>Definitions\<close>

subsection \<open>The slot map\<close>

definition SD_LOG_MAX_INDEX :: nat where "SD_LOG_MAX_INDEX = 999"

record SdLogSlots =
  slUsed :: "u8 list"
  slFile :: "u8 list"

definition or20 :: "char \<Rightarrow> char" where
  "or20 c = char_of (unat ((of_char c :: u8) OR 0x20))"

definition sdBaseName :: "string \<Rightarrow> string" where
  "sdBaseName name = (case c_strrchr name (CHR ''/'') of None \<Rightarrow> name | Some i \<Rightarrow> drop (Suc i) name)"

definition sdLogIndex :: "cstr \<Rightarrow> nat" where
  "sdLogIndex name =
     (case name of None \<Rightarrow> 0
      | Some n \<Rightarrow>
          (let b = sdBaseName n
           in if length b \<noteq> 10 then 0
              else if map or20 (take 3 b) \<noteq> ''log'' then 0
              else if b ! 6 \<noteq> CHR ''.'' \<or> map or20 (drop 7 b) \<noteq> ''csv'' then 0
              else if \<not> list_all isDigit (take 3 (drop 3 b)) then 0 else decVal 0 (take 3 (drop 3 b))))"

definition slotBit :: "u8 list \<Rightarrow> nat \<Rightarrow> bool" where
  "slotBit l i \<longleftrightarrow> l ! (i div 8) AND push_bit (i mod 8) 1 \<noteq> 0"

definition slotMark :: "u8 list \<Rightarrow> nat \<Rightarrow> u8 list" where
  "slotMark l i = l[i div 8 := l ! (i div 8) OR push_bit (i mod 8) 1]"

definition sdLogSlotsClear :: SdLogSlots where
  "sdLogSlotsClear = \<lparr>slUsed = replicate 125 0, slFile = replicate 125 0\<rparr>"

definition sdLogSlotsHas :: "SdLogSlots \<Rightarrow> nat \<Rightarrow> bool" where
  "sdLogSlotsHas s i \<longleftrightarrow> 1 \<le> i \<and> i \<le> SD_LOG_MAX_INDEX \<and> slotBit (slUsed s) i"

definition sdLogSlotsAdd :: "string \<Rightarrow> bool \<Rightarrow> SdLogSlots \<Rightarrow> SdLogSlots" where
  "sdLogSlotsAdd name isDir s =
     (let i = sdLogIndex (Some name)
      in if i = 0 then s
         else s\<lparr>slUsed := slotMark (slUsed s) i, slFile := (if isDir then slFile s else slotMark (slFile s) i)\<rparr>)"

fun highestFrom :: "SdLogSlots \<Rightarrow> nat \<Rightarrow> nat" where
  "highestFrom s 0 = 0"
| "highestFrom s (Suc i) = (if slotBit (slFile s) (Suc i) then Suc i else highestFrom s i)"

definition sdLogSlotsHighest :: "SdLogSlots \<Rightarrow> nat" where
  "sdLogSlotsHighest s = highestFrom s SD_LOG_MAX_INDEX"

definition sdLogSlotsNextFree :: "SdLogSlots \<Rightarrow> nat \<Rightarrow> nat" where
  "sdLogSlotsNextFree s frm = (case find (\<lambda>i. \<not> sdLogSlotsHas s i) [max 1 frm ..< SD_LOG_MAX_INDEX + 1] of None \<Rightarrow> 0 | Some i \<Rightarrow> i)"

subsection \<open>The logger\<close>

record sdState =
  sdMounted :: bool
  sdLogPath :: string
  sdLogBytes :: u32
  sdMaxBytes :: u32
  sdDisk :: disk

text \<open>The root listing is the card driver's: names in any spelling, and whether each is a directory; None where the root
  does not open.\<close>

type_synonym listing = "(string \<times> bool) list option"
type_synonym lister = "(string \<Rightarrow> string option) \<Rightarrow> listing"

definition scanLogs :: "listing \<Rightarrow> SdLogSlots option" where
  "scanLogs ls = map_option (\<lambda>es. fold (\<lambda>(n, d). sdLogSlotsAdd n d) es sdLogSlotsClear) ls"

definition pad3 :: "nat \<Rightarrow> string" where
  "pad3 i = replicate (3 - length (dec i)) (CHR ''0'') @ dec i"

definition logName :: "nat \<Rightarrow> string" where
  "logName i = ''/log'' @ pad3 i @ ''.csv''"

definition HEADER :: string where "HEADER = ''timestamp,sensor,data'' @ [CHR 0x0A]"

lemma sdLogSlotsNextFree_range:
  assumes "sdLogSlotsNextFree s frm = i" "i \<noteq> 0"
  shows "max 1 frm \<le> i \<and> i \<le> SD_LOG_MAX_INDEX \<and> \<not> sdLogSlotsHas s i"
proof -
  define xs where "xs = [max 1 frm ..< SD_LOG_MAX_INDEX + 1]"
  have "find (\<lambda>i. \<not> sdLogSlotsHas s i) xs = Some i" using assms unfolding sdLogSlotsNextFree_def xs_def [symmetric] by (simp split: option.splits)
  then have "i \<in> set xs \<and> \<not> sdLogSlotsHas s i" by (metis find_Some_iff nth_mem)
  then show ?thesis by (simp add: xs_def del: upt_Suc)
qed

function openFrom :: "SdLogSlots \<Rightarrow> nat \<Rightarrow> sdState \<Rightarrow> bool \<times> sdState" where
  "openFrom slots frm st =
     (let i = sdLogSlotsNextFree slots frm
      in if i = 0 then (False, st)
         else let (ex, d1) = fsExists (logName i) (sdDisk st)
              in if ex then openFrom slots (i + 1) (st\<lparr>sdDisk := d1\<rparr>)
                 else let (w, d2) = fsWrite (logName i) HEADER d1
                      in case w of None \<Rightarrow> (False, st\<lparr>sdDisk := d2\<rparr>)
                         | Some n \<Rightarrow> (True, st\<lparr>sdDisk := d2, sdLogPath := logName i, sdLogBytes := of_nat (length HEADER)\<rparr>))"
  by pat_completeness auto
termination
proof (relation "measure (\<lambda>(s, f, st). Suc SD_LOG_MAX_INDEX - f)", goal_cases)
  case (2 slots frm st i p ex d1)
  then show ?case using sdLogSlotsNextFree_range [of slots frm i] by auto
qed simp

declare openFrom.simps [simp del]

definition openNextLog :: "SdLogSlots \<Rightarrow> sdState \<Rightarrow> bool \<times> sdState" where
  "openNextLog slots st = openFrom slots 1 st"

definition resumeOrOpen :: "lister \<Rightarrow> sdState \<Rightarrow> bool \<times> sdState" where
  "resumeOrOpen ls st =
     (case scanLogs (ls (files (sdDisk st))) of None \<Rightarrow> (False, st)
      | Some slots \<Rightarrow>
          (let hi = sdLogSlotsHighest slots
           in if hi = 0 then openNextLog slots st
              else let (s, d1) = openRead (logName hi) (sdDisk st); st1 = st\<lparr>sdDisk := d1\<rparr>
                   in case s of None \<Rightarrow> openNextLog slots st1
                      | Some t \<Rightarrow>
                          (let sz = of_nat (length t) :: u32
                           in if sdMaxBytes st1 = 0 \<or> sz < sdMaxBytes st1 then (True, st1\<lparr>sdLogPath := logName hi, sdLogBytes := sz\<rparr>)
                              else openNextLog slots st1)))"

definition rotateLog :: "lister \<Rightarrow> sdState \<Rightarrow> sdState" where
  "rotateLog ls st =
     (case scanLogs (ls (files (sdDisk st))) of None \<Rightarrow> st\<lparr>sdMaxBytes := 0\<rparr>
      | Some slots \<Rightarrow> (let (ok, st1) = openNextLog slots st in if ok then st1 else st1\<lparr>sdMaxBytes := 0\<rparr>))"

text \<open>\<open>begin\<close>: the card mounts or not, \<open>maxKb\<close> is \<open>sd.max_file_kb\<close>.\<close>

definition sdBegin :: "bool \<Rightarrow> u32 \<Rightarrow> lister \<Rightarrow> sdState \<Rightarrow> sdState" where
  "sdBegin mounts' maxKb ls st =
     (let st1 = st\<lparr>sdMaxBytes := (if maxKb > 0 then maxKb * 1024 else 0)\<rparr>
      in if \<not> mounts' then st1 else snd (resumeOrOpen ls (st1\<lparr>sdMounted := True\<rparr>)))"

definition sdRow :: "string \<Rightarrow> string \<Rightarrow> string \<Rightarrow> string" where
  "sdRow ts sensor json = ts @ '','' @ sensor @ '','' @ json @ [CHR 0x0A]"

definition logEvent :: "lister \<Rightarrow> string \<Rightarrow> string \<Rightarrow> string \<Rightarrow> sdState \<Rightarrow> sdState" where
  "logEvent ls ts sensor json st =
     (if \<not> sdMounted st \<or> sdLogPath st = [] then st
      else let rowSize = of_nat (length (sdRow ts sensor json)) :: u32;
               st1 = (if 0 < sdMaxBytes st \<and> sdMaxBytes st < sdLogBytes st + rowSize then rotateLog ls st else st)
           in if sdLogPath st1 = [] then st1
              else let (w, d) = fsAppend (sdLogPath st1) (sdRow ts sensor json) (sdDisk st1)
                   in case w of None \<Rightarrow> st1\<lparr>sdDisk := d\<rparr> | Some n \<Rightarrow> st1\<lparr>sdDisk := d, sdLogBytes := sdLogBytes st1 + rowSize\<rparr>)"


text \<open>What happens to the logger: a boot, or a sensor event. Each comes with the listings the card driver would give.\<close>

datatype sdEvent = Boot bool u32 lister | Row lister string string string

fun sdStep :: "sdEvent \<Rightarrow> sdState \<Rightarrow> sdState" where
  "sdStep (Boot m kb ls) st = sdBegin m kb ls st"
| "sdStep (Row ls ts sensor json) st = logEvent ls ts sensor json st"

definition sdRun :: "sdEvent list \<Rightarrow> sdState \<Rightarrow> sdState" where
  "sdRun evs st = fold sdStep evs st"

text \<open>A listing is complete where every existing log file appears in it under some spelling of its name.\<close>

definition complete :: "lister \<Rightarrow> bool" where
  "complete ls \<longleftrightarrow> (\<forall>fs es i. ls fs = Some es \<longrightarrow> fs (logName i) \<noteq> None \<longrightarrow> 1 \<le> i \<longrightarrow> i \<le> SD_LOG_MAX_INDEX \<longrightarrow>
     i \<in> (\<lambda>(n, d). sdLogIndex (Some n)) ` set es)"

fun eventLister :: "sdEvent \<Rightarrow> lister" where
  "eventLister (Boot m kb ls) = ls"
| "eventLister (Row ls ts sensor json) = ls"

section \<open>The slot map as a set\<close>

definition wfSlots :: "SdLogSlots \<Rightarrow> bool" where
  "wfSlots s \<longleftrightarrow> length (slUsed s) = 125 \<and> length (slFile s) = 125"

lemma slotBit_bit: "slotBit l i \<longleftrightarrow> bit (l ! (i div 8)) (i mod 8)"
proof -
  have k: "i mod 8 < LENGTH(8)" by simp
  have "l ! (i div 8) AND push_bit (i mod 8) 1 \<noteq> 0 \<longleftrightarrow> (\<exists>n. bit (l ! (i div 8)) n \<and> i mod 8 = n)"
    using k bit_eq_iff [of "l ! (i div 8) AND push_bit (i mod 8) 1" 0] unfolding push_bit_of_1 by (simp add: bit_and_iff bit_exp_iff)
  then show ?thesis by (simp add: slotBit_def)
qed

lemma slotMark_length [simp]: "length (slotMark l i) = length l"
  by (simp add: slotMark_def)

lemma slotBit_mark:
  assumes "i div 8 < length l"
  shows "slotBit (slotMark l i) j \<longleftrightarrow> j = i \<or> slotBit l j"
proof -
  have "j = i \<longleftrightarrow> j div 8 = i div 8 \<and> j mod 8 = i mod 8" by (metis div_mult_mod_eq)
  moreover have "i mod 8 < 8" by simp
  ultimately show ?thesis using assms
    by (cases "j div 8 = i div 8") (auto simp: slotBit_bit slotMark_def bit_or_iff bit_exp_iff)
qed

lemma slotBit_zero: "i \<le> SD_LOG_MAX_INDEX \<Longrightarrow> \<not> slotBit (replicate 125 0) i"
  by (simp add: slotBit_def SD_LOG_MAX_INDEX_def)

lemma sdLogIndex_range: "sdLogIndex n \<le> SD_LOG_MAX_INDEX"
proof -
  have "decVal 0 (take 3 (drop 3 b)) \<le> SD_LOG_MAX_INDEX" if "length b = 10" "list_all isDigit (take 3 (drop 3 b))" for b
    using decVal_bound [OF that(2), of 0] that(1) by (simp add: SD_LOG_MAX_INDEX_def)
  then show ?thesis by (simp add: sdLogIndex_def Let_def split: option.splits)
qed

definition listed :: "(string \<times> bool) list \<Rightarrow> nat set" where
  "listed es = (\<lambda>(n, d). sdLogIndex (Some n)) ` set es - {0}"

definition resumable :: "(string \<times> bool) list \<Rightarrow> nat set" where
  "resumable es = (\<lambda>(n, d). sdLogIndex (Some n)) ` {e \<in> set es. \<not> snd e} - {0}"

lemma add_wf: "wfSlots s \<Longrightarrow> wfSlots (sdLogSlotsAdd n d s)"
  by (simp add: wfSlots_def sdLogSlotsAdd_def Let_def)

lemma add_bits:
  assumes "wfSlots s"
  shows "slotBit (slUsed (sdLogSlotsAdd n d s)) j \<longleftrightarrow> (sdLogIndex (Some n) = j \<and> j \<noteq> 0) \<or> slotBit (slUsed s) j"
    "slotBit (slFile (sdLogSlotsAdd n d s)) j \<longleftrightarrow> (sdLogIndex (Some n) = j \<and> j \<noteq> 0 \<and> \<not> d) \<or> slotBit (slFile s) j"
proof -
  have "sdLogIndex (Some n) div 8 < 125" using sdLogIndex_range [of "Some n"] by (simp add: SD_LOG_MAX_INDEX_def)
  then show "slotBit (slUsed (sdLogSlotsAdd n d s)) j \<longleftrightarrow> (sdLogIndex (Some n) = j \<and> j \<noteq> 0) \<or> slotBit (slUsed s) j"
    "slotBit (slFile (sdLogSlotsAdd n d s)) j \<longleftrightarrow> (sdLogIndex (Some n) = j \<and> j \<noteq> 0 \<and> \<not> d) \<or> slotBit (slFile s) j"
    using assms slotBit_mark [of "sdLogIndex (Some n)" _ j] by (auto simp: sdLogSlotsAdd_def Let_def wfSlots_def)
qed

lemma fold_bits:
  assumes "wfSlots s"
  shows "slotBit (slUsed (fold (\<lambda>(n, d). sdLogSlotsAdd n d) es s)) j \<longleftrightarrow> j \<in> listed es \<or> slotBit (slUsed s) j"
    "slotBit (slFile (fold (\<lambda>(n, d). sdLogSlotsAdd n d) es s)) j \<longleftrightarrow> j \<in> resumable es \<or> slotBit (slFile s) j"
  using assms
proof (induction es arbitrary: s)
  case Nil
  { case 1 show ?case by (simp add: listed_def) }
  { case 2 show ?case by (simp add: resumable_def) }
next
  case (Cons e es)
  { case 1 show ?case using Cons.IH(1) [OF add_wf [OF 1]] add_bits(1) [OF 1] by (cases e) (auto simp: listed_def) }
  { case 2 show ?case using Cons.IH(2) [OF add_wf [OF 2]] add_bits(2) [OF 2] by (cases e) (auto simp: resumable_def image_iff) }
qed

lemma scanLogs_bits:
  assumes "scanLogs (Some es) = Some s" "j \<le> SD_LOG_MAX_INDEX"
  shows "slotBit (slUsed s) j \<longleftrightarrow> j \<in> listed es" "slotBit (slFile s) j \<longleftrightarrow> j \<in> resumable es"
proof -
  have "wfSlots sdLogSlotsClear" by (simp add: wfSlots_def sdLogSlotsClear_def)
  from fold_bits [OF this, of es j] show "slotBit (slUsed s) j \<longleftrightarrow> j \<in> listed es" "slotBit (slFile s) j \<longleftrightarrow> j \<in> resumable es"
    using assms slotBit_zero by (auto simp: scanLogs_def sdLogSlotsClear_def)
qed

lemma has_listed: "scanLogs (Some es) = Some s \<Longrightarrow> sdLogSlotsHas s j \<longleftrightarrow> j \<in> listed es"
  using scanLogs_bits(1) [of es s j] sdLogIndex_range
  by (auto simp: sdLogSlotsHas_def listed_def)

lemma find_least:
  fixes f :: "nat \<Rightarrow> bool"
  shows "find f [a ..< b] = (if \<exists>i. a \<le> i \<and> i < b \<and> f i then Some (LEAST i. a \<le> i \<and> f i) else None)"
proof (induction "b - a" arbitrary: a)
  case 0
  then show ?case by simp
next
  case (Suc k)
  then have u: "[a ..< b] = a # [Suc a ..< b]" by (simp add: upt_conv_Cons)
  show ?case
  proof (cases "f a")
    case True
    moreover have "(LEAST i. a \<le> i \<and> f i) = a" using True by (intro Least_equality) auto
    moreover have "\<exists>i. a \<le> i \<and> i < b \<and> f i" using True Suc(2) by (intro exI [of _ a]) simp
    ultimately show ?thesis using u by simp
  next
    case False
    then have "(\<lambda>i. a \<le> i \<and> f i) = (\<lambda>i. Suc a \<le> i \<and> f i)" by (metis Suc_leD le_antisym not_less_eq_eq)
    moreover have "(\<exists>i. a \<le> i \<and> i < b \<and> f i) = (\<exists>i. Suc a \<le> i \<and> i < b \<and> f i)" using False by (metis Suc_leD le_antisym not_less_eq_eq)
    ultimately show ?thesis using Suc(1) [of "Suc a"] Suc(2) u False by auto
  qed
qed

lemma highestFrom_Max: "highestFrom s n = (if \<exists>i. 1 \<le> i \<and> i \<le> n \<and> slotBit (slFile s) i then Max {i. 1 \<le> i \<and> i \<le> n \<and> slotBit (slFile s) i} else 0)"
proof (induction n)
  case (Suc n)
  show ?case
  proof (cases "slotBit (slFile s) (Suc n)")
    case True
    have "Max {i. 1 \<le> i \<and> i \<le> Suc n \<and> slotBit (slFile s) i} = Suc n" using True by (intro Max_eqI) auto
    then show ?thesis using True by auto
  next
    case False
    then have "{i. 1 \<le> i \<and> i \<le> Suc n \<and> slotBit (slFile s) i} = {i. 1 \<le> i \<and> i \<le> n \<and> slotBit (slFile s) i}" by (auto simp: le_Suc_eq)
    then show ?thesis using False Suc by (auto simp: le_Suc_eq)
  qed
qed simp

text \<open>
  The bit arrays of the slot map are the set of indices of the listed log names: after one root listing the next free
  slot is the least index from 1 to 999 that no listed name carries, 0 if there is none, and the log to resume is the greatest
  index of a listed regular file, 0 if there is none; a directory takes its slot and is never resumed.
\<close>

lemma sd_slots_refine_set:
  assumes "scanLogs (Some es) = Some s"
  shows "sdLogSlotsNextFree s 1 = (if {1 .. 999} \<subseteq> listed es then 0 else LEAST i. 1 \<le> i \<and> i \<notin> listed es) \<and>
    sdLogSlotsHighest s = (if resumable es = {} then 0 else Max (resumable es))"
proof -
  have f: "find (\<lambda>i. \<not> sdLogSlotsHas s i) [max 1 1 ..< SD_LOG_MAX_INDEX + 1] =
      (if {1 .. 999} \<subseteq> listed es then None else Some (LEAST i. 1 \<le> i \<and> i \<notin> listed es))"
    unfolding find_least has_listed [OF assms] by (auto simp: SD_LOG_MAX_INDEX_def subset_iff)
  have free: "sdLogSlotsNextFree s 1 = (if {1 .. 999} \<subseteq> listed es then 0 else LEAST i. 1 \<le> i \<and> i \<notin> listed es)"
    unfolding sdLogSlotsNextFree_def f by simp
  have "resumable es \<subseteq> {1 .. SD_LOG_MAX_INDEX}" using sdLogIndex_range by (auto simp: resumable_def) 
  then have "{i. 1 \<le> i \<and> i \<le> SD_LOG_MAX_INDEX \<and> slotBit (slFile s) i} = resumable es"
    using scanLogs_bits(2) [OF assms] by auto
  then have "sdLogSlotsHighest s = (if resumable es = {} then 0 else Max (resumable es))"
    unfolding sdLogSlotsHighest_def highestFrom_Max by auto
  with free show ?thesis ..
qed

section \<open>Logs only grow\<close>

definition grows :: "(string \<Rightarrow> string option) \<Rightarrow> (string \<Rightarrow> string option) \<Rightarrow> bool" where
  "grows f g \<longleftrightarrow> (\<forall>p s. f p = Some s \<longrightarrow> (\<exists>t. g p = Some (s @ t)))"

lemma grows_refl [simp]: "grows f f"
  by (simp add: grows_def)

lemma grows_trans [trans]: "grows f g \<Longrightarrow> grows g h \<Longrightarrow> grows f h"
  unfolding grows_def by (metis append_assoc)

lemma grows_append: "grows (files d) (files (snd (fsAppend p b d)))"
  by (auto simp: grows_def fsAppend_def nextFault_def Let_def split: prod.splits list.splits fault.splits option.splits)

lemma grows_write: "files d p = None \<Longrightarrow> grows (files d) (files (snd (fsWrite p b d)))"
  by (auto simp: grows_def fsWrite_def nextFault_def Let_def split: prod.splits list.splits fault.splits)

text \<open>Faults are only used up.\<close>

lemma faults_none:
  assumes "faults d = []"
  shows "faults (snd (fsExists p d)) = []" "faults (snd (fsWrite p b d)) = []" "faults (snd (fsAppend p b d)) = []"
    "faults (snd (openRead p d)) = []" "fst (fsExists p d) \<longleftrightarrow> files d p \<noteq> None"
  using assms by (simp_all add: fsExists_def fsWrite_def fsAppend_def openRead_def nextFault_def Let_def)

text \<open>Either the listing names every log, or the card answers: what makes a claimed slot free.\<close>

definition guarded :: "(string \<Rightarrow> string option) \<Rightarrow> SdLogSlots \<Rightarrow> disk \<Rightarrow> bool" where
  "guarded fs slots d \<longleftrightarrow> files d = fs \<and>
     (faults d = [] \<or> (\<forall>i. 1 \<le> i \<longrightarrow> i \<le> SD_LOG_MAX_INDEX \<longrightarrow> fs (logName i) \<noteq> None \<longrightarrow> sdLogSlotsHas slots i))"

lemma guarded_steps:
  assumes "guarded fs slots d"
  shows "guarded fs slots (snd (fsExists p d))" "guarded fs slots (snd (openRead p d))"
  using assms faults_none [of d] by (auto simp: guarded_def fsExists_result openRead_def Let_def case_prod_unfold)

lemma guarded_scan:
  assumes "complete ls \<or> faults d = []" "scanLogs (ls (files d)) = Some slots"
  shows "guarded (files d) slots d"
proof (cases "ls (files d)")
  case (Some es)
  then have "sdLogSlotsHas slots i \<longleftrightarrow> i \<in> listed es" for i using has_listed assms(2) by simp
  then show ?thesis using assms(1) Some by (auto simp: guarded_def complete_def listed_def)
qed (use assms in \<open>simp add: scanLogs_def\<close>)

lemma openFrom_grows:
  "guarded (files (sdDisk st)) slots (sdDisk st) \<Longrightarrow> grows (files (sdDisk st)) (files (sdDisk (snd (openFrom slots frm st)))) \<and>
     (faults (sdDisk st) = [] \<longrightarrow> faults (sdDisk (snd (openFrom slots frm st))) = [])"
proof (induction slots frm st rule: openFrom.induct)
  case (1 slots frm st)
  define i where "i = sdLogSlotsNextFree slots frm"
  obtain ex d1 where e: "fsExists (logName i) (sdDisk st) = (ex, d1)" by fastforce
  have d1: "files d1 = files (sdDisk st)" using fsExists_result(1) [of "logName i" "sdDisk st"] e by simp
  have g: "guarded (files (sdDisk st)) slots d1" using guarded_steps(1) [OF 1(2), of "logName i"] e by simp
  have f: "faults (sdDisk st) = [] \<Longrightarrow> faults d1 = []" using faults_none(1) [of "sdDisk st" "logName i"] e by simp
  consider "i = 0" | "i \<noteq> 0" ex | "i \<noteq> 0" "\<not> ex" by blast
  then show ?case
  proof cases
    case 2
    then show ?thesis using 1(1) [OF i_def 2(1) e [symmetric] refl 2(2)] g f d1 
      unfolding openFrom.simps [of slots frm] Let_def i_def [symmetric] e by simp
  next
    case 3
    have r: "1 \<le> i" "i \<le> SD_LOG_MAX_INDEX" "\<not> sdLogSlotsHas slots i" using sdLogSlotsNextFree_range [of slots frm i] i_def 3(1) by auto
    have "files d1 (logName i) = None"
      using 1(2) r 3(2) e d1 faults_none(5) [of "sdDisk st" "logName i"] unfolding guarded_def by auto
    then show ?thesis using grows_write [of d1 "logName i" HEADER] faults_none(2) [of d1 "logName i" HEADER] 3 d1 f
      unfolding openFrom.simps [of slots frm] Let_def i_def [symmetric] e by (auto split: prod.splits option.splits)
  qed (simp add: openFrom.simps [of slots frm] i_def [symmetric])
qed

lemma openNextLog_grows:
  assumes "guarded (files (sdDisk st)) slots (sdDisk st)"
  shows "grows (files (sdDisk st)) (files (sdDisk (snd (openNextLog slots st))))"
    "faults (sdDisk st) = [] \<Longrightarrow> faults (sdDisk (snd (openNextLog slots st))) = []"
  using openFrom_grows [OF assms, of 1] by (simp_all add: openNextLog_def)

definition keeps :: "lister \<Rightarrow> sdState \<Rightarrow> sdState \<Rightarrow> bool" where
  "keeps ls st st' \<longleftrightarrow> (complete ls \<or> faults (sdDisk st) = [] \<longrightarrow> grows (files (sdDisk st)) (files (sdDisk st'))) \<and>
     (faults (sdDisk st) = [] \<longrightarrow> faults (sdDisk st') = [])"

lemma keepsI:
  assumes "scanLogs (ls (files (sdDisk st))) = Some slots" "guarded (files (sdDisk st)) slots (sdDisk st) \<Longrightarrow> files d = files (sdDisk st) \<and> guarded (files d) slots d"
    "faults (sdDisk st) = [] \<Longrightarrow> faults d = []"
  shows "keeps ls st (snd (openNextLog slots (st\<lparr>sdDisk := d\<rparr>)))"
proof -
  have "guarded (files (sdDisk st)) slots (sdDisk st)" if "complete ls \<or> faults (sdDisk st) = []" by (rule guarded_scan [OF that assms(1)])
  then show ?thesis using assms(2,3) openNextLog_grows [of "st\<lparr>sdDisk := d\<rparr>" slots] by (auto simp: keeps_def)
qed

lemma resumeOrOpen_keeps: "keeps ls st (snd (resumeOrOpen ls st))"
proof (cases "scanLogs (ls (files (sdDisk st)))")
  case (Some slots)
  obtain t d1 where r: "openRead (logName (sdLogSlotsHighest slots)) (sdDisk st) = (t, d1)" by fastforce
  have d1: "files d1 = files (sdDisk st)" "faults (sdDisk st) = [] \<Longrightarrow> faults d1 = []"
    "guarded (files (sdDisk st)) slots (sdDisk st) \<Longrightarrow> guarded (files d1) slots d1"
    using write_frame(4) [of "logName (sdLogSlotsHighest slots)" "sdDisk st"] faults_none(4) [of "sdDisk st"] guarded_steps(2) r by (metis snd_conv)+
  have "keeps ls st (snd (openNextLog slots (st\<lparr>sdDisk := d1\<rparr>)))" using Some d1 by (intro keepsI) auto
  moreover have "keeps ls st (snd (openNextLog slots st))" using Some keepsI [of ls st slots "sdDisk st"] by simp
  ultimately show ?thesis using Some r d1 by (auto simp: resumeOrOpen_def Let_def keeps_def split: option.splits)
qed (simp add: resumeOrOpen_def keeps_def)

lemma rotateLog_keeps: "keeps ls st (rotateLog ls st)"
proof (cases "scanLogs (ls (files (sdDisk st)))")
  case (Some slots)
  then have "keeps ls st (snd (openNextLog slots st))" using keepsI [of ls st slots "sdDisk st"] by simp
  then show ?thesis using Some by (auto simp: rotateLog_def keeps_def split: prod.splits)
qed (simp add: rotateLog_def keeps_def)

lemma logEvent_keeps: "keeps ls st (logEvent ls ts sensor json st)"
proof -
  define st1 where "st1 = (if 0 < sdMaxBytes st \<and> sdMaxBytes st < sdLogBytes st + of_nat (length (sdRow ts sensor json)) then rotateLog ls st else st)"
  define d where "d = snd (fsAppend (sdLogPath st1) (sdRow ts sensor json) (sdDisk st1))"
  have k: "keeps ls st st1" using rotateLog_keeps by (simp add: st1_def keeps_def)
  have d: "grows (files (sdDisk st1)) (files d)" "faults (sdDisk st1) = [] \<Longrightarrow> faults d = []" by (simp_all add: d_def grows_append faults_none)
  have "sdDisk (logEvent ls ts sensor json st) \<in> {sdDisk st, sdDisk st1, d}"
    unfolding logEvent_def Let_def st1_def [symmetric] d_def by (auto split: prod.splits option.splits)
  then show ?thesis using k d grows_trans [OF _ d(1)] by (auto simp: keeps_def)
qed

lemma sdStep_keeps: "keeps (eventLister e) st (sdStep e st)"
proof (cases e)
  case (Boot m kb ls)
  have "keeps ls st (snd (resumeOrOpen ls (st\<lparr>sdMaxBytes := b, sdMounted := True\<rparr>)))" for b
    using resumeOrOpen_keeps [of ls "st\<lparr>sdMaxBytes := b, sdMounted := True\<rparr>"] by (simp add: keeps_def)
  then show ?thesis using Boot by (simp add: sdBegin_def Let_def keeps_def)
qed (simp add: logEvent_keeps)



lemma pad3_digits:
  assumes "i \<le> SD_LOG_MAX_INDEX"
  shows "length (pad3 i) = 3" "list_all isDigit (pad3 i)" "decVal 0 (pad3 i) = i"
proof -
  have "length (dec i) \<le> 3" using dec_length [of i 3] assms by (simp add: SD_LOG_MAX_INDEX_def)
  then show "length (pad3 i) = 3" by (simp add: pad3_def)
  show "list_all isDigit (pad3 i)" using dec_digits [of i] by (auto simp: pad3_def digits_def list_all_iff isDigit_def)
  have "decVal 0 (replicate k (CHR ''0'')) = 0" for k by (induction k) (simp_all add: digitVal_def)
  then show "decVal 0 (pad3 i) = i" by (simp add: pad3_def decVal_dec)
qed

lemma logName_base: "i \<le> SD_LOG_MAX_INDEX \<Longrightarrow> sdBaseName (logName i) = ''log'' @ pad3 i @ ''.csv''"
proof -
  assume i: "i \<le> SD_LOG_MAX_INDEX"
  have "CHR ''/'' \<notin> set (pad3 i)" using pad3_digits(2) [OF i] by (auto simp: list_all_iff isDigit_def)
  then have "c_strrchr (''log'' @ pad3 i @ ''.csv'') (CHR ''/'') = None" unfolding c_strrchr_None by simp
  then show ?thesis by (simp add: sdBaseName_def logName_def)
qed

text \<open>The name given to an index reads back as that index.\<close>

lemma sdLogIndex_logName:
  assumes "i \<le> SD_LOG_MAX_INDEX"
  shows "sdLogIndex (Some (logName i)) = i"
proof -
  obtain a b c where p: "pad3 i = [a, b, c]" using pad3_digits(1) [OF assms] by (auto simp: numeral_3_eq_3 length_Suc_conv)
  have "map or20 ''log'' = ''log''" "map or20 ''csv'' = ''csv''" by code_simp+
  then show ?thesis using logName_base [OF assms] pad3_digits(2,3) [OF assms] unfolding p
    by (simp add: sdLogIndex_def Let_def p)
qed

definition fullListing :: lister where
  "fullListing fs = Some (map (\<lambda>i. (logName i, False)) (filter (\<lambda>i. fs (logName i) \<noteq> None) [1 ..< 1000]))"

lemma fullListing_complete: "complete fullListing"
  unfolding complete_def fullListing_def
  by (auto simp: SD_LOG_MAX_INDEX_def sdLogIndex_logName image_iff simp del: upt_Suc intro!: bexI)


section \<open>Logs stay within the limit\<close>

text \<open>A log other than the current one is as at the boot or within the limit, the current one is within its byte count.\<close>

definition withinLimit :: "(string \<Rightarrow> string option) \<Rightarrow> u32 \<Rightarrow> sdState \<Rightarrow> bool" where
  "withinLimit f0 m st \<longleftrightarrow> sdMaxBytes st = 0 \<or>
     (sdMaxBytes st = m \<and>
      (\<forall>p s. files (sdDisk st) p = Some s \<longrightarrow> f0 p = Some s \<or> length s \<le> unat m) \<and>
      (sdLogPath st \<noteq> [] \<longrightarrow> sdLogBytes st \<le> m \<and> (\<forall>s. files (sdDisk st) (sdLogPath st) = Some s \<longrightarrow> length s \<le> unat (sdLogBytes st))))"

lemma withinLimit_files: "withinLimit f0 m st \<Longrightarrow> files d = files (sdDisk st) \<Longrightarrow> withinLimit f0 m (st\<lparr>sdDisk := d\<rparr>)"
  by (simp add: withinLimit_def)

lemma header_length [simp]: "length HEADER = 22"
  by (simp add: HEADER_def)

lemma fsWrite_length: "files (snd (fsWrite p b d)) q = Some s \<Longrightarrow> files d q = Some s \<or> (q = p \<and> length s \<le> length b)"
  by (auto simp: fsWrite_def nextFault_def Let_def split: prod.splits list.splits fault.splits if_splits)

lemma fsAppend_length: "files (snd (fsAppend p b d)) q = Some s \<Longrightarrow>
   files d q = Some s \<or> (q = p \<and> length s \<le> (case files d p of None \<Rightarrow> 0 | Some t \<Rightarrow> length t) + length b)"
  by (auto simp: fsAppend_def nextFault_def Let_def split: prod.splits list.splits fault.splits if_splits option.splits)

lemma openFrom_within:
  assumes "withinLimit f0 m st" "1024 \<le> m" "openFrom slots frm st = (ok, st')"
  shows "withinLimit f0 m st'" "ok \<Longrightarrow> sdLogBytes st' = 22 \<and> sdLogPath st' \<noteq> []" "sdMaxBytes st' = sdMaxBytes st" "sdMounted st' = sdMounted st"
    "\<not> ok \<Longrightarrow> sdLogPath st' = sdLogPath st"
proof -
  have "withinLimit f0 m st' \<and> (ok \<longrightarrow> sdLogBytes st' = 22 \<and> sdLogPath st' \<noteq> []) \<and> sdMaxBytes st' = sdMaxBytes st \<and> sdMounted st' = sdMounted st \<and> (\<not> ok \<longrightarrow> sdLogPath st' = sdLogPath st)"
    using assms(1,3)
  proof (induction slots frm st rule: openFrom.induct)
    case (1 slots frm st)
    define i where "i = sdLogSlotsNextFree slots frm"
    obtain ex d1 where e: "fsExists (logName i) (sdDisk st) = (ex, d1)" by fastforce
    obtain w d2 where w: "fsWrite (logName i) HEADER d1 = (w, d2)" by fastforce
    have d1: "files d1 = files (sdDisk st)" using fsExists_result(1) [of "logName i" "sdDisk st"] e by simp
    have wl: "withinLimit f0 m (st\<lparr>sdDisk := d1\<rparr>)" using 1(2) d1 by (rule withinLimit_files)
    have d2: "files d2 q = Some s \<Longrightarrow> files (sdDisk st) q = Some s \<or> (q = logName i \<and> length s \<le> 22)" for q s
      using fsWrite_length [of "logName i" HEADER d1 q s] w d1 by simp
    have n: "w = None \<Longrightarrow> files d2 = files (sdDisk st)" using fsWrite_result(1) [of "logName i" HEADER d1] w d1 by simp
    have m: "22 \<le> unat m" "22 \<le> m" using assms(2) by (simp_all add: word_le_nat_alt)
    consider "i = 0" | "i \<noteq> 0" ex | "i \<noteq> 0" "\<not> ex" by blast
    then show ?case
    proof cases
      case 2
      then show ?thesis using 1(1) [OF i_def 2(1) e [symmetric] refl 2(2)] wl 1(3)
        unfolding openFrom.simps [of slots frm] Let_def i_def [symmetric] e by simp
    next
      case 3
      have new: "withinLimit f0 m (st\<lparr>sdDisk := d2, sdLogPath := logName i, sdLogBytes := 22\<rparr>)" if "w \<noteq> None"
      proof (cases "sdMaxBytes st = 0")
        case False
        have len: "length s \<le> 22" if "files d2 (logName i) = Some s" for s
          using that \<open>w \<noteq> None\<close> w fsWrite_result(2) [of "logName i" HEADER d1] by auto
        show ?thesis using 1(2) False d2 m len unfolding withinLimit_def by fastforce
      qed (simp add: withinLimit_def)
      show ?thesis using 1(2,3) 3 w n new withinLimit_files [OF 1(2), of d2]
        unfolding openFrom.simps [of slots frm] Let_def i_def [symmetric] e by (auto split: prod.splits option.splits simp: logName_def)
    qed (use 1 in \<open>simp add: openFrom.simps [of slots frm] i_def [symmetric]\<close>)
  qed
  then show "withinLimit f0 m st'" "ok \<Longrightarrow> sdLogBytes st' = 22 \<and> sdLogPath st' \<noteq> []" "sdMaxBytes st' = sdMaxBytes st" "sdMounted st' = sdMounted st"
    "\<not> ok \<Longrightarrow> sdLogPath st' = sdLogPath st" by blast+
qed


lemma openNextLog_within:
  assumes "withinLimit f0 m st" "1024 \<le> m"
  shows "withinLimit f0 m (snd (openNextLog slots st))"
  using openFrom_within(1) [OF assms, of slots 1] by (simp add: openNextLog_def) (metis prod.collapse)

lemma resumeOrOpen_within:
  assumes "withinLimit f0 m st" "1024 \<le> m" "\<forall>p s. files (sdDisk st) p = Some s \<longrightarrow> length s < 2 ^ 32"
  shows "withinLimit f0 m (snd (resumeOrOpen ls st))"
proof (cases "scanLogs (ls (files (sdDisk st)))")
  case (Some slots)
  define p where "p = logName (sdLogSlotsHighest slots)"
  obtain t d1 where r: "openRead p (sdDisk st) = (t, d1)" by fastforce
  have d1: "files d1 = files (sdDisk st)" using write_frame(4) [of p "sdDisk st"] r by simp
  have wl: "withinLimit f0 m (st\<lparr>sdDisk := d1\<rparr>)" using assms(1) d1 by (rule withinLimit_files)
  have new: "withinLimit f0 m (snd (openNextLog slots (st\<lparr>sdDisk := d1\<rparr>)))" using wl assms(2) by (rule openNextLog_within)
  have res: "withinLimit f0 m (st\<lparr>sdDisk := d1, sdLogPath := p, sdLogBytes := of_nat (length s)\<rparr>)"
    if "t = Some s" "sdMaxBytes st = 0 \<or> of_nat (length s) < sdMaxBytes st" for s
  proof -
    have "files (sdDisk st) p = Some s" using r that(1) by (auto simp: openRead_def nextFault_def Let_def split: list.splits if_splits prod.splits)
    then have "unat (of_nat (length s) :: u32) = length s" using assms(3) by (simp add: unat_of_nat)
    then show ?thesis using wl that(2) \<open>files (sdDisk st) p = Some s\<close> d1 by (auto simp: withinLimit_def)
  qed
  show ?thesis using Some r new res openNextLog_within [OF assms(1,2)]
    by (auto simp: resumeOrOpen_def Let_def p_def split: option.splits)
qed (simp add: resumeOrOpen_def assms)

lemma rotateLog_within:
  assumes "withinLimit f0 m st" "1024 \<le> m"
  shows "withinLimit f0 m (rotateLog ls st)" "sdMaxBytes (rotateLog ls st) \<noteq> 0 \<Longrightarrow> sdLogBytes (rotateLog ls st) = 22" "sdMounted (rotateLog ls st) = sdMounted st"
proof -
  have "withinLimit f0 m (rotateLog ls st) \<and> (sdMaxBytes (rotateLog ls st) \<noteq> 0 \<longrightarrow> sdLogBytes (rotateLog ls st) = 22) \<and> sdMounted (rotateLog ls st) = sdMounted st"
  proof (cases "scanLogs (ls (files (sdDisk st)))")
    case (Some slots)
    obtain ok st' where o: "openFrom slots 1 st = (ok, st')" by fastforce
    show ?thesis using openFrom_within [OF assms o] Some o by (auto simp: rotateLog_def openNextLog_def withinLimit_def)
  qed (simp add: rotateLog_def withinLimit_def)
  then show "withinLimit f0 m (rotateLog ls st)" "sdMaxBytes (rotateLog ls st) \<noteq> 0 \<Longrightarrow> sdLogBytes (rotateLog ls st) = 22" "sdMounted (rotateLog ls st) = sdMounted st"
    by blast+
qed

lemma append_within:
  assumes "withinLimit f0 m st" "sdLogPath st \<noteq> []" "fsAppend (sdLogPath st) row (sdDisk st) = (w, d)" "length row < 2 ^ 16" "m \<le> 2 ^ 31"
    "sdMaxBytes st \<noteq> 0 \<Longrightarrow> sdLogBytes st + of_nat (length row) \<le> m"
  shows "withinLimit f0 m (case w of None \<Rightarrow> st\<lparr>sdDisk := d\<rparr> | Some n \<Rightarrow> st\<lparr>sdDisk := d, sdLogBytes := sdLogBytes st + of_nat (length row)\<rparr>)"
proof (cases "sdMaxBytes st = 0")
  case True
  then show ?thesis by (auto simp: withinLimit_def split: option.splits)
next
  case False
  let ?b = "sdLogBytes st + of_nat (length row) :: u32"
  have le: "sdLogBytes st \<le> m" "?b \<le> m" using assms(1,2,6) False by (auto simp: withinLimit_def)
  have r: "unat (of_nat (length row) :: u32) = length row" using assms(4) by (simp add: unat_of_nat)
  have "unat (sdLogBytes st) \<le> 2 ^ 31" using le(1) assms(5) by (simp add: word_le_nat_alt)
  then have b: "unat ?b = unat (sdLogBytes st) + length row" using r assms(4) by (subst unat_add_lem [THEN iffD1]) simp_all
  have old: "(case files (sdDisk st) (sdLogPath st) of None \<Rightarrow> 0 | Some t \<Rightarrow> length t) \<le> unat (sdLogBytes st)"
    using assms(1,2) False by (auto simp: withinLimit_def split: option.splits)
  have new: "files d q = Some s \<Longrightarrow> files (sdDisk st) q = Some s \<or> (q = sdLogPath st \<and> length s \<le> unat ?b)" for q s
    using fsAppend_length [of "sdLogPath st" row "sdDisk st" q s] assms(3) old b by auto
  have n: "w = None \<Longrightarrow> files d = files (sdDisk st)"
    using assms(3) by (auto simp: fsAppend_def nextFault_def Let_def split: prod.splits list.splits if_splits fault.splits)
  have cur: "length s \<le> unat ?b" if "files d (sdLogPath st) = Some s" for s
    using new [OF that] assms(1,2) False b by (auto simp: withinLimit_def)
  have "unat ?b \<le> unat m" using le(2) by (simp add: word_le_nat_alt)
  then have "\<forall>p s. files d p = Some s \<longrightarrow> f0 p = Some s \<or> length s \<le> unat m"
    using new assms(1) False by (fastforce simp: withinLimit_def)
  then show ?thesis using assms(1) False n cur le(2) by (auto simp: withinLimit_def split: option.splits)
qed

lemma logEvent_within:
  assumes "withinLimit f0 m st" "1024 \<le> m" "m \<le> 2 ^ 31" "length (sdRow ts sensor json) \<le> 1000"
  shows "withinLimit f0 m (logEvent ls ts sensor json st)"
proof -
  define row where "row = sdRow ts sensor json"
  define st1 where "st1 = (if 0 < sdMaxBytes st \<and> sdMaxBytes st < sdLogBytes st + of_nat (length row) then rotateLog ls st else st)"
  have w1: "withinLimit f0 m st1" using rotateLog_within(1) [OF assms(1,2)] assms(1) by (simp add: st1_def)
  have "of_nat (length row) \<le> (1000 :: u32)" using assms(4) by (simp add: row_def word_le_nat_alt unat_of_nat)
  then have "22 + of_nat (length row) \<le> m" using assms(2) by (simp add: word_le_nat_alt unat_word_ariths)
  then have "sdMaxBytes st1 \<noteq> 0 \<Longrightarrow> sdLogBytes st1 + of_nat (length row) \<le> m"
    using rotateLog_within(2) [OF assms(1,2), of ls] assms(1) by (auto simp: st1_def withinLimit_def word_gt_0 split: if_splits)
  then have "withinLimit f0 m (case fst (fsAppend (sdLogPath st1) row (sdDisk st1)) of None \<Rightarrow> st1\<lparr>sdDisk := snd (fsAppend (sdLogPath st1) row (sdDisk st1))\<rparr>
      | Some n \<Rightarrow> st1\<lparr>sdDisk := snd (fsAppend (sdLogPath st1) row (sdDisk st1)), sdLogBytes := sdLogBytes st1 + of_nat (length row)\<rparr>)"
    if "sdLogPath st1 \<noteq> []" using w1 assms(3,4) that by (intro append_within) (auto simp: row_def)
  then show ?thesis using assms(1) w1 unfolding logEvent_def Let_def row_def [symmetric] st1_def [symmetric]
    by (simp add: case_prod_unfold)
qed


lemma rows_within:
  assumes "withinLimit f0 m st" "1024 \<le> m" "m \<le> 2 ^ 31" "\<forall>(ls, ts, sensor, json) \<in> set rows. length (sdRow ts sensor json) \<le> 1000"
  shows "withinLimit f0 m (sdRun (map (\<lambda>(ls, ts, sensor, json). Row ls ts sensor json) rows) st)"
  using assms
proof (induction rows arbitrary: st)
  case (Cons r rows)
  then show ?case using logEvent_within [OF Cons.prems(1-3)] by (cases r) (auto simp: sdRun_def)
qed (simp add: sdRun_def)

text \<open>With \<open>sd.max_file_kb\<close> set (up to 2 GB), from a boot over any sequence of rows of at most 1000 bytes and any failures of the
  card: as long as rotation has not been given up, every file on the card is as it was at the boot or within the limit.\<close>

lemma sd_log_size_bounded:
  assumes "1 \<le> kb" "kb \<le> 2 ^ 21" "\<forall>p s. files d p = Some s \<longrightarrow> length s < 2 ^ 32"
    and "\<forall>(ls, ts, sensor, json) \<in> set rows. length (sdRow ts sensor json) \<le> 1000"
    and "st = sdRun (Boot m kb ls # map (\<lambda>(ls, ts, sensor, json). Row ls ts sensor json) rows)
           \<lparr>sdMounted = False, sdLogPath = [], sdLogBytes = 0, sdMaxBytes = 0, sdDisk = d\<rparr>"
    and "sdMaxBytes st \<noteq> 0" "files (sdDisk st) p = Some s"
  shows "files d p = Some s \<or> length s \<le> unat kb * 1024"
proof -
  define st0 where "st0 = \<lparr>sdMounted = True, sdLogPath = [], sdLogBytes = 0, sdMaxBytes = kb * 1024, sdDisk = d\<rparr>"
  have kb: "1 \<le> unat kb" "unat kb \<le> 2 ^ 21" using assms(1,2) by (simp_all add: word_le_nat_alt)
  have m: "unat (kb * 1024) = unat kb * 1024" using kb by (subst unat_mult_lem [THEN iffD1]) simp_all
  have b: "1024 \<le> kb * 1024" "kb * 1024 \<le> 2 ^ 31" "kb > 0" using m kb by (simp_all add: word_le_nat_alt word_less_nat_alt)
  have w0: "withinLimit (files d) (kb * 1024) st0" "withinLimit (files d) (kb * 1024) (st0\<lparr>sdMounted := False\<rparr>)" by (simp_all add: withinLimit_def st0_def)
  have "sdStep (Boot m kb ls) \<lparr>sdMounted = False, sdLogPath = [], sdLogBytes = 0, sdMaxBytes = 0, sdDisk = d\<rparr>
      = (if m then snd (resumeOrOpen ls st0) else st0\<lparr>sdMounted := False\<rparr>)" using b(3) by (simp add: sdBegin_def st0_def)
  moreover have "withinLimit (files d) (kb * 1024) (snd (resumeOrOpen ls st0))" using w0(1) b(1) assms(3) by (intro resumeOrOpen_within) (auto simp: st0_def)
  ultimately have "withinLimit (files d) (kb * 1024) (sdStep (Boot m kb ls) \<lparr>sdMounted = False, sdLogPath = [], sdLogBytes = 0, sdMaxBytes = 0, sdDisk = d\<rparr>)"
    using w0(2) by simp
  from rows_within [OF this b(1,2) assms(4)] have "withinLimit (files d) (kb * 1024) st" by (simp add: assms(5) sdRun_def)
  then show ?thesis using assms(6,7) m by (auto simp: withinLimit_def)
qed

lemma clear_free: "sdLogSlotsNextFree sdLogSlotsClear 1 = 1" "sdLogSlotsHighest sdLogSlotsClear = 0"
proof -
  have b: "\<not> slotBit (slUsed sdLogSlotsClear) i" "\<not> slotBit (slFile sdLogSlotsClear) i" if "i \<le> SD_LOG_MAX_INDEX" for i
    using slotBit_zero [OF that] by (simp_all add: sdLogSlotsClear_def)
  have "1 < SD_LOG_MAX_INDEX + 1" by (simp add: SD_LOG_MAX_INDEX_def)
  then have u: "[max 1 1 ..< SD_LOG_MAX_INDEX + 1] = 1 # [Suc 1 ..< SD_LOG_MAX_INDEX + 1]" unfolding max.idem by (rule upt_conv_Cons)
  show "sdLogSlotsNextFree sdLogSlotsClear 1 = 1" unfolding sdLogSlotsNextFree_def u using b(1) by (simp add: sdLogSlotsHas_def)
  show "sdLogSlotsHighest sdLogSlotsClear = 0" unfolding sdLogSlotsHighest_def highestFrom_Max using b(2) by auto
qed

end
