(* ===== verification/Clock_Floor.thy ===== *)
theory Clock_Floor
  imports Mqtt_Rollback
begin

text \<open>
  The boot clock floor: \<open>clock_floor_policy.h\<close>, and where \<open>MQTTClient.cpp\<close> applies and persists it. The calendar
  arithmetic is proved equal to counting days; the floor is proved to stay at or below real time and to lose at most a day
  over a power cycle.

  \<open>time_t\<close> is a natural number, \<open>unsigned\<close> a 32-bit word; years are below 10000, so no \<open>int\<close> overflows.
\<close>

section \<open>Definitions\<close>

subsection \<open>The calendar\<close>

definition clockFloorDaysFromCivil :: "int \<Rightarrow> u32 \<Rightarrow> u32 \<Rightarrow> int" where
  "clockFloorDaysFromCivil y0 m d =
     (let y = y0 - (if m \<le> 2 then 1 else 0);
          era = (if 0 \<le> y then y div 400 else - ((399 - y) div 400));
          yoe = of_int (y - era * 400) :: u32;
          doy = (153 * (m + (if m > 2 then - 3 else 9)) + 2) div 5 + d - 1;
          doe = yoe * 365 + yoe div 4 - yoe div 100 + doy
      in era * 146097 + uint doe - 719468)"

definition CLOCK_FLOOR_BUILD_MARGIN_S :: nat where "CLOCK_FLOOR_BUILD_MARGIN_S = 86400"
definition CLOCK_FLOOR_PERSIST_INTERVAL_S :: u32 where "CLOCK_FLOOR_PERSIST_INTERVAL_S = 86400"

text \<open>A character of a C string, its terminator past the end.\<close>

definition chAt :: "string \<Rightarrow> nat \<Rightarrow> char" where
  "chAt s i = (if i < length s then s ! i else CHR 0x00)"

definition MMM :: "string list" where
  "MMM = [''Jan'', ''Feb'', ''Mar'', ''Apr'', ''May'', ''Jun'', ''Jul'', ''Aug'', ''Sep'', ''Oct'', ''Nov'', ''Dec'']"

fun monthFrom :: "nat \<Rightarrow> string list \<Rightarrow> string \<Rightarrow> nat" where
  "monthFrom i [] date = 0"
| "monthFrom i (n # ns) date =
     (if chAt date 0 = n ! 0 \<and> chAt date 1 = n ! 1 \<and> chAt date 2 = n ! 2 then i + 1 else monthFrom (i + 1) ns date)"

definition buildDay :: "string \<Rightarrow> nat" where
  "buildDay date =
     (if chAt date 4 = CHR '' '' then (if isDigit (chAt date 5) \<and> chAt date 5 \<noteq> CHR ''0'' then digitVal (chAt date 5) else 0)
      else if \<not> (isDigit (chAt date 4) \<and> 1 \<le> digitVal (chAt date 4) \<and> digitVal (chAt date 4) \<le> 3) \<or> \<not> isDigit (chAt date 5) then 0
      else digitVal (chAt date 4) * 10 + digitVal (chAt date 5))"

definition two :: "string \<Rightarrow> nat \<Rightarrow> nat" where
  "two s i = digitVal (chAt s i) * 10 + digitVal (chAt s (i + 1))"

definition timeShape :: "string \<Rightarrow> bool" where
  "timeShape s \<longleftrightarrow> list_all (\<lambda>i. if i = 2 \<or> i = 5 then chAt s i = CHR '':'' else isDigit (chAt s i)) [0 ..< 8]"

definition clockFloorBuildEpoch :: "cstr \<Rightarrow> cstr \<Rightarrow> u32" where
  "clockFloorBuildEpoch dt tm =
     (case (dt, tm) of
        (Some date, Some t) \<Rightarrow>
          (let mon = monthFrom 0 MMM date; day = buildDay date
           in if mon = 0 \<or> chAt date 3 \<noteq> CHR '' '' then 0
              else if day = 0 \<or> 31 < day \<or> chAt date 6 \<noteq> CHR '' '' then 0
              else if \<not> list_all (\<lambda>i. isDigit (chAt date i)) [7 ..< 11] then 0
              else let year = decVal 0 (map (chAt date) [7 ..< 11])
                   in if year < 2023 then 0
                      else if \<not> timeShape t then 0
                      else let hh = two t 0; mm = two t 3; ss = two t 6
                           in if hh > 23 \<or> mm > 59 \<or> ss > 60 then 0
                              else let epoch = clockFloorDaysFromCivil (int year) (of_nat mon) (of_nat day) * 86400 + int (hh * 3600 + mm * 60 + ss)
                                   in if epoch \<le> int CLOCK_FLOOR_BUILD_MARGIN_S then 0 else of_int (epoch - int CLOCK_FLOOR_BUILD_MARGIN_S))
      | _ \<Rightarrow> 0)"

subsection \<open>The floor\<close>

definition clockFloorTarget :: "u32 \<Rightarrow> u32 \<Rightarrow> u32" where
  "clockFloorTarget nvsFloor buildEpoch = (if nvsFloor > buildEpoch then nvsFloor else buildEpoch)"

definition clockFloorShouldApply :: "nat \<Rightarrow> u32 \<Rightarrow> bool" where
  "clockFloorShouldApply now flr \<longleftrightarrow> \<not> unat flr < CLOCK_FLOOR_SANE_EPOCH \<and> now < unat flr"

definition clockFloorShouldPersist :: "nat \<Rightarrow> u32 \<Rightarrow> bool" where
  "clockFloorShouldPersist now stored \<longleftrightarrow>
     \<not> now < CLOCK_FLOOR_SANE_EPOCH \<and> of_nat now \<ge> stored + CLOCK_FLOOR_PERSIST_INTERVAL_S"

text \<open>The system clock, the NVS floor and its copy in memory, and the time of the last check.\<close>

record clkState =
  ckClock :: nat
  ckNvs :: "u32 option"
  ckStored :: u32
  ckCheckMs :: u32

definition clockFloorBoot :: "bool \<Rightarrow> u32 \<Rightarrow> clkState \<Rightarrow> clkState" where
  "clockFloorBoot ro build s =
     (let stored = (if ro then cfgOr 0 (ckNvs s) else ckStored s);
          flr = clockFloorTarget stored build;
          s1 = s\<lparr>ckStored := stored\<rparr>
      in if clockFloorShouldApply (ckClock s) flr then s1\<lparr>ckClock := unat flr\<rparr> else s1)"

definition clockFloorLoop :: "bool \<Rightarrow> bool \<Rightarrow> u32 \<Rightarrow> clkState \<Rightarrow> clkState" where
  "clockFloorLoop rw put ms s =
     (if ms - ckCheckMs s > 60000 then
        let s1 = s\<lparr>ckCheckMs := ms\<rparr>
        in if clockFloorShouldPersist (ckClock s) (ckStored s) \<and> rw
           then s1\<lparr>ckNvs := (if put then Some (of_nat (ckClock s)) else ckNvs s), ckStored := of_nat (ckClock s)\<rparr> else s1
      else s)"

section \<open>The calendar counts days\<close>

definition leap :: "nat \<Rightarrow> bool" where
  "leap y \<longleftrightarrow> (y mod 4 = 0 \<and> y mod 100 \<noteq> 0) \<or> y mod 400 = 0"

definition monthLen :: "nat \<Rightarrow> nat \<Rightarrow> nat" where
  "monthLen y m = (if m = 2 then (if leap y then 29 else 28) else if m \<in> {4, 6, 9, 11} then 30 else 31)"

definition validDate :: "nat \<Rightarrow> nat \<Rightarrow> nat \<Rightarrow> bool" where
  "validDate y m d \<longleftrightarrow> 1 \<le> m \<and> m \<le> 12 \<and> 1 \<le> d \<and> d \<le> monthLen y m"

text \<open>The days from 1 January 1970 to a date, counted year by year and month by month.\<close>

definition civilDays :: "nat \<Rightarrow> nat \<Rightarrow> nat \<Rightarrow> nat" where
  "civilDays y m d = sum_list (map (\<lambda>k. if leap k then 366 else 365) [1970 ..< y]) + sum_list (map (monthLen y) [1 ..< m]) + (d - 1)"

definition marchDays :: "nat \<Rightarrow> nat" where
  "marchDays y = 365 * y + y div 4 - y div 100 + y div 400"

lemma marchDays_era:
  "int (y div 400) * 146097 + int ((y mod 400) * 365 + y mod 400 div 4 - y mod 400 div 100) = int (marchDays y)"
proof -
  define e r where "e = y div 400" and "r = y mod 400"
  have y: "y = 400 * e + r" and r: "r < 400" by (simp_all add: e_def r_def)
  have d: "y div 4 = 100 * e + r div 4" "y div 100 = 4 * e + r div 100" "y div 400 = e" using r unfolding y by simp_all
  have "r div 100 \<le> r div 4" by (rule div_le_mono2) simp_all
  then show ?thesis unfolding marchDays_def d e_def [symmetric] r_def [symmetric] using y by (simp add: of_nat_diff)
qed

lemma marchDays_Suc: "marchDays (Suc y) = marchDays y + (if leap (Suc y) then 366 else 365)"
proof -
  have d: "Suc y div n = y div n + (if Suc y mod n = 0 then 1 else 0)" if "0 < n" for n
    using that by (simp add: div_Suc)
  have "y div 100 \<le> 365 * y + y div 4" by (rule order_trans [OF div_le_dividend]) simp
  moreover have "Suc y mod 400 = 0 \<Longrightarrow> Suc y mod 100 = 0" "Suc y mod 100 = 0 \<Longrightarrow> Suc y mod 4 = 0"
    by presburger+
  moreover have "365 * Suc y + (a + i) - (b + j) + (c + k) = 365 * y + a - b + c + (365 + i + k - j)"
    if "b \<le> 365 * y + a" "j \<le> i" for a b c i j k :: nat
    using that by arith
  ultimately have "marchDays (Suc y) = marchDays y + (365 + (if Suc y mod 4 = 0 then 1 else 0) + (if Suc y mod 400 = 0 then 1 else 0) - (if Suc y mod 100 = 0 then 1 else 0))"
    unfolding marchDays_def d [OF zero_less_numeral] by simp
  then show ?thesis using \<open>Suc y mod 400 = 0 \<Longrightarrow> Suc y mod 100 = 0\<close> \<open>Suc y mod 100 = 0 \<Longrightarrow> Suc y mod 4 = 0\<close>
    unfolding leap_def by (cases "Suc y mod 4 = 0"; cases "Suc y mod 100 = 0"; cases "Suc y mod 400 = 0") simp_all
qed

lemma years_march:
  "1970 \<le> y \<Longrightarrow> sum_list (map (\<lambda>k. if leap k then 366 else 365) [1970 ..< y]) + 719468 = marchDays (y - 1) + 306"
proof (induction y rule: dec_induct)
  case base
  show ?case by (simp add: marchDays_def)
next
  case (step y)
  have "marchDays (Suc y - 1) = marchDays (y - 1) + (if leap y then 366 else 365)" using marchDays_Suc [of "y - 1"] step(1) by simp
  then show ?case using step by simp
qed

lemma valid_month:
  assumes "validDate y m d"
  shows "m \<in> {1, 2, 3, 4, 5, 6, 7, 8, 9, 10, 11, 12}" "1 \<le> d" "d \<le> 31"
proof -
  have "1 \<le> m" "m < 13" using assms by (auto simp: validDate_def)
  then show "m \<in> {1, 2, 3, 4, 5, 6, 7, 8, 9, 10, 11, 12}" by (auto simp: eval_nat_numeral less_Suc_eq)
  show "1 \<le> d" "d \<le> 31" using assms by (auto simp: validDate_def monthLen_def split: if_splits)
qed

text \<open>The day of the year counted from March, with the 153-days-per-five-months rule.\<close>

definition marchDoy :: "nat \<Rightarrow> nat \<Rightarrow> nat" where
  "marchDoy m d = (153 * (if m > 2 then m - 3 else m + 9) + 2) div 5 + d - 1"

lemma months_march:
  assumes "validDate y m d"
  shows "sum_list (map (monthLen y) [1 ..< m]) + (d - 1) + 306 =
    (if m \<le> 2 then marchDoy m d else (if leap y then 366 else 365) + marchDoy m d)"
  using valid_month [OF assms] by (auto simp: marchDoy_def monthLen_def upt_conv_Cons)

lemma civilDays_march:
  assumes "validDate y m d" "1970 \<le> y"
  shows "int (civilDays y m d) = int (marchDays (y - (if m \<le> 2 then 1 else 0))) + int (marchDoy m d) - 719468"
proof -
  have "marchDays y = marchDays (y - 1) + (if leap y then 366 else 365)" using marchDays_Suc [of "y - 1"] assms(2) by simp
  then show ?thesis using years_march [OF assms(2)] months_march [OF assms(1)] by (auto simp: civilDays_def)
qed

lemma word_div_nat: "a < 2 ^ 32 \<Longrightarrow> 0 < b \<Longrightarrow> b < 2 ^ 32 \<Longrightarrow> (of_nat a :: u32) div of_nat b = of_nat (a div b)"
  by (simp add: word_arith_nat_div unat_of_nat)

lemma doy_word:
  assumes "validDate y m d"
  shows "((153 * (of_nat m + (if (of_nat m :: u32) > 2 then - 3 else 9)) + 2) div 5 + of_nat d - 1 :: u32) = of_nat (marchDoy m d)"
proof -
  define mp where "mp = (if m > 2 then m - 3 else m + 9)"
  have m: "1 \<le> m" "m \<le> 12" "1 \<le> d" using assms by (auto simp: validDate_def)
  then have mp: "mp < 12" by (auto simp: mp_def)
  have "(of_nat m :: u32) > 2 \<longleftrightarrow> m > 2" using m by (simp add: word_less_nat_alt unat_of_nat)
  then have "(of_nat m + (if (of_nat m :: u32) > 2 then - 3 else 9) :: u32) = of_nat mp" by (simp add: mp_def of_nat_diff)
  moreover have "(153 * of_nat mp + 2 :: u32) div 5 = of_nat ((153 * mp + 2) div 5)"
    using word_div_nat [of "153 * mp + 2" 5] mp by (simp add: add.commute)
  ultimately show ?thesis using m by (simp add: marchDoy_def mp_def [symmetric] of_nat_diff)
qed

lemma uint_small: "n < 4294967296 \<Longrightarrow> uint (of_nat n :: u32) = int n"
  by (simp add: uint_nat unat_of_nat)

lemma doe_word:
  assumes "r < 400" "q < 400"
  shows "uint (of_nat r * 365 + of_nat r div 4 - of_nat r div 100 + of_nat q :: u32) = int (r * 365 + r div 4 - r div 100) + int q"
proof -
  have "r div 100 \<le> r div 4" by (rule div_le_mono2) simp_all
  then have le: "r div 100 \<le> r * 365 + r div 4" by simp
  have d: "(of_nat r :: u32) div 4 = of_nat (r div 4)" "(of_nat r :: u32) div 100 = of_nat (r div 100)"
    using word_div_nat [of r 4] word_div_nat [of r 100] assms(1) by simp_all
  have "(of_nat r * 365 + of_nat r div 4 - of_nat r div 100 + of_nat q :: u32) = of_nat (r * 365 + r div 4 - r div 100 + q)"
    using le by (simp add: d of_nat_diff)
  moreover have "r * 365 + r div 4 - r div 100 + q < 4294967296" using assms div_le_dividend [of r 4] diff_le_self [of "r * 365 + r div 4" "r div 100"] by linarith
  ultimately show ?thesis using uint_small [of "r * 365 + r div 4 - r div 100 + q"] by (simp only: of_nat_add)
qed

lemma marchDoy_bound: "validDate y m d \<Longrightarrow> marchDoy m d < 400"
  using valid_month [of y m d] by (auto simp: marchDoy_def)

lemma daysFromCivil_days:
  assumes "validDate y m d" "1970 \<le> y"
  shows "clockFloorDaysFromCivil (int y) (of_nat m) (of_nat d) = int (civilDays y m d)"
proof -
  define Y where "Y = y - (if m \<le> 2 then 1 else 0)"
  have m: "(of_nat m :: u32) \<le> 2 \<longleftrightarrow> m \<le> 2" using assms(1) by (simp add: validDate_def word_le_nat_alt unat_of_nat)
  have Y: "int y - (if (of_nat m :: u32) \<le> 2 then 1 else 0) = int Y" using assms(2) by (simp add: m Y_def of_nat_diff)
  have e: "int Y - int Y div 400 * 400 = int (Y mod 400)" by (simp add: zmod_int minus_div_mult_eq_mod)
  have "clockFloorDaysFromCivil (int y) (of_nat m) (of_nat d) =
      int (Y div 400) * 146097 + uint (of_nat (Y mod 400) * 365 + of_nat (Y mod 400) div 4 - of_nat (Y mod 400) div 100 + of_nat (marchDoy m d) :: u32) - 719468"
    unfolding clockFloorDaysFromCivil_def Let_def Y e doy_word [OF assms(1)] by (simp add: e zdiv_int)
  also have "\<dots> = int (marchDays Y) + int (marchDoy m d) - 719468"
    using doe_word [of "Y mod 400" "marchDoy m d"] marchDoy_bound [OF assms(1)] marchDays_era [of Y] by simp
  also have "\<dots> = int (civilDays y m d)" using civilDays_march [OF assms] by (simp add: Y_def)
  finally show ?thesis .
qed

text \<open>The clock floor's calendar formula is counting days: for every valid date from 1970 on it gives the number of days since
  1 January 1970, leap years by the Gregorian rule, with the intermediate words not wrapping.\<close>

lemma daysFromCivil_counts:
  assumes "validDate y m d" "1970 \<le> y"
  shows "clockFloorDaysFromCivil (int y) (of_nat m) (of_nat d) = int (civilDays y m d)"
  using assms by (rule daysFromCivil_days)

section \<open>The floor and real time\<close>

text \<open>What happens to the clock: time passes, NTP sets it to real time, the device restarts after some time with whatever its
  RTC kept, the loop checks the floor. \<open>build\<close> is the build epoch of the running firmware.\<close>

datatype clkEvent = Elapse nat | Ntp | Restart nat nat bool | Check bool bool u32

fun clkStep :: "u32 \<Rightarrow> clkEvent \<Rightarrow> nat \<times> clkState \<Rightarrow> nat \<times> clkState" where
  "clkStep build (Elapse dt) (r, s) = (r + dt, s\<lparr>ckClock := ckClock s + dt\<rparr>)"
| "clkStep build Ntp (r, s) = (r, s\<lparr>ckClock := r\<rparr>)"
| "clkStep build (Restart dt rtc ro) (r, s) = (r + dt, clockFloorBoot ro build (s\<lparr>ckClock := rtc, ckStored := 0, ckCheckMs := 0\<rparr>))"
| "clkStep build (Check rw put ms) (r, s) = (r, clockFloorLoop rw put ms s)"

definition clkRun :: "u32 \<Rightarrow> clkEvent list \<Rightarrow> nat \<times> clkState \<Rightarrow> nat \<times> clkState" where
  "clkRun build evs rs = fold (clkStep build) evs rs"

text \<open>No RTC runs ahead: each restart finds it at or below real time.\<close>

fun rtcSlow :: "u32 \<Rightarrow> clkEvent list \<Rightarrow> nat \<times> clkState \<Rightarrow> bool" where
  "rtcSlow build [] rs \<longleftrightarrow> True"
| "rtcSlow build (e # es) rs \<longleftrightarrow> (case e of Restart dt rtc ro \<Rightarrow> rtc \<le> fst rs + dt | _ \<Rightarrow> True) \<and> rtcSlow build es (clkStep build e rs)"

definition belowReal :: "nat \<times> clkState \<Rightarrow> bool" where
  "belowReal rs \<longleftrightarrow> ckClock (snd rs) \<le> fst rs \<and> unat (cfgOr 0 (ckNvs (snd rs))) \<le> fst rs \<and> unat (ckStored (snd rs)) \<le> fst rs"

lemma cfgOr_simps [simp]: "cfgOr x None = x" "cfgOr x (Some y) = y"
  by (simp_all add: cfgOr_def)

lemma clockFloorTarget_max: "unat (clockFloorTarget a b) = max (unat a) (unat b)"
  by (simp add: clockFloorTarget_def word_less_nat_alt)

lemma clkStep_below:
  assumes "belowReal (r, s)" "unat build \<le> r" "case e of Restart dt rtc ro \<Rightarrow> rtc \<le> r + dt | _ \<Rightarrow> True"
  shows "belowReal (clkStep build e (r, s))"
proof (cases e)
  case (Restart dt rtc ro)
  then show ?thesis using assms by (auto simp: belowReal_def clockFloorBoot_def Let_def clockFloorTarget_max)
next
  case (Check rw put ms)
  have "unat (of_nat (ckClock s) :: u32) \<le> ckClock s" by (simp add: unat_of_nat)
  then show ?thesis using assms Check by (auto simp: belowReal_def clockFloorLoop_def Let_def)
qed (use assms in \<open>auto simp: belowReal_def\<close>)

lemma clkStep_real: "fst rs \<le> fst (clkStep build e rs)"
  by (cases rs; cases e) auto

lemma clkRun_real: "fst rs \<le> fst (clkRun build evs rs)"
proof (induction evs arbitrary: rs)
  case (Cons e evs)
  show ?case using order_trans [OF clkStep_real [of rs build e] Cons.IH] by (simp add: clkRun_def)
qed (simp add: clkRun_def)

text \<open>The boot clock floor never puts the clock ahead of real time: over any sequence of restarts, NTP syncs, floor checks and NVS
  failures, the clock, the persisted floor and its copy stay at or below real time, provided the firmware was built in the past
  and the hardware clock does not run ahead.\<close>

lemma clock_floor_below_real:
  assumes "belowReal (r, s)" "unat build \<le> r" "rtcSlow build evs (r, s)"
  shows "belowReal (clkRun build evs (r, s))"
  using assms
proof (induction evs arbitrary: r s)
  case (Cons e evs)
  obtain r1 s1 where n: "clkStep build e (r, s) = (r1, s1)" by fastforce
  have "belowReal (r1, s1)" using clkStep_below [OF Cons.prems(1,2), of e] Cons.prems(3) n by (cases e) auto
  moreover have "unat build \<le> r1" using clkStep_real [of "(r, s)" build e] n Cons.prems(2) by simp
  ultimately show ?case using Cons.IH [of r1 s1] Cons.prems(3) n by (simp add: clkRun_def)
qed (simp add: clkRun_def)

subsection \<open>What a power cycle loses\<close>

definition floorKept :: "nat \<Rightarrow> clkState \<Rightarrow> bool" where
  "floorKept c s \<longleftrightarrow> CLOCK_FLOOR_SANE_EPOCH \<le> unat (cfgOr 0 (ckNvs s)) \<and> c \<le> unat (cfgOr 0 (ckNvs s)) + 86400 \<and>
     unat (cfgOr 0 (ckNvs s)) \<le> unat (ckStored s)"

lemma shouldPersist_nat:
  assumes "now < 2 ^ 32" "unat stored < 2 ^ 32 - 86400"
  shows "clockFloorShouldPersist now stored \<longleftrightarrow> CLOCK_FLOOR_SANE_EPOCH \<le> now \<and> unat stored + 86400 \<le> now"
proof -
  have "unat (stored + 86400) = unat stored + 86400" using assms(2) by (subst unat_add_lem [THEN iffD1]) simp_all
  moreover have "unat (of_nat now :: u32) = now" using assms(1) by (simp add: unat_of_nat)
  ultimately show ?thesis by (simp add: clockFloorShouldPersist_def CLOCK_FLOOR_PERSIST_INTERVAL_S_def word_le_nat_alt not_less)
qed

lemma clkStep_kept:
  assumes "floorKept c s" "belowReal (r, s)" "r < 2 ^ 32 - 86400" "case e of Restart dt rtc ro \<Rightarrow> ro | _ \<Rightarrow> True"
  shows "floorKept c (snd (clkStep build e (r, s)))"
proof (cases e)
  case (Check rw put ms)
  have "ckClock s < 2 ^ 32" "unat (ckStored s) < 2 ^ 32 - 86400" using assms(2,3) by (auto simp: belowReal_def)
  from shouldPersist_nat [OF this] this show ?thesis using assms(1) Check
    by (auto simp: floorKept_def clockFloorLoop_def Let_def unat_of_nat)
qed (use assms in \<open>auto simp: floorKept_def clockFloorBoot_def Let_def\<close>)

lemma clkRun_kept:
  assumes "floorKept c s" "belowReal (r, s)" "unat build \<le> r" "rtcSlow build evs (r, s)"
    "fst (clkRun build evs (r, s)) < 2 ^ 32 - 86400" "\<forall>e \<in> set evs. case e of Restart dt rtc ro \<Rightarrow> ro | _ \<Rightarrow> True"
  shows "floorKept c (snd (clkRun build evs (r, s)))"
  using assms
proof (induction evs arbitrary: r s)
  case (Cons e evs)
  obtain r1 s1 where n: "clkStep build e (r, s) = (r1, s1)" by fastforce
  have run: "clkRun build (e # evs) (r, s) = clkRun build evs (r1, s1)" by (simp add: clkRun_def n)
  have r1: "r \<le> r1" using clkStep_real [of "(r, s)" build e] n by simp
  have "belowReal (r1, s1)" using clkStep_below [OF Cons.prems(2,3), of e] Cons.prems(4) n by (cases e) auto
  moreover have "r < 2 ^ 32 - 86400" using r1 clkRun_real [of "(r1, s1)" build evs] Cons.prems(5) run by simp
  then have "floorKept c s1" using clkStep_kept [OF Cons.prems(1,2), of e build] Cons.prems(6) n by simp
  ultimately show ?case using Cons.IH [of s1 r1] Cons.prems(3-6) r1 n run by simp
qed (simp add: clkRun_def)

text \<open>A power cycle loses at most a day: after a floor check that reaches NVS, however the device is then run, restarted or
  re-synced, every later restart that can read NVS comes up with a clock no more than a day behind the clock of that check.\<close>

lemma clock_floor_loses_a_day:
  assumes "s1 = clockFloorLoop True True ms s" "60000 < ms - ckCheckMs s" "CLOCK_FLOOR_SANE_EPOCH + 86400 \<le> ckClock s"
    and "ckStored s = cfgOr 0 (ckNvs s)" "belowReal (r, s)" "unat build \<le> r"
    and "rtcSlow build evs (r, s1)" "\<forall>e \<in> set evs. case e of Restart dt rtc ro \<Rightarrow> ro | _ \<Rightarrow> True"
    and "(r2, s2) = clkRun build evs (r, s1)" "r2 < 2 ^ 32 - 86400"
  shows "ckClock s \<le> ckClock (snd (clkStep build (Restart dt rtc True) (r2, s2))) + 86400"
proof -
  have r: "r < 2 ^ 32 - 86400" using clkRun_real [of "(r, s1)" build evs] assms(9,10) by (metis fst_conv le_less_trans)
  have b: "ckClock s < 2 ^ 32" "unat (ckStored s) < 2 ^ 32 - 86400" using assms(5) r by (auto simp: belowReal_def)
  have "floorKept (ckClock s) s1" using shouldPersist_nat [OF b] b assms(1-4)
    by (auto simp: floorKept_def clockFloorLoop_def Let_def unat_of_nat)
  moreover have "belowReal (r, s1)" using clkStep_below [OF assms(5,6), of "Check True True ms"] assms(1) by simp
  ultimately have "floorKept (ckClock s) s2" using clkRun_kept [of "ckClock s" s1 r build evs] assms(6-10) by (metis fst_conv snd_conv)
  then show ?thesis by (auto simp: floorKept_def clockFloorBoot_def Let_def clockFloorShouldApply_def clockFloorTarget_max)
qed

end
