(* ===== verification/Cell_At.thy ===== *)
theory Cell_At
  imports Shell_Config Clock_Floor
begin

text \<open>
  Talking to the modem: the fed waits of \<open>boot_wait_policy.h\<close> and the AT bus guard, and from \<open>Cellular.cpp\<close> the line reader
  \<open>cellAT\<close> and what is read with it: registration, bearer, signal, host names and the network clock.

  A serial exchange is a list of rounds: the value \<open>millis()\<close> has when the loop looks, and the bytes that have arrived since
  the round before. Bytes are characters; a terminator inside a line cuts it as it does for the C string functions.
\<close>

section \<open>Definitions\<close>

subsection \<open>Fed waits\<close>

definition WAIT_STEP_MAX_MS :: u32 where "WAIT_STEP_MAX_MS = 1000"
definition TASK_WDT_TIMEOUT_MS :: u32 where "TASK_WDT_TIMEOUT_MS = 30000"
definition WIFI_SSID_TIMEOUT_MAX_S :: int where "WIFI_SSID_TIMEOUT_MAX_S = 60"
definition WIFI_RETRIES_MAX :: int where "WIFI_RETRIES_MAX = 5"
definition WIFI_CANDIDATES_MAX :: int where "WIFI_CANDIDATES_MAX = 8"

definition waitStepMs :: "u32 \<Rightarrow> u32" where
  "waitStepMs ms = (if ms < 1 then 1 else if ms > WAIT_STEP_MAX_MS then WAIT_STEP_MAX_MS else ms)"

definition wifiSsidTimeoutMs :: "int \<Rightarrow> u32" where
  "wifiSsidTimeoutMs s0 =
     (let s = (if s0 < 1 then 1 else s0); s = (if s > WIFI_SSID_TIMEOUT_MAX_S then WIFI_SSID_TIMEOUT_MAX_S else s)
      in of_int s * 1000)"

definition wifiRetries :: "int \<Rightarrow> u8" where
  "wifiRetries r = (if r < 1 then 1 else of_int (if r > WIFI_RETRIES_MAX then WIFI_RETRIES_MAX else r))"

definition wifiConnectBudgetMs :: "int \<Rightarrow> int \<Rightarrow> int \<Rightarrow> u32" where
  "wifiConnectBudgetMs retries ssids timeoutS =
     (let n = (if ssids < 0 then 0 else ssids); n = (if n > WIFI_CANDIDATES_MAX then WIFI_CANDIDATES_MAX else n)
      in ucast (wifiRetries retries) * of_int n * wifiSsidTimeoutMs timeoutS)"

definition waitBudgetSpent :: "u32 \<Rightarrow> u32 \<Rightarrow> u32 \<Rightarrow> bool" where
  "waitBudgetSpent startMs nowMs budgetMs \<longleftrightarrow> nowMs - startMs \<ge> budgetMs"

definition waitSliceMs :: "u32 \<Rightarrow> u32 \<Rightarrow> u32 \<Rightarrow> u32" where
  "waitSliceMs startMs nowMs budgetMs =
     (let spent = nowMs - startMs in if spent \<ge> budgetMs then 0 else waitStepMs (budgetMs - spent))"

text \<open>\<open>atTake\<close>: each poll is the clock at its start and whether the mutex was taken within the slice; the result has the slices
  waited.\<close>

fun takeLoop :: "u32 \<Rightarrow> u32 \<Rightarrow> (u32 \<times> bool) list \<Rightarrow> bool \<times> u32 list" where
  "takeLoop t0 timeout [] = (False, [])"
| "takeLoop t0 timeout ((now, got) # ps) =
     (let step = waitSliceMs t0 now timeout
      in if step = 0 then (False, [])
         else if got then (True, [step])
         else let (r, ws) = takeLoop t0 timeout ps in (r, step # ws))"

definition atTake :: "u32 \<Rightarrow> u32 \<Rightarrow> (u32 \<times> bool) list \<Rightarrow> bool \<times> u32 list" where
  "atTake timeout t0 polls =
     (if timeout = 0 then (case polls of (now, got) # ps \<Rightarrow> (got, []) | [] \<Rightarrow> (False, [])) else takeLoop t0 timeout polls)"

subsection \<open>The line reader\<close>

type_synonym rounds = "(u32 \<times> string) list"

abbreviation CR :: char where "CR \<equiv> CHR 0x0D"
abbreviation LF :: char where "LF \<equiv> CHR 0x0A"

definition cstrOf :: "string \<Rightarrow> string" where
  "cstrOf s = takeWhile (\<lambda>c. c \<noteq> CHR 0x00) s"

definition isErr :: "string \<Rightarrow> bool" where
  "isErr l \<longleftrightarrow> strncmp0 l ''+CME ERROR'' 10 \<or> strncmp0 l ''+CMS ERROR'' 10"

text \<open>The inner loop over the bytes at hand: the code if the exchange is over, the line so far, the lines handed to the callback
  and the bytes left unread.\<close>

fun atBytes :: "string \<Rightarrow> string \<Rightarrow> string \<Rightarrow> int option \<times> string \<times> string list \<times> string" where
  "atBytes expect line [] = (None, line, [], [])"
| "atBytes expect line (c # cs) =
     (if c = CR then atBytes expect line cs
      else if c = LF then
        (if line = [] then atBytes expect line cs
         else let l = cstrOf line
              in if l = expect then (Some 1, line, [], cs)
                 else if l = ''ERROR'' then (Some (- 1), line, [], cs)
                 else if isErr l then (Some (- 1), line, [l], cs)
                 else let (r, ln, ls, rest) = atBytes expect [] cs in (r, ln, l # ls, rest))
      else if length line < 511 then atBytes expect (line @ [c]) cs
      else atBytes expect [] cs)"

fun cellRounds :: "string \<Rightarrow> u32 \<Rightarrow> string \<Rightarrow> rounds \<Rightarrow> int \<times> string list \<times> rounds" where
  "cellRounds expect stop line [] = (0, [], [])"
| "cellRounds expect stop line ((ms, bytes) # rs) =
     (if \<not> ms < stop then (0, [], (ms, bytes) # rs)
      else case atBytes expect line bytes of
             (Some code, ln, ls, rest) \<Rightarrow> (code, ls, (ms, rest) # rs)
           | (None, ln, ls, rest) \<Rightarrow> (let (code, ls2, rs2) = cellRounds expect stop ln rs in (code, ls @ ls2, rs2)))"

definition cellAT :: "string \<Rightarrow> u32 \<Rightarrow> u32 \<Rightarrow> rounds \<Rightarrow> int \<times> string list \<times> rounds" where
  "cellAT expect timeoutMs now rs = cellRounds expect (now + timeoutMs) [] rs"

subsection \<open>What is read with it\<close>

definition c_atoi :: "string \<Rightarrow> int" where
  "c_atoi t =
     (let (neg, u) = cSign (dropWhile isSpace t); n = int (decVal 0 (takeWhile isDigit u))
      in if neg then max (- (2 ^ 31)) (- n) else min (2 ^ 31 - 1) n)"

text \<open>The number after the first comma of a line that contains the tag.\<close>

definition fieldAfter :: "string \<Rightarrow> string \<Rightarrow> int option" where
  "fieldAfter tag l =
     (case c_strstr l tag of None \<Rightarrow> None
      | Some p \<Rightarrow> (case c_strchr p (CHR '','') of None \<Rightarrow> None | Some q \<Rightarrow> Some (c_atoi (tl q))))"

type_synonym exchange = "u32 \<times> rounds"

definition atLines :: "u32 \<Rightarrow> exchange \<Rightarrow> string list" where
  "atLines timeout e = fst (snd (cellAT ''OK'' timeout (fst e) (snd e)))"

definition regSeen :: "string \<Rightarrow> exchange \<Rightarrow> bool" where
  "regSeen tag e \<longleftrightarrow> list_ex (\<lambda>l. fieldAfter tag l = Some 1 \<or> fieldAfter tag l = Some 5) (atLines 2000 e)"

definition isRegistered :: "exchange \<Rightarrow> exchange \<Rightarrow> bool" where
  "isRegistered cereg cgreg \<longleftrightarrow> (if regSeen ''+CEREG:'' cereg then True else regSeen ''+CGREG:'' cgreg)"

definition isGprsConnectedRaw :: "exchange \<Rightarrow> bool" where
  "isGprsConnectedRaw e \<longleftrightarrow> list_ex (\<lambda>l. fieldAfter ''+CNACT:'' l = Some 1) (atLines 2000 e)"

definition csqLine :: "string \<Rightarrow> int \<Rightarrow> int" where
  "csqLine l rssi = (case c_strstr l ''+CSQ:'' of None \<Rightarrow> rssi | Some p \<Rightarrow> c_atoi (dropWhile (\<lambda>c. c = CHR '' '') (drop 5 p)))"

definition csqValue :: "exchange \<Rightarrow> int" where
  "csqValue e = fold csqLine (atLines 2000 e) 99"


subsection \<open>Host names and the network clock\<close>

text \<open>A result the modem reports after its OK: the buffered text from the tag on, once a line end follows it. \<open>t0\<close> is when the wait began.\<close>

fun urcWait :: "string \<Rightarrow> u32 \<Rightarrow> u32 \<Rightarrow> string \<Rightarrow> rounds \<Rightarrow> string option" where
  "urcWait tag t0 timeout buf [] = None"
| "urcWait tag t0 timeout buf ((ms, bytes) # rs) =
     (if \<not> ms - t0 < timeout then None
      else let b = buf @ bytes
           in case c_strstr (cstrOf b) tag of None \<Rightarrow> urcWait tag t0 timeout b rs
              | Some p \<Rightarrow> if LF \<in> set p then Some p else urcWait tag t0 timeout b rs)"

text \<open>\<open>String::indexOf(c, from)\<close>.\<close>

definition idxOf :: "string \<Rightarrow> char \<Rightarrow> nat \<Rightarrow> int" where
  "idxOf l c i = (case c_strchr (drop i l) c of None \<Rightarrow> - 1 | Some r \<Rightarrow> int (length l - length r))"

definition parseDns :: "string \<Rightarrow> string option" where
  "parseDns l =
     (let fc = idxOf l (CHR '','') 0
      in if fc > 0 \<and> CHR ''1'' \<in> set (take (nat fc - 9) (drop 9 l)) then
           let q1 = idxOf l (CHR 0x22) (nat fc); q2 = idxOf l (CHR 0x22) (nat (q1 + 1));
               q3 = idxOf l (CHR 0x22) (nat (q2 + 1)); q4 = idxOf l (CHR 0x22) (nat (q3 + 1))
           in if q3 > 0 \<and> q4 > q3 then Some (take (nat (q4 - q3) - 1) (drop (nat (q3 + 1)) l)) else None
         else None)"

definition dnsCmd :: "string \<Rightarrow> string" where
  "dnsCmd host = ''+CDNSGIP='' @ [CHR 0x22] @ host @ [CHR 0x22] @ '',2,5000''"

definition resolveHost :: "cstr \<Rightarrow> nat \<Rightarrow> bool \<Rightarrow> exchange \<Rightarrow> u32 \<Rightarrow> string option" where
  "resolveHost host outLen bus e t0 =
     (case host of None \<Rightarrow> None
      | Some h \<Rightarrow>
          (if outLen = 0 \<or> 160 \<le> length (dnsCmd h) \<or> \<not> bus then None
           else let (code, ls, rs) = cellAT ''OK'' 8000 (fst e) (snd e)
                in if code \<noteq> 1 then None
                   else case urcWait ''+CDNSGIP:'' t0 10000 [] rs of None \<Rightarrow> None
                        | Some p \<Rightarrow> map_option (\<lambda>ip. take (outLen - 1) (take 47 ip)) (parseDns (takeWhile (\<lambda>c. c \<noteq> LF) p))))"

text \<open>\<open>sscanf\<close> with \<open>%d\<close> and literal separators.\<close>

definition scanInt :: "string \<Rightarrow> (int \<times> string) option" where
  "scanInt s =
     (let (neg, u) = cSign (dropWhile isSpace s)
      in if takeWhile isDigit u = [] then None else Some (c_atoi s, dropWhile isDigit u))"

fun scanInts :: "string \<Rightarrow> string \<Rightarrow> int list option" where
  "scanInts [] s = map_option (\<lambda>(n, r). [n]) (scanInt s)"
| "scanInts (c # cs) s =
     (case scanInt s of Some (n, x # r) \<Rightarrow> if x = c then map_option ((#) n) (scanInts cs r) else None | _ \<Rightarrow> None)"

definition cclkLine :: "string \<Rightarrow> int list option \<Rightarrow> int list option" where
  "cclkLine l old =
     (case c_strstr l ''+CCLK:'' of None \<Rightarrow> old
      | Some p \<Rightarrow> (case c_strchr p (CHR 0x22) of None \<Rightarrow> old
                   | Some q \<Rightarrow> (case scanInts ''//,::'' (tl q) of None \<Rightarrow> old | Some v \<Rightarrow> Some v)))"

definition cclkEpoch :: "int list \<Rightarrow> int" where
  "cclkEpoch v = clockFloorDaysFromCivil (v ! 0 + 100 + 1900) (of_int (v ! 1 - 1 + 1)) (of_int (v ! 2)) * 86400 + v ! 3 * 3600 + v ! 4 * 60 + v ! 5"

record ntpIo =
  ntBus :: bool
  ntCfg :: exchange
  ntStart :: exchange
  ntT0 :: u32
  ntClk :: exchange

text \<open>\<open>ntpSync\<close>: the time it sets the clock to, None where it sets nothing.\<close>

definition ntpCmd :: "string \<Rightarrow> string" where
  "ntpCmd server = ''+CNTP='' @ [CHR 0x22] @ server @ [CHR 0x22] @ '',0''"

definition ntpSync :: "cstr \<Rightarrow> u32 \<Rightarrow> ntpIo \<Rightarrow> int option" where
  "ntpSync server timeoutMs io =
     (case server of None \<Rightarrow> None
      | Some sv \<Rightarrow>
          (if 128 \<le> length (ntpCmd sv) \<or> \<not> ntBus io then None
           else if fst (cellAT ''OK'' 5000 (fst (ntCfg io)) (snd (ntCfg io))) \<noteq> 1 then None
           else let (code, ls, rs) = cellAT ''OK'' 5000 (fst (ntStart io)) (snd (ntStart io))
                in if code \<noteq> 1 then None
                   else if (case urcWait ''+CNTP:'' (ntT0 io) timeoutMs [] rs of None \<Rightarrow> 0 | Some p \<Rightarrow> c_atoi (drop 6 p)) \<noteq> 1 then None
                   else case fold cclkLine (atLines 3000 (ntClk io)) None of None \<Rightarrow> None
                        | Some v \<Rightarrow> if cclkEpoch v < 1700000000 then None else Some (cclkEpoch v)))"

section \<open>The reader against whole lines\<close>

text \<open>Complete lines of a byte stream, and the scan for the line that ends an exchange.\<close>

fun cutLines :: "string \<Rightarrow> string \<Rightarrow> string list" where
  "cutLines acc [] = []"
| "cutLines acc (c # cs) = (if c = LF then acc # cutLines [] cs else cutLines (acc @ [c]) cs)"

fun scanLines :: "string \<Rightarrow> string list \<Rightarrow> int \<times> string list" where
  "scanLines expect [] = (0, [])"
| "scanLines expect (l # ls) =
     (if l = expect then (1, []) else if l = ''ERROR'' then (- 1, []) else if isErr l then (- 1, [l])
      else let (r, out) = scanLines expect ls in (r, l # out))"

definition replyLines :: "string \<Rightarrow> string list" where
  "replyLines bytes = map cstrOf (filter (\<lambda>l. l \<noteq> []) (cutLines [] (filter (\<lambda>c. c \<noteq> CR) bytes)))"

definition shortLines :: "string \<Rightarrow> string \<Rightarrow> bool" where
  "shortLines acc bytes \<longleftrightarrow> list_all (\<lambda>l. length l \<le> 511) (cutLines acc (filter (\<lambda>c. c \<noteq> CR) bytes @ [LF]))"

abbreviation noCR :: "string \<Rightarrow> string" where "noCR s \<equiv> filter (\<lambda>c. c \<noteq> CR) s"

definition refFrom :: "string \<Rightarrow> string \<Rightarrow> string \<Rightarrow> int \<times> string list" where
  "refFrom expect line bytes = scanLines expect (map cstrOf (filter (\<lambda>l. l \<noteq> []) (cutLines line (noCR bytes))))"

lemma shortLines_simps:
  "shortLines line (c # cs) \<longleftrightarrow> (if c = CR then shortLines line cs else if c = LF then length line \<le> 511 \<and> shortLines [] cs else shortLines (line @ [c]) cs)"
  by (auto simp: shortLines_def)

lemma shortLines_acc: "shortLines line bytes \<Longrightarrow> length line \<le> 511"
proof (induction bytes arbitrary: line)
  case (Cons c cs)
  then show ?case using Cons.IH [of line] Cons.IH [of "line @ [c]"] by (auto simp: shortLines_simps split: if_splits)
qed (simp add: shortLines_def)

lemma refFrom_simps:
  "refFrom expect line [] = (0, [])"
  "refFrom expect line (c # cs) =
     (if c = CR then refFrom expect line cs
      else if c = LF then (if line = [] then refFrom expect [] cs
        else let l = cstrOf line in if l = expect then (1, []) else if l = ''ERROR'' then (- 1, []) else if isErr l then (- 1, [l])
             else let (r, out) = refFrom expect [] cs in (r, l # out))
      else refFrom expect (line @ [c]) cs)"
  by (simp_all add: refFrom_def Let_def)

lemma atBytes_ref:
  assumes "shortLines line (bytes @ more')" "atBytes expect line bytes = (r, ln, ls, rest)"
  shows "case r of Some code \<Rightarrow> refFrom expect line (bytes @ more') = (code, ls)
    | None \<Rightarrow> shortLines ln more' \<and> refFrom expect line (bytes @ more') = (let (c, out) = refFrom expect ln more' in (c, ls @ out))"
  using assms
proof (induction bytes arbitrary: line r ln ls rest)
  case Nil
  then show ?case by (auto split: prod.splits)
next
  case (Cons c cs)
  consider "c = CR" | "c = LF" "line = []" | "c = LF" "line \<noteq> []" | "c \<noteq> CR" "c \<noteq> LF" by blast
  then show ?case
  proof cases
    case 3
    obtain r1 ln1 ls1 rest1 where n: "atBytes expect [] cs = (r1, ln1, ls1, rest1)" by (metis prod_cases4)
    have "shortLines [] (cs @ more')" using Cons.prems(1) 3 by (simp add: shortLines_simps)
    from Cons.IH [OF this n] show ?thesis using Cons.prems(2) 3 n
      by (auto simp: refFrom_simps Let_def split: if_splits option.splits prod.splits)
  next
    case 4
    have "length line < 511" using shortLines_acc [of "line @ [c]" "cs @ more'"] Cons.prems(1) 4 by (simp add: shortLines_simps)
    then show ?thesis using Cons.IH [of "line @ [c]" r ln ls rest] Cons.prems 4 by (cases r) (simp_all add: shortLines_simps refFrom_simps)
  qed (use Cons.IH [of line r ln ls rest] Cons.prems in \<open>cases r; auto simp: shortLines_simps refFrom_simps\<close>)+
qed

lemma cellRounds_ref:
  assumes "shortLines line (concat (map snd rs))" "list_all (\<lambda>(ms, b). ms < stop) rs" "cellRounds expect stop line rs = (code, ls, rest)"
  shows "(code, ls) = refFrom expect line (concat (map snd rs))"
  using assms
proof (induction rs arbitrary: line code ls rest)
  case (Cons e rs)
  obtain ms bytes where e: "e = (ms, bytes)" by fastforce
  obtain r ln ls1 rest1 where n: "atBytes expect line bytes = (r, ln, ls1, rest1)" by (metis prod_cases4)
  have s: "shortLines line (bytes @ concat (map snd rs))" using Cons.prems(1) e by simp
  obtain c2 ls2 r2 where m: "cellRounds expect stop ln rs = (c2, ls2, r2)" by (metis prod_cases3)
  show ?case
  proof (cases r)
    case None
    then have "shortLines ln (concat (map snd rs))" using atBytes_ref [OF s n] by simp
    from Cons.IH [OF this _ m] show ?thesis using Cons.prems(2,3) None n m e atBytes_ref [OF s n] by (auto split: prod.splits)
  next
    case (Some c)
    then show ?thesis using Cons.prems(2,3) n e atBytes_ref [OF s n] by auto
  qed
qed (simp add: refFrom_simps)

text \<open>C32: The AT line reader is independent of how the bytes arrive: while the clock does not pass the deadline and no line exceeds its
  buffer, the code and the lines it hands on are those of cutting the whole reply into lines and scanning for the terminator or an
  error line.\<close>

theorem cellAT_reference:
  assumes "list_all (\<lambda>(ms, b). ms < now + timeout) rs" "shortLines [] (concat (map snd rs))"
  shows "let (code, ls, rest) = cellAT expect timeout now rs in (code, ls) = scanLines expect (replyLines (concat (map snd rs)))"
  using cellRounds_ref [OF assms(2,1), of expect] by (auto simp: cellAT_def refFrom_def replyLines_def split: prod.splits)

theorem cellAT_reference_witness:
  "let (code, ls, rest) = cellAT ''OK'' 2000 100 [(101, CR # LF # ''+CEREG: 0,'')  , (150, ''5'' @ [CR, LF, CR, LF] @ ''O''), (160, ''K'' @ [CR, LF])]
   in (code, ls) = scanLines ''OK'' (replyLines (concat (map snd [(101 :: u32, CR # LF # ''+CEREG: 0,''), (150, ''5'' @ [CR, LF, CR, LF] @ ''O''), (160, ''K'' @ [CR, LF])])))"
proof -
  have "list_all (\<lambda>(ms, b). ms < 100 + 2000) [(101 :: u32, CR # LF # ''+CEREG: 0,''), (150, ''5'' @ [CR, LF, CR, LF] @ ''O''), (160, ''K'' @ [CR, LF])]" by simp
  moreover have "shortLines [] (concat (map snd [(101 :: u32, CR # LF # ''+CEREG: 0,''), (150, ''5'' @ [CR, LF, CR, LF] @ ''O''), (160, ''K'' @ [CR, LF])]))"
    by (simp add: shortLines_simps) (simp add: shortLines_def)
  ultimately show ?thesis by (rule cellAT_reference)
qed

text \<open>The deadline of \<open>cellAT\<close> is compared without regard to the wrap of \<open>millis()\<close>: an exchange that starts in the last \<open>timeout\<close>
  milliseconds before the wrap is over before a byte is read.\<close>

lemma cellAT_rollover:
  assumes "now + timeout < now" "now \<le> fst (hd rs)" "rs \<noteq> []"
  shows "cellAT expect timeout now rs = (0, [], rs)"
  using assms by (cases rs) (auto simp: cellAT_def)


section \<open>Waits and times\<close>

text \<open>A fed step is at most a second, far below the watchdog's 30, and never sleeps past its budget, across the wrap of the clock.\<close>

lemma waitSliceMs_fits:
  "waitSliceMs start now budget \<le> WAIT_STEP_MAX_MS \<and>
   (waitSliceMs start now budget \<noteq> 0 \<longrightarrow> unat (now - start) + unat (waitSliceMs start now budget) \<le> unat budget) \<and>
   (waitSliceMs start now budget = 0 \<longleftrightarrow> waitBudgetSpent start now budget)"
proof -
  have "unat (budget - (now - start)) = unat budget - unat (now - start)" if "now - start \<le> budget" using that by (rule unat_sub)
  then show ?thesis
    by (auto simp: waitSliceMs_def waitStepMs_def waitBudgetSpent_def WAIT_STEP_MAX_MS_def Let_def word_le_nat_alt word_less_nat_alt word_unat_eq_iff)
qed

lemma takeLoop_fed: "list_all (\<lambda>w. 0 < w \<and> w \<le> WAIT_STEP_MAX_MS) (snd (takeLoop t0 timeout polls))"
  using waitSliceMs_fits
  by (induction polls rule: takeLoop.induct) (auto simp: Let_def word_gt_0 split: prod.splits)

lemma wifiSsidTimeoutMs_range: "1000 \<le> unat (wifiSsidTimeoutMs s) \<and> unat (wifiSsidTimeoutMs s) \<le> 60000"
proof -
  define n where "n = nat (if s < 1 then 1 else if s > 60 then 60 else s)"
  have n: "1 \<le> n" "n \<le> 60" by (auto simp: n_def)
  have e: "wifiSsidTimeoutMs s = of_nat n * 1000" by (auto simp: wifiSsidTimeoutMs_def Let_def WIFI_SSID_TIMEOUT_MAX_S_def n_def)
  have "unat (of_nat n * 1000 :: u32) = n * 1000" using n by (subst unat_mult_lem [THEN iffD1]) (simp_all add: unat_of_nat)
  then show ?thesis using n e by simp
qed

text \<open>The clock the modem reports, read as UTC.\<close>

lemma cclkEpoch_utc:
  assumes "validDate (2000 + yy) mo dd"
  shows "cclkEpoch [int yy, int mo, int dd, hh, mi, ss] = int (civilDays (2000 + yy) mo dd) * 86400 + hh * 3600 + mi * 60 + ss"
proof -
  have "int yy + 100 + 1900 = int (2000 + yy)" by simp
  then show ?thesis using daysFromCivil_days [OF assms] by (simp add: cclkEpoch_def)
qed

lemma ntpSync_sane: "ntpSync server timeout io = Some t \<Longrightarrow> 1700000000 \<le> t"
  by (auto simp: ntpSync_def Let_def split: option.splits if_splits prod.splits)

end
