(* ===== verification/Cell_Link.thy ===== *)
theory Cell_Link
  imports Cell_At
begin

text \<open>
  The cellular link: \<open>cell_recover_policy.h\<close>, \<open>cell_ntp_policy.h\<close>, the bring-up, health probe and socket recovery of
  \<open>Cellular.cpp\<close>, and the network selection of \<open>CellularModule.cpp\<close>.

  What the modem answers is an input of each step: whether the bus was taken, whether AT came back, the SIM, registration and
  bearer replies. The text exchanges of the probe are those of \<open>Cell_At\<close>. Serial port, PMU pins and waits are not modelled.
\<close>

unbundle bit_operations_syntax

section \<open>Definitions\<close>

subsection \<open>Recovery steps\<close>

definition CELL_RECOVER_NONE :: u8 where "CELL_RECOVER_NONE = 0"
definition CELL_RECOVER_RECYCLE :: u8 where "CELL_RECOVER_RECYCLE = 1"
definition CELL_RECOVER_RESET :: u8 where "CELL_RECOVER_RESET = 2"
definition CELL_RECYCLE_STREAK :: u8 where "CELL_RECYCLE_STREAK = 3"
definition CELL_RESET_STREAK :: u8 where "CELL_RESET_STREAK = 6"

lemmas cell_steps = CELL_RECOVER_NONE_def CELL_RECOVER_RECYCLE_def CELL_RECOVER_RESET_def CELL_RECYCLE_STREAK_def CELL_RESET_STREAK_def

definition cellRecoverStep :: "u8 \<Rightarrow> u8" where
  "cellRecoverStep streak =
     (if streak \<ge> CELL_RESET_STREAK then CELL_RECOVER_RESET
      else if streak = CELL_RECYCLE_STREAK then CELL_RECOVER_RECYCLE else CELL_RECOVER_NONE)"

definition cellRecoverPick :: "u8 \<Rightarrow> u8" where
  "cellRecoverPick queued =
     (if queued AND CELL_RECOVER_RESET \<noteq> 0 then CELL_RECOVER_RESET
      else if queued AND CELL_RECOVER_RECYCLE \<noteq> 0 then CELL_RECOVER_RECYCLE else CELL_RECOVER_NONE)"

definition cellRecoverHere :: "nat \<Rightarrow> nat option \<Rightarrow> bool" where
  "cellRecoverHere task driver \<longleftrightarrow> driver = None \<or> driver = Some task"

subsection \<open>The link\<close>

datatype ActPhase = INIT | POWER_ON | SIM | RADIO_CFG | REGISTER | BEARER
datatype ActStatus = PENDING | DONE | FAILED
datatype SimStatus = SIM_READY | SIM_LOCKED | SIM_OTHER
datatype RegStatus = REG_OK_HOME | REG_OK_ROAMING | REG_DENIED | REG_OTHER

record cellState =
  modemAlive :: bool
  started :: bool
  linkUp :: bool
  actPhase :: ActPhase
  actDeadline :: u32
  regPollStart :: u32
  lastRegPoll :: u32
  recoverQueued :: u8
  openFails :: u8
  sendFails :: u8
  lastHealthMs :: u32
  driverTask :: "nat option"
  sockets :: "bool list"
  signalQuality :: int
  lastSignalSample :: u32

definition cellInit :: cellState where
  "cellInit = \<lparr>modemAlive = False, started = False, linkUp = False, actPhase = INIT, actDeadline = 0, regPollStart = 0, lastRegPoll = 0,
     recoverQueued = CELL_RECOVER_NONE, openFails = 0, sendFails = 0, lastHealthMs = 0, driverTask = None, sockets = [False, False],
     signalQuality = 99, lastSignalSample = 0\<rparr>"

record cellCfg =
  cfActTimeout :: u32
  cfRegTimeout :: u32
  cfPin :: string

text \<open>The inputs of one step: the clock at its start and after the modem work, the calling task, whether the AT bus was taken, and the
  modem's answers.\<close>

record modemIn =
  inNow :: u32
  inLater :: u32
  inTask :: nat
  inBus :: bool
  inResetBus :: bool
  inPmu :: bool
  inAtBack :: bool
  inWake :: bool
  inSims :: "SimStatus list"
  inUnlock :: bool
  inReg :: RegStatus
  inGprs :: bool
  inCsq :: exchange
  inCereg :: exchange
  inCgreg :: exchange
  inCnact :: exchange

definition forgetAll :: "cellState \<Rightarrow> cellState" where
  "forgetAll s = s\<lparr>sockets := map (\<lambda>b. False) (sockets s)\<rparr>"

definition modemSoftReset :: "modemIn \<Rightarrow> bool" where
  "modemSoftReset i \<longleftrightarrow> (if \<not> inPmu i then False else inAtBack i)"

definition hardReset :: "bool \<Rightarrow> modemIn \<Rightarrow> cellState \<Rightarrow> bool \<times> cellState" where
  "hardReset bus i s =
     (if \<not> bus then (False, s)
      else let ok = modemSoftReset i
           in (ok, forgetAll (s\<lparr>modemAlive := ok, started := False, recoverQueued := CELL_RECOVER_NONE\<rparr>)))"

definition socketRecoverRun :: "u8 \<Rightarrow> modemIn \<Rightarrow> cellState \<Rightarrow> cellState" where
  "socketRecoverRun step i s =
     (if step = CELL_RECOVER_RECYCLE then forgetAll s
      else if step = CELL_RECOVER_RESET then snd (hardReset True i s) else s)"

text \<open>\<open>socketRecover\<close>: on a streak that has just grown. The result has the step that ran here.\<close>

definition recoverAfter :: "u8 \<Rightarrow> modemIn \<Rightarrow> cellState \<Rightarrow> u8 \<times> cellState" where
  "recoverAfter step i s =
     (if step = CELL_RECOVER_NONE then (CELL_RECOVER_NONE, s)
      else if cellRecoverHere (inTask i) (driverTask s) then (step, socketRecoverRun step i s)
      else (CELL_RECOVER_NONE, s\<lparr>recoverQueued := recoverQueued s OR step\<rparr>))"

definition socketOpenFailed :: "modemIn \<Rightarrow> cellState \<Rightarrow> u8 \<times> cellState" where
  "socketOpenFailed i s =
     (let streak = openFails s + 1; step = cellRecoverStep streak;
          s1 = s\<lparr>openFails := (if step = CELL_RECOVER_RESET then 0 else streak), lastHealthMs := 0\<rparr>
      in recoverAfter step i s1)"

definition socketSendFailed :: "modemIn \<Rightarrow> cellState \<Rightarrow> u8 \<times> cellState" where
  "socketSendFailed i s =
     (let streak = sendFails s + 1; step = cellRecoverStep streak;
          s1 = s\<lparr>sendFails := (if step = CELL_RECOVER_RESET then 0 else streak), lastHealthMs := 0\<rparr>
      in recoverAfter step i s1)"

text \<open>\<open>ModemClient::connect\<close> and \<open>write\<close>: \<open>dns\<close> is whether the name resolved, \<open>ok\<close> whether the open succeeded; a write takes what
  the modem accepted of each chunk. The result has the recovery step that ran.\<close>

definition sockConnect :: "nat \<Rightarrow> bool \<Rightarrow> bool \<Rightarrow> modemIn \<Rightarrow> cellState \<Rightarrow> bool \<times> u8 \<times> cellState" where
  "sockConnect mux dns ok i s =
     (if \<not> dns \<or> \<not> inBus i then (False, CELL_RECOVER_NONE, s)
      else let s1 = s\<lparr>sockets := (sockets s)[mux := ok]\<rparr>
           in if ok then (True, CELL_RECOVER_NONE, s1\<lparr>openFails := 0\<rparr>) else (False, socketOpenFailed i s1))"

fun writeLoop :: "nat \<Rightarrow> nat \<Rightarrow> nat list \<Rightarrow> nat" where
  "writeLoop size' done' [] = done'"
| "writeLoop size' done' (n # ns) =
     (if \<not> done' < size' then done'
      else let chunk = (if size' - done' > 1024 then 1024 else size' - done'); w = min n chunk
           in if w = 0 then done' else writeLoop size' (done' + w) ns)"

definition sockWrite :: "nat \<Rightarrow> nat \<Rightarrow> nat list \<Rightarrow> modemIn \<Rightarrow> cellState \<Rightarrow> nat \<times> u8 \<times> cellState" where
  "sockWrite mux size' ns i s =
     (if \<not> inBus i \<or> \<not> sockets s ! mux then (0, CELL_RECOVER_NONE, s)
      else let n = writeLoop size' 0 ns
           in if n = size' then (n, CELL_RECOVER_NONE, s\<lparr>sendFails := 0\<rparr>) else (n, socketSendFailed i s))"


definition sockStop :: "nat \<Rightarrow> cellState \<Rightarrow> cellState" where
  "sockStop mux s = s\<lparr>sockets := (sockets s)[mux := False]\<rparr>"

definition cellConnected :: "cellState \<Rightarrow> bool" where
  "cellConnected s \<longleftrightarrow> started s \<and> linkUp s"

subsection \<open>Bring-up and probe\<close>

definition SIGNAL_SAMPLE_MS :: u32 where "SIGNAL_SAMPLE_MS = 30000"
definition HEALTH_PROBE_MS :: u32 where "HEALTH_PROBE_MS = 60000"

definition sampleSignalQuality :: "modemIn \<Rightarrow> cellState \<Rightarrow> cellState" where
  "sampleSignalQuality i s =
     (if lastSignalSample s \<noteq> 0 \<and> inLater i - lastSignalSample s < SIGNAL_SAMPLE_MS then s
      else s\<lparr>lastSignalSample := inLater i, signalQuality := csqValue (inCsq i)\<rparr>)"

definition powerOn :: "modemIn \<Rightarrow> cellState \<Rightarrow> bool \<times> cellState" where
  "powerOn i s =
     (if modemAlive s then (True, s)
      else if \<not> inBus i then (False, s)
      else if \<not> inWake i then (False, s) else (True, s\<lparr>modemAlive := True\<rparr>))"

text \<open>Successive reads of the SIM status.\<close>

definition readSim :: "SimStatus list \<Rightarrow> SimStatus \<times> SimStatus list" where
  "readSim xs = (case xs of [] \<Rightarrow> (SIM_OTHER, []) | x # r \<Rightarrow> (x, r))"

fun simWait :: "nat \<Rightarrow> SimStatus list \<Rightarrow> SimStatus list" where
  "simWait 0 xs = xs"
| "simWait (Suc n) xs = (let (st, r) = readSim xs in if st \<noteq> SIM_READY then simWait n r else r)"

definition simReady :: "SimStatus list \<Rightarrow> bool" where
  "simReady xs =
     (let (st, r) = readSim xs; r2 = (if st \<noteq> SIM_READY then simWait 20 r else r) in fst (readSim r2) = SIM_READY)"

definition simPhase :: "cellCfg \<Rightarrow> modemIn \<Rightarrow> bool" where
  "simPhase cfg i =
     (if cfPin cfg \<noteq> [] then
        (let (st, r) = readSim (inSims i)
         in if st = SIM_LOCKED \<and> \<not> inUnlock i then False else simReady r)
      else simReady (inSims i))"

definition pollRegistration :: "modemIn \<Rightarrow> int" where
  "pollRegistration i =
     (case inReg i of REG_OK_HOME \<Rightarrow> 1 | REG_OK_ROAMING \<Rightarrow> 1 | REG_DENIED \<Rightarrow> - 1 | REG_OTHER \<Rightarrow> 0)"

definition tickPhase :: "cellCfg \<Rightarrow> modemIn \<Rightarrow> cellState \<Rightarrow> ActStatus \<times> cellState" where
  "tickPhase cfg i s =
     (case actPhase s of
        INIT \<Rightarrow> (PENDING, s\<lparr>actDeadline := inNow i + cfActTimeout cfg, actPhase := POWER_ON\<rparr>)
      | POWER_ON \<Rightarrow>
          (let (ok, s1) = powerOn i s
           in if \<not> ok then (FAILED, s1\<lparr>actPhase := INIT\<rparr>) else (PENDING, s1\<lparr>actPhase := SIM\<rparr>))
      | SIM \<Rightarrow>
          (if \<not> inBus i \<or> \<not> simPhase cfg i then (FAILED, s\<lparr>actPhase := INIT\<rparr>) else (PENDING, s\<lparr>actPhase := RADIO_CFG\<rparr>))
      | RADIO_CFG \<Rightarrow>
          (if \<not> inBus i then (PENDING, s)
           else (PENDING, s\<lparr>regPollStart := inLater i, lastRegPoll := 0, actPhase := REGISTER\<rparr>))
      | REGISTER \<Rightarrow>
          (if lastRegPoll s \<noteq> 0 \<and> inNow i - lastRegPoll s < 1000 then (PENDING, s)
           else let s1 = s\<lparr>lastRegPoll := inNow i\<rparr>
                in if \<not> inBus i then (PENDING, s1)
                   else let r = pollRegistration i
                        in if r > 0 then (PENDING, s1\<lparr>actPhase := BEARER\<rparr>)
                           else if r < 0 \<or> inLater i - regPollStart s > cfRegTimeout cfg then (PENDING, s1\<lparr>actPhase := RADIO_CFG\<rparr>)
                           else (PENDING, s1))
      | BEARER \<Rightarrow>
          (if \<not> inBus i then (PENDING, s)
           else if \<not> inGprs i then (PENDING, s\<lparr>actPhase := RADIO_CFG\<rparr>)
           else (DONE, (sampleSignalQuality i (s\<lparr>started := True, linkUp := True, lastSignalSample := 0, recoverQueued := CELL_RECOVER_NONE\<rparr>))
                          \<lparr>actPhase := INIT\<rparr>)))"

definition deadlinePassed :: "u32 \<Rightarrow> cellState \<Rightarrow> bool" where
  "deadlinePassed now s \<longleftrightarrow> actPhase s \<noteq> INIT \<and> actDeadline s \<noteq> 0 \<and> 0 \<le> sint (now - actDeadline s)"

definition tickActivation :: "cellCfg \<Rightarrow> modemIn \<Rightarrow> cellState \<Rightarrow> ActStatus \<times> cellState" where
  "tickActivation cfg i s0 =
     (let s = s0\<lparr>driverTask := Some (inTask i)\<rparr>
      in if started s then (DONE, s\<lparr>actPhase := INIT\<rparr>)
         else if deadlinePassed (inNow i) s then (FAILED, (snd (hardReset (inResetBus i) i s))\<lparr>actPhase := INIT\<rparr>)
         else tickPhase cfg i s)"

text \<open>\<open>Cellular::loop\<close>. The result has the queued recovery step it ran.\<close>

definition cellLoop :: "modemIn \<Rightarrow> cellState \<Rightarrow> u8 \<times> cellState" where
  "cellLoop i s0 =
     (let s = s0\<lparr>driverTask := Some (inTask i)\<rparr>
      in if \<not> started s then (CELL_RECOVER_NONE, s)
         else if lastHealthMs s \<noteq> 0 \<and> inNow i - lastHealthMs s < HEALTH_PROBE_MS then (CELL_RECOVER_NONE, s)
         else let s1 = s\<lparr>lastHealthMs := inNow i\<rparr>
              in if \<not> inBus i then (CELL_RECOVER_NONE, s1)
                 else let step = cellRecoverPick (recoverQueued s1); s2 = s1\<lparr>recoverQueued := CELL_RECOVER_NONE\<rparr>;
                          s3 = (if step \<noteq> CELL_RECOVER_NONE then socketRecoverRun step i s2 else s2)
                      in (step,
                          if \<not> started s3 then s3
                          else if \<not> isRegistered (inCereg i) (inCgreg i) \<or> \<not> isGprsConnectedRaw (inCnact i)
                               then (forgetAll (s3\<lparr>linkUp := False\<rparr>))\<lparr>started := False\<rparr>
                          else sampleSignalQuality i s3))"

definition dataLinkDown :: "modemIn \<Rightarrow> cellState \<Rightarrow> cellState" where
  "dataLinkDown i s =
     (if \<not> modemAlive s \<or> \<not> inBus i then s else (forgetAll s)\<lparr>started := False, linkUp := False\<rparr>)"

subsection \<open>The network clock over the modem\<close>

definition CELL_NTP_FIRST_MS :: u32 where "CELL_NTP_FIRST_MS = 30000"
definition CELL_NTP_RETRY_MS :: u32 where "CELL_NTP_RETRY_MS = 60000"
definition CELL_NTP_MAX_MS :: u32 where "CELL_NTP_MAX_MS = 1800000"
definition CELL_NTP_NEXT_HOST_MS :: u32 where "CELL_NTP_NEXT_HOST_MS = 2000"
definition CELL_NTP_WAIT_MAX_MS :: u32 where "CELL_NTP_WAIT_MAX_MS = 15000"
definition CELL_NTP_HOST_MAX :: nat where "CELL_NTP_HOST_MAX = 111"
definition CELL_NTP_DEFAULT :: string where "CELL_NTP_DEFAULT = ''pool.ntp.org''"
definition CELL_NTP_PER_TRY :: nat where "CELL_NTP_PER_TRY = 2"

fun ntpDouble :: "nat \<Rightarrow> u32 \<Rightarrow> u32" where
  "ntpDouble 0 d = d"
| "ntpDouble (Suc k) d = (if d < CELL_NTP_MAX_MS then ntpDouble k (d * 2) else d)"

definition cellNtpDelayMs :: "u8 \<Rightarrow> u32" where
  "cellNtpDelayMs attempts =
     (if attempts = 0 then CELL_NTP_FIRST_MS
      else let d = ntpDouble (unat attempts - 1) CELL_NTP_RETRY_MS in if d < CELL_NTP_MAX_MS then d else CELL_NTP_MAX_MS)"

definition cellNtpDue :: "u32 \<Rightarrow> u32 \<Rightarrow> bool" where
  "cellNtpDue now at \<longleftrightarrow> 0 \<le> sint (now - at)"

definition cellNtpWaitMs :: "int \<Rightarrow> u32" where
  "cellNtpWaitMs seconds =
     (if seconds < 1 then 1000
      else if of_int seconds \<ge> CELL_NTP_WAIT_MAX_MS div 1000 then CELL_NTP_WAIT_MAX_MS else of_int seconds * 1000)"

text \<open>The length without one trailing root dot.\<close>

definition cellNtpHostLen :: "string \<Rightarrow> nat" where
  "cellNtpHostLen h = (let len = length h in if 1 < len \<and> h ! (len - 1) = CHR ''.'' then len - 1 else len)"

text \<open>The octet loop: whether it reached the end, the octets, how many dots and how many digits since the last one.\<close>

fun octLoop :: "nat list \<Rightarrow> nat \<Rightarrow> nat \<Rightarrow> string \<Rightarrow> bool \<times> nat list \<times> nat \<times> nat" where
  "octLoop os n d [] = (True, os, n, d)"
| "octLoop os n d (c # cs) =
     (if isDigit c then
        (let os1 = os[n := os ! n * 10 + digitVal c]
         in if d + 1 > 3 \<or> os1 ! n > 255 then (False, os1, n, d + 1) else octLoop os1 n (d + 1) cs)
      else if c = CHR ''.'' \<and> d > 0 \<and> n < 3 then octLoop os (n + 1) 0 cs
      else (False, os, n, d))"

definition cellNtpHostUsable :: "cstr \<Rightarrow> bool" where
  "cellNtpHostUsable hst =
     (case hst of None \<Rightarrow> False
      | Some h \<Rightarrow>
          (if h = [] then False
           else let len = cellNtpHostLen h; t = take len h
                in if len > CELL_NTP_HOST_MAX then False
                   else let (e, os, n, d) = octLoop [0, 0, 0, 0] 0 0 t
                        in if e \<and> n = 3 \<and> d > 0 then
                             \<not> (os ! 0 = 10 \<or> os ! 0 = 127 \<or> os ! 0 = 0) \<and> \<not> (os ! 0 = 172 \<and> 16 \<le> os ! 1 \<and> os ! 1 \<le> 31) \<and>
                             \<not> (os ! 0 = 192 \<and> os ! 1 = 168) \<and> \<not> (os ! 0 = 169 \<and> os ! 1 = 254)
                           else if 6 \<le> len then map toLower (drop (len - 6) t) \<noteq> ''.local'' else True))"

definition cellNtpSameHost :: "cstr \<Rightarrow> cstr \<Rightarrow> bool" where
  "cellNtpSameHost x y =
     (case (x, y) of (Some a, Some b) \<Rightarrow>
        (if cellNtpHostLen a \<noteq> cellNtpHostLen b then False
         else map toLower (take (cellNtpHostLen a) a) = map toLower (take (cellNtpHostLen b) b))
      | _ \<Rightarrow> False)"

fun candLoop :: "cstr list \<Rightarrow> string list \<Rightarrow> string list" where
  "candLoop [] acc = acc"
| "candLoop (h # hs) acc =
     (if \<not> length acc < CELL_NTP_PER_TRY then acc
      else if \<not> cellNtpHostUsable h then candLoop hs acc
      else if list_ex (\<lambda>a. cellNtpSameHost (Some a) h) acc then candLoop hs acc
      else candLoop hs (acc @ [the h]))"

definition cellNtpCandidates :: "cstr \<Rightarrow> cstr \<Rightarrow> string list" where
  "cellNtpCandidates server server2 = candLoop [server, server2, Some CELL_NTP_DEFAULT] []"


subsection \<open>Network selection\<close>

datatype CmPhase = STANDBY | ACTIVATING | ACTIVE

definition WIFI_DOWN_HOLD_MS :: u32 where "WIFI_DOWN_HOLD_MS = 60000"
definition WIFI_UP_HOLD_MS :: u32 where "WIFI_UP_HOLD_MS = 60000"
definition TELEMETRY_INTERVAL_MS :: u32 where "TELEMETRY_INTERVAL_MS = 60000"

text \<open>\<open>mTransport\<close> is what \<open>MQTTClient::setCellularTransport\<close> was last told, \<open>mSynced\<close> the NTP flag, \<open>mClock\<close> the last time the modem gave
  the system clock.\<close>

record cmState =
  mState :: CmPhase
  mWifiDownSince :: u32
  mWifiUpSince :: u32
  mActFails :: u8
  mLastTelemetryMs :: u32
  mNtpTries :: u8
  mNtpAt :: u32
  mNtpIdx :: nat
  mTransport :: bool
  mSynced :: bool
  mClock :: "int option"
  mCell :: cellState

definition cmInit :: cmState where
  "cmInit = \<lparr>mState = STANDBY, mWifiDownSince = 0, mWifiUpSince = 0, mActFails = 0, mLastTelemetryMs = 0, mNtpTries = 0, mNtpAt = 0, mNtpIdx = 0,
     mTransport = False, mSynced = False, mClock = None, mCell = cellInit\<rparr>"

text \<open>The inputs of one loop: the link state of WiFi and of the session, the configuration, the inputs of the modem steps it may take, and
  what an NTP exchange would bring. \<open>lpNtp\<close> maps a server and a wait to that exchange.\<close>

record loopIn =
  lpWifiUp :: bool
  lpMqtt :: bool
  lpCfg :: cellCfg
  lpStandby :: bool
  lpServer :: cstr
  lpServer2 :: cstr
  lpNtpTimeout :: int
  lpTick :: modemIn
  lpReset :: modemIn
  lpDown :: modemIn
  lpNtpIo :: ntpIo
  lpNtpDone :: u32

text \<open>What a loop publishes.\<close>

datatype cmOut = Active nat | Rssi int

definition syncClock :: "loopIn \<Rightarrow> cmState \<Rightarrow> cmState" where
  "syncClock l m =
     (let cand = cellNtpCandidates (lpServer l) (lpServer2 l); n = length cand;
          idx = (if mNtpIdx m \<ge> n then 0 else mNtpIdx m);
          res = (if n > 0 then ntpSync (Some (take CELL_NTP_HOST_MAX (cand ! idx))) (cellNtpWaitMs (lpNtpTimeout l)) (lpNtpIo l) else None)
      in case res of
           Some t \<Rightarrow> m\<lparr>mNtpIdx := idx, mSynced := True, mClock := Some t\<rparr>
         | None \<Rightarrow>
             (if idx + 1 < n then m\<lparr>mNtpIdx := idx + 1, mNtpAt := lpNtpDone l + CELL_NTP_NEXT_HOST_MS\<rparr>
              else let tries = (if mNtpTries m < 255 then mNtpTries m + 1 else mNtpTries m)
                   in m\<lparr>mNtpIdx := 0, mNtpTries := tries, mNtpAt := lpNtpDone l + cellNtpDelayMs tries\<rparr>))"

definition loopStandby :: "loopIn \<Rightarrow> cmState \<Rightarrow> cmState" where
  "loopStandby l m =
     (let now = inNow (lpTick l)
      in if \<not> lpWifiUp l then
           let since = (if mWifiDownSince m = 0 then now else mWifiDownSince m); m1 = m\<lparr>mWifiDownSince := since\<rparr>
           in if now - since \<ge> WIFI_DOWN_HOLD_MS then m1\<lparr>mState := ACTIVATING\<rparr> else m1
         else m\<lparr>mWifiDownSince := 0\<rparr>)"

definition loopActivating :: "loopIn \<Rightarrow> cmState \<Rightarrow> cmState" where
  "loopActivating l m =
     (let (st, c) = tickActivation (lpCfg l) (lpTick l) (mCell m); m1 = m\<lparr>mCell := c\<rparr>
      in case st of
           PENDING \<Rightarrow> m1
         | DONE \<Rightarrow> m1\<lparr>mActFails := 0, mState := ACTIVE, mWifiUpSince := 0, mLastTelemetryMs := 0, mNtpTries := 0, mNtpIdx := 0,
                       mNtpAt := inLater (lpTick l) + cellNtpDelayMs 0, mTransport := True\<rparr>
         | FAILED \<Rightarrow>
             (let fails = mActFails m + 1;
                  m2 = (if fails \<ge> 3 then m1\<lparr>mActFails := 0, mCell := snd (hardReset (inResetBus (lpReset l)) (lpReset l) c)\<rparr>
                        else m1\<lparr>mActFails := fails\<rparr>)
              in m2\<lparr>mWifiDownSince := inNow (lpTick l), mState := STANDBY\<rparr>))"

definition loopTelemetry :: "loopIn \<Rightarrow> cmState \<Rightarrow> cmOut list \<times> cmState" where
  "loopTelemetry l m =
     (if lpMqtt l \<and> inNow (lpTick l) - mLastTelemetryMs m \<ge> TELEMETRY_INTERVAL_MS
      then ((if mLastTelemetryMs m = 0 then [Active 1] else []) @ [Rssi (signalQuality (mCell m))], m\<lparr>mLastTelemetryMs := inNow (lpTick l)\<rparr>)
      else ([], m))"

definition loopActive :: "loopIn \<Rightarrow> cmState \<Rightarrow> cmOut list \<times> cmState" where
  "loopActive l m =
     (let now = inNow (lpTick l)
      in if \<not> modemAlive (mCell m) \<or> \<not> started (mCell m)
         then ([], m\<lparr>mTransport := False, mState := ACTIVATING, mLastTelemetryMs := 0\<rparr>)
         else let m1 = m\<lparr>mCell := snd (cellLoop (lpTick l) (mCell m))\<rparr>;
                  m2 = (if \<not> mSynced m1 \<and> cellNtpDue now (mNtpAt m1) then syncClock l m1 else m1)
              in if lpWifiUp l then
                   let since = (if mWifiUpSince m2 = 0 then now else mWifiUpSince m2); m3 = m2\<lparr>mWifiUpSince := since\<rparr>
                   in if now - since \<ge> WIFI_UP_HOLD_MS
                      then ([Active 0],
                            m3\<lparr>mTransport := False, mCell := (if lpStandby l then mCell m3 else dataLinkDown (lpDown l) (mCell m3)),
                               mState := STANDBY, mWifiDownSince := 0, mWifiUpSince := 0\<rparr>)
                      else loopTelemetry l m3
                 else loopTelemetry l (m2\<lparr>mWifiUpSince := 0\<rparr>))"

definition cmLoop :: "loopIn \<Rightarrow> cmState \<Rightarrow> cmOut list \<times> cmState" where
  "cmLoop l m =
     (case mState m of STANDBY \<Rightarrow> ([], loopStandby l m) | ACTIVATING \<Rightarrow> ([], loopActivating l m) | ACTIVE \<Rightarrow> loopActive l m)"

section \<open>Runs\<close>

text \<open>Between loops other code uses the sockets, and a shell command may reset the modem or the GNSS module power it on.\<close>

datatype sockEvent = Connect nat bool bool modemIn | Write nat nat "nat list" modemIn | Stop nat | Reset modemIn | PowerOn modemIn

fun sockStep :: "sockEvent \<Rightarrow> cellState \<Rightarrow> cellState" where
  "sockStep (Connect mux dns ok i) s = snd (snd (sockConnect mux dns ok i s))"
| "sockStep (Write mux n ns i) s = snd (snd (sockWrite mux n ns i s))"
| "sockStep (Stop mux) s = sockStop mux s"
| "sockStep (Reset i) s = snd (hardReset (inResetBus i) i s)"
| "sockStep (PowerOn i) s = snd (powerOn i s)"

inductive cmStep :: "cmState \<Rightarrow> cmState \<Rightarrow> bool" where
  Loop: "cmStep m (snd (cmLoop l m))"
| Sock: "cmStep m (m\<lparr>mCell := sockStep e (mCell m)\<rparr>)"
| WifiNtp: "cmStep m (m\<lparr>mSynced := True\<rparr>)"

inductive_cases cmStepE: "cmStep m m'"

text \<open>Runs with the history of loops: when each ran, in milliseconds since the device started counting, and whether it saw WiFi up. Loops
  follow each other within 24 days, so that the wrapping clock orders them.\<close>

definition follows :: "(nat \<times> bool) list \<Rightarrow> nat \<Rightarrow> bool" where
  "follows h t \<longleftrightarrow> h = [] \<or> (fst (last h) \<le> t \<and> t < fst (last h) + 2 ^ 31)"

inductive cmHist :: "(nat \<times> bool) list \<Rightarrow> cmState \<Rightarrow> bool" where
  Start: "cmHist [] cmInit"
| HLoop: "cmHist h m \<Longrightarrow> follows h t \<Longrightarrow> inNow (lpTick l) = of_nat t \<Longrightarrow> cmHist (h @ [(t, lpWifiUp l)]) (snd (cmLoop l m))"
| HSock: "cmHist h m \<Longrightarrow> cmHist h (m\<lparr>mCell := sockStep e (mCell m)\<rparr>)"
| HNtp: "cmHist h m \<Longrightarrow> cmHist h (m\<lparr>mSynced := True\<rparr>)"

section \<open>The offered transport\<close>

lemma syncClock_frame [simp]:
  "mState (syncClock l m) = mState m" "mTransport (syncClock l m) = mTransport m" "mCell (syncClock l m) = mCell m"
  "mWifiDownSince (syncClock l m) = mWifiDownSince m" "mWifiUpSince (syncClock l m) = mWifiUpSince m"
  by (simp_all add: syncClock_def Let_def split: option.splits)

lemma loopTelemetry_frame [simp]:
  "mState (snd (loopTelemetry l m)) = mState m" "mTransport (snd (loopTelemetry l m)) = mTransport m" "mCell (snd (loopTelemetry l m)) = mCell m"
  "mWifiDownSince (snd (loopTelemetry l m)) = mWifiDownSince m" "mWifiUpSince (snd (loopTelemetry l m)) = mWifiUpSince m"
  by (simp_all add: loopTelemetry_def)

text \<open>A started link is a link seen up.\<close>

definition linkProven :: "cellState \<Rightarrow> bool" where
  "linkProven s \<longleftrightarrow> (started s \<longrightarrow> linkUp s)"

lemmas cell_ops = hardReset_def forgetAll_def socketRecoverRun_def recoverAfter_def socketOpenFailed_def socketSendFailed_def
  sockConnect_def sockWrite_def sockStop_def powerOn_def sampleSignalQuality_def dataLinkDown_def Let_def

lemma sockStep_frame: "actPhase (sockStep e s) = actPhase s" "actDeadline (sockStep e s) = actDeadline s" "linkUp (sockStep e s) = linkUp s"
  "started (sockStep e s) \<Longrightarrow> started s"
  by (cases e; auto simp: cell_ops split: if_splits)+

lemma sockStep_proven: "linkProven s \<Longrightarrow> linkProven (sockStep e s)"
  using sockStep_frame [of e s] by (auto simp: linkProven_def)

lemma tickActivation_started:
  assumes "tickActivation cfg i s = (st, s')"
  shows "started s' \<longleftrightarrow> st = DONE" "linkProven s \<Longrightarrow> linkProven s'"
  using assms
  by (auto simp: tickActivation_def tickPhase_def cell_ops linkProven_def split: if_splits ActPhase.splits prod.splits)

lemma cellLoop_proven: "linkProven s \<Longrightarrow> linkProven (snd (cellLoop i s))"
  by (auto simp: cellLoop_def cell_ops linkProven_def split: if_splits)

lemma hardReset_proven: "linkProven s \<Longrightarrow> linkProven (snd (hardReset b i s))" and dataLinkDown_proven: "linkProven s \<Longrightarrow> linkProven (dataLinkDown i s)"
  by (auto simp: cell_ops linkProven_def)

definition transportOk :: "cmState \<Rightarrow> bool" where
  "transportOk m \<longleftrightarrow> mTransport m = (mState m = ACTIVE) \<and> linkProven (mCell m)"

lemma cmLoop_transport: "transportOk m \<Longrightarrow> transportOk (snd (cmLoop l m))"
  using tickActivation_started(2) [of "lpCfg l" "lpTick l" "mCell m"] cellLoop_proven [of "mCell m" "lpTick l"]
  by (cases "mState m") (auto simp: transportOk_def cmLoop_def loopStandby_def loopActivating_def loopActive_def Let_def hardReset_proven
      dataLinkDown_proven split: prod.splits ActStatus.splits)

lemma cmStep_transport: "cmStep m m' \<Longrightarrow> transportOk m \<Longrightarrow> transportOk m'"
  by (erule cmStepE) (simp add: cmLoop_transport, simp_all add: transportOk_def sockStep_proven)

lemma cmInit_transport: "transportOk cmInit"
  by (simp add: transportOk_def cmInit_def linkProven_def cellInit_def)

lemma reach_transport: "cmStep\<^sup>*\<^sup>* cmInit m \<Longrightarrow> transportOk m"
  by (induction rule: rtranclp_induct) (auto simp: cmInit_transport intro: cmStep_transport)


lemma cmHist_reach: "cmHist h m \<Longrightarrow> cmStep\<^sup>*\<^sup>* cmInit m"
  by (induction rule: cmHist.induct) (auto intro: rtranclp.rtrancl_into_rtrancl cmStep.intros)

section \<open>Hysteresis\<close>

text \<open>The hold timer of a direction: it started at some loop, less than the hold before the last one, and every later loop saw WiFi in
  that direction.\<close>

definition holdsSince :: "(nat \<times> bool) list \<Rightarrow> bool \<Rightarrow> u32 \<Rightarrow> bool" where
  "holdsSince h up since \<longleftrightarrow> since = 0 \<or>
     (\<exists>t0. of_nat t0 = since \<and> h \<noteq> [] \<and> t0 \<le> fst (last h) \<and> fst (last h) < t0 + 60000 \<and> (\<forall>(t, w) \<in> set h. t0 < t \<longrightarrow> w = up))"

definition ordered :: "(nat \<times> bool) list \<Rightarrow> bool" where
  "ordered h \<longleftrightarrow> (\<forall>(t, w) \<in> set h. t \<le> fst (last h))"

lemma ordered_snoc: "ordered h \<Longrightarrow> follows h t \<Longrightarrow> ordered (h @ [(t, w)])"
  by (cases "h = []") (fastforce simp: ordered_def follows_def)+

lemma since_distance:
  assumes "follows h t" "h \<noteq> []" "t0 \<le> fst (last h)" "fst (last h) < t0 + 60000"
  shows "unat (of_nat t - of_nat t0 :: u32) = t - t0" "t0 \<le> t"
proof -
  have le: "t0 \<le> t" "t - t0 < 2 ^ 32" using assms by (auto simp: follows_def)
  have e: "(of_nat t - of_nat t0 :: u32) = of_nat (t - t0)" using le(1) by (simp add: of_nat_diff)
  show "unat (of_nat t - of_nat t0 :: u32) = t - t0" unfolding e using le(2) by (simp add: unat_of_nat del: of_nat_diff)
  show "t0 \<le> t" by (rule le(1))
qed

lemma hold_new: "ordered h \<Longrightarrow> follows h t \<Longrightarrow> holdsSince (h @ [(t, w)]) up (of_nat t)"
  using ordered_snoc [of h t w] unfolding holdsSince_def by (auto simp: ordered_def intro!: exI [of _ t])

lemma hold_next:
  assumes "ordered h" "follows h t" "holdsSince h up since" "since' = (if since = 0 then of_nat t else since)"
  shows "\<not> 60000 \<le> of_nat t - since' \<Longrightarrow> holdsSince (h @ [(t, up)]) up since'"
    and "60000 \<le> of_nat t - since' \<Longrightarrow> \<forall>(u, w) \<in> set h. t < u + 60000 \<longrightarrow> w = up"
proof -
  have "(\<not> 60000 \<le> of_nat t - since' \<longrightarrow> holdsSince (h @ [(t, up)]) up since') \<and> (60000 \<le> of_nat t - since' \<longrightarrow> (\<forall>(u, w) \<in> set h. t < u + 60000 \<longrightarrow> w = up))"
  proof (cases "since = 0")
    case True
    then show ?thesis using assms hold_new [OF assms(1,2)] by simp
  next
    case False
    then obtain t0 where t0: "of_nat t0 = since" "h \<noteq> []" "t0 \<le> fst (last h)" "fst (last h) < t0 + 60000" "\<forall>(u, w) \<in> set h. t0 < u \<longrightarrow> w = up"
      using assms(3) by (auto simp: holdsSince_def)
    have d: "unat (of_nat t - since) = t - t0" "t0 \<le> t" using since_distance [OF assms(2) t0(2-4)] t0(1) by auto
    have iff: "60000 \<le> of_nat t - since \<longleftrightarrow> 60000 \<le> t - t0" using d by (simp add: word_le_nat_alt)
    have "holdsSince (h @ [(t, up)]) up since" if "\<not> 60000 \<le> t - t0"
      using that t0 d(2) unfolding holdsSince_def by (auto intro!: exI [of _ t0])
    moreover have "\<forall>(u, w) \<in> set h. t < u + 60000 \<longrightarrow> w = up" if "60000 \<le> t - t0" using that t0(5) by fastforce
    ultimately show ?thesis using False assms(4) iff by simp
  qed
  then show "\<not> 60000 \<le> of_nat t - since' \<Longrightarrow> holdsSince (h @ [(t, up)]) up since'"
    and "60000 \<le> of_nat t - since' \<Longrightarrow> \<forall>(u, w) \<in> set h. t < u + 60000 \<longrightarrow> w = up" by blast+
qed

definition holdInv :: "(nat \<times> bool) list \<Rightarrow> cmState \<Rightarrow> bool" where
  "holdInv h m \<longleftrightarrow> ordered h \<and> (mState m = STANDBY \<longrightarrow> holdsSince h False (mWifiDownSince m)) \<and>
     (mState m = ACTIVE \<longrightarrow> holdsSince h True (mWifiUpSince m))"

lemma holdsSince_0 [simp]: "holdsSince h up 0"
  by (simp add: holdsSince_def)

lemmas hold_consts = WIFI_DOWN_HOLD_MS_def WIFI_UP_HOLD_MS_def

lemma cmLoop_hold:
  assumes "holdInv h m" "follows h t" "inNow (lpTick l) = of_nat t"
  shows "holdInv (h @ [(t, lpWifiUp l)]) (snd (cmLoop l m))"
proof -
  have o: "ordered h" "ordered (h @ [(t, lpWifiUp l)])" using assms(1,2) ordered_snoc by (auto simp: holdInv_def)
  show ?thesis
  proof (cases "mState m")
    case STANDBY
    then have h: "holdsSince h False (mWifiDownSince m)" using assms(1) by (simp add: holdInv_def)
    show ?thesis using STANDBY o assms(3) hold_next(1) [OF o(1) assms(2) h refl]
      by (auto simp: holdInv_def cmLoop_def loopStandby_def Let_def hold_consts)
  next
    case ACTIVATING
    then show ?thesis using o assms(3) hold_new [OF o(1) assms(2)]
      by (auto simp: holdInv_def cmLoop_def loopActivating_def Let_def split: prod.splits ActStatus.splits)
  next
    case ACTIVE
    then have h: "holdsSince h True (mWifiUpSince m)" using assms(1) by (simp add: holdInv_def)
    show ?thesis using ACTIVE o assms(3) hold_next(1) [OF o(1) assms(2) h refl]
      by (auto simp: holdInv_def cmLoop_def loopActive_def Let_def hold_consts)
  qed
qed

lemma cmHist_hold: "cmHist h m \<Longrightarrow> holdInv h m"
proof (induction rule: cmHist.induct)
  case Start
  show ?case by (simp add: holdInv_def ordered_def cmInit_def)
qed (auto intro: cmLoop_hold, simp_all add: holdInv_def)

text \<open>C34: A brief WiFi flap moves nothing: the module starts bringing the modem up only on a loop that sees WiFi down when no loop of the last
  60 seconds saw it up, and gives the link back only on a loop that sees WiFi up when none of the last 60 seconds saw it down,
  across the wrap of the millisecond clock.\<close>

theorem cell_hysteresis:
  assumes "cmHist h m" "follows h t" "inNow (lpTick l) = of_nat t"
  shows "(mState m = STANDBY \<and> mState (snd (cmLoop l m)) \<noteq> STANDBY \<longrightarrow> \<not> lpWifiUp l \<and> (\<forall>(u, w) \<in> set h. t < u + 60000 \<longrightarrow> \<not> w)) \<and>
    (mState m = ACTIVE \<and> mState (snd (cmLoop l m)) = STANDBY \<longrightarrow> lpWifiUp l \<and> (\<forall>(u, w) \<in> set h. t < u + 60000 \<longrightarrow> w))"
proof -
  have i: "holdInv h m" using assms(1) by (rule cmHist_hold)
  then have o: "ordered h" by (simp add: holdInv_def)
  have "\<not> lpWifiUp l \<and> (\<forall>(u, w) \<in> set h. t < u + 60000 \<longrightarrow> w = False)" if "mState m = STANDBY" "mState (snd (cmLoop l m)) \<noteq> STANDBY"
  proof -
    have h: "holdsSince h False (mWifiDownSince m)" using i that(1) by (simp add: holdInv_def)
    show ?thesis using that assms(3) hold_next(2) [OF o assms(2) h refl]
      by (auto simp: cmLoop_def loopStandby_def Let_def hold_consts split: if_splits)
  qed
  moreover have "lpWifiUp l \<and> (\<forall>(u, w) \<in> set h. t < u + 60000 \<longrightarrow> w = True)" if "mState m = ACTIVE" "mState (snd (cmLoop l m)) = STANDBY"
  proof -
    have h: "holdsSince h True (mWifiUpSince m)" using i that(1) by (simp add: holdInv_def)
    show ?thesis using that assms(3) hold_next(2) [OF o assms(2) h refl]
      by (auto simp: cmLoop_def loopActive_def Let_def hold_consts split: if_splits)
  qed
  ultimately show ?thesis by simp
qed


text \<open>Inputs for concrete runs: at a given time, WiFi up or down, a modem that answers every question well.\<close>

definition goodIn :: "nat \<Rightarrow> modemIn" where
  "goodIn t = \<lparr>inNow = of_nat t, inLater = of_nat t, inTask = 1, inBus = True, inResetBus = True, inPmu = True, inAtBack = True, inWake = True,
     inSims = [SIM_READY, SIM_READY], inUnlock = True, inReg = REG_OK_HOME, inGprs = True, inCsq = (0, []), inCereg = (0, []), inCgreg = (0, []),
     inCnact = (0, [])\<rparr>"

definition goodLoop :: "nat \<Rightarrow> bool \<Rightarrow> loopIn" where
  "goodLoop t up = \<lparr>lpWifiUp = up, lpMqtt = False, lpCfg = \<lparr>cfActTimeout = 1800000, cfRegTimeout = 180000, cfPin = []\<rparr>, lpStandby = True,
     lpServer = None, lpServer2 = None, lpNtpTimeout = 60, lpTick = goodIn t, lpReset = goodIn t, lpDown = goodIn t,
     lpNtpIo = \<lparr>ntBus = False, ntCfg = (0, []), ntStart = (0, []), ntT0 = 0, ntClk = (0, [])\<rparr>, lpNtpDone = of_nat t\<rparr>"

lemmas good_defs = goodIn_def goodLoop_def

theorem cell_hysteresis_witness:
  "mState (snd (cmLoop (goodLoop 62000 False) (snd (cmLoop (goodLoop 1000 False) cmInit)))) = ACTIVATING \<and>
   list_all (\<lambda>(u, w). \<not> w) [(1000 :: nat, False)]"
proof -
  define m where "m = snd (cmLoop (goodLoop 1000 False) cmInit)"
  have h: "cmHist ([] @ [(1000, False)]) m" unfolding m_def
    using HLoop [OF Start, of 1000 "goodLoop 1000 False"] by (simp add: follows_def good_defs)
  have m: "mState m = STANDBY" "mWifiDownSince m = 1000"
    by (simp_all add: m_def cmLoop_def cmInit_def loopStandby_def good_defs hold_consts)
  then have a: "mState (snd (cmLoop (goodLoop 62000 False) m)) = ACTIVATING" by (simp add: cmLoop_def loopStandby_def good_defs hold_consts)
  show ?thesis using cell_hysteresis [OF h, of 62000 "goodLoop 62000 False"] m a unfolding m_def by (simp add: follows_def good_defs)
qed

section \<open>Bring-up ends\<close>

text \<open>Ticks of the bring-up with socket operations and resets in between; the status each tick reports.\<close>

fun actRun :: "cellCfg \<Rightarrow> (modemIn + sockEvent) list \<Rightarrow> cellState \<Rightarrow> ActStatus list" where
  "actRun cfg [] s = []"
| "actRun cfg (Inl i # es) s = (let (st, s') = tickActivation cfg i s in st # actRun cfg es s')"
| "actRun cfg (Inr e # es) s = actRun cfg es (sockStep e s)"

lemma tick_pending:
  assumes "tickActivation cfg i s = (PENDING, s')" "actPhase s \<noteq> INIT"
  shows "actPhase s' \<noteq> INIT" "actDeadline s' = actDeadline s" "\<not> deadlinePassed (inNow i) s"
  using assms
  by (auto simp: tickActivation_def tickPhase_def powerOn_def Let_def deadlinePassed_def split: if_splits ActPhase.splits prod.splits)

lemma deadline_nat:
  assumes "d \<le> t" "t < d + 2 ^ 31"
  shows "0 \<le> sint (of_nat t - of_nat d :: u32)"
proof -
  have e: "(of_nat t - of_nat d :: u32) = of_nat (t - d)" using assms(1) by (simp add: of_nat_diff)
  have "t - d < 2 ^ 31" using assms by auto
  then have "sint (of_nat (t - d) :: u32) = int (t - d)" by (simp add: signed_of_nat signed_take_bit_int_eq_self del: of_nat_diff)
  then show ?thesis unfolding e by simp
qed

lemma actRun_pending:
  assumes "actPhase s \<noteq> INIT" "set (actRun cfg es s) \<subseteq> {PENDING}" "Inl i \<in> set es" "actDeadline s = d" "d \<noteq> 0"
  shows "\<not> 0 \<le> sint (inNow i - d)"
  using assms
proof (induction cfg es s rule: actRun.induct)
  case (2 cfg j es s)
  obtain st s' where n: "tickActivation cfg j s = (st, s')" by fastforce
  then have st: "st = PENDING" using "2.prems"(2) by simp
  note p = tick_pending [OF n [unfolded st] "2.prems"(1)]
  show ?case
  proof (cases "i = j")
    case True
    then show ?thesis using p(3) "2.prems" by (simp add: deadlinePassed_def)
  next
    case False
    then show ?thesis using "2.IH" [OF n [symmetric] refl p(1)] "2.prems" n p(2) by simp
  qed
next
  case (3 cfg e es s)
  then show ?case by (simp add: sockStep_frame)
qed simp




section \<open>A modem taken for dead while the link is up\<close>

text \<open>A reset during bring-up that does not see AT come back clears \<open>modemAlive\<close> and leaves the phase; a modem that answers later is then
  registered and given a bearer without \<open>modemAlive\<close> being set again.\<close>

definition flapping :: "cmState \<Rightarrow> bool" where
  "flapping m \<longleftrightarrow> mState m = ACTIVE \<and> started (mCell m) \<and> \<not> modemAlive (mCell m)"

text \<open>From then on every other loop withdraws the transport and the next offers it again.\<close>

lemma flap_step:
  assumes "flapping m" "m1 = snd (cmLoop l m)" "m2 = snd (cmLoop l' m1)"
  shows "\<not> mTransport m1 \<and> mTransport m2 \<and> flapping m2"
  using assms by (simp add: flapping_def cmLoop_def loopActive_def loopActivating_def tickActivation_def Let_def)

fun goodRun :: "(nat \<times> bool) list \<Rightarrow> cmState \<Rightarrow> cmState" where
  "goodRun [] m = m"
| "goodRun ((t, up) # es) m = goodRun es (snd (cmLoop (goodLoop t up) m))"

lemma goodRun_reach: "cmStep\<^sup>*\<^sup>* cmInit m \<Longrightarrow> cmStep\<^sup>*\<^sup>* cmInit (goodRun es m)"
  by (induction es m rule: goodRun.induct) (auto intro: rtranclp.rtrancl_into_rtrancl cmStep.intros)

lemmas good_eval = cmLoop_def loopStandby_def loopActivating_def loopActive_def tickActivation_def tickPhase_def deadlinePassed_def powerOn_def
  simPhase_def simReady_def readSim_def pollRegistration_def sampleSignalQuality_def good_defs hold_consts cmInit_def cellInit_def Let_def

definition toRegister :: cmState where
  "toRegister = goodRun [(1000, False), (62000, False), (62010, False), (62020, False), (62030, False), (62040, False)] cmInit"

lemma toRegister_state: "mState toRegister = ACTIVATING \<and> actPhase (mCell toRegister) = REGISTER \<and> \<not> started (mCell toRegister) \<and>
    lastRegPoll (mCell toRegister) = 0 \<and> actDeadline (mCell toRegister) = 1862010"
  unfolding toRegister_def by (simp add: good_eval)

lemma flap_reachable: "\<exists>m. cmStep\<^sup>*\<^sup>* cmInit m \<and> flapping m"
proof -
  define m1 where "m1 = toRegister\<lparr>mCell := sockStep (Reset ((goodIn 62045)\<lparr>inAtBack := False\<rparr>)) (mCell toRegister)\<rparr>"
  have "cmStep\<^sup>*\<^sup>* cmInit toRegister" unfolding toRegister_def by (intro goodRun_reach) simp
  then have r: "cmStep\<^sup>*\<^sup>* cmInit m1" unfolding m1_def by (rule rtranclp.rtrancl_into_rtrancl) (rule cmStep.Sock)
  have m1: "mState m1 = ACTIVATING" "actPhase (mCell m1) = REGISTER" "\<not> started (mCell m1)" "\<not> modemAlive (mCell m1)"
    "lastRegPoll (mCell m1) = 0" "actDeadline (mCell m1) = 1862010"
    using toRegister_state by (simp_all add: m1_def hardReset_def forgetAll_def modemSoftReset_def goodIn_def)
  have "flapping (goodRun [(62050, False), (62060, False)] m1)"
    using m1 by (simp add: flapping_def cmLoop_def loopActivating_def tickActivation_def tickPhase_def deadlinePassed_def pollRegistration_def
        sampleSignalQuality_def good_defs)
  then show ?thesis using goodRun_reach [OF r] by blast
qed


section \<open>Socket recovery\<close>

text \<open>Opens of a socket in a row on the driver task, and the recovery step each earns.\<close>

fun openRun :: "modemIn \<Rightarrow> bool list \<Rightarrow> cellState \<Rightarrow> u8 list" where
  "openRun i [] s = []"
| "openRun i (ok # oks) s = (let (r, step, s') = sockConnect 0 True ok i s in step # openRun i oks s')"

text \<open>The step of a failure by its place in the streak of failures.\<close>

fun ladder :: "nat \<Rightarrow> bool list \<Rightarrow> u8 list" where
  "ladder k [] = []"
| "ladder k (True # oks) = CELL_RECOVER_NONE # ladder 0 oks"
| "ladder k (False # oks) =
     (if Suc k mod 6 = 3 then CELL_RECOVER_RECYCLE else if Suc k mod 6 = 0 then CELL_RECOVER_RESET else CELL_RECOVER_NONE) # ladder (Suc k) oks"

lemma streak_step:
  assumes "unat f = k mod 6"
  shows "cellRecoverStep (f + 1) = (if Suc k mod 6 = 3 then CELL_RECOVER_RECYCLE else if Suc k mod 6 = 0 then CELL_RECOVER_RESET else CELL_RECOVER_NONE)"
    "unat (if cellRecoverStep (f + 1) = CELL_RECOVER_RESET then 0 else f + 1) = Suc k mod 6"
proof -
  have k: "k mod 6 < 6" by simp
  have u: "unat (f + 1) = Suc (k mod 6)" using assms k by (subst unat_add_lem [THEN iffD1]) simp_all
  have le: "f + 1 \<ge> 6 \<longleftrightarrow> k mod 6 = 5" "f + 1 = 3 \<longleftrightarrow> k mod 6 = 2" using u k by (auto simp: word_le_nat_alt word_unat_eq_iff)
  have m: "Suc k mod 6 = (if k mod 6 = 5 then 0 else Suc (k mod 6))" by (simp add: mod_Suc)
  show "cellRecoverStep (f + 1) = (if Suc k mod 6 = 3 then CELL_RECOVER_RECYCLE else if Suc k mod 6 = 0 then CELL_RECOVER_RESET else CELL_RECOVER_NONE)"
    unfolding cellRecoverStep_def using le m by (auto simp: cell_steps)
  then show "unat (if cellRecoverStep (f + 1) = CELL_RECOVER_RESET then 0 else f + 1) = Suc k mod 6"
    using u m by (auto simp: cell_steps)
qed

lemma recoverAfter_frame:
  "openFails (snd (recoverAfter step i s)) = openFails s" "driverTask (snd (recoverAfter step i s)) = driverTask s"
  "cellRecoverHere (inTask i) (driverTask s) \<Longrightarrow> fst (recoverAfter step i s) = step"
  by (auto simp: recoverAfter_def socketRecoverRun_def hardReset_def forgetAll_def Let_def)

text \<open>Socket failures climb a fixed ladder: over any sequence of opens on the driver task, the third failure in a row recycles the bearer,
  the sixth power-cycles the modem and starts the count anew, every other open earns no step, and a success ends the streak.\<close>

lemma socket_recovery_ladder:
  assumes "inBus i" "cellRecoverHere (inTask i) (driverTask s)" "unat (openFails s) = k mod 6"
  shows "openRun i oks s = ladder k oks"
  using assms(2,3)
proof (induction oks arbitrary: s k)
  case (Cons ok oks)
  show ?case
  proof (cases ok)
    case True
    then show ?thesis using Cons.IH [of _ 0] Cons.prems assms(1) by (simp add: sockConnect_def Let_def)
  next
    case False
    define s1 where "s1 = s\<lparr>sockets := (sockets s)[0 := False]\<rparr>"
    note f = streak_step [OF Cons.prems(2)]
    have o: "fst (socketOpenFailed i s1) = cellRecoverStep (openFails s + 1)" "driverTask (snd (socketOpenFailed i s1)) = driverTask s"
      "unat (openFails (snd (socketOpenFailed i s1))) = Suc k mod 6"
      using f Cons.prems(1) by (simp_all add: socketOpenFailed_def Let_def recoverAfter_frame s1_def)
    have "openRun i oks (snd (socketOpenFailed i s1)) = ladder (Suc k) oks" using o Cons.prems(1) by (intro Cons.IH) simp_all
    then show ?thesis using False assms(1) o(1) f(1) by (simp add: sockConnect_def s1_def case_prod_unfold Let_def)
  qed
qed simp

text \<open>A step queued by another task is run by the first due probe that gets the bus, a reset over a recycle, and the queue is empty then.\<close>

lemma queued_step_runs:
  assumes "started s" "inBus i" "lastHealthMs s = 0"
  shows "fst (cellLoop i s) = cellRecoverPick (recoverQueued s)" "recoverQueued (snd (cellLoop i s)) = CELL_RECOVER_NONE"
  using assms by (auto simp: cellLoop_def cell_ops)

lemma queue_keeps_reset: "cellRecoverPick (q OR CELL_RECOVER_RESET) = CELL_RECOVER_RESET"
  "cellRecoverPick q = CELL_RECOVER_RESET \<Longrightarrow> cellRecoverPick (q OR step) = CELL_RECOVER_RESET"
proof -
  have "(q OR 2) AND (2 :: u8) = 2" by (simp only: word_ao_absorbs)
  then show "cellRecoverPick (q OR CELL_RECOVER_RESET) = CELL_RECOVER_RESET" by (simp add: cellRecoverPick_def cell_steps)
  assume "cellRecoverPick q = CELL_RECOVER_RESET"
  then have "q AND CELL_RECOVER_RESET \<noteq> 0" unfolding cellRecoverPick_def by (cases "q AND CELL_RECOVER_RESET \<noteq> 0") (auto simp: cell_steps split: if_splits)
  then have "q AND (2 :: u8) \<noteq> 0" unfolding cell_steps .
  then have "(q OR step) AND (2 :: u8) \<noteq> 0" by (simp only: word_ao_dist or_eq_0_iff simp_thms not_False_eq_True)
  then show "cellRecoverPick (q OR step) = CELL_RECOVER_RESET" by (simp add: cellRecoverPick_def cell_steps)
qed

section \<open>Clock servers\<close>

lemma candLoop_inv:
  assumes "list_all (\<lambda>a. cellNtpHostUsable (Some a)) acc" "length acc \<le> 2" "distinct (map (\<lambda>a. map toLower (take (cellNtpHostLen a) a)) acc)"
  shows "list_all (\<lambda>a. cellNtpHostUsable (Some a)) (candLoop hs acc) \<and> length (candLoop hs acc) \<le> 2 \<and>
    distinct (map (\<lambda>a. map toLower (take (cellNtpHostLen a) a)) (candLoop hs acc)) \<and> prefix acc (candLoop hs acc)"
  using assms
proof (induction hs acc rule: candLoop.induct)
  case (2 h hs acc)
  show ?case
  proof (cases "length acc < CELL_NTP_PER_TRY \<and> cellNtpHostUsable h \<and> \<not> list_ex (\<lambda>a. cellNtpSameHost (Some a) h) acc")
    case True
    then obtain x where h: "h = Some x" by (cases h) (auto simp: cellNtpHostUsable_def)
    have "map toLower (take (cellNtpHostLen a) a) \<noteq> map toLower (take (cellNtpHostLen x) x)" if "a \<in> set acc" for a
    proof
      assume e: "map toLower (take (cellNtpHostLen a) a) = map toLower (take (cellNtpHostLen x) x)"
      have "cellNtpHostLen y \<le> length y" for y by (simp add: cellNtpHostLen_def Let_def)
      then have "cellNtpHostLen a = cellNtpHostLen x" using arg_cong [OF e, of length] by (simp add: min_absorb2)
      then show False using e that True h by (auto simp: cellNtpSameHost_def list_ex_iff)
    qed
    then have "distinct (map (\<lambda>a. map toLower (take (cellNtpHostLen a) a)) (acc @ [x]))" using "2.prems"(3) by force
    moreover have "length (acc @ [x]) \<le> 2" "list_all (\<lambda>a. cellNtpHostUsable (Some a)) (acc @ [x])"
      using True h "2.prems" by (simp_all add: CELL_NTP_PER_TRY_def)
    ultimately show ?thesis using "2.IH"(3) True h append_prefixD [of acc "[x]"] by auto
  qed (use "2.IH"(1,2) "2.prems" in auto)
qed auto

lemma default_usable: "cellNtpHostUsable (Some CELL_NTP_DEFAULT)"
  by code_simp

text \<open>There is always a server to ask: one attempt has one or two servers, each usable over a carrier, no two the same host, and the
  configured server leads where it is usable.\<close>

lemma cellNtpCandidates_spec:
  "1 \<le> length (cellNtpCandidates a b) \<and> length (cellNtpCandidates a b) \<le> 2 \<and> list_all (\<lambda>h. cellNtpHostUsable (Some h)) (cellNtpCandidates a b) \<and>
   distinct (map (\<lambda>h. map toLower (take (cellNtpHostLen h) h)) (cellNtpCandidates a b)) \<and>
   (cellNtpHostUsable a \<longrightarrow> hd (cellNtpCandidates a b) = the a)"
proof -
  have i: "list_all (\<lambda>h. cellNtpHostUsable (Some h)) (cellNtpCandidates a b) \<and> length (cellNtpCandidates a b) \<le> 2 \<and>
    distinct (map (\<lambda>h. map toLower (take (cellNtpHostLen h) h)) (cellNtpCandidates a b))"
    unfolding cellNtpCandidates_def using candLoop_inv [of "[]" "[a, b, Some CELL_NTP_DEFAULT]"] by simp
  have "prefix [the a] (candLoop [b, Some CELL_NTP_DEFAULT] [the a])" if "cellNtpHostUsable a"
    using that candLoop_inv [of "[the a]" "[b, Some CELL_NTP_DEFAULT]"] by (cases a) (auto simp: cellNtpHostUsable_def)
  then have h: "cellNtpHostUsable a \<Longrightarrow> cellNtpCandidates a b \<noteq> [] \<and> hd (cellNtpCandidates a b) = the a"
    by (auto simp: cellNtpCandidates_def CELL_NTP_PER_TRY_def prefix_def)
  have "prefix [the b] (candLoop [Some CELL_NTP_DEFAULT] [the b])" if "cellNtpHostUsable b"
    using that candLoop_inv [of "[the b]" "[Some CELL_NTP_DEFAULT]"] by (cases b) (auto simp: cellNtpHostUsable_def)
  then have "cellNtpCandidates a b \<noteq> []" if "\<not> cellNtpHostUsable a"
    using that default_usable by (cases "cellNtpHostUsable b") (auto simp: cellNtpCandidates_def CELL_NTP_PER_TRY_def prefix_def)
  then have "cellNtpCandidates a b \<noteq> []" using h by blast
  then show ?thesis using i h by (cases "cellNtpCandidates a b") auto
qed

text \<open>The wait between attempts: 30 seconds, then a minute doubling up to half an hour; one exchange waits one to fifteen seconds.\<close>

lemma ntpDouble_value: "unat d = 60000 * 2 ^ j \<Longrightarrow> j \<le> 5 \<Longrightarrow> unat (ntpDouble k d) = 60000 * 2 ^ min (j + k) 5"
proof (induction k d arbitrary: j rule: ntpDouble.induct)
  case (2 k d)
  have "2 ^ j \<le> (2 :: nat) ^ 5" using 2(3) by (rule power_increasing) simp
  then have b: "unat d \<le> 1920000" using 2(2) by simp
  have lt: "d < CELL_NTP_MAX_MS \<longleftrightarrow> j < 5"
  proof
    assume "d < CELL_NTP_MAX_MS"
    then have "unat d < 1800000" by (simp add: CELL_NTP_MAX_MS_def word_less_nat_alt)
    then show "j < 5" using 2(2,3) by (cases "j = 5") auto
  next
    assume "j < 5"
    then have "2 ^ j \<le> (2 :: nat) ^ 4" by (intro power_increasing) simp_all
    then show "d < CELL_NTP_MAX_MS" using 2(2) by (simp add: CELL_NTP_MAX_MS_def word_less_nat_alt)
  qed
  show ?case
  proof (cases "j < 5")
    case True
    have "unat (d * 2) = 60000 * 2 ^ Suc j" using b 2(2) by (subst unat_mult_lem [THEN iffD1]) simp_all
    then show ?thesis using "2.IH" [of "Suc j"] True lt by simp
  qed (use 2 lt in simp)
qed simp

lemma cellNtpDelayMs_value:
  "unat (cellNtpDelayMs n) = (if n = 0 then 30000 else min 1800000 (60000 * 2 ^ min (unat n - 1) 5))"
proof (cases "n = 0")
  case False
  then have v: "unat (ntpDouble (unat n - 1) CELL_NTP_RETRY_MS) = 60000 * 2 ^ min (unat n - 1) 5"
    using ntpDouble_value [of CELL_NTP_RETRY_MS 0 "unat n - 1"] by (simp add: CELL_NTP_RETRY_MS_def)
  then show ?thesis using False by (auto simp: cellNtpDelayMs_def Let_def CELL_NTP_MAX_MS_def word_less_nat_alt)
qed (simp add: cellNtpDelayMs_def CELL_NTP_FIRST_MS_def)

lemma cellNtpWaitMs_range: "\<bar>s\<bar> < 2 ^ 31 \<Longrightarrow> 1000 \<le> cellNtpWaitMs s \<and> cellNtpWaitMs s \<le> 15000"
proof -
  assume s: "\<bar>s\<bar> < 2 ^ 31"
  show ?thesis
  proof (cases "1 \<le> s \<and> s < 15")
    case True
    then have n: "s = int (nat s)" "1 \<le> nat s" "nat s < 15" by auto
    define n where "n = nat s"
    note n = n [folded n_def]
    then have "unat (of_nat n * 1000 :: u32) = n * 1000" by (subst unat_mult_lem [THEN iffD1]) (simp_all add: unat_of_nat)
    then show ?thesis using n by (auto simp: cellNtpWaitMs_def CELL_NTP_WAIT_MAX_MS_def word_le_nat_alt unat_of_nat)
  next
    case False
    then have "of_int s \<ge> (15 :: u32)" if "1 \<le> s" using that s by (simp add: word_le_def uint_word_of_int)
    then show ?thesis using False by (auto simp: cellNtpWaitMs_def CELL_NTP_WAIT_MAX_MS_def)
  qed
qed

end
