(* ===== verification/Lua_Budget.thy ===== *)
theory Lua_Budget
  imports Complex_Main Cell_At
begin

text \<open>
  The time a script may take and the times it may ask for: \<open>lua_budget_policy.h\<close>, \<open>lua_budget_hooks.h\<close> and \<open>lua_timer_policy.h\<close>.
  The Lua interpreter is not modelled: what it does between two visits of the hook is an event with the time it happens at.
\<close>

section \<open>Definitions\<close>

subsection \<open>The budget\<close>

definition LUA_SCRIPT_BUDGET_MS :: u32 where "LUA_SCRIPT_BUDGET_MS = 10000"
definition LUA_NATIVE_CREDIT_MS :: u32 where "LUA_NATIVE_CREDIT_MS = 60000"

record LuaBudget =
  startMs :: u32
  creditMs :: u32
  depth :: u16
  hit :: bool

definition luaBudgetEnter :: "LuaBudget \<Rightarrow> u32 \<Rightarrow> LuaBudget" where
  "luaBudgetEnter b nowMs =
     (let b1 = (if depth b = 0 then b\<lparr>startMs := nowMs, creditMs := 0, hit := False\<rparr> else b) in b1\<lparr>depth := depth b1 + 1\<rparr>)"

definition luaBudgetCredit :: "LuaBudget \<Rightarrow> u32 \<Rightarrow> LuaBudget" where
  "luaBudgetCredit b ms =
     (if depth b = 0 then b
      else let room = LUA_NATIVE_CREDIT_MS - creditMs b; m = (if ms > room then room else ms)
           in b\<lparr>startMs := startMs b + m, creditMs := creditMs b + m\<rparr>)"

definition luaBudgetActive :: "LuaBudget \<Rightarrow> bool" where
  "luaBudgetActive b \<longleftrightarrow> depth b > 0"

definition luaBudgetTick :: "LuaBudget \<Rightarrow> u32 \<Rightarrow> bool \<times> LuaBudget" where
  "luaBudgetTick b nowMs =
     (if depth b = 0 then (False, b)
      else let h = (hit b \<or> waitBudgetSpent (startMs b) nowMs LUA_SCRIPT_BUDGET_MS) in (h, b\<lparr>hit := h\<rparr>))"

definition luaBudgetSpent :: "LuaBudget \<Rightarrow> bool" where
  "luaBudgetSpent b \<longleftrightarrow> depth b > 0 \<and> hit b"

definition luaBudgetLeave :: "LuaBudget \<Rightarrow> bool \<times> LuaBudget" where
  "luaBudgetLeave b = (if depth b = 0 then (False, b) else (hit b, b\<lparr>depth := depth b - 1\<rparr>))"

text \<open>The hook: raise an error, feed the watchdog, or neither.\<close>

datatype hookOut = Raise | Feed | Idle

definition luaBudgetHook :: "LuaBudget \<Rightarrow> u32 \<Rightarrow> hookOut \<times> LuaBudget" where
  "luaBudgetHook b now =
     (if \<not> luaBudgetActive b then (Idle, b)
      else let (r, b1) = luaBudgetTick b now in (if r then (Raise, b1) else (Feed, b1)))"

text \<open>\<open>luaBudgetSafeCall\<close>: what \<open>pcall\<close> returns to the script once the protected call is over. \<open>luaBudgetedCall\<close>: the code C sees.\<close>

definition luaBudgetSafeCall :: "LuaBudget \<Rightarrow> 'a \<Rightarrow> 'a option" where
  "luaBudgetSafeCall b results = (if luaBudgetSpent b then None else Some results)"

definition luaBudgetedEnd :: "LuaBudget \<Rightarrow> bool \<Rightarrow> bool \<times> LuaBudget" where
  "luaBudgetedEnd b pcallOk = (let (over, b1) = luaBudgetLeave b in (if over \<and> pcallOk then False else pcallOk, b1))"

text \<open>What happens during a call from C into Lua: a nested call begins or ends, the hook is visited, a binding that blocked for some
  time gives it back.\<close>

datatype luaEvent = Enter nat | Leave | Hook nat | Native nat

fun budgetStep :: "luaEvent \<Rightarrow> LuaBudget \<Rightarrow> LuaBudget" where
  "budgetStep (Enter t) b = luaBudgetEnter b (of_nat t)"
| "budgetStep Leave b = snd (luaBudgetLeave b)"
| "budgetStep (Hook t) b = snd (luaBudgetHook b (of_nat t))"
| "budgetStep (Native ms) b = luaBudgetCredit b (of_nat ms)"

definition budgetRun :: "luaEvent list \<Rightarrow> LuaBudget \<Rightarrow> LuaBudget" where
  "budgetRun es b = fold budgetStep es b"

text \<open>The events stay inside one outermost call: the nesting stays at least one and below Lua's limit.\<close>

fun inside :: "nat \<Rightarrow> luaEvent list \<Rightarrow> bool" where
  "inside d [] \<longleftrightarrow> 1 \<le> d"
| "inside d (e # es) \<longleftrightarrow> 1 \<le> d \<and> d \<le> 200 \<and> inside (case e of Enter t \<Rightarrow> d + 1 | Leave \<Rightarrow> d - 1 | _ \<Rightarrow> d) es"

subsection \<open>Timers\<close>

text \<open>A \<open>double\<close> as Lua passes it: not a number, infinite, or a rational.\<close>

datatype luaNum = NaN | PInf | MInf | Fin rat

definition LUA_TIMER_MAX_DELAY_MS :: nat where "LUA_TIMER_MAX_DELAY_MS = 30 * 24 * 3600 * 1000"

fun timerClamp :: "luaNum \<Rightarrow> nat option" where
  "timerClamp NaN = None"
| "timerClamp PInf = Some LUA_TIMER_MAX_DELAY_MS"
| "timerClamp MInf = Some 0"
| "timerClamp (Fin d) =
     (let d1 = (if d < 0 then 0 else d); d2 = (if d1 > of_nat LUA_TIMER_MAX_DELAY_MS then of_nat LUA_TIMER_MAX_DELAY_MS else d1)
      in Some (nat \<lfloor>d2\<rfloor>))"

definition luaTimerFireAt :: "u64 \<Rightarrow> luaNum \<Rightarrow> u64 option" where
  "luaTimerFireAt nowMs delayMs = map_option (\<lambda>d. nowMs + of_nat d) (timerClamp delayMs)"

definition luaTimerDue :: "u64 \<Rightarrow> u64 \<Rightarrow> bool" where
  "luaTimerDue nowMs fireAtMs \<longleftrightarrow> nowMs \<ge> fireAtMs"

section \<open>How long a call can run\<close>

definition budgetInv :: "nat \<Rightarrow> nat \<Rightarrow> LuaBudget \<Rightarrow> bool" where
  "budgetInv t0 d b \<longleftrightarrow> unat (depth b) = d \<and> creditMs b \<le> LUA_NATIVE_CREDIT_MS \<and> startMs b = of_nat t0 + creditMs b"

lemma word_room: "c \<le> n \<Longrightarrow> m \<le> n - c \<Longrightarrow> c + m \<le> (n :: u32)"
proof -
  assume c: "c \<le> n" and m: "m \<le> n - c"
  have "unat m \<le> unat n - unat c" using m unat_sub [OF c] by (simp add: word_le_nat_alt)
  then have le: "unat c + unat m \<le> unat n" using c by (simp add: word_le_nat_alt)
  then have "unat (c + m) = unat c + unat m" using order_le_less_trans [OF le unsigned_less [of n]] by (subst unat_add_lem [THEN iffD1]) simp_all
  then show "c + m \<le> n" using le by (simp add: word_le_nat_alt)
qed

lemma budgetStep_inv:
  assumes "budgetInv t0 d b" "1 \<le> d" "d \<le> 200"
  shows "budgetInv t0 (case e of Enter t \<Rightarrow> d + 1 | Leave \<Rightarrow> d - 1 | _ \<Rightarrow> d) (budgetStep e b)" "hit b \<Longrightarrow> hit (budgetStep e b)"
proof -
  have d: "depth b \<noteq> 0" "unat (depth b) = d" using assms by (auto simp: budgetInv_def)
  have up: "unat (depth b + 1) = d + 1" using d assms(3) by (subst unat_add_lem [THEN iffD1]) simp_all
  have down: "unat (depth b - 1) = d - 1" using d by (simp add: unat_minus_one)
  have credit: "creditMs (luaBudgetCredit b ms) \<le> LUA_NATIVE_CREDIT_MS \<and> startMs (luaBudgetCredit b ms) = of_nat t0 + creditMs (luaBudgetCredit b ms)" for ms
  proof -
    define room where "room = LUA_NATIVE_CREDIT_MS - creditMs b"
    define m where "m = (if ms > room then room else ms)"
    have "m \<le> room" by (auto simp: m_def)
    then have "creditMs b + m \<le> LUA_NATIVE_CREDIT_MS" using assms(1) word_room [of "creditMs b" LUA_NATIVE_CREDIT_MS m] by (simp add: room_def budgetInv_def)
    then show ?thesis using d assms(1) by (simp add: luaBudgetCredit_def Let_def room_def [symmetric] m_def [symmetric] budgetInv_def)
  qed
  show "budgetInv t0 (case e of Enter t \<Rightarrow> d + 1 | Leave \<Rightarrow> d - 1 | _ \<Rightarrow> d) (budgetStep e b)" "hit b \<Longrightarrow> hit (budgetStep e b)"
    using assms(1) d up down credit
    by (cases e; auto simp: budgetInv_def luaBudgetEnter_def luaBudgetLeave_def luaBudgetHook_def luaBudgetTick_def luaBudgetActive_def luaBudgetCredit_def Let_def
        split: prod.splits)+
qed

lemma budgetRun_inv: "budgetInv t0 d b \<Longrightarrow> inside d es \<Longrightarrow> \<exists>d' \<ge> 1. budgetInv t0 d' (budgetRun es b)"
proof (induction es arbitrary: d b)
  case (Cons e es)
  have "budgetInv t0 (case e of Enter t \<Rightarrow> d + 1 | Leave \<Rightarrow> d - 1 | _ \<Rightarrow> d) (budgetStep e b)" using Cons.prems by (intro budgetStep_inv) auto
  from Cons.IH [OF this] Cons.prems(2) show ?case by (simp add: budgetRun_def)
qed (auto simp: budgetRun_def)



text \<open>Once spent, spent until the call ends; and a caught overrun still fails the call.\<close>

lemma budget_stays_spent: "budgetInv t0 d b \<Longrightarrow> inside d es \<Longrightarrow> hit b \<Longrightarrow> hit (budgetRun es b)"
proof (induction es arbitrary: d b)
  case (Cons e es)
  have "budgetInv t0 (case e of Enter t \<Rightarrow> d + 1 | Leave \<Rightarrow> d - 1 | _ \<Rightarrow> d) (budgetStep e b)" "hit (budgetStep e b)"
    using Cons.prems budgetStep_inv [of t0 d b e] by auto
  from Cons.IH [OF this(1) _ this(2)] Cons.prems(2) show ?case by (simp add: budgetRun_def)
qed (simp add: budgetRun_def)

lemma caught_overrun_fails: "depth b \<noteq> 0 \<Longrightarrow> hit b \<Longrightarrow> \<not> fst (luaBudgetedEnd b ok)"
  by (simp add: luaBudgetedEnd_def luaBudgetLeave_def)

section \<open>When a timer fires\<close>

text \<open>A timer is refused only for NaN; it fires no earlier than its delay, a negative one at once, and no later than 30 days, whole
  milliseconds counted.\<close>

lemma timerClamp_le: "timerClamp x = Some d \<Longrightarrow> d \<le> LUA_TIMER_MAX_DELAY_MS"
proof (cases x)
  case (Fin q)
  define m :: rat where "m = of_nat LUA_TIMER_MAX_DELAY_MS"
  assume "timerClamp x = Some d"
  then have d: "d = nat \<lfloor>if (if q < 0 then 0 else q) > m then m else (if q < 0 then 0 else q)\<rfloor>" using Fin by (auto simp: Let_def m_def)
  have "(if (if q < 0 then 0 else q) > m then m else (if q < 0 then 0 else q)) \<le> m" by simp
  then have "\<lfloor>if (if q < 0 then 0 else q) > m then m else (if q < 0 then 0 else q)\<rfloor> \<le> int LUA_TIMER_MAX_DELAY_MS"
    unfolding m_def by (metis floor_mono floor_of_nat)
  then show ?thesis unfolding d by simp
qed auto

lemma luaTimer_due:
  assumes "luaTimerFireAt now x = Some f" "timerClamp x = Some d" "unat now + LUA_TIMER_MAX_DELAY_MS < 2 ^ 64"
  shows "luaTimerDue t f \<longleftrightarrow> unat now + d \<le> unat t"
proof -
  have d: "d \<le> LUA_TIMER_MAX_DELAY_MS" using timerClamp_le [OF assms(2)] .
  then have u: "unat (of_nat d :: u64) = d" by (simp add: unat_of_nat LUA_TIMER_MAX_DELAY_MS_def)
  have "f = now + of_nat d" using assms(1,2) by (simp add: luaTimerFireAt_def)
  then have "unat f = unat now + d" using d u assms(3) by (simp add: unat_add_lem [THEN iffD1])
  then show ?thesis by (simp add: luaTimerDue_def word_le_nat_alt)
qed

end
