(* ===== verification/Lua_Engine.thy ===== *)
theory Lua_Engine
  imports Lua_Budget Mqtt_Queue Mqtt_Sub Shell_Config
begin

text \<open>
  The script engine: \<open>ScriptEngine.cpp\<close>. The Lua interpreter is a parameter: \<open>prog\<close> gives the bindings a function of a Lua state calls,
  one after another, \<open>script\<close> those of a script file, None where it is missing or does not load. What the engine keeps around the
  interpreter is the model: the live state, the generation, the timers, the registered callbacks.

  A call into Lua can make the MQTT client read a message (\<open>MQTTClient::subscribe\<close> runs \<open>PubSubClient::loop\<close>), and a message can
  call Lua or reload the scripts, so the engine is a machine with an explicit stack of what is still to be done.
\<close>

section \<open>Definitions\<close>

text \<open>A reference into the registry of a Lua state: the state that made it, by the number of reloads before it, and the function.\<close>

type_synonym luaRef = "nat \<times> nat"

datatype luaCb = Reload | LuaFn luaRef u32 | Other

text \<open>What a script can call that matters here; \<open>Quiet\<close> is every binding that leaves the engine alone.\<close>

datatype luaBind = Subscribe string nat | OnEvent string nat | SetTimeout luaNum nat | Quiet

datatype work = Bind nat luaBind | Ret nat | Deliver string nat | Event string nat nat | Timers nat u64 | Create | File string

record scrState =
  gL :: "nat option"
  reloads :: nat
  generation :: u32
  timers :: "(u64 \<times> luaRef option) list"
  subs :: "luaCb subTable"
  events :: "(string \<times> luaCb) list"
  stack :: "work list"
  inbox :: "string list"
  uptime :: u64
  online :: bool
  allocs :: "bool list"
  closedRunning :: bool
  calls :: "(nat \<times> luaRef) list"

definition MAX_TIMERS :: nat where "MAX_TIMERS = 8"
definition MQTT_MAX_SUBS :: nat where "MQTT_MAX_SUBS = 16"

text \<open>\<open>destroyState\<close>; it records whether a call was running in the state it closes.\<close>

definition runs :: "nat \<Rightarrow> work \<Rightarrow> bool" where
  "runs g w \<longleftrightarrow> (case w of Bind h b \<Rightarrow> h = g | Ret h \<Rightarrow> h = g | _ \<Rightarrow> False)"

definition destroyState :: "scrState \<Rightarrow> scrState" where
  "destroyState s =
     (case gL s of None \<Rightarrow> s
      | Some g \<Rightarrow> s\<lparr>gL := None, closedRunning := closedRunning s \<or> list_ex (runs g) (stack s)\<rparr>)"

definition createState :: "scrState \<Rightarrow> scrState" where
  "createState s =
     (let s1 = s\<lparr>timers := map (\<lambda>(t, r). (t, None)) (timers s)\<rparr>
      in case allocs s1 of False # as \<Rightarrow> s1\<lparr>gL := None, allocs := as\<rparr> | as \<Rightarrow> s1\<lparr>gL := Some (reloads s1), allocs := tl as\<rparr>)"

text \<open>\<open>reload\<close>: the generation, the old state, then the new one and its scripts.\<close>

definition reload :: "scrState \<Rightarrow> scrState" where
  "reload s =
     (let s1 = destroyState (s\<lparr>generation := generation s + 1, reloads := reloads s + 1\<rparr>)
      in s1\<lparr>stack := [Create, File ''/scripts/main.lua'', File ''/scripts/rules.lua''] @ stack s1\<rparr>)"

text \<open>A budgeted call of a function of the registry: its bindings, then its return.\<close>

definition callRef :: "(luaRef \<Rightarrow> luaBind list) \<Rightarrow> luaRef \<Rightarrow> scrState \<Rightarrow> scrState" where
  "callRef prog r s =
     (case gL s of None \<Rightarrow> s
      | Some g \<Rightarrow> s\<lparr>stack := map (Bind g) (prog r) @ Ret g # stack s, calls := (g, r) # calls s\<rparr>)"

definition fire :: "(luaRef \<Rightarrow> luaBind list) \<Rightarrow> luaCb \<Rightarrow> scrState \<Rightarrow> scrState" where
  "fire prog cb s =
     (case cb of Reload \<Rightarrow> reload s
      | Other \<Rightarrow> s
      | LuaFn r gen \<Rightarrow> (if gL s = None \<or> generation s \<noteq> gen then s else callRef prog r s))"

definition setTimeout :: "luaNum \<Rightarrow> luaRef \<Rightarrow> scrState \<Rightarrow> bool \<times> scrState" where
  "setTimeout ms r s =
     (case luaTimerFireAt (uptime s) ms of None \<Rightarrow> (False, s)
      | Some tm \<Rightarrow>
          (case find (\<lambda>i. snd (timers s ! i) = None) [0 ..< MAX_TIMERS] of None \<Rightarrow> (False, s)
           | Some i \<Rightarrow> (True, s\<lparr>timers := (timers s)[i := (tm, Some r)]\<rparr>)))"

text \<open>A binding called by a script that runs in the state \<open>g\<close>.\<close>

definition bindCall :: "nat \<Rightarrow> luaBind \<Rightarrow> scrState \<Rightarrow> scrState" where
  "bindCall g b s =
     (case b of
        Subscribe tp f \<Rightarrow>
          (if \<not> mqttTopicFits (Some tp) MQTT_TOPIC_CAP then s
           else let (t, ok) = subAdd MQTT_TOPIC_CAP (Some tp) (LuaFn (g, f) (generation s)) (subs s); s1 = s\<lparr>subs := t\<rparr>
                in if \<not> ok then s
                   else if \<not> online s1 then s1
                   else case inbox s1 of [] \<Rightarrow> s1 | m # ms \<Rightarrow> s1\<lparr>inbox := ms, stack := Deliver m 0 # stack s1\<rparr>)
      | OnEvent ev f \<Rightarrow> s\<lparr>events := events s @ [(ev, LuaFn (g, f) (generation s))]\<rparr>
      | SetTimeout ms f \<Rightarrow> snd (setTimeout ms (g, f) s)
      | Quiet \<Rightarrow> s)"

text \<open>What is still to be done, one visit at a time: a callback of the subscription table; a callback of an event, among those there were
  when it was published (the list only grows); a timer slot; a script file.\<close>

definition subVisit :: "(luaRef \<Rightarrow> luaBind list) \<Rightarrow> string \<Rightarrow> nat \<Rightarrow> scrState \<Rightarrow> scrState" where
  "subVisit prog tp i s =
     (if \<not> i < count (subs s) then s
      else let s2 = s\<lparr>stack := Deliver tp (i + 1) # stack s\<rparr>; sl = slots (subs s) ! i
           in if active sl \<and> mqttSubMatches (topic sl) tp then fire prog (callback sl) s2 else s2)"

definition eventVisit :: "(luaRef \<Rightarrow> luaBind list) \<Rightarrow> string \<Rightarrow> nat \<Rightarrow> nat \<Rightarrow> scrState \<Rightarrow> scrState" where
  "eventVisit prog ev i n s =
     (if \<not> i < min n (length (events s)) then s
      else let s2 = s\<lparr>stack := Event ev (i + 1) n # stack s\<rparr>
           in if fst (events s ! i) = ev then fire prog (snd (events s ! i)) s2 else s2)"

definition timerVisit :: "(luaRef \<Rightarrow> luaBind list) \<Rightarrow> nat \<Rightarrow> u64 \<Rightarrow> scrState \<Rightarrow> scrState" where
  "timerVisit prog i upMs s =
     (if \<not> i < MAX_TIMERS then s
      else let s2 = s\<lparr>stack := Timers (i + 1) upMs # stack s\<rparr>
           in case timers s ! i of
                (tm, Some r) \<Rightarrow> (if luaTimerDue upMs tm then callRef prog r (s2\<lparr>timers := (timers s2)[i := (tm, None)]\<rparr>) else s2)
              | (tm, None) \<Rightarrow> s2)"

definition executeFile :: "(string \<Rightarrow> luaBind list option) \<Rightarrow> string \<Rightarrow> scrState \<Rightarrow> scrState" where
  "executeFile script p s =
     (case gL s of None \<Rightarrow> s
      | Some g \<Rightarrow> (case script p of None \<Rightarrow> s | Some bs \<Rightarrow> s\<lparr>stack := map (Bind g) bs @ Ret g # stack s\<rparr>))"

definition engineStep :: "(luaRef \<Rightarrow> luaBind list) \<Rightarrow> (string \<Rightarrow> luaBind list option) \<Rightarrow> scrState \<Rightarrow> scrState" where
  "engineStep prog script s =
     (case stack s of
        [] \<Rightarrow> s
      | w # ws \<Rightarrow>
          (let s1 = s\<lparr>stack := ws\<rparr>
           in case w of
                Bind g b \<Rightarrow> bindCall g b s1
              | Ret g \<Rightarrow> s1
              | Deliver tp i \<Rightarrow> subVisit prog tp i s1
              | Event ev i n \<Rightarrow> eventVisit prog ev i n s1
              | Timers i upMs \<Rightarrow> timerVisit prog i upMs s1
              | Create \<Rightarrow> createState s1
              | File p \<Rightarrow> executeFile script p s1))"

lemmas step_defs = engineStep_def subVisit_def eventVisit_def timerVisit_def executeFile_def

text \<open>The engine before \<open>begin\<close>, and what reaches it: messages arrive at any time; the main loop, once nothing is left to be done, lets
  the client deliver one, publishes an event, visits the timers, or runs a shell command: a reload, or code given with \<open>lua.exec\<close> or \<open>lua.load\<close>.\<close>

definition engineInit :: "luaCb subTable \<Rightarrow> scrState" where
  "engineInit t = \<lparr>gL = None, reloads = 0, generation = 0, timers = replicate MAX_TIMERS (0, None), subs = t, events = [],
     stack = [Create, File ''/scripts/main.lua'', File ''/scripts/rules.lua''], inbox = [], uptime = 0, online = False, allocs = [],
     closedRunning = False, calls = []\<rparr>"

inductive scrStep :: "(luaRef \<Rightarrow> luaBind list) \<Rightarrow> (string \<Rightarrow> luaBind list option) \<Rightarrow> scrState \<Rightarrow> scrState \<Rightarrow> bool"
  for prog script where
  Work: "scrStep prog script s (engineStep prog script s)"
| Arrive: "scrStep prog script s (s\<lparr>inbox := inbox s @ [m]\<rparr>)"
| Time: "upMs \<ge> uptime s \<Longrightarrow> scrStep prog script s (s\<lparr>uptime := upMs, online := c, allocs := as\<rparr>)"
| LoopMqtt: "stack s = [] \<Longrightarrow> inbox s = m # ms \<Longrightarrow> scrStep prog script s (s\<lparr>inbox := ms, stack := [Deliver m 0]\<rparr>)"
| LoopEvent: "stack s = [] \<Longrightarrow> scrStep prog script s (s\<lparr>stack := [Event ev 0 (length (events s))]\<rparr>)"
| LoopTimers: "stack s = [] \<Longrightarrow> gL s \<noteq> None \<Longrightarrow> scrStep prog script s (s\<lparr>stack := [Timers 0 (uptime s)]\<rparr>)"
| ReloadCmd: "stack s = [] \<Longrightarrow> scrStep prog script s (reload s)"
| Exec: "stack s = [] \<Longrightarrow> gL s = Some g \<Longrightarrow> scrStep prog script s (s\<lparr>stack := map (Bind g) bs @ [Ret g]\<rparr>)"
| AddSub: "stack s = [] \<Longrightarrow> cb \<in> {Reload, Other} \<Longrightarrow> scrStep prog script s (s\<lparr>subs := fst (subAdd MQTT_TOPIC_CAP tp cb (subs s))\<rparr>)"

inductive_cases scrStepE: "scrStep prog script s s'"

section \<open>Callbacks stay in their state\<close>

text \<open>A registered callback carries the generation of the state that made it; while no running state has been closed, work only runs in the
  live state, timers are of the live state, and every call so far went to the state that made the function.\<close>

definition cbOk :: "nat option \<Rightarrow> nat \<Rightarrow> luaCb \<Rightarrow> bool" where
  "cbOk live n cb \<longleftrightarrow> (case cb of LuaFn (g, f) k \<Rightarrow> k = of_nat g \<and> g \<le> n \<and> (g = n \<longrightarrow> live = Some g) | _ \<Rightarrow> True)"

definition workOk :: "nat option \<Rightarrow> work \<Rightarrow> bool" where
  "workOk live w \<longleftrightarrow> (case w of Bind g b \<Rightarrow> live = Some g | Ret g \<Rightarrow> live = Some g | _ \<Rightarrow> True)"

text \<open>Timers are of the live state unless a new one is about to be made.\<close>

definition timerOk :: "nat option \<Rightarrow> u64 \<times> luaRef option \<Rightarrow> bool" where
  "timerOk live t \<longleftrightarrow> (case snd t of None \<Rightarrow> True | Some (g, f) \<Rightarrow> live = Some g)"

definition tableOk :: "nat option \<Rightarrow> nat \<Rightarrow> luaCb subTable \<Rightarrow> bool" where
  "tableOk live n t \<longleftrightarrow> count t \<le> length (slots t) \<and> (\<forall>i < count t. cbOk live n (callback (slots t ! i)))"

definition engineInv :: "scrState \<Rightarrow> bool" where
  "engineInv s \<longleftrightarrow> generation s = of_nat (reloads s) \<and> length (timers s) = MAX_TIMERS \<and>
     (\<forall>g. gL s = Some g \<longrightarrow> g = reloads s) \<and> tableOk (gL s) (reloads s) (subs s) \<and>
     list_all (\<lambda>e. cbOk (gL s) (reloads s) (snd e)) (events s) \<and> list_all (workOk (gL s)) (stack s) \<and>
     (Create \<notin> set (stack s) \<longrightarrow> list_all (timerOk (gL s)) (timers s)) \<and>
     Create \<notin> set (tl (stack s)) \<and> (Create \<in> set (stack s) \<longrightarrow> gL s = None) \<and>
     list_all (\<lambda>(g, r). fst r = g) (calls s)"

lemma cbOk_reload: "cbOk live n cb \<Longrightarrow> cbOk None (Suc n) cb"
  by (auto simp: cbOk_def split: luaCb.splits prod.splits)

lemma cbOk_create: "cbOk None n cb \<Longrightarrow> cbOk live n cb"
  by (auto simp: cbOk_def split: luaCb.splits prod.splits)

lemma reload_inv:
  assumes "engineInv s" "Create \<notin> set (stack s)" "\<not> closedRunning (reload s)"
  shows "engineInv (reload s)"
proof -
  have no: "workOk None w" if w: "w \<in> set (stack s)" for w
  proof (rule ccontr)
    assume "\<not> workOk None w"
    then obtain g where g: "gL s = Some g" "runs g w" using w assms(1) by (cases w) (auto simp: engineInv_def workOk_def runs_def list_all_iff)
    then have "closedRunning (reload s)" using w by (auto simp: reload_def destroyState_def Let_def list_ex_iff)
    then show False using assms(3) by simp
  qed
  define s1 where "s1 = destroyState (s\<lparr>generation := generation s + 1, reloads := reloads s + 1\<rparr>)"
  have f: "gL s1 = None" "reloads s1 = Suc (reloads s)" "generation s1 = generation s + 1" "timers s1 = timers s" "subs s1 = subs s" "events s1 = events s"
    "stack s1 = stack s" "calls s1 = calls s"
    by (auto simp: s1_def destroyState_def split: option.splits)
  have r: "reload s = s1\<lparr>stack := [Create, File ''/scripts/main.lua'', File ''/scripts/rules.lua''] @ stack s\<rparr>" using f(7) by (simp add: reload_def s1_def Let_def)
  have "workOk None Create" "workOk None (File p)" for p by (simp_all add: workOk_def)
  moreover have "tableOk None (Suc (reloads s)) (subs s)" using assms(1) cbOk_reload unfolding engineInv_def tableOk_def by blast
  moreover have "list_all (\<lambda>e. cbOk None (Suc (reloads s)) (snd e)) (events s)" using assms(1) cbOk_reload unfolding engineInv_def list_all_iff by blast
  ultimately show ?thesis using assms(1,2) no unfolding engineInv_def r by (simp add: f list_all_iff)
qed

lemma callRef_inv:
  assumes "engineInv s" "Create \<notin> set (stack s)" "\<forall>g. gL s = Some g \<longrightarrow> fst r = g"
  shows "engineInv (callRef prog r s)"
proof (cases "gL s")
  case (Some g)
  have c: "Create \<notin> set (map (Bind g) (prog r) @ Ret g # stack s)" using assms(2) by auto
  then have t: "Create \<notin> set (tl (map (Bind g) (prog r) @ Ret g # stack s))" using list.set_sel(2) by (metis list.sel(2))
  have "list_all (workOk (Some g)) (map (Bind g) (prog r) @ Ret g # [])" by (simp add: list_all_iff workOk_def)
  then show ?thesis using assms Some c t by (auto simp: callRef_def engineInv_def)
qed (use assms in \<open>simp add: callRef_def\<close>)

lemma of_nat_u32_inj: "a < 2 ^ 32 \<Longrightarrow> b < 2 ^ 32 \<Longrightarrow> (of_nat a :: u32) = of_nat b \<Longrightarrow> a = b"
proof -
  assume a: "a < 2 ^ 32" "b < 2 ^ 32" and e: "(of_nat a :: u32) = of_nat b"
  have "unat (of_nat a :: u32) = a" "unat (of_nat b :: u32) = b" using a by (simp_all add: unat_of_nat)
  then show "a = b" using e by metis
qed

lemma fire_inv:
  assumes "engineInv s" "Create \<notin> set (stack s)" "cbOk (gL s) (reloads s) cb" "reloads s < 2 ^ 32" "\<not> closedRunning (fire prog cb s)"
  shows "engineInv (fire prog cb s)"
proof (cases cb)
  case Reload
  then show ?thesis using assms reload_inv by (simp add: fire_def)
next
  case (LuaFn r k)
  obtain g f where r: "r = (g, f)" by fastforce
  have "gL s = Some g" if "generation s = k"
  proof -
    have k: "k = of_nat g" "g \<le> reloads s" using assms(3) LuaFn r by (auto simp: cbOk_def)
    have e: "(of_nat (reloads s) :: u32) = of_nat g" using that k(1) assms(1) unfolding engineInv_def by metis
    have "reloads s = g" by (rule of_nat_u32_inj [OF assms(4) le_less_trans [OF k(2) assms(4)] e])
    then show ?thesis using assms(3) LuaFn r by (simp add: cbOk_def)
  qed
  then show ?thesis using assms(1,2) LuaFn r callRef_inv [of s r prog] by (auto simp: fire_def)
qed (use assms in \<open>simp add: fire_def\<close>)


lemma stack_inv: "engineInv s \<Longrightarrow> Create \<notin> set (stack s) \<Longrightarrow> list_all (workOk (gL s)) ws \<Longrightarrow> Create \<notin> set ws \<Longrightarrow> engineInv (s\<lparr>stack := ws\<rparr>)"
  by (cases ws) (auto simp: engineInv_def)

lemma create_inv:
  assumes "engineInv s" "stack s = Create # ws"
  shows "engineInv (createState (s\<lparr>stack := ws\<rparr>))"
proof -
  have i: "gL s = None" "Create \<notin> set ws" "tableOk None (reloads s) (subs s)" "list_all (\<lambda>e. cbOk None (reloads s) (snd e)) (events s)"
    "list_all (workOk None) ws"
    using assms by (auto simp: engineInv_def)
  have w: "workOk None w \<Longrightarrow> workOk live w" for live w by (cases w) (auto simp: workOk_def)
  have t: "tableOk live (reloads s) (subs s)" "list_all (\<lambda>e. cbOk live (reloads s) (snd e)) (events s)" "list_all (workOk live) ws" for live
    using i cbOk_create w unfolding tableOk_def list_all_iff by blast+
  have tm: "list_all (timerOk live) (map (\<lambda>(t, r). (t, None)) (timers s))" for live
    by (auto simp: list_all_iff timerOk_def)
  have "Create \<notin> set (tl ws)" using i(2) by (metis list.set_sel(2) tl_Nil)
  then show ?thesis using assms i(2) t tm unfolding createState_def Let_def engineInv_def by (auto split: list.splits bool.splits)
qed

lemma subAdd_table: "tableOk live n t \<Longrightarrow> cbOk live n cb \<Longrightarrow> tableOk live n (fst (subAdd cap tp cb t))"
  by (auto simp: tableOk_def subAdd_def subCapacity_def nth_list_update less_Suc_eq split: option.splits)

lemma timer_inv:
  assumes "engineInv s" "Create \<notin> set (stack s)" "timerOk (gL s) e"
  shows "engineInv (s\<lparr>timers := (timers s)[i := e]\<rparr>)"
  using assms set_update_subset_insert [of "timers s" i e] by (auto simp: engineInv_def list_all_iff)

lemma bindCall_inv:
  assumes "engineInv s" "Create \<notin> set (stack s)" "gL s = Some g"
  shows "engineInv (bindCall g b s)"
proof -
  have g: "cbOk (gL s) (reloads s) (LuaFn (g, f) (generation s))" for f using assms by (auto simp: engineInv_def cbOk_def)
  show ?thesis
  proof (cases b)
    case (Subscribe tp f)
    have t: "tableOk (gL s) (reloads s) (fst (subAdd MQTT_TOPIC_CAP (Some tp) (LuaFn (g, f) (generation s)) (subs s)))"
      using assms(1) g by (intro subAdd_table) (auto simp: engineInv_def)
    have s1: "engineInv (s\<lparr>subs := fst (subAdd MQTT_TOPIC_CAP (Some tp) (LuaFn (g, f) (generation s)) (subs s))\<rparr>)"
      using assms(1) t by (simp add: engineInv_def)
    have "engineInv (s\<lparr>subs := t', inbox := ms, stack := Deliver m 0 # stack s\<rparr>)"
      if "engineInv (s\<lparr>subs := t'\<rparr>)" for t' ms m
      using that assms(2) by (auto simp: engineInv_def workOk_def)
    then show ?thesis using Subscribe assms(1) s1 by (auto simp: bindCall_def Let_def split: prod.splits list.splits)
  next
    case (SetTimeout ms f)
    show ?thesis using SetTimeout assms timer_inv [OF assms(1,2)]
      by (auto simp: bindCall_def setTimeout_def timerOk_def split: option.splits)
  qed (use assms g in \<open>auto simp: bindCall_def engineInv_def\<close>)
qed

lemma fire_closed: "closedRunning s \<Longrightarrow> closedRunning (fire prog cb s)"
  by (auto simp: fire_def reload_def destroyState_def callRef_def Let_def split: luaCb.splits option.splits)

lemma engineStep_inv:
  assumes "engineInv s" "reloads s < 2 ^ 32" "\<not> closedRunning (engineStep prog script s)"
  shows "engineInv (engineStep prog script s)"
proof (cases "stack s")
  case (Cons w ws)
  show ?thesis
  proof (cases "w = Create")
    case True
    then show ?thesis using create_inv [OF assms(1)] Cons by (simp add: step_defs)
  next
    case False
    then have nc: "Create \<notin> set (stack s)" using assms(1) Cons by (auto simp: engineInv_def)
    have wk: "workOk (gL s) w" "list_all (workOk (gL s)) ws" using assms(1) Cons by (auto simp: engineInv_def)
    have p: "engineInv (s\<lparr>stack := v # ws\<rparr>)" "engineInv (s\<lparr>stack := ws\<rparr>)" if "workOk (gL s) v" "v \<noteq> Create" for v
      using stack_inv [OF assms(1) nc] wk(2) nc Cons that by auto
    have sub: "cbOk (gL s) (reloads s) (callback (slots (subs s) ! i))" if "i < count (subs s)" for i
      using assms(1) that by (auto simp: engineInv_def tableOk_def)
    have ev: "cbOk (gL s) (reloads s) (snd (events s ! i))" if "i < length (events s)" for i
      using assms(1) that by (auto simp: engineInv_def list_all_length)
    have tm: "timerOk (gL s) (timers s ! i)" if "i < MAX_TIMERS" for i
      using assms(1) nc that by (auto simp: engineInv_def list_all_length)
    show ?thesis
    proof (cases w)
      case (Bind g b)
      then show ?thesis using bindCall_inv [of "s\<lparr>stack := ws\<rparr>" g b] p(2) [of w] wk(1) nc Cons by (simp add: step_defs workOk_def)
    next
      case (Ret g)
      then show ?thesis using p(2) [of w] wk(1) Cons by (simp add: step_defs)
    next
      case (Deliver tp i)
      have v: "engineInv (s\<lparr>stack := Deliver tp (i + 1) # ws\<rparr>)" using p(1) [of "Deliver tp (i + 1)"] by (simp add: workOk_def)
      show ?thesis using Deliver Cons v p(2) [of w] wk(1) False assms(2,3) nc sub [of i]
          fire_inv [OF v, of "callback (slots (subs s) ! i)" prog]
        by (auto simp: step_defs Let_def)
    next
      case (Event e i n)
      have v: "engineInv (s\<lparr>stack := Event e (i + 1) n # ws\<rparr>)" using p(1) [of "Event e (i + 1) n"] by (simp add: workOk_def)
      show ?thesis using Event Cons v p(2) [of w] wk(1) False assms(2,3) nc ev [of i]
          fire_inv [OF v, of "snd (events s ! i)" prog]
        by (auto simp: step_defs Let_def)
    next
      case (Timers i ms)
      define s2 where "s2 = s\<lparr>stack := Timers (i + 1) ms # ws\<rparr>"
      have v: "engineInv s2" using p(1) [of "Timers (i + 1) ms"] by (simp add: workOk_def s2_def)
      have n2: "Create \<notin> set (stack s2)" using nc Cons by (simp add: s2_def)
      obtain tt r where e: "timers s ! i = (tt, r)" by fastforce
      have "engineInv (callRef prog q (s2\<lparr>timers := (timers s)[i := (tt, None)]\<rparr>))" if "i < MAX_TIMERS" "r = Some q" for q
      proof -
        have "engineInv (s2\<lparr>timers := (timers s)[i := (tt, None)]\<rparr>)"
          using timer_inv [OF v n2, of "(tt, None)" i] by (simp add: timerOk_def s2_def)
        moreover have "\<forall>g. gL s = Some g \<longrightarrow> fst q = g" using tm [OF that(1)] e that(2) by (auto simp: timerOk_def)
        ultimately show ?thesis using n2 by (intro callRef_inv) (auto simp: s2_def)
      qed
      then show ?thesis using Timers Cons v p(2) [of w] wk(1) False e by (auto simp: step_defs Let_def s2_def split: option.splits)
    next
      case (File f)
      have "engineInv (s\<lparr>stack := map (Bind g) bs @ Ret g # ws\<rparr>)" if "gL s = Some g" for g bs
      proof (rule stack_inv [OF assms(1) nc])
        have "list_all (workOk (gL s)) (map (Bind g) bs)" "workOk (gL s) (Ret g)" using that by (simp_all add: list_all_iff workOk_def)
        then show "list_all (workOk (gL s)) (map (Bind g) bs @ Ret g # ws)" using wk(2) by simp
        show "Create \<notin> set (map (Bind g) bs @ Ret g # ws)" using nc Cons by auto
      qed
      then show ?thesis using File Cons p(2) [of w] wk(1) False by (auto simp: step_defs Let_def split: option.splits)
    qed (use False in simp)
  qed
qed (use assms in \<open>simp add: step_defs\<close>)

lemma engineStep_mono:
  "closedRunning s \<Longrightarrow> closedRunning (engineStep prog script s)" "reloads s \<le> reloads (engineStep prog script s)"
  by (auto simp: step_defs bindCall_def setTimeout_def createState_def fire_def reload_def destroyState_def callRef_def Let_def
      split: list.splits work.splits luaBind.splits luaCb.splits option.splits prod.splits bool.splits)

lemma reload_mono: "closedRunning s \<Longrightarrow> closedRunning (reload s)" "reloads s \<le> reloads (reload s)"
  by (auto simp: reload_def destroyState_def Let_def split: option.splits)

lemma scrStep_mono:
  "scrStep prog script s s' \<Longrightarrow> closedRunning s \<Longrightarrow> closedRunning s'" "scrStep prog script s s' \<Longrightarrow> reloads s \<le> reloads s'"
  using engineStep_mono reload_mono by (auto elim!: scrStepE)

lemma scrStep_inv:
  assumes "scrStep prog script s s'" "engineInv s" "reloads s < 2 ^ 32" "\<not> closedRunning s'"
  shows "engineInv s'"
  using assms(1)
proof (cases rule: scrStep.cases)
  case Work
  then show ?thesis using engineStep_inv assms by blast
next
  case ReloadCmd
  then show ?thesis using reload_inv assms by simp
next
  case (AddSub cb tp)
  then have "cbOk (gL s) (reloads s) cb" by (auto simp: cbOk_def)
  then show ?thesis using AddSub assms(2) subAdd_table by (auto simp: engineInv_def)
next
  case (Exec g bs)
  have "list_all (workOk (gL s)) (map (Bind g) bs @ [Ret g])" using Exec by (simp add: list_all_iff workOk_def)
  moreover have "Create \<notin> set (map (Bind g) bs @ [Ret g])" by auto
  ultimately show ?thesis using stack_inv [OF assms(2)] Exec by simp
qed (use assms(2) in \<open>auto simp: engineInv_def workOk_def\<close>)

lemma engineInit_inv: "count t = 0 \<Longrightarrow> engineInv (engineInit t)"
  by (simp add: engineInv_def engineInit_def tableOk_def workOk_def timerOk_def list_all_iff)

lemma reach_inv:
  assumes "(scrStep prog script)\<^sup>*\<^sup>* (engineInit t) s" "count t = 0" "reloads s < 2 ^ 32" "\<not> closedRunning s"
  shows "engineInv s"
  using assms
proof (induction rule: rtranclp_induct)
  case base
  then show ?case by (simp add: engineInit_inv)
next
  case (step y z)
  have "reloads y < 2 ^ 32" "\<not> closedRunning y" using scrStep_mono [OF step(2)] step.prems by auto
  then show ?case using scrStep_inv [OF step(2)] step by blast
qed

text \<open>C37: Script callbacks stay in their Lua state: whatever the scripts register, in whatever order messages, events, timers and reloads come,
  every call goes to the Lua state that made the function, a callback of an earlier generation is never called, as long as no reload
  has closed a state in which a call was running (and there were fewer than 2^32 reloads).\<close>

theorem script_calls_in_own_state:
  assumes "(scrStep prog script)\<^sup>*\<^sup>* (engineInit (subInit MQTT_MAX_SUBS Other)) s" "reloads s < 2 ^ 32" "\<not> closedRunning s"
  shows "\<forall>(g, r) \<in> set (calls s). fst r = g"
  using reach_inv [OF assms(1) _ assms(2,3)] by (simp add: engineInv_def list_all_iff subInit_def)

section \<open>What reloading breaks\<close>

text \<open>A script that subscribes lets the client read a message; if that message is the reload trigger, the state the script runs in is closed
  under it.\<close>

fun engineSteps :: "nat \<Rightarrow> (luaRef \<Rightarrow> luaBind list) \<Rightarrow> (string \<Rightarrow> luaBind list option) \<Rightarrow> scrState \<Rightarrow> scrState" where
  "engineSteps 0 prog script s = s"
| "engineSteps (Suc n) prog script s = engineSteps n prog script (engineStep prog script s)"

lemma engineSteps_reach: "(scrStep prog script)\<^sup>*\<^sup>* s0 s \<Longrightarrow> (scrStep prog script)\<^sup>*\<^sup>* s0 (engineSteps n prog script s)"
  by (induction n arbitrary: s) (auto intro: rtranclp.rtrancl_into_rtrancl scrStep.Work)

definition demoScript :: "string \<Rightarrow> luaBind list option" where
  "demoScript p = (if p = ''/scripts/rules.lua'' then Some [Subscribe ''a'' 1] else None)"

definition booted :: scrState where
  "booted = engineSteps 8 (\<lambda>r. []) demoScript (engineInit (subInit MQTT_MAX_SUBS Other))"

definition subscribed :: scrState where
  "subscribed = booted\<lparr>subs := fst (subAdd MQTT_TOPIC_CAP (Some ''r'') Reload (subs booted))\<rparr>"

definition struck :: scrState where
  "struck = engineSteps 8 (\<lambda>r. []) demoScript (reload (subscribed\<lparr>uptime := 0, online := True, allocs := [], inbox := [''r'']\<rparr>))"

lemma demo_eval: "stack booted = []" "closedRunning struck" "uptime booted = 0" "inbox booted = []" "\<not> closedRunning booted" "reloads booted = 0"
  by code_simp+

lemma booted_reach: "(scrStep (\<lambda>r. []) demoScript)\<^sup>*\<^sup>* (engineInit (subInit MQTT_MAX_SUBS Other)) booted"
  unfolding booted_def by (rule engineSteps_reach) simp

lemma reload_strikes_running_script:
  "\<exists>prog script s. (scrStep prog script)\<^sup>*\<^sup>* (engineInit (subInit MQTT_MAX_SUBS Other)) s \<and> closedRunning s"
proof -
  let ?P = "\<lambda>r. [] :: luaBind list"
  have "scrStep ?P demoScript booted subscribed" unfolding subscribed_def by (rule scrStep.AddSub) (simp_all add: demo_eval)
  moreover have "scrStep ?P demoScript subscribed (subscribed\<lparr>uptime := 0, online := True, allocs := []\<rparr>)"
    by (rule scrStep.Time) (simp add: subscribed_def demo_eval)
  moreover have "scrStep ?P demoScript (subscribed\<lparr>uptime := 0, online := True, allocs := []\<rparr>)
      (subscribed\<lparr>uptime := 0, online := True, allocs := [], inbox := [''r'']\<rparr>)"
    using scrStep.Arrive [of ?P demoScript "subscribed\<lparr>uptime := 0, online := True, allocs := []\<rparr>" "''r''"] by (simp add: subscribed_def demo_eval)
  moreover have "scrStep ?P demoScript (subscribed\<lparr>uptime := 0, online := True, allocs := [], inbox := [''r'']\<rparr>)
      (reload (subscribed\<lparr>uptime := 0, online := True, allocs := [], inbox := [''r'']\<rparr>))"
    by (rule scrStep.ReloadCmd) (simp add: subscribed_def demo_eval)
  ultimately have "(scrStep ?P demoScript)\<^sup>*\<^sup>* (engineInit (subInit MQTT_MAX_SUBS Other)) (reload (subscribed\<lparr>uptime := 0, online := True, allocs := [], inbox := [''r'']\<rparr>))"
    using booted_reach by (meson rtranclp.rtrancl_into_rtrancl)
  from engineSteps_reach [OF this, of 8] show ?thesis using demo_eval(2) unfolding struck_def by blast
qed

definition called :: scrState where
  "called = engineSteps 2 (\<lambda>r. []) demoScript (booted\<lparr>inbox := [], stack := [Deliver ''a'' 0]\<rparr>)"

lemma called_eval: "calls called = [(0, (0, 1))]" "\<not> closedRunning called" "reloads called = 0"
  by code_simp+

lemma called_reach: "(scrStep (\<lambda>r. []) demoScript)\<^sup>*\<^sup>* (engineInit (subInit MQTT_MAX_SUBS Other)) called"
proof -
  let ?P = "\<lambda>r. [] :: luaBind list"
  have "scrStep ?P demoScript booted (booted\<lparr>inbox := [''a'']\<rparr>)"
    using scrStep.Arrive [of ?P demoScript booted "''a''"] by (simp add: demo_eval)
  moreover have "scrStep ?P demoScript (booted\<lparr>inbox := [''a'']\<rparr>) (booted\<lparr>inbox := [], stack := [Deliver ''a'' 0]\<rparr>)"
    using scrStep.LoopMqtt [of "booted\<lparr>inbox := [''a'']\<rparr>" "''a''" "[]" ?P demoScript] by (simp add: demo_eval)
  ultimately have "(scrStep ?P demoScript)\<^sup>*\<^sup>* (engineInit (subInit MQTT_MAX_SUBS Other)) (booted\<lparr>inbox := [], stack := [Deliver ''a'' 0]\<rparr>)"
    using booted_reach by (meson rtranclp.rtrancl_into_rtrancl)
  then show ?thesis unfolding called_def by (rule engineSteps_reach)
qed

theorem script_calls_in_own_state_witness: "calls called = [(0, (0, 1))] \<and> list_all (\<lambda>(g, r). fst r = g) (calls called)"
  using script_calls_in_own_state [OF called_reach] called_eval by simp

text \<open>No reload gives a subscription back: the table only grows, and once full it refuses what a script registers.\<close>

lemma subAdd_count: "count t \<le> count (fst (subAdd cap tp cb t))" "subCapacity (fst (subAdd cap tp cb t)) = subCapacity t"
  by (auto simp: subAdd_def subCapacity_def split: option.splits)

lemma subs_frame [simp]: "subs (reload s) = subs s" "subs (callRef prog r s) = subs s" "subs (fire prog cb s) = subs s" "subs (createState s) = subs s"
  by (auto simp: reload_def destroyState_def callRef_def fire_def createState_def Let_def split: option.splits luaCb.splits list.splits bool.splits)

lemma bindCall_subs: "count (subs s) \<le> count (subs (bindCall g b s)) \<and> subCapacity (subs (bindCall g b s)) = subCapacity (subs s)"
proof (cases b)
  case (Subscribe tp f)
  obtain t ok where a: "subAdd MQTT_TOPIC_CAP (Some tp) (LuaFn (g, f) (generation s)) (subs s) = (t, ok)" by fastforce
  have "count (subs s) \<le> count t \<and> subCapacity t = subCapacity (subs s)"
    using subAdd_count [where t = "subs s" and cap = MQTT_TOPIC_CAP and tp = "Some tp" and cb = "LuaFn (g, f) (generation s)"] a by simp
  then show ?thesis using a Subscribe by (auto simp: bindCall_def Let_def split: list.splits)
qed (auto simp: bindCall_def setTimeout_def split: option.splits)

lemma engineStep_subs: "count (subs s) \<le> count (subs (engineStep prog script s)) \<and> subCapacity (subs (engineStep prog script s)) = subCapacity (subs s)"
proof (cases "stack s")
  case (Cons w ws)
  have b: "count (subs s) \<le> count (subs (bindCall g b (s\<lparr>stack := ws\<rparr>))) \<and> subCapacity (subs (bindCall g b (s\<lparr>stack := ws\<rparr>))) = subCapacity (subs s)" for g b
    using bindCall_subs [of "s\<lparr>stack := ws\<rparr>"] by simp
  show ?thesis using Cons b by (cases w) (auto simp: step_defs Let_def split: option.splits prod.splits)
qed (simp add: step_defs)

lemma subs_never_freed: "scrStep prog script s s' \<Longrightarrow> count (subs s) \<le> count (subs s') \<and> subCapacity (subs s') = subCapacity (subs s)"
  by (erule scrStepE) (simp_all add: engineStep_subs subAdd_count)

lemma full_table_refuses: "count (subs s) = subCapacity (subs s) \<Longrightarrow> bindCall g (Subscribe tp f) s = s"
  by (auto simp: bindCall_def subAdd_def)

text \<open>\<open>EventBus::publish\<close> holds an iterator into the vector of callbacks while it calls them; a callback that subscribes to the same event
  makes the vector grow under it.\<close>

lemma subscribe_under_publish:
  assumes "stack s = Bind g (OnEvent ev f) # ws" "Event ev i n \<in> set ws" "n \<le> length (events s)"
  shows "Event ev i n \<in> set (stack (engineStep prog script s)) \<and>
    events (engineStep prog script s) = events s @ [(ev, LuaFn (g, f) (generation s))] \<and> n < length (events (engineStep prog script s))"
  using assms by (simp add: step_defs bindCall_def)

section \<open>Timers\<close>

text \<open>A timer that is due is called on the visit of its slot, once: the slot is free before the call.\<close>

lemma timer_visit:
  assumes "stack s = Timers i ms # ws" "i < MAX_TIMERS" "timers s ! i = (tm, Some r)" "gL s = Some g" "length (timers s) = MAX_TIMERS"
  shows "luaTimerDue ms tm \<Longrightarrow> calls (engineStep prog script s) = (g, r) # calls s \<and> snd (timers (engineStep prog script s) ! i) = None"
    and "\<not> luaTimerDue ms tm \<Longrightarrow> calls (engineStep prog script s) = calls s \<and> timers (engineStep prog script s) = timers s"
  using assms by (auto simp: step_defs callRef_def Let_def)

end
