(* ===== verification/Lua_Json.thy ===== *)
theory Lua_Json
  imports Shell_Config
begin

text \<open>
  What a script sees of JSON: \<open>Config.get\<close>, \<open>JSON.decode\<close> and the tables of \<open>EventBus.subscribe\<close>, from \<open>ScriptEngine.cpp\<close>. \<open>ser\<close> is the JSON
  serializer, a parameter; a float keeps its text.
\<close>

section \<open>Definitions\<close>

datatype luaKey = KStr string | KInt nat

datatype luaVal = LNil | LBool bool | LInt int | LNum string | LStr string | LTab "(luaKey \<times> luaVal) list"

text \<open>\<open>jsonObjectToLuaTable\<close>: an object's members, and the elements of an array that is a member.\<close>

fun luaTable :: "(json \<Rightarrow> string) \<Rightarrow> json \<Rightarrow> luaVal" and luaElem :: "(json \<Rightarrow> string) \<Rightarrow> json \<Rightarrow> luaVal" where
  "luaTable ser (JBool b) = LBool b"
| "luaTable ser (JNum n) = LInt n"
| "luaTable ser (JFloat x) = LNum x"
| "luaTable ser (JStr t) = LStr t"
| "luaTable ser (JArr es) = LTab (map (\<lambda>(i, e). (KInt (i + 1), e)) (List.enumerate 0 (map (luaElem ser) es)))"
| "luaTable ser (JObj m) = LTab (map (\<lambda>(k, v). (KStr k, luaTable ser v)) m)"
| "luaTable ser JNull = LStr (ser JNull)"
| "luaElem ser (JObj m) = LTab (map (\<lambda>(k, v). (KStr k, luaTable ser v)) m)"
| "luaElem ser (JNum n) = LInt n"
| "luaElem ser (JFloat x) = LNum x"
| "luaElem ser (JStr t) = LStr t"
| "luaElem ser (JBool b) = LStr (ser (JBool b))"
| "luaElem ser (JArr es) = LStr (ser (JArr es))"
| "luaElem ser JNull = LStr (ser JNull)"

text \<open>\<open>JSON.decode\<close> of a parsed document; a nil element leaves its place empty.\<close>

fun decodeElem :: "(json \<Rightarrow> string) \<Rightarrow> json \<Rightarrow> luaVal" where
  "decodeElem ser (JObj m) = luaTable ser (JObj m)"
| "decodeElem ser (JNum n) = LNum (if n < 0 then CHR ''-'' # dec (nat (- n)) else dec (nat n))"
| "decodeElem ser (JFloat x) = LNum x"
| "decodeElem ser (JStr t) = LStr t"
| "decodeElem ser e = LNil"

definition lua_json_decode :: "(json \<Rightarrow> string) \<Rightarrow> json option \<Rightarrow> luaVal" where
  "lua_json_decode ser d =
     (case d of None \<Rightarrow> LNil
      | Some (JObj m) \<Rightarrow> luaTable ser (JObj m)
      | Some (JArr es) \<Rightarrow>
          LTab (filter (\<lambda>(k, v). v \<noteq> LNil) (map (\<lambda>(i, e). (KInt (i + 1), e)) (List.enumerate 0 (map (decodeElem ser) es))))
      | Some v \<Rightarrow> LNil)"

text \<open>\<open>Config.get\<close>: the walk, None where it pushes nil early, then the value.\<close>

fun luaWalk :: "json \<Rightarrow> string list \<Rightarrow> json option" where
  "luaWalk cur [] = Some cur"
| "luaWalk cur (t # ts) =
     (case cur of
        JObj m \<Rightarrow> luaWalk (case map_of m t of None \<Rightarrow> JNull | Some v \<Rightarrow> v) ts
      | JArr a \<Rightarrow>
          (case strtolWhole t of None \<Rightarrow> None
           | Some idx \<Rightarrow> luaWalk (if 0 \<le> idx \<and> nat idx < length a then a ! nat idx else JNull) ts)
      | _ \<Rightarrow> None)"

fun luaScalar :: "(json \<Rightarrow> string) \<Rightarrow> json \<Rightarrow> luaVal" where
  "luaScalar ser JNull = LNil"
| "luaScalar ser (JBool b) = LBool b"
| "luaScalar ser (JNum n) = LInt n"
| "luaScalar ser (JFloat x) = LNum x"
| "luaScalar ser (JStr t) = LStr t"
| "luaScalar ser v = LStr (ser v)"

definition lua_config_get :: "(json \<Rightarrow> string) \<Rightarrow> string \<Rightarrow> json \<Rightarrow> luaVal" where
  "lua_config_get ser key d =
     (case luaWalk d (strtokAll (CHR ''.'') (take 127 key)) of None \<Rightarrow> LNil | Some v \<Rightarrow> luaScalar ser v)"

section \<open>Scripts and the shell read the same configuration\<close>

lemma parseArrayIndex_strtol:
  assumes "parseArrayIndex t = Some i" "length t \<le> 9"
  shows "strtolWhole t = Some (int i)"
proof -
  have d: "t \<noteq> []" "list_all isDigit t" using assms(1) by (auto simp: parseArrayIndex_def split: if_splits)
  have u32: "unat (foldl (\<lambda>v c. v * 10 + of_nat (digitVal c)) (of_nat v :: u32) ds) = decVal v ds"
    if "list_all isDigit ds" "decVal v ds < 2 ^ 32" for v ds
    using that
  proof (induction ds arbitrary: v)
    case (Cons c cs)
    have "(of_nat v * 10 + of_nat (digitVal c) :: u32) = of_nat (v * 10 + digitVal c)" by simp
    then show ?case using Cons.IH [of "v * 10 + digitVal c"] Cons.prems by simp
  qed (simp add: unat_of_nat)
  have "decVal 0 t < 10 ^ length t" using decVal_bound [OF d(2), of 0] by simp
  also have "\<dots> \<le> 10 ^ 9" using assms(2) by (intro power_increasing) simp_all
  finally have b: "decVal 0 t < 10 ^ 9" .
  then have i: "i = decVal 0 t" using assms(1) d u32 [of t 0] by (auto simp: parseArrayIndex_def)
  obtain c cs where t: "t = c # cs" "isDigit c" using d by (cases t) auto
  have "\<not> isSpace c" "c \<noteq> CHR ''-''" "c \<noteq> CHR ''+''" using t(2) by (auto simp: isDigit_def isSpace_def)
  then have "cSign (dropWhile isSpace t) = (False, t)" using t by (simp add: cSign_def)
  then show ?thesis using d b i by (simp add: strtolWhole_def)
qed

lemma getWalk_luaWalk:
  "getWalk cur ts = Inr v \<Longrightarrow> list_all (\<lambda>t. length t \<le> 9 \<or> parseArrayIndex t = None) ts \<Longrightarrow> luaWalk cur ts = Some v"
proof (induction cur ts rule: getWalk.induct)
  case (2 cur t ts)
  show ?case
  proof (cases cur)
    case (JArr a)
    then obtain i where i: "parseArrayIndex t = Some i" "i < length a" "getWalk (a ! i) ts = Inr v"
      using "2.prems"(1) by (auto split: option.splits if_splits)
    then have "strtolWhole t = Some (int i)" using "2.prems"(2) by (intro parseArrayIndex_strtol) auto
    then show ?thesis using "2.IH"(1) [OF JArr i(1)] i JArr "2.prems"(2) by simp
  qed (use "2.IH"(2) "2.prems" in auto)
qed simp

text \<open>A key that \<open>config.get\<close> finds is found by \<open>Config.get\<close> with the same value, array indices up to nine digits.\<close>

lemma config_get_agree:
  assumes "shellFits (Some key) 128" "getWalk d (strtokAll (CHR ''.'') key) = Inr v"
    "list_all (\<lambda>t. length t \<le> 9 \<or> parseArrayIndex t = None) (strtokAll (CHR ''.'') key)"
  shows "lua_config_get ser key d = luaScalar ser v"
proof -
  have "take 127 key = key" using assms(1) by (simp add: shellFits_def)
  then show ?thesis using getWalk_luaWalk [OF assms(2,3)] by (simp add: lua_config_get_def)
qed

text \<open>A boolean keeps its type as a member and as a configuration value, but becomes text inside an array, and is dropped from an array
  that is decoded: the element counts as absent.\<close>

lemma bool_in_array:
  "luaTable ser (JObj [(''a'', JArr [JBool True])]) = LTab [(KStr ''a'', LTab [(KInt 1, LStr (ser (JBool True)))])]"
  "lua_json_decode ser (Some (JArr [JBool True, JStr ''x''])) = LTab [(KInt 2, LStr ''x'')]"
  by (simp_all add: lua_json_decode_def)

end
