(* ===== verification/Wifi_Link.thy ===== *)
theory Wifi_Link
  imports Cell_At Secret_Store Enroll_Policy "HOL-Library.Multiset"
begin

text \<open>
  The WiFi manager: \<open>WiFiManager.cpp\<close>. The driver is an input: what a scan sees, when a link comes up, when the clock is set. Its one
  part that matters for safety is kept: the access point it was told to raise, with its name and password.
\<close>

section \<open>Definitions\<close>

datatype WiFiStatus = CONNECTED | SCANNING | ALL_FAILED

text \<open>What the code reads from the configuration, its defaults applied; \<open>wcNetworks\<close> is empty when the list is missing;
  \<open>wcHostCap\<close> is lwIP's longest name.\<close>

record wifiCfg =
  wcNetworks :: "(string \<times> string) list"
  wcTimeout :: int
  wcCheck :: u32
  wcRetries :: int
  wcApPassword :: string
  wcApTimeout :: u32
  wcNtp :: string
  wcNtp2 :: string
  wcHostCap :: nat

record wifiState =
  status :: WiFiStatus
  apActive :: bool
  lastRecheck :: u32
  recheckIntervalMs :: u32
  apStartTime :: u32
  apTimeoutMs :: u32
  ntpHost :: "(string \<times> string) list"
  ntpSlot :: nat
  softAp :: "(string \<times> string) option"
  sntp :: "nat option"
  ntpSynced :: bool

text \<open>What the driver and the stores answer. \<open>wiLink a i\<close> has the polls of one attempt at one network: connected, and the time.\<close>

record wifiIn =
  wiScan :: "(string \<times> int) list"
  wiLink :: "nat \<Rightarrow> nat \<Rightarrow> u32 \<times> (bool \<times> u32) list"
  wiIo :: secIo
  wiNvs :: secretNs
  wiDevice :: cstr
  wiName :: cstr
  wiNow :: u32
  wiUp :: bool

record candidate =
  cSsid :: string
  cPassword :: string
  cRssi :: int

definition INT32_MIN :: int where "INT32_MIN = -2147483648"

definition copyNtpHost :: "nat \<Rightarrow> string \<Rightarrow> string \<Rightarrow> string" where
  "copyNtpHost cap host dflt = take (cap - 1) (if cap \<le> length host then dflt else host)"

text \<open>The strongest signal of a name in the scan, starting from \<open>INT32_MIN\<close>.\<close>

fun bestRssi :: "string \<Rightarrow> int \<Rightarrow> (string \<times> int) list \<Rightarrow> int" where
  "bestRssi ssid best [] = best"
| "bestRssi ssid best ((s, r) # rs) = bestRssi ssid (if s = ssid \<and> r > best then r else best) rs"

fun collect :: "wifiIn \<Rightarrow> (string \<times> string) list \<Rightarrow> candidate list \<Rightarrow> candidate list" where
  "collect i [] cs = cs"
| "collect i ((ssid, pw) # ns) cs =
     (if length ssid = 0 \<or> length cs \<ge> 8 then collect i ns cs
      else let best = bestRssi ssid INT32_MIN (wiScan i)
           in if best = INT32_MIN then collect i ns cs
              else collect i ns (cs @ [\<lparr>cSsid = take 32 ssid,
                cPassword = secretResolve (wiIo i) (wiNvs i) (Some (secretWifiKey ssid)) (Some pw) True SECRET_MAX_LEN, cRssi = best\<rparr>]))"

text \<open>The exchange sort: the inner and the outer loop.\<close>

definition swapAt :: "nat \<Rightarrow> nat \<Rightarrow> candidate list \<Rightarrow> candidate list" where
  "swapAt i j cs = cs[i := cs ! j, j := cs ! i]"

fun sortInner :: "nat \<Rightarrow> nat list \<Rightarrow> candidate list \<Rightarrow> candidate list" where
  "sortInner i [] cs = cs"
| "sortInner i (j # js) cs = sortInner i js (if cRssi (cs ! j) > cRssi (cs ! i) then swapAt i j cs else cs)"

fun sortOuter :: "nat list \<Rightarrow> candidate list \<Rightarrow> candidate list" where
  "sortOuter [] cs = cs"
| "sortOuter (i # is) cs = sortOuter is (sortInner i [i + 1 ..< length cs] cs)"

definition sortCandidates :: "candidate list \<Rightarrow> candidate list" where
  "sortCandidates cs = sortOuter [0 ..< length cs - 1] cs"

text \<open>\<open>tryConnect\<close>: poll until connected or the time is spent. The polls that are given are all there are; after them the time is spent.\<close>

fun pollLink :: "u32 \<Rightarrow> u32 \<Rightarrow> (bool \<times> u32) list \<Rightarrow> bool" where
  "pollLink start timeoutMs [] = False"
| "pollLink start timeoutMs ((c, now) # ps) =
     (if c then True else if waitBudgetSpent start now timeoutMs then False else pollLink start timeoutMs ps)"

definition tryConnect :: "u32 \<times> (bool \<times> u32) list \<Rightarrow> u32 \<Rightarrow> bool" where
  "tryConnect env timeoutMs = pollLink (fst env) timeoutMs (snd env)"

text \<open>The attempts: the rounds over the candidates, up to the first that connects; the result has the attempts made.\<close>

fun tryRound :: "wifiIn \<Rightarrow> u32 \<Rightarrow> nat \<Rightarrow> nat list \<Rightarrow> (nat \<times> nat) list \<times> nat option" where
  "tryRound i timeoutMs a [] = ([], None)"
| "tryRound i timeoutMs a (k # ks) =
     (if tryConnect (wiLink i a k) timeoutMs then ([(a, k)], Some k)
      else let (tr, r) = tryRound i timeoutMs a ks in ((a, k) # tr, r))"

fun tryRounds :: "wifiIn \<Rightarrow> u32 \<Rightarrow> nat \<Rightarrow> nat list \<Rightarrow> (nat \<times> nat) list \<times> nat option" where
  "tryRounds i timeoutMs n [] = ([], None)"
| "tryRounds i timeoutMs n (a # as) =
     (case tryRound i timeoutMs a [0 ..< n] of
        (tr, Some k) \<Rightarrow> (tr, Some k)
      | (tr, None) \<Rightarrow> let (tr', r) = tryRounds i timeoutMs n as in (tr @ tr', r))"

definition startFallbackAP :: "wifiCfg \<Rightarrow> wifiIn \<Rightarrow> wifiState \<Rightarrow> wifiState" where
  "startFallbackAP c i w =
     (if apActive w then w
      else let apPass = secretResolve (wiIo i) (wiNvs i) (Some ''ap_password'') (Some (wcApPassword c)) True SECRET_MAX_LEN;
               w1 = w\<lparr>apTimeoutMs := wcApTimeout c * 1000\<rparr>
           in if \<not> apMayStart (Some apPass) then w1
              else case apSsidFor 32 (wiDevice i) (wiName i) of None \<Rightarrow> w1
                   | Some ssid \<Rightarrow> w1\<lparr>softAp := Some (ssid, apPass), apActive := True, apStartTime := wiNow i\<rparr>)"

definition stopFallbackAP :: "wifiState \<Rightarrow> wifiState" where
  "stopFallbackAP w = (if \<not> apActive w then w else w\<lparr>softAp := None, apActive := False\<rparr>)"

text \<open>What a successful connection does: the time servers go to the slot that SNTP does not hold, then SNTP is moved to it.\<close>

definition startNtp :: "wifiCfg \<Rightarrow> wifiState \<Rightarrow> wifiState" where
  "startNtp c w =
     (let s = 1 - ntpSlot w
      in w\<lparr>ntpSlot := s, ntpHost := (ntpHost w)[s := (copyNtpHost (wcHostCap c) (wcNtp c) ''pool.ntp.org'', copyNtpHost (wcHostCap c) (wcNtp2 c) ''time.cloudflare.com'')],
           sntp := Some s\<rparr>)"

definition scanAndConnect :: "wifiCfg \<Rightarrow> wifiIn \<Rightarrow> wifiState \<Rightarrow> candidate list \<times> (nat \<times> nat) list \<times> wifiState" where
  "scanAndConnect c i w0 =
     (let w = w0\<lparr>status := SCANNING, recheckIntervalMs := wcCheck c * 1000\<rparr>
      in if wcNetworks c = [] then ([], [], startFallbackAP c i w)
         else let cands = collect i (wcNetworks c) []
              in if cands = [] then ([], [], (startFallbackAP c i w)\<lparr>status := ALL_FAILED\<rparr>)
                 else let sorted = sortCandidates cands;
                          (tr, r) = tryRounds i (wifiSsidTimeoutMs (wcTimeout c)) (length sorted) [1 ..< unat (wifiRetries (wcRetries c)) + 1]
                      in case r of
                           Some k \<Rightarrow> (sorted, tr, startNtp c (w\<lparr>status := CONNECTED, apActive := False\<rparr>))
                         | None \<Rightarrow> (sorted, tr, startFallbackAP c i (w\<lparr>status := ALL_FAILED\<rparr>)))"

definition wifiBegin :: "wifiCfg \<Rightarrow> wifiIn \<Rightarrow> wifiState \<Rightarrow> wifiState" where
  "wifiBegin c i w = snd (snd (scanAndConnect c i (w\<lparr>softAp := None\<rparr>)))"

definition wifiLoop :: "wifiCfg \<Rightarrow> wifiIn \<Rightarrow> wifiState \<Rightarrow> wifiState" where
  "wifiLoop c i w =
     (if apActive w then
        (if apTimeoutMs w > 0 \<and> wiNow i - apStartTime w \<ge> apTimeoutMs w
         then snd (snd (scanAndConnect c i (stopFallbackAP w))) else w)
      else if status w = ALL_FAILED then w
      else if \<not> wiUp i then snd (snd (scanAndConnect c i w))
      else w)"

definition recheckWiFi :: "wifiCfg \<Rightarrow> wifiIn \<Rightarrow> wifiState \<Rightarrow> bool \<times> wifiState" where
  "recheckWiFi c i w =
     (if wiNow i - lastRecheck w < recheckIntervalMs w then (False, w)
      else let w1 = snd (snd (scanAndConnect c i (w\<lparr>lastRecheck := wiNow i\<rparr>))) in (status w1 = CONNECTED, w1))"

definition wifiConnected :: "bool \<Rightarrow> wifiState \<Rightarrow> bool" where
  "wifiConnected up w \<longleftrightarrow> status w = CONNECTED \<and> up"

text \<open>The manager as it is declared, and its life: the setup, then the loops; the NTP callback comes at any time.\<close>

definition wifiInit :: wifiState where
  "wifiInit = \<lparr>status = SCANNING, apActive = False, lastRecheck = 0, recheckIntervalMs = 900000, apStartTime = 0, apTimeoutMs = 300000,
     ntpHost = [([], []), ([], [])], ntpSlot = 0, softAp = None, sntp = None, ntpSynced = False\<rparr>"

inductive wifiReach :: "wifiState \<Rightarrow> bool" where
  Setup: "wifiReach (wifiBegin c i wifiInit)"
| Loop: "wifiReach w \<Longrightarrow> wifiReach (wifiLoop c i w)"
| Ntp: "wifiReach w \<Longrightarrow> wifiReach (w\<lparr>ntpSynced := True\<rparr>)"

section \<open>The order of the attempts\<close>

subsection \<open>The sort\<close>

definition stronger :: "candidate list \<Rightarrow> nat \<Rightarrow> bool" where
  "stronger cs m \<longleftrightarrow> (\<forall>p < m. \<forall>q. p < q \<and> q < length cs \<longrightarrow> cRssi (cs ! q) \<le> cRssi (cs ! p))"

lemma swapAt_mset: "i < length cs \<Longrightarrow> j < length cs \<Longrightarrow> mset (swapAt i j cs) = mset cs"
  unfolding swapAt_def by (rule mset_swap)

lemma swapAt_length [simp]: "length (swapAt i j cs) = length cs"
  by (simp add: swapAt_def)

lemma sortInner_frame:
  "i < length cs \<Longrightarrow> \<forall>j \<in> set js. i < j \<and> j < length cs \<Longrightarrow>
   mset (sortInner i js cs) = mset cs \<and> length (sortInner i js cs) = length cs \<and> (\<forall>p < i. sortInner i js cs ! p = cs ! p) \<and>
   cRssi (cs ! i) \<le> cRssi (sortInner i js cs ! i)"
proof (induction js arbitrary: cs)
  case (Cons j js)
  define cs' where "cs' = (if cRssi (cs ! j) > cRssi (cs ! i) then swapAt i j cs else cs)"
  have j: "i < j" "j < length cs" using Cons.prems(2) by auto
  have l: "length cs' = length cs" "mset cs' = mset cs" using Cons.prems(1) j swapAt_mset by (auto simp: cs'_def)
  have p: "\<forall>p < i. cs' ! p = cs ! p" "cRssi (cs ! i) \<le> cRssi (cs' ! i)" using j Cons.prems(1) by (auto simp: cs'_def swapAt_def)
  have "mset (sortInner i js cs') = mset cs' \<and> length (sortInner i js cs') = length cs' \<and> (\<forall>p < i. sortInner i js cs' ! p = cs' ! p) \<and>
      cRssi (cs' ! i) \<le> cRssi (sortInner i js cs' ! i)"
    using Cons.prems by (intro Cons.IH) (simp_all add: l)
  then show ?case using l p by (simp add: cs'_def [symmetric])
qed simp

lemma sortInner_other:
  "i < length cs \<Longrightarrow> \<forall>j \<in> set js. i < j \<and> j < length cs \<Longrightarrow> q \<notin> set js \<Longrightarrow> q \<noteq> i \<Longrightarrow> sortInner i js cs ! q = cs ! q"
proof (induction js arbitrary: cs)
  case (Cons j js)
  then show ?case by (simp add: swapAt_def)
qed simp

lemma sortInner_max:
  "i < length cs \<Longrightarrow> distinct js \<Longrightarrow> \<forall>j \<in> set js. i < j \<and> j < length cs \<Longrightarrow> q \<in> set js \<Longrightarrow>
   cRssi (sortInner i js cs ! q) \<le> cRssi (sortInner i js cs ! i)"
proof (induction js arbitrary: cs)
  case (Cons j js)
  define cs' where "cs' = (if cRssi (cs ! j) > cRssi (cs ! i) then swapAt i j cs else cs)"
  have j: "i < j" "j < length cs" using Cons.prems(3) by auto
  have l: "length cs' = length cs" by (simp add: cs'_def)
  have le: "cRssi (cs' ! j) \<le> cRssi (cs' ! i)" using j Cons.prems(1) by (auto simp: cs'_def swapAt_def)
  show ?case
  proof (cases "q = j")
    case True
    have "sortInner i js cs' ! j = cs' ! j" using Cons.prems j l by (intro sortInner_other) auto
    moreover have "cRssi (cs' ! i) \<le> cRssi (sortInner i js cs' ! i)" using sortInner_frame [of i cs' js] Cons.prems l by simp
    ultimately show ?thesis using le True by (simp add: cs'_def [symmetric])
  next
    case False
    then have "cRssi (sortInner i js cs' ! q) \<le> cRssi (sortInner i js cs' ! i)" using Cons.prems l by (intro Cons.IH) auto
    then show ?thesis by (simp add: cs'_def [symmetric])
  qed
qed simp

lemma drop_same:
  assumes "mset xs = mset ys" "\<forall>p < m. xs ! p = ys ! p" "m \<le> length ys"
  shows "set (drop m xs) = set (drop m ys)"
proof -
  have l: "length xs = length ys" using assms(1) by (rule mset_eq_length)
  have "take m xs = take m ys" using assms(2,3) l by (intro nth_equalityI) auto
  moreover have "mset (take m xs) + mset (drop m xs) = mset (take m ys) + mset (drop m ys)"
    unfolding mset_append [symmetric] append_take_drop_id by (rule assms(1))
  ultimately have "mset (drop m xs) = mset (drop m ys)" by simp
  then show ?thesis by (rule mset_eq_setD)
qed

lemma sortInner_stronger:
  assumes "stronger cs m" "m < length cs"
  shows "stronger (sortInner m [m + 1 ..< length cs] cs) (Suc m)"
proof -
  define r where "r = sortInner m [m + 1 ..< length cs] cs"
  have f: "mset r = mset cs" "length r = length cs" "\<forall>p < m. r ! p = cs ! p"
    using sortInner_frame [of m cs "[m + 1 ..< length cs]"] assms(2) by (auto simp: r_def)
  have d: "set (drop m r) = set (drop m cs)" using f assms(2) by (intro drop_same) auto
  have "cRssi (r ! q) \<le> cRssi (r ! p)" if "p < Suc m" "p < q" "q < length r" for p q
  proof (cases "p = m")
    case True
    have "cRssi (r ! q) \<le> cRssi (r ! m)" unfolding r_def by (rule sortInner_max) (use that True f(2) assms(2) in auto)
    then show ?thesis using True by simp
  next
    case False
    then have p: "p < m" using that(1) by simp
    show ?thesis
    proof (cases "q < m")
      case True
      then show ?thesis using p that f assms(1) by (simp add: stronger_def)
    next
      case False
      then have "r ! q \<in> set (drop m r)" using that(3) by (auto simp: in_set_conv_nth intro!: exI [of _ "q - m"])
      then obtain k where k: "k < length cs - m" "cs ! (m + k) = r ! q" unfolding d by (auto simp: in_set_conv_nth)
      have "p < m + k" "m + k < length cs" using p k(1) by auto
      then have "cRssi (cs ! (m + k)) \<le> cRssi (cs ! p)" using p assms(1) unfolding stronger_def by blast
      then show ?thesis using p f(3) k(2) by simp
    qed
  qed
  then show ?thesis unfolding r_def [symmetric] stronger_def by blast
qed

lemma sortOuter_stronger:
  "stronger cs m \<Longrightarrow> m \<le> k \<Longrightarrow> k \<le> length cs \<Longrightarrow>
   stronger (sortOuter [m ..< k] cs) k \<and> mset (sortOuter [m ..< k] cs) = mset cs"
proof (induction "k - m" arbitrary: cs m)
  case (Suc n)
  then have mk: "m < k" by simp
  define r where "r = sortInner m [m + 1 ..< length cs] cs"
  have f: "mset r = mset cs" "length r = length cs"
    using sortInner_frame [of m cs "[m + 1 ..< length cs]"] mk Suc.prems(3) by (auto simp: r_def)
  have "stronger r (Suc m)" using sortInner_stronger [OF Suc.prems(1)] mk Suc.prems(3) by (simp add: r_def)
  then have "stronger (sortOuter [Suc m ..< k] r) k \<and> mset (sortOuter [Suc m ..< k] r) = mset r"
    using Suc mk f(2) by (intro Suc.hyps(1)) auto
  then show ?case using mk f(1) by (simp add: upt_conv_Cons r_def)
qed simp

lemma sortCandidates_sorts:
  "mset (sortCandidates cs) = mset cs \<and> sorted_wrt (\<lambda>x y. cRssi y \<le> cRssi x) (sortCandidates cs)"
proof -
  have s: "stronger (sortCandidates cs) (length cs - 1) \<and> mset (sortCandidates cs) = mset cs"
    unfolding sortCandidates_def by (rule sortOuter_stronger) (auto simp: stronger_def)
  then have l: "length (sortCandidates cs) = length cs" using mset_eq_length by blast
  have "sorted_wrt (\<lambda>x y. cRssi y \<le> cRssi x) (sortCandidates cs)"
    unfolding sorted_wrt_iff_nth_less using s l by (auto simp: stronger_def)
  then show ?thesis using s by simp
qed

subsection \<open>Which networks, and how long\<close>

text \<open>A configured network counts when the scan saw it; its signal is the strongest that was seen.\<close>

definition readings :: "string \<Rightarrow> (string \<times> int) list \<Rightarrow> int list" where
  "readings ssid scan = map snd (filter (\<lambda>(s, r). s = ssid) scan)"

lemma bestRssi_max: "bestRssi ssid b scan = fold max (readings ssid scan) b"
  by (induction scan arbitrary: b) (auto simp: readings_def max_def)

definition inRange :: "wifiIn \<Rightarrow> string \<times> string \<Rightarrow> bool" where
  "inRange i n \<longleftrightarrow> fst n \<noteq> '''' \<and> (\<exists>r \<in> set (readings (fst n) (wiScan i)). r > INT32_MIN)"

definition asCandidate :: "wifiIn \<Rightarrow> string \<times> string \<Rightarrow> candidate" where
  "asCandidate i n = \<lparr>cSsid = take 32 (fst n),
     cPassword = secretResolve (wiIo i) (wiNvs i) (Some (secretWifiKey (fst n))) (Some (snd n)) True SECRET_MAX_LEN,
     cRssi = fold max (readings (fst n) (wiScan i)) INT32_MIN\<rparr>"

lemma fold_max_ge: "b \<le> fold max rs (b :: int)"
  by (induction rs arbitrary: b) (auto intro: order_trans [OF max.cobounded2])

lemma fold_max_none: "fold max rs b = (b :: int) \<longleftrightarrow> (\<forall>r \<in> set rs. r \<le> b)"
proof (induction rs arbitrary: b)
  case (Cons r rs)
  show ?case
  proof (cases "r \<le> b")
    case False
    then have "max r b = r" by simp
    then show ?thesis using False fold_max_ge [of r rs] by auto
  qed (use Cons.IH [of b] in \<open>simp add: max_absorb2\<close>)
qed simp

lemma collect_spec:
  "length cs \<le> 8 \<Longrightarrow> collect i ns cs = cs @ take (8 - length cs) (map (asCandidate i) (filter (inRange i) ns))"
proof (induction ns arbitrary: cs)
  case (Cons n ns)
  obtain ssid pw where n: "n = (ssid, pw)" by fastforce
  have r: "inRange i n \<longleftrightarrow> ssid \<noteq> '''' \<and> bestRssi ssid INT32_MIN (wiScan i) \<noteq> INT32_MIN"
    by (auto simp: n inRange_def bestRssi_max fold_max_none not_le)
  show ?case
  proof (cases "inRange i n \<and> length cs < 8")
    case True
    then have "collect i (n # ns) cs = collect i ns (cs @ [asCandidate i n])"
      using r by (simp add: n asCandidate_def bestRssi_max Let_def)
    also have "\<dots> = (cs @ [asCandidate i n]) @ take (8 - length (cs @ [asCandidate i n])) (map (asCandidate i) (filter (inRange i) ns))"
      using True by (intro Cons.IH) simp
    also have "\<dots> = cs @ take (8 - length cs) (asCandidate i n # map (asCandidate i) (filter (inRange i) ns))"
      using True by (simp add: take_Cons')
    finally show ?thesis using True by simp
  next
    case False
    then have "collect i (n # ns) cs = collect i ns cs" using r by (auto simp: n Let_def)
    then show ?thesis using False Cons by (cases "length cs < 8") auto
  qed
qed simp

text \<open>The attempts in order, and where they stop.\<close>

definition allAttempts :: "nat \<Rightarrow> nat list \<Rightarrow> (nat \<times> nat) list" where
  "allAttempts n as = concat (map (\<lambda>a. map (Pair a) [0 ..< n]) as)"

definition upToFirst :: "('a \<Rightarrow> bool) \<Rightarrow> 'a list \<Rightarrow> 'a list" where
  "upToFirst P xs = takeWhile (\<lambda>x. \<not> P x) xs @ take 1 (dropWhile (\<lambda>x. \<not> P x) xs)"

lemma tryRound_spec:
  "tryRound i ms a ks = (upToFirst (\<lambda>(a, k). tryConnect (wiLink i a k) ms) (map (Pair a) ks), find (\<lambda>k. tryConnect (wiLink i a k) ms) ks)"
  by (induction ks) (auto simp: upToFirst_def)

lemma upToFirst_append:
  "upToFirst P (xs @ ys) = (if list_ex P xs then upToFirst P xs else xs @ upToFirst P ys)"
  by (induction xs) (auto simp: upToFirst_def)

lemma upToFirst_none: "\<not> list_ex P xs \<Longrightarrow> upToFirst P xs = xs"
  by (induction xs) (auto simp: upToFirst_def)

lemma tryRounds_spec:
  "fst (tryRounds i ms n as) = upToFirst (\<lambda>(a, k). tryConnect (wiLink i a k) ms) (allAttempts n as) \<and>
   (snd (tryRounds i ms n as) = None \<longleftrightarrow> \<not> list_ex (\<lambda>(a, k). tryConnect (wiLink i a k) ms) (allAttempts n as))"
proof (induction as)
  case (Cons a as)
  let ?P = "\<lambda>(a, k). tryConnect (wiLink i a k) ms"
  have f: "find (\<lambda>k. tryConnect (wiLink i a k) ms) [0 ..< n] = None \<longleftrightarrow> \<not> list_ex ?P (map (Pair a) [0 ..< n])"
    by (auto simp: find_None_iff list_ex_iff)
  have c: "allAttempts n (a # as) = map (Pair a) [0 ..< n] @ allAttempts n as" by (simp add: allAttempts_def)
  show ?case
  proof (cases "find (\<lambda>k. tryConnect (wiLink i a k) ms) [0 ..< n]")
    case None
    then have l: "\<not> list_ex ?P (map (Pair a) [0 ..< n])" using f by blast
    obtain tr rr where t: "tryRounds i ms n as = (tr, rr)" by fastforce
    show ?thesis unfolding c upToFirst_append list_ex_append using l None Cons.IH
      by (simp add: tryRound_spec upToFirst_none [OF l] t)
  next
    case (Some k)
    then have l: "list_ex ?P (map (Pair a) [0 ..< n])" using f by force
    show ?thesis unfolding c upToFirst_append list_ex_append using l Some by (simp add: tryRound_spec)
  qed
qed (simp add: allAttempts_def upToFirst_def)


lemma upToFirst_ex: "list_ex P (upToFirst P xs) = list_ex P xs"
  by (induction xs) (auto simp: upToFirst_def)

lemma upToFirst_le: "length (upToFirst P xs) \<le> length xs"
  by (induction xs) (auto simp: upToFirst_def)

lemma length_allAttempts: "length (allAttempts n as) = length as * n"
  by (induction as) (simp_all add: allAttempts_def)

lemma retries_range: "1 \<le> unat (wifiRetries r) \<and> unat (wifiRetries r) \<le> 5"
proof (cases "r < 1")
  case False
  define k where "k = (if r > WIFI_RETRIES_MAX then WIFI_RETRIES_MAX else r)"
  have k: "1 \<le> k" "k \<le> 5" using False by (auto simp: k_def WIFI_RETRIES_MAX_def)
  have "k = int (nat k)" "nat k \<le> 5" "1 \<le> nat k" using k by auto
  then have "unat (of_nat (nat k) :: u8) = nat k" by (simp add: unat_of_nat del: of_nat_nat)
  moreover have "(of_int k :: u8) = of_nat (nat k)" using k by simp
  ultimately have "unat (of_int k :: u8) = nat k" by (simp del: of_nat_nat)
  then show ?thesis using False k by (simp add: wifiRetries_def k_def [symmetric]) linarith
qed (simp add: wifiRetries_def)

lemma connect_budget:
  assumes "n \<le> 8"
  shows "unat (wifiConnectBudgetMs r (int n) t) = unat (wifiRetries r) * n * unat (wifiSsidTimeoutMs t)"
proof -
  have t: "unat (wifiSsidTimeoutMs t) \<le> 60000" using wifiSsidTimeoutMs_range [of t] by simp
  have r: "unat (wifiRetries r) \<le> 5" using retries_range by simp
  define v where "v = unat (wifiRetries r) * n * unat (wifiSsidTimeoutMs t)"
  have "wifiConnectBudgetMs r (int n) t = of_nat v"
    using assms by (simp add: v_def wifiConnectBudgetMs_def WIFI_CANDIDATES_MAX_def Let_def unsigned_ucast_eq)
  moreover have "v \<le> 5 * 8 * 60000" unfolding v_def using t r assms by (intro mult_le_mono) auto
  ultimately show ?thesis by (simp add: unat_of_nat v_def [symmetric])
qed

text \<open>C38: Connecting tries the configured networks that are in range, at most eight of them in configured order, the strongest signal
  first, for the configured rounds, and stops at the first that answers; it reports a connection exactly when one did, and its
  attempts fit the connect budget.\<close>

theorem wifi_strongest_first:
  assumes "scanAndConnect c i w = (cs, tr, w')"
  shows "mset cs = mset (take 8 (map (asCandidate i) (filter (inRange i) (wcNetworks c)))) \<and>
    sorted_wrt (\<lambda>x y. cRssi y \<le> cRssi x) cs \<and>
    tr = upToFirst (\<lambda>(a, k). tryConnect (wiLink i a k) (wifiSsidTimeoutMs (wcTimeout c)))
           (allAttempts (length cs) [1 ..< unat (wifiRetries (wcRetries c)) + 1]) \<and>
    (status w' = CONNECTED \<longleftrightarrow> list_ex (\<lambda>(a, k). tryConnect (wiLink i a k) (wifiSsidTimeoutMs (wcTimeout c))) tr) \<and>
    length tr * unat (wifiSsidTimeoutMs (wcTimeout c)) \<le> unat (wifiConnectBudgetMs (wcRetries c) (int (length cs)) (wcTimeout c))"
proof -
  define ms where "ms = wifiSsidTimeoutMs (wcTimeout c)"
  define rs where "rs = [1 ..< unat (wifiRetries (wcRetries c)) + 1]"
  define cands where "cands = collect i (wcNetworks c) []"
  have cands: "cands = take 8 (map (asCandidate i) (filter (inRange i) (wcNetworks c)))" by (simp add: cands_def collect_spec)
  have st: "status (startFallbackAP c i v) = status v" for v
    by (auto simp: startFallbackAP_def Let_def split: option.splits)
  have cs: "cs = sortCandidates cands \<and> tr = fst (tryRounds i ms (length cs) rs) \<and> (status w' = CONNECTED \<longleftrightarrow> snd (tryRounds i ms (length cs) rs) \<noteq> None)"
  proof (cases "cands = []")
    case True
    have "sortCandidates [] = []" by (simp add: sortCandidates_def)
    moreover have "tryRounds i ms 0 as = ([], None)" for as by (induction as) simp_all
    ultimately show ?thesis using assms True by (auto simp: scanAndConnect_def Let_def cands_def st split: if_splits)
  next
    case False
    then have "wcNetworks c \<noteq> []" by (auto simp: cands_def)
    then show ?thesis using assms False
      by (auto simp: scanAndConnect_def Let_def cands_def [symmetric] ms_def [symmetric] rs_def st startNtp_def split: prod.splits option.splits)
  qed
  have s: "mset cs = mset cands" "sorted_wrt (\<lambda>x y. cRssi y \<le> cRssi x) cs" using cs sortCandidates_sorts by auto
  have n: "length cs \<le> 8" using mset_eq_length [OF s(1)] cands by simp
  have tr: "tr = upToFirst (\<lambda>(a, k). tryConnect (wiLink i a k) ms) (allAttempts (length cs) rs)" using cs tryRounds_spec by blast
  have "length tr \<le> unat (wifiRetries (wcRetries c)) * length cs"
    unfolding tr by (rule order_trans [OF upToFirst_le]) (simp add: length_allAttempts rs_def)
  then have "length tr * unat ms \<le> unat (wifiConnectBudgetMs (wcRetries c) (int (length cs)) (wcTimeout c))"
    using connect_budget [OF n] by (simp add: ms_def)
  then show ?thesis using s cands cs tr tryRounds_spec [of i ms "length cs" rs] upToFirst_ex unfolding ms_def rs_def by auto
qed


text \<open>A concrete night: two networks in range, the stronger one answers at once.\<close>

definition demoCfg :: wifiCfg where
  "demoCfg = \<lparr>wcNetworks = [(''a'', ''pw''), (''b'', ''pw'')], wcTimeout = 10, wcCheck = 900, wcRetries = 2, wcApPassword = ''secretpw'',
     wcApTimeout = 300, wcNtp = ''n'', wcNtp2 = ''m'', wcHostCap = 256\<rparr>"

definition demoIn :: "(string \<times> int) list \<Rightarrow> u32 \<Rightarrow> wifiIn" where
  "demoIn scan now = \<lparr>wiScan = scan, wiLink = (\<lambda>a k. (0, [(True, 0)])),
     wiIo = \<lparr>openRo = False, openRw = False, rwNotFound = True, getOk = False, setOk = False, eraseOk = False\<rparr>, wiNvs = None,
     wiDevice = Some ''dev1'', wiName = Some ''node'', wiNow = now, wiUp = False\<rparr>"

lemmas demo_simps = scanAndConnect_def demoCfg_def demoIn_def wifiInit_def Let_def INT32_MIN_def secretResolve_def nvsGetStr_def sortCandidates_def
  swapAt_def tryConnect_def wifiRetries_def WIFI_RETRIES_MAX_def startNtp_def

theorem wifi_strongest_first_witness:
  "map cSsid (fst (scanAndConnect demoCfg (demoIn [(''a'', -70), (''b'', -50)] 0) wifiInit)) = [''b'', ''a''] \<and>
   status (snd (snd (scanAndConnect demoCfg (demoIn [(''a'', -70), (''b'', -50)] 0) wifiInit))) = CONNECTED"
proof -
  let ?i = "demoIn [(''a'', -70), (''b'', -50)] 0"
  obtain cs tr w' where e: "scanAndConnect demoCfg ?i wifiInit = (cs, tr, w')" by (metis prod_cases3)
  have f: "map cSsid (fst (scanAndConnect demoCfg ?i wifiInit)) = [''b'', ''a'']" "fst (snd (scanAndConnect demoCfg ?i wifiInit)) = [(1, 0)]"
    by (simp_all add: demo_simps upt_rec)
  then have "tr = [(1, 0)]" by (simp add: e)
  then have "status w' = CONNECTED" using wifi_strongest_first [OF e] by (simp add: tryConnect_def demoIn_def)
  then show ?thesis using f(1) by (simp add: e)
qed

section \<open>The access point\<close>

definition apInv :: "wifiState \<Rightarrow> bool" where
  "apInv w \<longleftrightarrow> (apActive w \<longleftrightarrow> softAp w \<noteq> None) \<and> (status w = CONNECTED \<longrightarrow> \<not> apActive w) \<and>
     (\<forall>ssid p. softAp w = Some (ssid, p) \<longrightarrow>
        apPasswordUsable (Some p) \<and> (\<exists>base. base \<noteq> [] \<and> ssid = base @ ''-setup'') \<and> length ssid < 32)"

lemma startFallbackAP_inv: "apInv w \<Longrightarrow> status w \<noteq> CONNECTED \<Longrightarrow> apInv (startFallbackAP c i w)"
  by (auto simp: apInv_def startFallbackAP_def Let_def apMayStart_def apSsidFor_def split: option.splits if_splits)

lemma apInv_status: "apInv w \<Longrightarrow> \<not> apActive w \<or> st \<noteq> CONNECTED \<Longrightarrow> apInv (w\<lparr>status := st\<rparr>)"
  unfolding apInv_def by (auto simp del: not_None_eq)

lemma startNtp_inv: "apInv w \<Longrightarrow> apInv (startNtp c w)"
  unfolding apInv_def startNtp_def Let_def by (auto simp del: not_None_eq)

lemma scanAndConnect_inv:
  assumes "apInv w" "\<not> apActive w"
  shows "apInv (snd (snd (scanAndConnect c i w)))"
proof -
  define v where "v = w\<lparr>status := SCANNING, recheckIntervalMs := wcCheck c * 1000\<rparr>"
  have v: "apInv v" "\<not> apActive v" "status v = SCANNING" using assms unfolding v_def apInv_def by (auto simp del: not_None_eq)
  have f: "apInv (startFallbackAP c i v)" "apInv (startFallbackAP c i (v\<lparr>status := ALL_FAILED\<rparr>))"
    using v apInv_status by (auto intro!: startFallbackAP_inv)
  have g: "apInv ((startFallbackAP c i v)\<lparr>status := ALL_FAILED\<rparr>)" using f(1) by (intro apInv_status) simp_all
  have "apInv (v\<lparr>status := CONNECTED\<rparr>)" using v by (intro apInv_status) simp_all
  moreover have "v\<lparr>status := CONNECTED, apActive := False\<rparr> = v\<lparr>status := CONNECTED\<rparr>" using v(2) by (cases v) simp
  ultimately have "apInv (startNtp c (v\<lparr>status := CONNECTED, apActive := False\<rparr>))" by (simp only: startNtp_inv)
  then show ?thesis using f g unfolding scanAndConnect_def Let_def v_def [symmetric] by (auto split: prod.splits option.splits)
qed

lemma wifiReach_inv: "wifiReach w \<Longrightarrow> apInv w"
proof (induction rule: wifiReach.induct)
  case (Setup c i)
  show ?case unfolding wifiBegin_def by (rule scanAndConnect_inv) (simp_all add: apInv_def wifiInit_def)
next
  case (Loop w c i)
  have "apInv (stopFallbackAP w)" "\<not> apActive (stopFallbackAP w)" using Loop.IH by (auto simp: apInv_def stopFallbackAP_def)
  then show ?case using Loop.IH scanAndConnect_inv unfolding wifiLoop_def by simp
next
  case (Ntp w)
  then show ?case unfolding apInv_def by (auto simp del: not_None_eq)
qed

text \<open>C39: The fallback access point is up exactly while the manager says so, never beside a station link, and never open: its password has at
  least eight characters and is not the placeholder, whatever fails and however often it is raised.\<close>

theorem ap_never_open:
  assumes "wifiReach w"
  shows "(apActive w \<longleftrightarrow> softAp w \<noteq> None) \<and> (status w = CONNECTED \<longrightarrow> softAp w = None) \<and>
    (\<forall>ssid p. softAp w = Some (ssid, p) \<longrightarrow> 8 \<le> length p \<and> p \<noteq> AP_PASS_PLACEHOLDER \<and> length ssid < 32 \<and> drop (length ssid - 6) ssid = ''-setup'')"
proof -
  have i: "apActive w \<longleftrightarrow> softAp w \<noteq> None" "status w = CONNECTED \<longrightarrow> \<not> apActive w"
    "softAp w = Some (ssid, p) \<Longrightarrow> apPasswordUsable (Some p) \<and> (\<exists>base. base \<noteq> [] \<and> ssid = base @ ''-setup'') \<and> length ssid < 32" for ssid p
    using wifiReach_inv [OF assms] unfolding apInv_def by blast+
  have "8 \<le> length p \<and> p \<noteq> AP_PASS_PLACEHOLDER \<and> length ssid < 32 \<and> drop (length ssid - 6) ssid = ''-setup''"
    if "softAp w = Some (ssid, p)" for ssid p
    using i(3) [OF that] by (auto simp: apPasswordUsable_def AP_PASS_MIN_LEN_def split: if_splits)
  then show ?thesis using i(1,2) by blast
qed

definition apNight :: wifiState where
  "apNight = wifiBegin demoCfg (demoIn [] 0) wifiInit"

lemma apNight_eval: "softAp apNight = Some (''dev1-setup'', ''secretpw'')" "apActive apNight" "lastRecheck apNight = 0" "recheckIntervalMs apNight = 900000"
  by code_simp+

lemma apNight_reach: "wifiReach apNight"
  unfolding apNight_def by (rule Setup)

theorem ap_never_open_witness: "softAp apNight = Some (''dev1-setup'', ''secretpw'') \<and> 8 \<le> length ''secretpw''"
  using ap_never_open [OF apNight_reach] apNight_eval by blast

text \<open>The other entry, \<open>recheckWiFi\<close>, would leave the access point up without the manager knowing.\<close>

lemma recheck_leaves_ap:
  "let w = snd (recheckWiFi demoCfg (demoIn [(''a'', -50)] 900000) apNight) in \<not> apActive w \<and> softAp w \<noteq> None \<and> status w = CONNECTED"
  by (simp add: apNight_eval recheckWiFi_def demo_simps upt_rec)

section \<open>Giving up\<close>

text \<open>With every network out of range and no usable access-point password the manager never scans again: its loop waits for
  \<open>recheckWiFi\<close>, which nothing calls. The same holds behind an access point without a timeout.\<close>

definition givenUp :: "wifiState \<Rightarrow> bool" where
  "givenUp w \<longleftrightarrow> (if apActive w then apTimeoutMs w = 0 else status w = ALL_FAILED)"

lemma given_up_forever: "givenUp w \<Longrightarrow> wifiLoop c i w = w"
  by (simp add: givenUp_def wifiLoop_def split: if_splits)

lemma given_up_reachable: "\<exists>w. wifiReach w \<and> \<not> apActive w \<and> givenUp w"
proof -
  have "\<not> apActive (wifiBegin (demoCfg\<lparr>wcApPassword := ''''\<rparr>) (demoIn [] 0) wifiInit) \<and> givenUp (wifiBegin (demoCfg\<lparr>wcApPassword := ''''\<rparr>) (demoIn [] 0) wifiInit)"
    by code_simp
  then show ?thesis using Setup by blast
qed

text \<open>Otherwise a lost link is scanned for on the next loop, and an access point with a timeout gives way to a scan.\<close>

lemma lost_link_scans: "\<not> apActive w \<Longrightarrow> status w \<noteq> ALL_FAILED \<Longrightarrow> \<not> wiUp i \<Longrightarrow> wifiLoop c i w = snd (snd (scanAndConnect c i w))"
  by (simp add: wifiLoop_def)

text \<open>The names SNTP holds are not overwritten by the next connection.\<close>

lemma ntp_names_stay: "ntpHost (startNtp c w) ! ntpSlot w = ntpHost w ! ntpSlot w" if "ntpSlot w < 2"
proof -
  have "Suc 0 - ntpSlot w \<noteq> ntpSlot w" by arith
  then show ?thesis by (simp add: startNtp_def Let_def)
qed


end
