(* ===== verification/Sleep_Wake.thy ===== *)
theory Sleep_Wake
  imports Fw_Prelude
begin

text \<open>Deep sleep: \<open>SleepManager.cpp\<close>. The RTC memory survives a sleep and is lost with the power.\<close>

section \<open>Definitions\<close>

record RtcData =
  magic :: u32
  bootCount :: u32
  lastOtaCheck :: int

record sleepCfg =
  slEnabled :: bool
  slSleepS :: u32
  slWakeS :: u32

record sleepState =
  sEnabled :: bool
  sleepUs :: u32
  wakeDeadline :: u32

definition RTC_MAGIC :: u32 where "RTC_MAGIC = 0xDEADBEEF"

definition rtcBegin :: "RtcData \<Rightarrow> RtcData" where
  "rtcBegin r =
     (let r1 = (if magic r \<noteq> RTC_MAGIC then \<lparr>magic = RTC_MAGIC, bootCount = 0, lastOtaCheck = 0\<rparr> else r)
      in r1\<lparr>bootCount := bootCount r1 + 1\<rparr>)"

definition sleepBegin :: "sleepCfg \<Rightarrow> u32 \<Rightarrow> sleepState" where
  "sleepBegin c now =
     (if \<not> slEnabled c then \<lparr>sEnabled = False, sleepUs = 0, wakeDeadline = 0\<rparr>
      else let sleepS = (if slSleepS c < 10 then 10 else slSleepS c); wakeS = (if slWakeS c < 10 then 10 else slWakeS c)
           in \<lparr>sEnabled = True, sleepUs = ucast (ucast sleepS * 1000000 :: u64), wakeDeadline = now + wakeS * 1000\<rparr>)"

text \<open>\<open>loop\<close>: the microseconds the device goes to sleep for, when it does.\<close>

definition sleepLoop :: "u32 \<Rightarrow> sleepState \<Rightarrow> u32 option" where
  "sleepLoop now s = (if \<not> sEnabled s then None else if now < wakeDeadline s then None else Some (sleepUs s))"

section \<open>How long it sleeps, and when\<close>

text \<open>The microseconds are kept in 32 bits: up to 4294 seconds the device sleeps as long as configured, beyond that the time is cut.\<close>

lemma sleepUs_value:
  assumes "slEnabled c" "10 \<le> slSleepS c"
  shows "unat (sleepUs (sleepBegin c now)) = unat (slSleepS c) * 1000000 mod 2 ^ 32"
proof -
  have b: "unat (slSleepS c) * 1000000 < 2 ^ 64" 
  proof -
    have "unat (slSleepS c) < 2 ^ LENGTH(32)" by (rule unsigned_less)
    then show ?thesis by simp
  qed
  then have "take_bit 64 (unat (slSleepS c)) = unat (slSleepS c)" by (simp add: take_bit_nat_eq_self)
  then have u: "unat (ucast (slSleepS c) :: u64) = unat (slSleepS c)" by (simp add: unsigned_ucast_eq)
  have "unat (ucast (slSleepS c) * 1000000 :: u64) = unat (slSleepS c) * 1000000"
    using b by (subst unat_mult_lem [THEN iffD1]) (simp_all add: u)
  then show ?thesis using assms by (simp add: sleepBegin_def Let_def not_less unsigned_ucast_eq take_bit_eq_mod)
qed

lemma sleep_exact_below_72_minutes:
  assumes "slEnabled c" "10 \<le> slSleepS c" "unat (slSleepS c) \<le> 4294"
  shows "unat (sleepUs (sleepBegin c now)) = unat (slSleepS c) * 1000000"
  using sleepUs_value [OF assms(1,2)] assms(3) by simp

lemma sleep_cut_at_72_minutes:
  "unat (sleepUs (sleepBegin \<lparr>slEnabled = True, slSleepS = 4295, slWakeS = 30\<rparr> now)) = 32704"
  using sleepUs_value [of "\<lparr>slEnabled = True, slSleepS = 4295, slWakeS = 30\<rparr>" now] by simp

text \<open>It stays awake for the configured time, ten seconds at least, from a boot that begins well before the clock wraps.\<close>

lemma awake_for_wake_time:
  assumes "slEnabled c" "10 \<le> slWakeS c" "unat t0 + unat (slWakeS c) * 1000 < 2 ^ 32"
  shows "sleepLoop t (sleepBegin c t0) = None \<longleftrightarrow> unat t < unat t0 + unat (slWakeS c) * 1000"
proof -
  have m: "unat (slWakeS c * 1000) = unat (slWakeS c) * 1000" using assms(3) by (subst unat_mult_lem [THEN iffD1]) simp_all
  have "unat (t0 + slWakeS c * 1000) = unat t0 + unat (slWakeS c) * 1000" using assms(3) m by (subst unat_add_lem [THEN iffD1]) simp_all
  moreover have "\<not> slWakeS c < 10" using assms(2) by (simp add: not_less)
  then have "sleepLoop t (sleepBegin c t0) = None \<longleftrightarrow> t < t0 + slWakeS c * 1000" using assms(1) by (simp add: sleepLoop_def sleepBegin_def Let_def)
  ultimately show ?thesis by (simp add: word_less_nat_alt)
qed

text \<open>The boot count is the number of boots since the power came.\<close>

lemma rtcBegin_next: "magic r = RTC_MAGIC \<Longrightarrow> bootCount (rtcBegin r) = bootCount r + 1 \<and> magic (rtcBegin r) = RTC_MAGIC"
  by (simp add: rtcBegin_def Let_def)

lemma bootCount_counts:
  assumes "magic r \<noteq> RTC_MAGIC"
  shows "bootCount ((rtcBegin ^^ Suc n) r) = of_nat (Suc n) \<and> magic ((rtcBegin ^^ Suc n) r) = RTC_MAGIC"
proof (induction n)
  case 0
  show ?case using assms by (simp add: rtcBegin_def Let_def)
next
  case (Suc n)
  have "(rtcBegin ^^ Suc (Suc n)) r = rtcBegin ((rtcBegin ^^ Suc n) r)" by simp
  then show ?case using Suc.IH rtcBegin_next [of "(rtcBegin ^^ Suc n) r"] by (simp del: funpow.simps)
qed

end
