(* ===== verification/Temp_Probe.thy ===== *)
theory Temp_Probe
  imports Complex_Main Shell_Config Mqtt_Topics
begin

text \<open>
  The 1-Wire temperature probes: \<open>temp_guard_policy.h\<close> and \<open>TemperatureModule.cpp\<close>. The driver is an input: the addresses a bus
  walk finds, which probes answer, what they read. A reading is a rational or, for NaN, None: the sensor counts sixteenths of a
  degree below 128, on which the code's \<open>float\<close> differences are exact.
\<close>

section \<open>Definitions\<close>

subsection \<open>The guard\<close>

definition TEMP_NO_READING :: rat where "TEMP_NO_READING = -127"
definition TEMP_EXPIRE_INTERVALS :: u32 where "TEMP_EXPIRE_INTERVALS = 3"

record TempGuard =
  accepted :: rat
  held :: rat

datatype TempVerdict = Accepted | Rebaselined | NoReading | Implausible

definition guardInit :: TempGuard where
  "guardInit = \<lparr>accepted = TEMP_NO_READING, held = TEMP_NO_READING\<rparr>"

definition tempGuardJudge :: "TempGuard \<Rightarrow> rat option \<Rightarrow> rat \<Rightarrow> TempVerdict \<times> TempGuard" where
  "tempGuardJudge g reading maxDelta =
     (case reading of None \<Rightarrow> (NoReading, g)
      | Some c \<Rightarrow>
          (if c \<le> TEMP_NO_READING then (NoReading, g)
           else let guardOn = (maxDelta > 0 \<and> accepted g > TEMP_NO_READING)
                in if guardOn \<and> \<bar>c - accepted g\<bar> > maxDelta then
                     (if held g \<le> TEMP_NO_READING \<or> \<bar>c - held g\<bar> > maxDelta then (Implausible, g\<lparr>held := c\<rparr>)
                      else (Rebaselined, \<lparr>accepted = c, held = TEMP_NO_READING\<rparr>))
                   else (Accepted, \<lparr>accepted = c, held = TEMP_NO_READING\<rparr>)))"

definition tempExpireAfterS :: "u32 \<Rightarrow> u32" where
  "tempExpireAfterS intervalS = (if intervalS > 0xFFFFFFFF div TEMP_EXPIRE_INTERVALS then 0xFFFFFFFF else intervalS * TEMP_EXPIRE_INTERVALS)"

subsection \<open>The roster\<close>

record TempSensor =
  address :: "u8 list"
  addressStr :: string
  sname :: string
  guard :: TempGuard
  busIdx :: u8

text \<open>\<open>addressToStr\<close>: two upper-case hexadecimal digits a byte.\<close>

definition hexUpper :: "nat \<Rightarrow> char" where
  "hexUpper n = (if n < 10 then char_of (48 + n) else char_of (55 + n))"

definition addressToStr :: "u8 list \<Rightarrow> string" where
  "addressToStr a = concat (map (\<lambda>b. [hexUpper (unat b div 16), hexUpper (unat b mod 16)]) a)"

text \<open>\<open>strtol(byte, nullptr, 16)\<close> of two characters, cut to a byte.\<close>

definition hexVal :: "char \<Rightarrow> nat" where
  "hexVal c = (if isDigit c then digitVal c else if isUpper c then ccode c - 55 else ccode c - 87)"

definition strtolByte :: "string \<Rightarrow> u8" where
  "strtolByte s =
     (let (neg, t) = cSign (dropWhile isSpace s); v = foldl (\<lambda>v c. v * 16 + hexVal c) 0 (takeWhile isHex t)
      in if neg then - of_nat v else of_nat v)"

fun addressBytes :: "string \<Rightarrow> u8 list" where
  "addressBytes (a # b # s) = strtolByte [a, b] # addressBytes s"
| "addressBytes s = []"

definition jArr :: "json option \<Rightarrow> json list" where
  "jArr v = (case v of Some (JArr a) \<Rightarrow> a | _ \<Rightarrow> [])"

definition sensorsOf :: "json \<Rightarrow> json option" where
  "sensorsOf d = Option.bind (jget d ''temperature'') (\<lambda>t. jget t ''sensors'')"

definition elemAddress :: "json \<Rightarrow> string" where
  "elemAddress e = strMember (Some e) ''address'' ''''"

definition loadSensor :: "json \<Rightarrow> TempSensor option" where
  "loadSensor e =
     (let addrStr = elemAddress e; nm = strMember (Some e) ''name'' ''''
      in if length addrStr \<noteq> 16 then None
         else Some \<lparr>address = addressBytes addrStr, addressStr = take 16 addrStr,
                    sname = take 31 (if length nm > 0 then nm else addrStr), guard = guardInit, busIdx = 0\<rparr>)"

definition loadConfigSensors :: "json \<Rightarrow> TempSensor list \<Rightarrow> TempSensor list" where
  "loadConfigSensors d roster = roster @ List.map_filter loadSensor (jArr (sensorsOf d))"

text \<open>One address found on a bus: the first probe of that name is retagged; a new one is appended when \<open>addNew\<close> is set.\<close>

fun retag :: "string \<Rightarrow> u8 \<Rightarrow> TempSensor list \<Rightarrow> TempSensor list option" where
  "retag a b [] = None"
| "retag a b (s # ss) = (if addressStr s = a then Some (s\<lparr>busIdx := b\<rparr> # ss) else map_option ((#) s) (retag a b ss))"

definition foundOne :: "bool \<Rightarrow> u8 \<Rightarrow> u8 list option \<Rightarrow> TempSensor list \<Rightarrow> TempSensor list" where
  "foundOne addNew b found roster =
     (case found of None \<Rightarrow> roster
      | Some a \<Rightarrow>
          (case retag (addressToStr a) b roster of
             Some r \<Rightarrow> r
           | None \<Rightarrow>
               (if \<not> addNew then roster
                else roster @ [\<lparr>address = a, addressStr = take 16 (addressToStr a), sname = take 31 (addressToStr a),
                                guard = guardInit, busIdx = b\<rparr>])))"

fun discoverFrom :: "bool \<Rightarrow> nat \<Rightarrow> u8 list option list list \<Rightarrow> TempSensor list \<Rightarrow> TempSensor list" where
  "discoverFrom addNew b [] roster = roster"
| "discoverFrom addNew b (found # buses) roster = discoverFrom addNew (Suc b) buses (fold (foundOne addNew (of_nat b)) found roster)"

definition discoverSensors :: "bool \<Rightarrow> u8 list option list list \<Rightarrow> TempSensor list \<Rightarrow> TempSensor list" where
  "discoverSensors addNew buses roster = discoverFrom addNew 0 buses roster"

subsection \<open>The configuration file\<close>

definition loadConfigBase :: "(string \<Rightarrow> bool \<times> json) \<Rightarrow> (bool \<Rightarrow> json \<Rightarrow> string) \<Rightarrow> config \<Rightarrow> json option \<times> config" where
  "loadConfigBase parse pr c =
     (let (b, d0) = nextFault (cdisk c)
      in if b \<noteq> NoFault then (None, c\<lparr>cdisk := d0\<rparr>)
         else let (there, d1) = fsExists ''/config.json'' d0
              in if \<not> there then (copyDiskDoc parse pr c, c\<lparr>cdisk := d1\<rparr>)
                 else let (s, d2) = fsRead ''/config.json'' d1
                      in (case s of None \<Rightarrow> None
                          | Some t \<Rightarrow> if fst (parse t) \<and> isObj (snd (parse t)) then Some (snd (parse t)) else None, c\<lparr>cdisk := d2\<rparr>))"

definition commitConfig :: "(bool \<Rightarrow> json \<Rightarrow> string) \<Rightarrow> json \<Rightarrow> config \<Rightarrow> bool \<times> config" where
  "commitConfig pr d c = (let (r, k) = cfgWriteFile pr d True (cdisk c) in (r \<noteq> None, c\<lparr>cdisk := k\<rparr>))"

text \<open>Whether the document has room for \<open>temperature.sensors\<close>, and the document with the array put there.\<close>

definition holdsSensors :: "json \<Rightarrow> bool" where
  "holdsSensors d = (case jget d ''temperature'' of None \<Rightarrow> True | Some JNull \<Rightarrow> True | Some (JObj m) \<Rightarrow> True | _ \<Rightarrow> False)"

definition putSensors :: "json list \<Rightarrow> json \<Rightarrow> json" where
  "putSensors a d =
     (if holdsSensors d
      then jput ''temperature'' (jput ''sensors'' (JArr a) (case jget d ''temperature'' of None \<Rightarrow> JNull | Some t \<Rightarrow> t)) d else d)"

text \<open>\<open>saveDiscovered\<close>: the loop over the roster; without room the array never grows.\<close>

definition autoName :: "json list \<Rightarrow> string" where
  "autoName a = c_snprintf 20 (''temp_'' @ dec (length a + 1))"

fun mergeLoop :: "bool \<Rightarrow> TempSensor list \<Rightarrow> json list \<Rightarrow> TempSensor list \<times> json list \<times> bool" where
  "mergeLoop room [] a = ([], a, False)"
| "mergeLoop room (s # ss) a =
     (if list_ex (\<lambda>e. elemAddress e = addressStr s) a
      then let (r, a', n) = mergeLoop room ss a in (s # r, a', n)
      else let a1 = (if room then a @ [JObj [(''address'', JStr (addressStr s)), (''name'', JStr (autoName a))]] else a);
               (r, a', n) = mergeLoop room ss a1
           in (s\<lparr>sname := take 31 (autoName a)\<rparr> # r, a', True))"

definition saveDiscovered :: "(string \<Rightarrow> bool \<times> json) \<Rightarrow> (bool \<Rightarrow> json \<Rightarrow> string) \<Rightarrow> TempSensor list \<Rightarrow> config \<Rightarrow> TempSensor list \<times> config" where
  "saveDiscovered parse pr roster c =
     (case loadConfigBase parse pr c of
        (None, c1) \<Rightarrow> (roster, c1)
      | (Some d, c1) \<Rightarrow>
          (let (r, a, anyNew) = mergeLoop (holdsSensors d) roster (jArr (sensorsOf d))
           in if \<not> anyNew then (r, c1) else (r, snd (commitConfig pr (putSensors a d) c1))))"

definition keptElem :: "json \<Rightarrow> json" where
  "keptElem e = (if isObj e then e else JNull)"

definition removeSensorsFromConfig :: "(string \<Rightarrow> bool \<times> json) \<Rightarrow> (bool \<Rightarrow> json \<Rightarrow> string) \<Rightarrow> string list \<Rightarrow> config \<Rightarrow> config" where
  "removeSensorsFromConfig parse pr addrs c =
     (case loadConfigBase parse pr c of
        (None, c1) \<Rightarrow> c1
      | (Some d, c1) \<Rightarrow>
          (case sensorsOf d of
             Some (JArr a) \<Rightarrow> snd (commitConfig pr (putSensors (map keptElem (filter (\<lambda>e. elemAddress e \<notin> set addrs) a)) d) c1)
           | _ \<Rightarrow> c1))"

text \<open>\<open>pruneSensors\<close>: \<open>up\<close> has which probes answer on a bus.\<close>

definition sensorLive :: "nat \<Rightarrow> (nat \<Rightarrow> u8 list \<Rightarrow> bool) \<Rightarrow> TempSensor \<Rightarrow> bool" where
  "sensorLive nbuses up s \<longleftrightarrow> unat (busIdx s) < nbuses \<and> up (unat (busIdx s)) (address s)"

definition pruneSensors :: "(string \<Rightarrow> bool \<times> json) \<Rightarrow> (bool \<Rightarrow> json \<Rightarrow> string) \<Rightarrow> nat \<Rightarrow> (nat \<Rightarrow> u8 list \<Rightarrow> bool) \<Rightarrow>
    TempSensor list \<Rightarrow> config \<Rightarrow> nat \<times> TempSensor list \<times> config" where
  "pruneSensors parse pr nbuses up roster c =
     (let dropped = map addressStr (filter (\<lambda>s. \<not> sensorLive nbuses up s) roster)
      in (length dropped, filter (sensorLive nbuses up) roster, if dropped \<noteq> [] then removeSensorsFromConfig parse pr dropped c else c))"

text \<open>\<open>temp.discover\<close> up to its report: how many were added and pruned, the roster, the configuration.\<close>

definition discoverCmd :: "(string \<Rightarrow> bool \<times> json) \<Rightarrow> (bool \<Rightarrow> json \<Rightarrow> string) \<Rightarrow> string list \<Rightarrow> u8 list option list list \<Rightarrow>
    (nat \<Rightarrow> u8 list \<Rightarrow> bool) \<Rightarrow> TempSensor list \<Rightarrow> config \<Rightarrow> (nat \<times> nat) option \<times> TempSensor list \<times> config" where
  "discoverCmd parse pr argv buses up roster c =
     (if buses = [] then (None, roster, c)
      else let r1 = discoverSensors True buses roster;
               (removed, r2, c1) = (if list_ex (\<lambda>a. a = ''--prune'') (tl argv) then pruneSensors parse pr (length buses) up r1 c else (0, r1, c));
               (r3, c2) = saveDiscovered parse pr r2 c1
           in (Some (length r1 - length roster, removed), r3, c2))"

subsection \<open>Reading\<close>

definition readSensorC :: "nat \<Rightarrow> rat \<Rightarrow> rat option \<Rightarrow> TempSensor \<Rightarrow> rat option \<times> TempSensor" where
  "readSensorC nbuses maxDelta reading s =
     (if \<not> unat (busIdx s) < nbuses then (None, s)
      else case tempGuardJudge (guard s) reading maxDelta of
             (v, g) \<Rightarrow> (if v = Accepted \<or> v = Rebaselined then reading else None, s\<lparr>guard := g\<rparr>))"

text \<open>One entry per probe, without a value when it is stale; then the topics of those that have one. \<open>fmt\<close> rounds and prints.\<close>

fun readAll :: "nat \<Rightarrow> rat \<Rightarrow> rat option list \<Rightarrow> TempSensor list \<Rightarrow> (string \<times> string \<times> rat option) list \<times> TempSensor list" where
  "readAll nbuses maxDelta rs [] = ([], [])"
| "readAll nbuses maxDelta rs (s # ss) =
     (let (t, s') = readSensorC nbuses maxDelta (case rs of [] \<Rightarrow> None | r # _ \<Rightarrow> r) s; (es, ss') = readAll nbuses maxDelta (tl rs) ss
      in ((sname s, addressStr s, t) # es, s' # ss'))"

definition slug :: "string \<Rightarrow> string" where
  "slug n = map (\<lambda>c. toLower (if c = CHR '' '' then CHR ''_'' else c)) (take 31 n)"

definition probeTopics :: "(rat \<Rightarrow> string) \<Rightarrow> nat \<Rightarrow> string \<Rightarrow> (string \<times> string \<times> rat option) list \<Rightarrow> (string \<times> string) list" where
  "probeTopics fmt cap pre es =
     concat (map (\<lambda>(n, a, t). case t of None \<Rightarrow> []
        | Some v \<Rightarrow> (case mqttTopicVfmt (Some []) cap (Some (pre @ ''/sensor/temperature/'' @ slug n)) of
                       (Some tp, True) \<Rightarrow> [(tp, fmt v)] | _ \<Rightarrow> [])) es)"

definition readAndPublish :: "(rat \<Rightarrow> string) \<Rightarrow> nat \<Rightarrow> string \<Rightarrow> nat \<Rightarrow> rat \<Rightarrow> rat option list \<Rightarrow> TempSensor list \<Rightarrow>
    (string \<times> string) list \<times> (string \<times> string \<times> rat option) list \<times> TempSensor list" where
  "readAndPublish fmt cap pre nbuses maxDelta rs roster =
     (if roster = [] then ([], [], [])
      else let (es, r) = readAll nbuses maxDelta rs roster in (probeTopics fmt cap pre es, es, r))"

definition tempLoop :: "u32 \<Rightarrow> u32 \<Rightarrow> u32 \<Rightarrow> bool \<times> u32" where
  "tempLoop now intervalMs lastRead = (if now - lastRead \<ge> intervalMs then (True, now) else (False, lastRead))"

section \<open>The guard lets through exactly what it should\<close>

text \<open>A probe's readings in turn: what each lets through.\<close>

fun probeRun :: "rat \<Rightarrow> rat option list \<Rightarrow> TempGuard \<Rightarrow> rat option list \<times> TempGuard" where
  "probeRun d [] g = ([], g)"
| "probeRun d (r # rs) g =
     (let (v, g1) = tempGuardJudge g r d; (vs, g2) = probeRun d rs g1
      in ((if v = Accepted \<or> v = Rebaselined then r else None) # vs, g2))"

definition somes :: "'a option list \<Rightarrow> 'a list" where
  "somes xs = List.map_filter id xs"

definition usable :: "rat option \<Rightarrow> bool" where
  "usable r \<longleftrightarrow> (case r of None \<Rightarrow> False | Some c \<Rightarrow> c > TEMP_NO_READING)"

lemma somes_simps [simp]: "somes [] = []" "somes (Some x # xs) = x # somes xs" "somes (None # xs) = somes xs" "somes (xs @ ys) = somes xs @ somes ys"
  by (simp_all add: somes_def List.map_filter_def)

lemma guardInit_simps [simp]: "accepted guardInit = TEMP_NO_READING" "held guardInit = TEMP_NO_READING"
  by (simp_all add: guardInit_def)

lemma probeRun_append:
  "probeRun d (rs @ [r]) g =
     (let (vs, g1) = probeRun d rs g; (v, g2) = tempGuardJudge g1 r d in (vs @ [if v = Accepted \<or> v = Rebaselined then r else None], g2))"
  by (induction rs arbitrary: g) (auto simp: Let_def split: prod.splits)

text \<open>The guard remembers the last value let through and, unless that was the last usable reading, the last usable one.\<close>

definition guardInv :: "rat \<Rightarrow> rat list \<Rightarrow> rat list \<Rightarrow> TempGuard \<Rightarrow> bool" where
  "guardInv d pubs us g \<longleftrightarrow>
     (if pubs = [] then us = [] \<and> g = guardInit
      else accepted g = last pubs \<and> accepted g > TEMP_NO_READING \<and> us \<noteq> [] \<and>
           (if held g = TEMP_NO_READING then last us = accepted g else held g > TEMP_NO_READING \<and> last us = held g))"

lemma probeRun_inv:
  "guardInv d (somes (fst (probeRun d rs guardInit))) (somes (filter usable rs)) (snd (probeRun d rs guardInit))"
proof (induction rs rule: rev_induct)
  case (snoc r rs)
  obtain vs g where g: "probeRun d rs guardInit = (vs, g)" by fastforce
  show ?case
  proof (cases "usable r")
    case False
    then have "tempGuardJudge g r d = (NoReading, g)" by (cases r) (auto simp: usable_def tempGuardJudge_def)
    then show ?thesis using snoc False by (simp add: probeRun_append g)
  next
    case True
    then obtain c where c: "r = Some c" "c > TEMP_NO_READING" by (cases r) (auto simp: usable_def)
    have i: "guardInv d (somes vs) (somes (filter usable rs)) g" using snoc by (simp add: g)
    show ?thesis using i True c
      by (auto simp: probeRun_append g guardInv_def tempGuardJudge_def Let_def not_le split: if_splits)
  qed
qed (simp add: guardInv_def guardInit_def)

text \<open>C40: The temperature guard lets a reading through exactly when it is a reading and either the guard is off, none was let through
  before, it is within the limit of the last one let through, or it is within the limit of the usable reading just before: a lone jump
  is never published, a real step costs one reading, and a failed read changes nothing.\<close>

theorem temp_guard_exact:
  "fst (probeRun d (rs @ [r]) guardInit) = fst (probeRun d rs guardInit) @
     [case r of None \<Rightarrow> None
      | Some c \<Rightarrow>
          if c > TEMP_NO_READING \<and>
             (d \<le> 0 \<or> somes (fst (probeRun d rs guardInit)) = [] \<or> \<bar>c - last (somes (fst (probeRun d rs guardInit)))\<bar> \<le> d \<or>
              \<bar>c - last (somes (filter usable rs))\<bar> \<le> d)
          then Some c else None]"
proof -
  obtain vs g where g: "probeRun d rs guardInit = (vs, g)" by fastforce
  have i: "guardInv d (somes vs) (somes (filter usable rs)) g" using probeRun_inv [of d rs] by (simp add: g)
  show ?thesis
  proof (cases r)
    case None
    then show ?thesis by (simp add: probeRun_append g tempGuardJudge_def)
  next
    case (Some c)
    show ?thesis
    proof (cases "c > TEMP_NO_READING")
      case False
      then show ?thesis using Some by (simp add: probeRun_append g tempGuardJudge_def)
    next
      case True
      then show ?thesis using i Some
        by (auto simp: probeRun_append g guardInv_def tempGuardJudge_def Let_def not_le split: if_splits)
    qed
  qed
qed

lemma lone_jump_held:
  assumes "c > TEMP_NO_READING" "0 < d" "somes (fst (probeRun d rs guardInit)) \<noteq> []"
    "\<bar>c - last (somes (fst (probeRun d rs guardInit)))\<bar> > d" "\<bar>c - last (somes (filter usable rs))\<bar> > d"
  shows "fst (probeRun d (rs @ [Some c]) guardInit) = fst (probeRun d rs guardInit) @ [None]"
  unfolding probeRun_append using assms probeRun_inv [of d rs]
  by (auto simp: guardInv_def tempGuardJudge_def Let_def not_le split: prod.splits if_splits)

section \<open>The roster\<close>

lemma retag_spec:
  "retag a b r = None \<longleftrightarrow> a \<notin> addressStr ` set r"
  "retag a b r = Some r' \<Longrightarrow> map addressStr r' = map addressStr r \<and> map sname r' = map sname r \<and> map guard r' = map guard r \<and> map address r' = map address r"
  by (induction r arbitrary: r') (auto split: if_splits)

lemma hexUpper_inj: "a < 16 \<Longrightarrow> b < 16 \<Longrightarrow> hexUpper a = hexUpper b \<Longrightarrow> a = b"
proof -
  assume a: "a < 16" "b < 16" and e: "hexUpper a = hexUpper b"
  have v: "of_char (hexUpper n) = (if n < 10 then 48 + n else 55 + n)" if "n < 16" for n :: nat
    using that by (auto simp: hexUpper_def)
  have "(of_char (hexUpper a) :: nat) = of_char (hexUpper b)" using e by simp
  then show "a = b" using v [OF a(1)] v [OF a(2)] by (auto split: if_splits)
qed

lemma addressToStr_inj: "addressToStr a = addressToStr b \<Longrightarrow> a = b"
proof (induction a arbitrary: b)
  case (Cons x a)
  then obtain y b' where b: "b = y # b'" by (cases b) (auto simp: addressToStr_def)
  have u: "unat z div 16 < 16" "unat z mod 16 < 16" for z :: u8
  proof -
    have "unat z < 2 ^ LENGTH(8)" by (rule unsigned_less)
    then have "unat z < 16 * 16" by simp
    then show "unat z div 16 < 16" by (rule less_mult_imp_div_less)
    show "unat z mod 16 < 16" by simp
  qed
  have "hexUpper (unat x div 16) = hexUpper (unat y div 16)" "hexUpper (unat x mod 16) = hexUpper (unat y mod 16)" "addressToStr a = addressToStr b'"
    using Cons.prems by (simp_all add: addressToStr_def b)
  then have "unat x div 16 = unat y div 16" "unat x mod 16 = unat y mod 16" "a = b'" using u hexUpper_inj Cons.IH by blast+
  then have "unat x = unat y" by (metis div_mult_mod_eq)
  then show ?case using b \<open>a = b'\<close> by (simp add: word_unat_eq_iff)
qed (cases b; simp add: addressToStr_def)

lemma length_addressToStr [simp]: "length (addressToStr a) = 2 * length a"
  by (induction a) (simp_all add: addressToStr_def)

definition rosterGrows :: "TempSensor list \<Rightarrow> TempSensor list \<Rightarrow> bool" where
  "rosterGrows r r' \<longleftrightarrow> (\<exists>n. map addressStr r' = map addressStr r @ n \<and> (distinct (map addressStr r) \<longrightarrow> distinct (map addressStr r'))) \<and>
     (\<exists>n. map sname r' = map sname r @ n) \<and> (\<exists>n. map guard r' = map guard r @ n)"

lemma rosterGrows_refl: "rosterGrows r r"
  by (simp add: rosterGrows_def)

lemma rosterGrows_trans: "rosterGrows a b \<Longrightarrow> rosterGrows b c \<Longrightarrow> rosterGrows a c"
  unfolding rosterGrows_def by (metis append_assoc)

lemma foundOne_grows:
  assumes "\<forall>a. f = Some a \<longrightarrow> length a = 8"
  shows "rosterGrows r (foundOne addNew b f r) \<and> (\<forall>a. f = Some a \<and> addNew \<longrightarrow> addressToStr a \<in> addressStr ` set (foundOne addNew b f r))"
proof (cases f)
  case (Some a)
  then have l: "length a = 8" using assms by blast
  show ?thesis
  proof (cases "retag (addressToStr a) b r")
    case None
    then show ?thesis using Some l retag_spec(1) [of "addressToStr a" b r] by (auto simp: foundOne_def rosterGrows_def)
  next
    case (Some r')
    have "addressToStr a \<in> addressStr ` set r" using Some retag_spec(1) [of "addressToStr a" b r] by auto
    then have "addressToStr a \<in> addressStr ` set r'" using retag_spec(2) [OF Some] by (metis list.set_map)
    then show ?thesis using \<open>f = Some a\<close> Some retag_spec(2) [OF Some] by (auto simp: foundOne_def rosterGrows_def)
  qed
qed (simp add: foundOne_def rosterGrows_refl)

lemma rosterGrows_member: "rosterGrows r r' \<Longrightarrow> x \<in> addressStr ` set r \<Longrightarrow> x \<in> addressStr ` set r'"
  unfolding rosterGrows_def by (metis Un_iff list.set_map set_append)

lemma bus_grows:
  assumes "\<forall>f \<in> set found. \<forall>a. f = Some a \<longrightarrow> length a = 8"
  shows "rosterGrows r (fold (foundOne addNew b) found r) \<and>
    (\<forall>a. Some a \<in> set found \<and> addNew \<longrightarrow> addressToStr a \<in> addressStr ` set (fold (foundOne addNew b) found r))"
  using assms
proof (induction found arbitrary: r)
  case (Cons f fs)
  let ?r1 = "foundOne addNew b f r"
  have h: "rosterGrows r ?r1" "\<forall>a. f = Some a \<and> addNew \<longrightarrow> addressToStr a \<in> addressStr ` set ?r1"
    using foundOne_grows [of f r addNew b] Cons.prems by auto
  have t: "rosterGrows ?r1 (fold (foundOne addNew b) fs ?r1)"
    "\<forall>a. Some a \<in> set fs \<and> addNew \<longrightarrow> addressToStr a \<in> addressStr ` set (fold (foundOne addNew b) fs ?r1)"
    using Cons.IH [of ?r1] Cons.prems by auto
  show ?case using rosterGrows_trans [OF h(1) t(1)] h(2) t(2) rosterGrows_member [OF t(1)] by auto
qed (simp add: rosterGrows_refl)

text \<open>A bus walk drops no probe, renames none, keeps what the guards remember and adds no address twice; with \<open>addNew\<close> every probe found is in the
  roster.\<close>

lemma discoverFrom_grows:
  assumes "\<forall>found \<in> set buses. \<forall>f \<in> set found. \<forall>a. f = Some a \<longrightarrow> length a = 8"
  shows "rosterGrows r (discoverFrom addNew b buses r) \<and>
    (\<forall>found a. found \<in> set buses \<and> Some a \<in> set found \<and> addNew \<longrightarrow> addressToStr a \<in> addressStr ` set (discoverFrom addNew b buses r))"
  using assms
proof (induction buses arbitrary: b r)
  case (Cons found buses)
  let ?r1 = "fold (foundOne addNew (of_nat b)) found r"
  have h: "rosterGrows r ?r1" "\<forall>a. Some a \<in> set found \<and> addNew \<longrightarrow> addressToStr a \<in> addressStr ` set ?r1"
    using bus_grows [of found r addNew "of_nat b"] Cons.prems by auto
  have t: "rosterGrows ?r1 (discoverFrom addNew (Suc b) buses ?r1)"
    "\<forall>f a. f \<in> set buses \<and> Some a \<in> set f \<and> addNew \<longrightarrow> addressToStr a \<in> addressStr ` set (discoverFrom addNew (Suc b) buses ?r1)"
    using Cons.IH [of ?r1 "Suc b"] Cons.prems by auto
  show ?case using rosterGrows_trans [OF h(1) t(1)] h(2) t(2) rosterGrows_member [OF t(1)] by auto
qed (simp add: rosterGrows_refl)


section \<open>What reaches the configuration file\<close>

lemma mergeLoop_spec:
  assumes "mergeLoop True ss a = (r, a', n)"
  shows "(\<exists>e. a' = a @ e \<and> list_all isObj e) \<and> map addressStr r = map addressStr ss \<and> (\<not> n \<longrightarrow> a' = a) \<and> addressStr ` set ss \<subseteq> elemAddress ` set a'"
  using assms
proof (induction ss arbitrary: a r a' n)
  case (Cons s ss)
  show ?case
  proof (cases "list_ex (\<lambda>e. elemAddress e = addressStr s) a")
    case True
    obtain r1 n1 where m: "mergeLoop True ss a = (r1, a', n1)" "r = s # r1" "n = n1" using Cons.prems True by (auto simp: Let_def split: prod.splits)
    from True obtain e where "e \<in> set a" "elemAddress e = addressStr s" by (auto simp: list_ex_iff)
    then have "addressStr s \<in> elemAddress ` set a" by (metis image_eqI)
    then show ?thesis using Cons.IH [OF m(1)] m by auto
  next
    case False
    define x where "x = JObj [(''address'', JStr (addressStr s)), (''name'', JStr (autoName a))]"
    have ex: "elemAddress x = addressStr s" "isObj x" by (simp_all add: x_def elemAddress_def strMember_def isObj_def)
    obtain r1 n1 where m: "mergeLoop True ss (a @ [x]) = (r1, a', n1)" "r = s\<lparr>sname := take 31 (autoName a)\<rparr> # r1" "n = True"
      using Cons.prems False by (auto simp: Let_def x_def split: prod.splits)
    from Cons.IH [OF m(1)] obtain e where e: "a' = (a @ [x]) @ e" "list_all isObj e" "map addressStr r1 = map addressStr ss"
      "addressStr ` set ss \<subseteq> elemAddress ` set a'" by blast
    then have "a' = a @ (x # e)" "list_all isObj (x # e)" using ex by simp_all
    then show ?thesis using e(3,4) m ex(1) by auto
  qed
qed simp

lemma commitConfig_file:
  "files (cdisk (snd (commitConfig pr d c))) ''/config.json'' \<in> {files (cdisk c) ''/config.json'', Some (pr True d)}"
proof -
  obtain r k where k: "cfgWriteFile pr d True (cdisk c) = (r, k)" by fastforce
  show ?thesis using cfgWriteFile_safe [OF k] by (cases r) (simp_all add: commitConfig_def k)
qed

lemma loadConfigBase_read:
  assumes "loadConfigBase parse pr c = (m, c1)"
  shows "files (cdisk c1) = files (cdisk c)"
    and "m = Some d \<Longrightarrow> files (cdisk c) ''/config.json'' = Some t \<Longrightarrow> faults (cdisk c) = [] \<Longrightarrow> fst (parse t) \<and> snd (parse t) = d \<and> isObj d"
  using assms
  by (auto simp: loadConfigBase_def fsExists_def fsRead_def nextFault_def Let_def split: list.splits if_splits option.splits)

lemma putSensors_get: "isObj d \<Longrightarrow> holdsSensors d \<Longrightarrow> sensorsOf (putSensors a d) = Some (JArr a)"
  by (cases d; auto simp: putSensors_def holdsSensors_def sensorsOf_def isObj_def map_of_memPut split: option.splits json.splits)

lemma putSensors_other: "k \<noteq> ''temperature'' \<Longrightarrow> jget (putSensors a d) k = jget d k"
  by (simp add: putSensors_def jget_jput)

lemma mergeLoop_full:
  assumes "mergeLoop False ss a = (r, a', n)"
  shows "a' = a \<and> map addressStr r = map addressStr ss"
  using assms
proof (induction ss arbitrary: a r a' n)
  case (Cons s ss)
  obtain r1 a1 n1 where m: "mergeLoop False ss a = (r1, a1, n1)" by (metis prod_cases3)
  then show ?case using Cons.IH [OF m] Cons.prems by (auto simp: Let_def split: if_splits)
qed simp

text \<open>Saving what was found, whatever the flash does: the file stays as it is, or becomes the document that was read with nothing but the array of
  probes extended at its end, so that every probe of the roster is in it.\<close>

lemma temp_save_keeps:
  assumes "saveDiscovered parse pr roster c = (r, c')"
  shows "map addressStr r = map addressStr roster \<and>
    (files (cdisk c') ''/config.json'' = files (cdisk c) ''/config.json'' \<or>
     (\<exists>d a. fst (loadConfigBase parse pr c) = Some d \<and> files (cdisk c') ''/config.json'' = Some (pr True (putSensors (jArr (sensorsOf d) @ a) d)) \<and>
        (holdsSensors d \<longrightarrow> addressStr ` set roster \<subseteq> elemAddress ` set (jArr (sensorsOf d) @ a))))"
proof -
  obtain m c1 where l: "loadConfigBase parse pr c = (m, c1)" by fastforce
  show ?thesis
  proof (cases m)
    case None
    then show ?thesis using assms l loadConfigBase_read(1) [OF l] by (simp add: saveDiscovered_def)
  next
    case (Some d)
    obtain r1 a' n where g: "mergeLoop (holdsSensors d) roster (jArr (sensorsOf d)) = (r1, a', n)" by (metis prod_cases3)
    have c: "r = r1" "c' = (if \<not> n then c1 else snd (commitConfig pr (putSensors a' d) c1))"
      using assms by (auto simp: saveDiscovered_def l Some g split: if_splits)
    have e: "map addressStr r1 = map addressStr roster \<and> (\<exists>e. a' = jArr (sensorsOf d) @ e) \<and> (holdsSensors d \<longrightarrow> addressStr ` set roster \<subseteq> elemAddress ` set a')"
      using mergeLoop_spec [of roster "jArr (sensorsOf d)" r1 a' n] mergeLoop_full [of roster "jArr (sensorsOf d)" r1 a' n] g by (cases "holdsSensors d") auto
    have "files (cdisk c') ''/config.json'' \<in> {files (cdisk c) ''/config.json'', Some (pr True (putSensors a' d))}"
      using c(2) commitConfig_file [of pr "putSensors a' d" c1] loadConfigBase_read(1) [OF l] by (auto split: if_splits)
    then show ?thesis using e c(1) by (auto simp: l Some)
  qed
qed

text \<open>Pruning keeps exactly the probes that answer, and drops from the file's array exactly the entries of those that do not.\<close>

lemma prune_config:
  assumes "pruneSensors parse pr nbuses up roster c = (n, r, c')"
  shows "r = filter (sensorLive nbuses up) roster \<and> n = length roster - length r \<and>
    (files (cdisk c') ''/config.json'' = files (cdisk c) ''/config.json'' \<or>
     (\<exists>d a. fst (loadConfigBase parse pr c) = Some d \<and> sensorsOf d = Some (JArr a) \<and>
        files (cdisk c') ''/config.json'' =
          Some (pr True (putSensors (map keptElem (filter (\<lambda>e. elemAddress e \<notin> addressStr ` {s \<in> set roster. \<not> sensorLive nbuses up s}) a)) d))))"
proof -
  define dropped where "dropped = map addressStr (filter (\<lambda>s. \<not> sensorLive nbuses up s) roster)"
  have ds: "set dropped = addressStr ` {s \<in> set roster. \<not> sensorLive nbuses up s}" by (auto simp: dropped_def)
  have len: "length roster = length (filter (sensorLive nbuses up) roster) + length dropped"
    using sum_length_filter_compl [of "sensorLive nbuses up" roster] by (simp add: dropped_def)
  have p: "n = length dropped" "r = filter (sensorLive nbuses up) roster" "c' = (if dropped \<noteq> [] then removeSensorsFromConfig parse pr dropped c else c)"
    using assms by (auto simp: pruneSensors_def Let_def dropped_def)
  obtain m c1 where l: "loadConfigBase parse pr c = (m, c1)" by fastforce
  have f: "files (cdisk (removeSensorsFromConfig parse pr dropped c)) ''/config.json'' = files (cdisk c) ''/config.json'' \<or>
      (\<exists>d a. m = Some d \<and> sensorsOf d = Some (JArr a) \<and> files (cdisk (removeSensorsFromConfig parse pr dropped c)) ''/config.json'' =
          Some (pr True (putSensors (map keptElem (filter (\<lambda>e. elemAddress e \<notin> set dropped) a)) d)))"
  proof (cases "\<exists>d a. m = Some d \<and> sensorsOf d = Some (JArr a)")
    case True
    then obtain d a where d: "m = Some d" "sensorsOf d = Some (JArr a)" by blast
    show ?thesis using commitConfig_file [of pr "putSensors (map keptElem (filter (\<lambda>e. elemAddress e \<notin> set dropped) a)) d" c1] loadConfigBase_read(1) [OF l] d
      by (auto simp: removeSensorsFromConfig_def l)
  next
    case False
    then have "cdisk (removeSensorsFromConfig parse pr dropped c) = cdisk c1"
      by (auto simp: removeSensorsFromConfig_def l split: option.splits json.splits)
    then show ?thesis using loadConfigBase_read(1) [OF l] by simp
  qed
  show ?thesis using p f len by (auto simp: ds [symmetric] l)
qed

text \<open>Two faults of the names. The automatic name counts the entries, so after a pruning a new probe takes the name of one that is left; and an
  address written in lower case in the configuration is not recognised on the bus, so the same probe is added a second time.\<close>

lemma auto_name_taken:
  "fst (snd (mergeLoop True [\<lparr>address = [], addressStr = ''B'', sname = '''', guard = guardInit, busIdx = 0\<rparr>]
     [JObj [(''address'', JStr ''A''), (''name'', JStr ''temp_2'')]])) =
   [JObj [(''address'', JStr ''A''), (''name'', JStr ''temp_2'')], JObj [(''address'', JStr ''B''), (''name'', JStr ''temp_2'')]]"
  by code_simp

lemma lower_case_found_twice:
  assumes "loadSensor (JObj [(''address'', JStr ''28ff000000000001'')]) = Some s"
  shows "map addressStr (discoverSensors True [[Some [0x28, 0xff, 0, 0, 0, 0, 0, 1]]] [s]) = [''28ff000000000001'', ''28FF000000000001'']"
proof -
  have a: "addressStr s = ''28ff000000000001''" using assms by (auto simp: loadSensor_def elemAddress_def strMember_def Let_def)
  have h: "addressToStr [0x28, 0xff, 0, 0, 0, 0, 0, 1] = ''28FF000000000001''" by code_simp
  show ?thesis by (simp add: discoverSensors_def foundOne_def h a)
qed


end
