(* ===== verification/Ads_Sample.thy ===== *)
theory Ads_Sample
  imports Complex_Main Fw_Prelude Mqtt_Topics
begin

text \<open>
  The current channels: \<open>ads_sample_policy.h\<close> and \<open>ADS1115Module.cpp\<close>. The chip is an input: whether it answers its address, when a
  conversion is complete, the counts it gives. Sums are exact, as in the code; what the code computes from them in \<open>double\<close> and
  \<open>float\<close> is stated over the reals, without its rounding.
\<close>

section \<open>Definitions\<close>

definition ADS_PGA_RANGES :: nat where "ADS_PGA_RANGES = 6"
definition ADS_PGA_FS_V :: "real list" where "ADS_PGA_FS_V = [0.256, 0.512, 1.024, 2.048, 4.096, 6.144]"
definition ADS_CONVERSION_TIMEOUT_US :: u32 where "ADS_CONVERSION_TIMEOUT_US = 10000"
definition ADS_GROUND_COUNTS :: int where "ADS_GROUND_COUNTS = 8"
definition ADS_AC_FLOOR_COUNTS :: real where "ADS_AC_FLOOR_COUNTS = 16"
definition RMS_SAMPLES :: nat where "RMS_SAMPLES = 30"

fun pgaFrom :: "real \<Rightarrow> nat \<Rightarrow> real list \<Rightarrow> nat" where
  "pgaFrom g i [] = ADS_PGA_RANGES - 1"
| "pgaFrom g i (fs # rest) = (if g \<le> fs then i else pgaFrom g (i + 1) rest)"

text \<open>None is NaN, which no comparison holds for.\<close>

definition adsPgaIndex :: "real option \<Rightarrow> nat" where
  "adsPgaIndex gainV = (case gainV of None \<Rightarrow> ADS_PGA_RANGES - 1 | Some g \<Rightarrow> pgaFrom g 0 (take (ADS_PGA_RANGES - 1) ADS_PGA_FS_V))"

definition adsPgaFullScaleV :: "real option \<Rightarrow> real" where
  "adsPgaFullScaleV gainV = ADS_PGA_FS_V ! adsPgaIndex gainV"

record AdsRms =
  asum :: int
  asumSq :: int
  an :: nat
  amin :: int

definition rmsInit :: AdsRms where
  "rmsInit = \<lparr>asum = 0, asumSq = 0, an = 0, amin = 32767\<rparr>"

definition adsRmsAdd :: "16 word \<Rightarrow> AdsRms \<Rightarrow> AdsRms" where
  "adsRmsAdd raw a = \<lparr>asum = asum a + sint raw, asumSq = asumSq a + sint raw * sint raw, an = an a + 1,
     amin = (if sint raw < amin a then sint raw else amin a)\<rparr>"

definition adsRmsAcCounts :: "AdsRms \<Rightarrow> real" where
  "adsRmsAcCounts a =
     (if an a = 0 then 0
      else let mean = real_of_int (asum a) / real (an a) in sqrt (max 0 (real_of_int (asumSq a) / real (an a) - mean * mean)))"

definition adsRmsAcVolts :: "AdsRms \<Rightarrow> real \<Rightarrow> real" where
  "adsRmsAcVolts a fullScaleV = adsRmsAcCounts a * fullScaleV / 32768"

definition adsMeanVolts :: "AdsRms \<Rightarrow> real \<Rightarrow> real" where
  "adsMeanVolts a fullScaleV = (if an a = 0 then 0 else real_of_int (asum a) / real (an a) * fullScaleV / 32768)"

datatype AdsClip = ClipUnknown | Clean | Clipped

definition adsClipAtGround :: "AdsRms \<Rightarrow> AdsClip" where
  "adsClipAtGround a =
     (if adsRmsAcCounts a \<le> ADS_AC_FLOOR_COUNTS then ClipUnknown else if amin a \<le> ADS_GROUND_COUNTS then Clipped else Clean)"

text \<open>\<open>adsWaitReady\<close>: each poll is the clock, read first, and whether the chip was ready then. None: still polling.\<close>

fun adsWaitReady :: "u32 \<Rightarrow> u32 \<Rightarrow> (u32 \<times> bool) list \<Rightarrow> bool option" where
  "adsWaitReady start timeoutUs [] = None"
| "adsWaitReady start timeoutUs ((now, ready) # ps) =
     (let late = (now - start \<ge> timeoutUs) in if ready then Some True else if late then Some False else adsWaitReady start timeoutUs ps)"

datatype ADS1115Mux = DIFF_0_1 | DIFF_0_3 | DIFF_1_3 | DIFF_2_3 | SINGLE_0 | SINGLE_1 | SINGLE_2 | SINGLE_3

definition isSingleEnded :: "ADS1115Mux \<Rightarrow> bool" where
  "isSingleEnded m \<longleftrightarrow> m = SINGLE_0 \<or> m = SINGLE_1 \<or> m = SINGLE_2 \<or> m = SINGLE_3"

definition muxFromString :: "string \<Rightarrow> ADS1115Mux" where
  "muxFromString s =
     (if s = ''A0_A1'' then DIFF_0_1 else if s = ''A0_A3'' then DIFF_0_3 else if s = ''A1_A3'' then DIFF_1_3
      else if s = ''A2_A3'' then DIFF_2_3 else if s = ''A0_GND'' then SINGLE_0 else if s = ''A1_GND'' then SINGLE_1
      else if s = ''A2_GND'' then SINGLE_2 else if s = ''A3_GND'' then SINGLE_3 else DIFF_0_1)"

record adsChannel =
  chName :: string
  chMux :: ADS1115Mux
  chGain :: real
  chClamp :: real
  chDc :: bool
  chClipped :: bool

record adsDevice =
  devAddress :: u8
  devOk :: bool
  devChannels :: "adsChannel list"

text \<open>One entry of the configuration, its defaults applied.\<close>

definition loadChannel :: "string \<Rightarrow> string \<Rightarrow> real option \<Rightarrow> real \<Rightarrow> bool \<Rightarrow> adsChannel" where
  "loadChannel cname muxS gain clamp dc =
     \<lparr>chName = take 31 cname, chMux = muxFromString muxS, chGain = adsPgaFullScaleV gain, chClamp = (if clamp \<le> 0 then 30 else clamp),
      chDc = dc, chClipped = False\<rparr>"

text \<open>\<open>sampleRms\<close>: the conversions in turn, None for one that timed out; the last count that came is kept in either case.\<close>

fun sampleLoop :: "nat \<Rightarrow> 16 word option list \<Rightarrow> 16 word \<Rightarrow> AdsRms \<Rightarrow> bool \<times> 16 word \<times> AdsRms" where
  "sampleLoop 0 cs raw a = (True, raw, a)"
| "sampleLoop (Suc n) cs raw a =
     (case cs of Some c # cs' \<Rightarrow> sampleLoop n cs' c (adsRmsAdd c a) | _ \<Rightarrow> (False, raw, a))"

definition markClipped :: "bool \<Rightarrow> adsChannel \<Rightarrow> adsChannel" where
  "markClipped clipped ch = (if chClipped ch = clipped then ch else ch\<lparr>chClipped := clipped\<rparr>)"

definition sampleRms :: "16 word option list \<Rightarrow> adsChannel \<Rightarrow> bool \<times> real \<times> 16 word \<times> adsChannel" where
  "sampleRms cs ch =
     (let (ok, raw, acc) = sampleLoop RMS_SAMPLES cs 0 rmsInit
      in if \<not> ok then (False, 0, raw, ch)
         else if chDc ch then (True, adsMeanVolts acc (chGain ch), raw, ch)
         else let clip = (if isSingleEnded (chMux ch) then adsClipAtGround acc else ClipUnknown)
              in (True, adsRmsAcVolts acc (chGain ch), raw, if clip \<noteq> ClipUnknown then markClipped (clip = Clipped) ch else ch))"

definition markOnline :: "bool \<Rightarrow> adsDevice \<Rightarrow> adsDevice" where
  "markOnline online dev = (if devOk dev = online then dev else dev\<lparr>devOk := online\<rparr>)"

text \<open>\<open>readChannelRms\<close>: the acknowledgements are those before, after a failed and after a good sampling.\<close>

datatype lost = NotLost | Nack | Timeout

definition readChannelRms :: "bool \<Rightarrow> bool \<Rightarrow> 16 word option list \<Rightarrow> adsDevice \<Rightarrow> adsChannel \<Rightarrow>
    lost \<times> real \<times> 16 word \<times> adsDevice \<times> adsChannel" where
  "readChannelRms ackBefore ackAfter cs dev ch =
     (let (why, v, raw, ch1) =
        (if \<not> ackBefore then (Nack, 0, 0, ch)
         else let (ok, v, raw, ch1) = sampleRms cs ch
              in if \<not> ok then (if ackAfter then Timeout else Nack, v, raw, ch1)
                 else if \<not> ackAfter then (Nack, v, raw, ch1) else (NotLost, v, raw, ch1))
      in (why, v, raw, markOnline (why = NotLost) dev, ch1))"

text \<open>One device of \<open>readAndPublish\<close>: after a channel that is lost the rest of the device is left out. A reading is the name, the
  voltage, the current and the power.\<close>

fun readDevice :: "real \<Rightarrow> bool \<Rightarrow> (bool \<times> bool \<times> 16 word option list) list \<Rightarrow> adsChannel list \<Rightarrow> adsDevice \<Rightarrow>
    (string \<times> real \<times> real \<times> real) list \<times> adsChannel list \<times> adsDevice" where
  "readDevice lineV online ios [] dev = ([], [], dev)"
| "readDevice lineV online ios (ch # chs) dev =
     (if \<not> online then let (rs, chs', dev') = readDevice lineV False ios chs dev in (rs, ch # chs', dev')
      else let (ackB, ackA, cs) = (case ios of [] \<Rightarrow> (False, False, []) | io # _ \<Rightarrow> io);
               (why, v, raw, dev1, ch1) = readChannelRms ackB ackA cs dev ch;
               (rs, chs', dev') = readDevice lineV (why = NotLost) (tl ios) chs dev1
           in (if why = NotLost then (chName ch, v, v * chClamp ch, v * chClamp ch * lineV) # rs else rs, ch1 # chs', dev'))"

section \<open>The sums\<close>

definition sumsOf :: "16 word list \<Rightarrow> AdsRms" where
  "sumsOf xs = fold adsRmsAdd xs rmsInit"

lemma sumsOf_snoc: "sumsOf (xs @ [x]) = adsRmsAdd x (sumsOf xs)"
  by (simp add: sumsOf_def)

lemma sumsOf_spec:
  "asum (sumsOf xs) = sum_list (map sint xs) \<and> asumSq (sumsOf xs) = sum_list (map (\<lambda>x. sint x * sint x) xs) \<and> an (sumsOf xs) = length xs"
  by (induction xs rule: rev_induct) (simp_all add: sumsOf_def rmsInit_def adsRmsAdd_def)

lemma sint16: "-32768 \<le> sint (x :: 16 word) \<and> sint x \<le> 32767"
  using sint_greater_eq [of x] sint_less [of x] by simp

text \<open>The sums fit the 64 bits the code keeps them in, for as many samples as the count can hold, and the lowest count is one that came.\<close>

lemma sums_fit:
  "\<bar>asum (sumsOf xs)\<bar> \<le> 32768 * int (length xs) \<and> 0 \<le> asumSq (sumsOf xs) \<and> asumSq (sumsOf xs) \<le> 2 ^ 30 * int (length xs)"
proof (induction xs rule: rev_induct)
  case (snoc x xs)
  have b: "\<bar>sint x\<bar> \<le> 32768" using sint16 [of x] by auto
  then have "sint x * sint x \<le> 32768 * 32768" using abs_mult_self_eq [of "sint x"] mult_mono [OF b b] by simp
  moreover have "0 \<le> sint x * sint x" by simp
  ultimately show ?case using snoc b by (simp add: sumsOf_snoc adsRmsAdd_def) linarith
qed (simp add: sumsOf_def rmsInit_def)

lemma sums_fit_int64: "length xs < 2 ^ 32 \<Longrightarrow> \<bar>asum (sumsOf xs)\<bar> < 2 ^ 63 \<and> asumSq (sumsOf xs) < 2 ^ 63"
proof -
  assume l: "length xs < 2 ^ 32"
  then have i: "int (length xs) < 2 ^ 32" by simp
  have "32768 * int (length xs) < 2 ^ 63" "2 ^ 30 * int (length xs) < 2 ^ 63" using i by simp_all
  then show ?thesis using sums_fit [of xs] by linarith
qed

lemma lowest: "xs \<noteq> [] \<Longrightarrow> amin (sumsOf xs) = Min (set (map sint xs))"
proof (induction xs rule: rev_induct)
  case (snoc x xs)
  show ?case
  proof (cases "xs = []")
    case True
    then show ?thesis using sint16 [of x] by (auto simp: sumsOf_def adsRmsAdd_def rmsInit_def)
  next
    case False
    then have "amin (sumsOf xs) = Min (set (map sint xs))" using snoc by simp
    moreover have "Min (insert (sint x) (set (map sint xs))) = min (sint x) (Min (set (map sint xs)))" using False by (intro Min_insert) auto
    ultimately show ?thesis by (auto simp: sumsOf_snoc adsRmsAdd_def min_def)
  qed
qed simp

section \<open>What the readings mean\<close>

lemma sum_list_sub:
  "sum_list (map (\<lambda>x. (real_of_int (sint x) - m)\<^sup>2) xs) =
   real_of_int (sum_list (map (\<lambda>x. sint (x :: 16 word) * sint x) xs)) - 2 * m * real_of_int (sum_list (map sint xs)) + real (length xs) * m\<^sup>2"
  by (induction xs) (simp_all add: power2_eq_square algebra_simps)

definition meanOf :: "16 word list \<Rightarrow> real" where
  "meanOf xs = real_of_int (sum_list (map sint xs)) / real (length xs)"

text \<open>The AC reading is the standard deviation of the samples and the DC reading their mean, in volts at the full scale of the configured
  gain: a constant offset on every sample, such as a bias, does not change the AC reading.\<close>

lemma ads_rms_is_deviation:
  "xs \<noteq> [] \<Longrightarrow>
   adsRmsAcVolts (sumsOf xs) fs = sqrt (sum_list (map (\<lambda>x. (real_of_int (sint x) - meanOf xs)\<^sup>2) xs) / real (length xs)) * fs / 32768 \<and>
   adsMeanVolts (sumsOf xs) fs = meanOf xs * fs / 32768"
proof -
  assume ne: "xs \<noteq> []"
  define n where "n = real (length xs)"
  have n: "n > 0" using ne by (simp add: n_def)
  define S where "S = real_of_int (sum_list (map sint xs))"
  define Q where "Q = real_of_int (sum_list (map (\<lambda>x. sint x * sint x) xs))"
  have m: "meanOf xs = S / n" by (simp add: meanOf_def S_def n_def)
  have d: "sum_list (map (\<lambda>x. (real_of_int (sint x) - meanOf xs)\<^sup>2) xs) / n = Q / n - (S / n) * (S / n)"
    unfolding sum_list_sub m using n by (simp add: Q_def S_def n_def field_simps power2_eq_square)
  have "0 \<le> sum_list (map (\<lambda>x. (real_of_int (sint x) - meanOf xs)\<^sup>2) xs)" by (rule sum_list_nonneg) auto
  then have "0 \<le> Q / n - (S / n) * (S / n)" using n d by (metis divide_nonneg_pos)
  then have "adsRmsAcCounts (sumsOf xs) = sqrt (Q / n - (S / n) * (S / n))"
    using ne sumsOf_spec [of xs] by (simp add: adsRmsAcCounts_def Let_def Q_def S_def n_def)
  then show ?thesis using d ne sumsOf_spec [of xs] by (simp add: adsRmsAcVolts_def adsMeanVolts_def n_def m S_def)
qed

text \<open>A channel is only called clipped or clean when it swings by more than the noise floor, and clipped exactly when a sample touched ground.\<close>

lemma clip_iff: "xs \<noteq> [] \<Longrightarrow> adsClipAtGround (sumsOf xs) = Clipped \<longleftrightarrow> adsRmsAcCounts (sumsOf xs) > 16 \<and> (\<exists>x \<in> set xs. sint x \<le> 8)"
  by (auto simp: adsClipAtGround_def lowest ADS_AC_FLOOR_COUNTS_def ADS_GROUND_COUNTS_def Min_le_iff)

text \<open>The range that is selected: the smallest that holds the gain, the largest when none does.\<close>

lemma adsPga_smallest: "g \<le> 6.144 \<Longrightarrow> g \<le> adsPgaFullScaleV (Some g) \<and> (\<forall>fs \<in> set ADS_PGA_FS_V. g \<le> fs \<longrightarrow> adsPgaFullScaleV (Some g) \<le> fs)"
  by (auto simp: adsPgaFullScaleV_def adsPgaIndex_def ADS_PGA_FS_V_def ADS_PGA_RANGES_def)

text \<open>The wait: a chip is given up only after a poll that began past the deadline and still found it busy; polling past the deadline ends it.\<close>

lemma wait_gives_up:
  "adsWaitReady start t ps = Some False \<Longrightarrow> \<exists>i < length ps. fst (ps ! i) - start \<ge> t \<and> (\<forall>j \<le> i. \<not> snd (ps ! j))"
proof (induction start t ps rule: adsWaitReady.induct)
  case (2 start t now ready ps)
  show ?case
  proof (cases "now - start \<ge> t")
    case True
    then show ?thesis using "2.prems" by (intro exI [of _ 0]) (auto simp: Let_def split: if_splits)
  next
    case False
    then have r: "\<not> ready" "adsWaitReady start t ps = Some False" using "2.prems" by (auto simp: Let_def split: if_splits)
    then obtain i where "i < length ps" "fst (ps ! i) - start \<ge> t" "\<forall>j \<le> i. \<not> snd (ps ! j)" using "2.IH" False by auto
    then show ?thesis using r(1) by (intro exI [of _ "Suc i"]) (auto simp: nth_Cons split: nat.splits)
  qed
qed simp

lemma wait_ends: "(\<exists>p \<in> set ps. fst p - start \<ge> t) \<Longrightarrow> adsWaitReady start t ps \<noteq> None"
  by (induction start t ps rule: adsWaitReady.induct) (auto simp: Let_def)

section \<open>A device that drops out\<close>

lemma sampleLoop_ok: "sampleLoop n cs raw a = (True, r, a') \<Longrightarrow> \<exists>xs. length xs = n \<and> take n cs = map Some xs \<and> a' = fold adsRmsAdd xs a"
proof (induction n cs raw a rule: sampleLoop.induct)
  case (2 n cs raw a)
  then obtain c cs' where c: "cs = Some c # cs'" by (auto split: list.splits option.splits)
  then obtain xs where "length xs = n" "take n cs' = map Some xs" "a' = fold adsRmsAdd xs (adsRmsAdd c a)" using 2 by auto
  then show ?case using c by (intro exI [of _ "c # xs"]) simp
qed simp

lemma readDevice_lost: "readDevice v False ios chs dev = ([], chs, dev)"
  by (induction chs arbitrary: ios) simp_all

text \<open>A channel is published only from a full set of samples between two acknowledgements, and after the first channel that is lost no other
  channel of the device is read.\<close>

lemma channel_whole:
  assumes "readChannelRms b a cs dev ch = (NotLost, v, raw, dev', ch')"
  shows "b \<and> a \<and> devOk dev' \<and> (\<exists>xs. length xs = RMS_SAMPLES \<and> take RMS_SAMPLES cs = map Some xs \<and>
    v = (if chDc ch then adsMeanVolts (sumsOf xs) (chGain ch) else adsRmsAcVolts (sumsOf xs) (chGain ch)))"
proof -
  obtain ok r acc where s: "sampleLoop RMS_SAMPLES cs 0 rmsInit = (ok, r, acc)" by (metis prod_cases3)
  have ok: "ok" "b" "a" "devOk dev'" using assms s
    by (auto simp: readChannelRms_def sampleRms_def Let_def markOnline_def split: if_splits)
  then obtain xs where xs: "length xs = RMS_SAMPLES" "take RMS_SAMPLES cs = map Some xs" "acc = sumsOf xs"
    using sampleLoop_ok [of RMS_SAMPLES cs 0 rmsInit r acc] s by (auto simp: sumsOf_def)
  have "v = (if chDc ch then adsMeanVolts acc (chGain ch) else adsRmsAcVolts acc (chGain ch))"
    using assms s ok by (auto simp: readChannelRms_def sampleRms_def Let_def split: if_splits)
  then show ?thesis using ok xs by auto
qed

lemma device_stops:
  assumes "readChannelRms b a cs dev ch = (why, v, raw, dev1, ch1)" "why \<noteq> NotLost"
  shows "readDevice lv True ((b, a, cs) # ios) (ch # chs) dev = ([], ch1 # chs, dev1)"
  using assms by (simp add: readDevice_lost)


end
