(* ===== verification/Tls_Client.thy ===== *)
theory Tls_Client
  imports Fw_Prelude
begin

text \<open>
  The TLS client over any byte stream: \<open>TlsClient.cpp\<close>. mbedTLS is an input: what each of its calls returns. The contexts it works on are
  kept as what the code put into them: the trust anchors, the own certificate and the name to check. A wait that ends by the clock is
  given as the results that came before it ended.
\<close>

section \<open>Definitions\<close>

datatype tlsErr = NoErr | Refused | NetConnectFailed | WantErr | TimeoutErr | LibErr int

record tlsCtx =
  ctxCa :: cstr
  ctxOwn :: "(string \<times> string) option"
  ctxName :: cstr

record tlsClient =
  transport :: "nat option"
  caPem :: cstr
  certPem :: cstr
  keyPem :: cstr
  insecure :: bool
  ctx :: "tlsCtx option"
  isConnected :: bool
  isVerified :: bool
  peekByte :: "u8 option"
  lastError :: tlsErr
  verifyFlags :: u32

definition tlsInit :: tlsClient where
  "tlsInit = \<lparr>transport = None, caPem = None, certPem = None, keyPem = None, insecure = False, ctx = None, isConnected = False,
     isVerified = False, peekByte = None, lastError = NoErr, verifyFlags = 0\<rparr>"

definition markClosed :: "tlsClient \<Rightarrow> tlsClient" where
  "markClosed t = t\<lparr>isConnected := False, peekByte := None\<rparr>"

definition freeContexts :: "tlsClient \<Rightarrow> tlsClient" where
  "freeContexts t = (if ctx t = None then t else t\<lparr>ctx := None\<rparr>)"

definition tlsStop :: "tlsClient \<Rightarrow> tlsClient" where
  "tlsStop t = (freeContexts (markClosed t))\<lparr>isVerified := False\<rparr>"

definition setTransport :: "nat option \<Rightarrow> tlsClient \<Rightarrow> tlsClient" where
  "setTransport tr t = (if tr \<noteq> transport t then tlsStop t else t)\<lparr>transport := tr\<rparr>"

definition setCACert :: "cstr \<Rightarrow> tlsClient \<Rightarrow> tlsClient" where
  "setCACert pem t = (if pem \<noteq> None then t\<lparr>caPem := pem, insecure := False\<rparr> else t\<lparr>caPem := pem\<rparr>)"

definition setInsecure :: "tlsClient \<Rightarrow> tlsClient" where
  "setInsecure t = t\<lparr>caPem := None, insecure := True\<rparr>"

definition setCertificate :: "cstr \<Rightarrow> tlsClient \<Rightarrow> tlsClient" where "setCertificate pem t = t\<lparr>certPem := pem\<rparr>"
definition setPrivateKey :: "cstr \<Rightarrow> tlsClient \<Rightarrow> tlsClient" where "setPrivateKey pem t = t\<lparr>keyPem := pem\<rparr>"

text \<open>What mbedTLS answers while a session is opened; a result of zero is success.\<close>

record openIn =
  oSeed :: int
  oConf :: int
  oCa :: int
  oCert :: int
  oKey :: int
  oOwn :: int
  oSetup :: int
  oName :: int
  oDialed :: bool
  oHandshake :: "tlsErr list"
  oVerify :: u32

definition hasHostname :: "cstr \<Rightarrow> bool" where
  "hasHostname h \<longleftrightarrow> h \<noteq> None \<and> h \<noteq> Some ''''"

definition withErr :: "int \<Rightarrow> tlsClient \<Rightarrow> bool \<times> tlsClient" where
  "withErr rc t = (False, t\<lparr>lastError := LibErr rc\<rparr>)"

text \<open>What the contexts hold once every step went through.\<close>

definition goodCtx :: "cstr \<Rightarrow> tlsClient \<Rightarrow> tlsCtx" where
  "goodCtx h t = \<lparr>ctxCa = caPem t, ctxOwn = (if certPem t \<noteq> None \<and> keyPem t \<noteq> None then Some (the (certPem t), the (keyPem t)) else None),
     ctxName = (if hasHostname h then h else None)\<rparr>"

definition setupContexts :: "openIn \<Rightarrow> cstr \<Rightarrow> tlsClient \<Rightarrow> bool \<times> tlsClient" where
  "setupContexts i hostname t0 =
     (let t = t0\<lparr>ctx := Some \<lparr>ctxCa = None, ctxOwn = None, ctxName = None\<rparr>\<rparr>; rc = (if oSeed i = 0 then oConf i else oSeed i)
      in if rc \<noteq> 0 then withErr rc t
         else if caPem t \<noteq> None \<and> oCa i < 0 then withErr (oCa i) t
         else let own = (certPem t \<noteq> None \<and> keyPem t \<noteq> None); rc2 = (if oCert i = 0 then (if oKey i = 0 then oOwn i else oKey i) else oCert i)
              in if own \<and> rc2 \<noteq> 0 then withErr rc2 t
                 else let rc3 = (if oSetup i = 0 \<and> hasHostname hostname then oName i else oSetup i)
                      in if rc3 \<noteq> 0 then withErr rc3 t
                         else (True, t\<lparr>ctx := Some (goodCtx hostname t)\<rparr>))"

text \<open>The handshake is called until it wants nothing more or the time is up.\<close>

fun handshake :: "tlsErr list \<Rightarrow> tlsErr" where
  "handshake [] = WantErr"
| "handshake (rc # rcs) = (if rc = WantErr then handshake rcs else rc)"

definition openSession :: "openIn \<Rightarrow> cstr \<Rightarrow> tlsClient \<Rightarrow> bool \<times> tlsClient" where
  "openSession i hostname t0 =
     (let t = (tlsStop t0)\<lparr>lastError := NoErr, verifyFlags := 0, isVerified := False\<rparr>
      in if transport t = None then (False, t\<lparr>lastError := Refused\<rparr>)
         else if caPem t = None \<and> \<not> insecure t then (False, t\<lparr>lastError := Refused\<rparr>)
         else if caPem t \<noteq> None \<and> \<not> hasHostname hostname then (False, t\<lparr>lastError := Refused\<rparr>)
         else let (ok, t1) = setupContexts i hostname t
              in if \<not> ok then (False, freeContexts t1)
                 else if \<not> oDialed i then (False, freeContexts (t1\<lparr>lastError := NetConnectFailed\<rparr>))
                 else let rc = handshake (oHandshake i); t2 = t1\<lparr>verifyFlags := oVerify i\<rparr>
                      in if rc \<noteq> NoErr then (False, freeContexts (t1\<lparr>lastError := rc, verifyFlags := oVerify i\<rparr>))
                         else (True, t2\<lparr>isConnected := True, isVerified := (caPem t2 \<noteq> None)\<rparr>))"

text \<open>\<open>connect\<close> by name, by address and name, and by address alone.\<close>

definition tlsConnectHost :: "openIn \<Rightarrow> string \<Rightarrow> tlsClient \<Rightarrow> bool \<times> tlsClient" where
  "tlsConnectHost i host t = openSession i (Some host) t"

definition tlsConnectIp :: "openIn \<Rightarrow> cstr \<Rightarrow> tlsClient \<Rightarrow> bool \<times> tlsClient" where
  "tlsConnectIp i hostname t = openSession i hostname t"

subsection \<open>Reading and writing\<close>

datatype writeRc = Wrote nat | WriteWant | WriteErr tlsErr

fun tlsWriteLoop :: "writeRc list \<Rightarrow> nat \<Rightarrow> nat \<Rightarrow> tlsClient \<Rightarrow> nat \<times> tlsClient" where
  "tlsWriteLoop [] len k t = (if k < len then (k, markClosed (t\<lparr>lastError := TimeoutErr\<rparr>)) else (k, t))"
| "tlsWriteLoop (r # rs) len k t =
     (if \<not> k < len then (k, t)
      else case r of Wrote n \<Rightarrow> tlsWriteLoop rs len (k + n) t
           | WriteWant \<Rightarrow> tlsWriteLoop rs len k t
           | WriteErr e \<Rightarrow> (k, markClosed (t\<lparr>lastError := e\<rparr>)))"

definition tlsWrite :: "writeRc list \<Rightarrow> nat \<Rightarrow> tlsClient \<Rightarrow> nat \<times> tlsClient" where
  "tlsWrite rs len t = (if \<not> isConnected t then (0, t) else tlsWriteLoop rs len 0 t)"

text \<open>\<open>mbedtls_ssl_read\<close>: bytes, more to wait for, the end of the session, or an error.\<close>

datatype readRc = Got "u8 list" | ReadWant | ReadEnd | ReadErr tlsErr

definition fillPeek :: "bool \<Rightarrow> readRc \<Rightarrow> tlsClient \<Rightarrow> bool \<times> tlsClient" where
  "fillPeek lower r t =
     (if peekByte t \<noteq> None then (True, t)
      else if \<not> lower then (False, t)
      else case r of Got (c # cs) \<Rightarrow> (True, t\<lparr>peekByte := Some c\<rparr>)
           | Got [] \<Rightarrow> (False, markClosed t)
           | ReadWant \<Rightarrow> (False, t)
           | ReadEnd \<Rightarrow> (False, markClosed t)
           | ReadErr e \<Rightarrow> (False, markClosed (t\<lparr>lastError := e\<rparr>)))"

definition tlsAvailable :: "nat \<Rightarrow> bool \<Rightarrow> readRc \<Rightarrow> tlsClient \<Rightarrow> nat \<times> tlsClient" where
  "tlsAvailable n lower r t =
     (if \<not> isConnected t then (0, t)
      else if peekByte t \<noteq> None then (n + 1, t)
      else if n > 0 then (n, t)
      else let (b, t1) = fillPeek lower r t in (if b then 1 else 0, t1))"

text \<open>None is -1. \<open>n\<close> is what mbedTLS has decrypted already, \<open>lower\<close> whether the stream below has bytes.\<close>

definition tlsRead :: "nat \<Rightarrow> nat \<Rightarrow> bool \<Rightarrow> readRc \<Rightarrow> tlsClient \<Rightarrow> u8 list option \<times> tlsClient" where
  "tlsRead len n lower r t =
     (if len = 0 then (Some [], t)
      else let got = (case peekByte t of None \<Rightarrow> [] | Some c \<Rightarrow> [c]); t1 = t\<lparr>peekByte := None\<rparr>; res = (if got = [] then None else Some got)
           in if \<not> isConnected t1 \<or> length got = len then (res, t1)
              else if n = 0 \<and> \<not> lower then (res, t1)
              else case r of Got (c # cs) \<Rightarrow> (Some (got @ c # cs), t1)
                   | ReadWant \<Rightarrow> (res, t1)
                   | ReadErr e \<Rightarrow> (res, markClosed (t1\<lparr>lastError := e\<rparr>))
                   | _ \<Rightarrow> (res, markClosed t1))"

definition tlsPeek :: "nat \<Rightarrow> readRc \<Rightarrow> bool \<Rightarrow> readRc \<Rightarrow> tlsClient \<Rightarrow> u8 option \<times> tlsClient" where
  "tlsPeek n r lower r2 t =
     (let t1 = (if peekByte t = None \<and> isConnected t \<and> n > 0
                then (case r of Got [c] \<Rightarrow> t\<lparr>peekByte := Some c\<rparr> | _ \<Rightarrow> t) else t);
          t2 = (if peekByte t1 = None \<and> isConnected t1 then snd (fillPeek lower r2 t1) else t1)
      in (peekByte t2, t2))"

definition tlsConnected :: "nat \<Rightarrow> bool \<Rightarrow> tlsClient \<Rightarrow> bool \<times> tlsClient" where
  "tlsConnected n lowerUp t =
     (if peekByte t \<noteq> None then (True, t)
      else if isConnected t \<and> n > 0 then (True, t)
      else let t1 = (if isConnected t \<and> \<not> lowerUp then markClosed t else t) in (isConnected t1, t1))"

section \<open>What a session was checked against\<close>

text \<open>An open session has its contexts; it counts as verified exactly when they hold trust anchors, and then a name; without anchors only
  after \<open>setInsecure\<close>. The own certificate is presented as the pair that was set when the session was opened.\<close>

definition tlsInv :: "tlsClient \<Rightarrow> bool" where
  "tlsInv t \<longleftrightarrow> (isConnected t \<longrightarrow> ctx t \<noteq> None) \<and> (isVerified t \<longrightarrow> (\<exists>k. ctx t = Some k \<and> ctxCa k \<noteq> None \<and> hasHostname (ctxName k))) \<and>
     (insecure t \<longrightarrow> caPem t = None)"

lemma tlsStop_simps [simp]:
  "ctx (tlsStop t) = None" "isConnected (tlsStop t) = False" "isVerified (tlsStop t) = False" "peekByte (tlsStop t) = None"
  "transport (tlsStop t) = transport t" "caPem (tlsStop t) = caPem t" "insecure (tlsStop t) = insecure t"
  "certPem (tlsStop t) = certPem t" "keyPem (tlsStop t) = keyPem t"
  by (simp_all add: tlsStop_def freeContexts_def markClosed_def)

lemma setupContexts_ok: "setupContexts i h t = (True, t1) \<Longrightarrow> t1 = t\<lparr>ctx := Some (goodCtx h t)\<rparr>"
  by (auto simp: setupContexts_def withErr_def Let_def goodCtx_def split: if_split_asm)

lemma setupContexts_fail: "setupContexts i h t = (False, t1) \<Longrightarrow> \<exists>k e. t1 = t\<lparr>ctx := Some k, lastError := LibErr e\<rparr>"
  unfolding setupContexts_def withErr_def Let_def by (simp split: if_split_asm) metis+

lemma openSession_ok:
  assumes "openSession i h t = (True, t')"
  shows "\<exists>v. t' = (tlsStop t)\<lparr>lastError := NoErr, verifyFlags := v, isVerified := caPem t \<noteq> None, ctx := Some (goodCtx h t), isConnected := True\<rparr> \<and>
    (caPem t = None \<longrightarrow> insecure t) \<and> (caPem t \<noteq> None \<longrightarrow> hasHostname h) \<and> transport t \<noteq> None"
proof -
  define u where "u = (tlsStop t)\<lparr>lastError := NoErr, verifyFlags := 0, isVerified := False\<rparr>"
  have f: "transport u = transport t" "caPem u = caPem t" "insecure u = insecure t" "certPem u = certPem t" "keyPem u = keyPem t" by (simp_all add: u_def)
  obtain ok t1 where s: "setupContexts i h u = (ok, t1)" by fastforce
  have g: "\<not> (transport t = None)" "\<not> (caPem t = None \<and> \<not> insecure t)" "\<not> (caPem t \<noteq> None \<and> \<not> hasHostname h)" "ok"
    "t' = t1\<lparr>verifyFlags := oVerify i, isConnected := True, isVerified := (caPem t1 \<noteq> None)\<rparr>"
    using assms unfolding openSession_def Let_def u_def [symmetric] f s by (simp_all split: if_split_asm)
  have t1: "t1 = u\<lparr>ctx := Some (goodCtx h u)\<rparr>" by (rule setupContexts_ok [of i]) (use s g(4) in simp)
  have "goodCtx h u = goodCtx h t" by (simp add: goodCtx_def f)
  then have "t' = (tlsStop t)\<lparr>lastError := NoErr, verifyFlags := oVerify i, isVerified := caPem t \<noteq> None, ctx := Some (goodCtx h t), isConnected := True\<rparr>"
    unfolding g(5) t1 by (simp add: u_def)
  then show ?thesis using g(1-3) by blast
qed

lemma openSession_fail:
  assumes "openSession i h t = (False, t')"
  shows "\<exists>v e. t' = (tlsStop t)\<lparr>lastError := e, verifyFlags := v\<rparr>"
proof -
  define u where "u = (tlsStop t)\<lparr>lastError := NoErr, verifyFlags := 0, isVerified := False\<rparr>"
  have n: "ctx u = None" by (simp add: u_def)
  have u: "u\<lparr>lastError := e, verifyFlags := v\<rparr> = (tlsStop t)\<lparr>lastError := e, verifyFlags := v\<rparr>" for e v
    by (simp add: u_def tlsStop_def)
  have uc: "(u\<lparr>ctx := Some k, lastError := e, verifyFlags := v\<rparr>)\<lparr>ctx := None\<rparr> = u\<lparr>lastError := e, verifyFlags := v\<rparr>" for k e v
    using n by (cases u) simp
  obtain ok t1 where s: "setupContexts i h u = (ok, t1)" by fastforce
  show ?thesis
  proof (cases "transport u = None \<or> caPem u = None \<and> \<not> insecure u \<or> caPem u \<noteq> None \<and> \<not> hasHostname h")
    case True
    then have "t' = u\<lparr>lastError := Refused\<rparr>" using assms unfolding openSession_def Let_def u_def [symmetric] by (simp split: if_split_asm)
    then show ?thesis using u [where v = "verifyFlags u" and e = Refused] by (cases u) auto
  next
    case False
    have c: "\<not> (transport u = None)" "\<not> (caPem u = None \<and> \<not> insecure u)" "\<not> (caPem u \<noteq> None \<and> \<not> hasHostname h)" using False by simp_all
    have go: "(if \<not> ok then (False, freeContexts t1)
        else if \<not> oDialed i then (False, freeContexts (t1\<lparr>lastError := NetConnectFailed\<rparr>))
        else if handshake (oHandshake i) \<noteq> NoErr then (False, freeContexts (t1\<lparr>lastError := handshake (oHandshake i), verifyFlags := oVerify i\<rparr>))
        else (True, t1\<lparr>verifyFlags := oVerify i, isConnected := True, isVerified := (caPem (t1\<lparr>verifyFlags := oVerify i\<rparr>) \<noteq> None)\<rparr>)) = (False, t')"
      using assms unfolding openSession_def Let_def u_def [symmetric] s by (simp only: c if_False prod.case)
    have fr: "freeContexts (u\<lparr>ctx := Some k, lastError := e, verifyFlags := v\<rparr>) = u\<lparr>lastError := e, verifyFlags := v\<rparr>" for k e v
      using uc by (simp add: freeContexts_def)
    show ?thesis
    proof (cases ok)
      case False
      then obtain k e where t1: "t1 = u\<lparr>ctx := Some k, lastError := LibErr e\<rparr>" using s setupContexts_fail [of i h u t1] by auto
      have "t' = u\<lparr>lastError := LibErr e, verifyFlags := verifyFlags u\<rparr>"
        using go False fr [where k = k and e = "LibErr e" and v = "verifyFlags u"] unfolding t1 by simp
      then show ?thesis using u by auto
    next
      case True
      have t1: "t1 = u\<lparr>ctx := Some (goodCtx h u)\<rparr>" by (rule setupContexts_ok [of i]) (use s True in simp)
      have "\<exists>e v. t' = u\<lparr>lastError := e, verifyFlags := v\<rparr>"
      proof (cases "oDialed i")
        case False
        then have "t' = u\<lparr>lastError := NetConnectFailed, verifyFlags := verifyFlags u\<rparr>"
          using go True fr [where k = "goodCtx h u" and e = NetConnectFailed and v = "verifyFlags u"] unfolding t1 by simp
        then show ?thesis by blast
      next
        case d: True
        from d have "t' = u\<lparr>lastError := handshake (oHandshake i), verifyFlags := oVerify i\<rparr>"
          using go True fr [where k = "goodCtx h u" and e = "handshake (oHandshake i)" and v = "oVerify i"] unfolding t1 by (simp split: if_split_asm)
        then show ?thesis by blast
      qed
      then show ?thesis using u by auto
    qed
  qed
qed

lemma openSession_inv:
  assumes "tlsInv t"
  shows "tlsInv (snd (openSession i h t))"
proof (cases "fst (openSession i h t)")
  case True
  then obtain t' where o: "openSession i h t = (True, t')" by (metis prod.collapse)
  show ?thesis using openSession_ok [OF o] assms by (auto simp: o tlsInv_def goodCtx_def)
next
  case False
  then obtain t' where o: "openSession i h t = (False, t')" by (metis prod.collapse)
  show ?thesis using openSession_fail [OF o] assms by (auto simp: o tlsInv_def)
qed

text \<open>Reading gives a peeked byte first, and nothing of the session's checks changes while it is used.\<close>

lemma peek_first: "peekByte t = Some c \<Longrightarrow> len > 0 \<Longrightarrow> \<exists>cs. fst (tlsRead len n lower r t) = Some (c # cs)"
  by (auto simp: tlsRead_def Let_def split: readRc.splits list.splits)

lemma peek_then_read:
  assumes "tlsPeek n r lower r2 t = (Some c, t')"
  shows "peekByte t' = Some c" "fst (tlsRead 1 n' lower' r' t') = Some [c]"
  using assms by (auto simp: tlsPeek_def Let_def tlsRead_def)

definition sameSession :: "tlsClient \<Rightarrow> tlsClient \<Rightarrow> bool" where
  "sameSession t t' \<longleftrightarrow> ctx t' = ctx t \<and> isVerified t' = isVerified t \<and> caPem t' = caPem t \<and> insecure t' = insecure t \<and>
     certPem t' = certPem t \<and> keyPem t' = keyPem t \<and> transport t' = transport t \<and> (isConnected t' \<longrightarrow> isConnected t)"

lemma tlsWriteLoop_same: "sameSession t (snd (tlsWriteLoop rs len k t))"
  by (induction rs len k t rule: tlsWriteLoop.induct) (auto simp: sameSession_def markClosed_def split: writeRc.splits)

lemma use_keeps_session:
  "sameSession t (snd (tlsWrite rs len t))" "sameSession t (snd (tlsAvailable n lower r t))" "sameSession t (snd (tlsRead len n lower r t))"
  "sameSession t (snd (tlsPeek n r lower r2 t))" "sameSession t (snd (tlsConnected n lowerUp t))"
  using tlsWriteLoop_same [of t rs len 0]
  by (auto simp: tlsWrite_def tlsAvailable_def fillPeek_def tlsRead_def tlsPeek_def tlsConnected_def markClosed_def sameSession_def Let_def
      split: readRc.splits list.splits option.splits prod.splits)

text \<open>A write that reports fewer bytes than it was given closes the session.\<close>

lemma short_write_closes: "fst (tlsWriteLoop rs len k t) < len \<Longrightarrow> \<not> isConnected (snd (tlsWriteLoop rs len k t))"
  by (induction rs len k t rule: tlsWriteLoop.induct) (auto simp: markClosed_def split: writeRc.splits if_splits)

end
