(* ===== verification/Spec2Isabelle.thy ===== *)
theory Spec2Isabelle
  imports Ota_Guard Cli_Authz Mqtt_Sub Mqtt_Queue Mqtt_Rollback Http_Auth Http_Io Shell_Core Config_Doc Enroll_Flow Lora_Module Ota_Fetch Cli_Cat Sd_Log Cell_Link Lua_Engine Lua_Json Wifi_Link Sleep_Wake Temp_Probe Ads_Sample Tls_Client
begin

text \<open>
  A model of thesada-fw, the firmware of an ESP32 sensor node: configuration on flash, a session to an MQTT broker
  over WiFi or a modem, a web interface, a command shell reachable from the serial port, the web and the broker,
  over-the-air updates that roll back, first-boot enrollment with client certificates, and a LoRa radio that
  speaks Meshtastic. The C++ under \<open>src/lib\<close> keeps the decisions in headers named \<open>*_policy.h\<close> and the state
  around them in \<open>.cpp\<close> files; the theories follow that split.

  \<^bold>\<open>How the parts interact.\<close> \<open>main.cpp\<close> runs the boot guard of \<open>OTAUpdate.cpp\<close>, loads \<open>Config.cpp\<close>, and then
  turns the loop of every component. \<open>MQTTClient.cpp\<close> receives commands, asks \<open>cli_authz_policy.h\<close> whether the
  session may run them, and hands them to the deferred ring of \<open>Shell.cpp\<close>; replies and telemetry go out
  through its publish queue. \<open>Enroll.cpp\<close> stores the client certificate through \<open>MQTTClient.cpp\<close> and the broker
  settings through \<open>Config.cpp\<close>. \<open>OTAUpdate.cpp\<close> fetches over WiFi or \<open>Cellular.cpp\<close>, and its records decide which
  image boots. \<open>HttpServer.cpp\<close> guards the same operations with tokens and a rate limiter.

  \<^bold>\<open>Conventions.\<close> A C++ struct or the static variables of a file are a record, with the source's names where Isabelle
  allows them; an enum is a datatype; a function is a definition of the same name. A nullable C string is a
  \<open>string option\<close>, a byte buffer a list of 8-bit words. \<open>millis()\<close> and other integers whose wrap-around matters are
  words; sizes, bounded by memory, are natural numbers. Flash, NVS, radio and network can fail at every call:
  the results are inputs (records such as \<open>nvs_io\<close>, \<open>certIo\<close>, \<open>enIo\<close>, \<open>hopResp\<close>), so a theorem holds for every pattern
  of failures unless it says otherwise. Libraries (ArduinoJson, mbedTLS, RadioLib, the ESP-IDF) are
  parameters: a JSON reader, a digest, a key stream, a driver status.

  \<^bold>\<open>The theories.\<close>
  \<^item> \<open>Fw_Prelude\<close>: word types, C strings and library calls, and the lemmas on both. \<open>Fw_Ring\<close>: circular buffers,
    and the locales \<open>newest_queue\<close> (a queue that drops its oldest entry) and \<open>work_queue\<close> (a bounded FIFO). They are
    interpreted on the publish queue, the deferred ring and the duplicate filter.
  \<^item> \<open>Ota_Verify\<close> (\<open>ota_verify_policy.h\<close>): version grammar, order, digest and URL gates, the packed record.
    \<open>Ota_Health\<close> (\<open>ota_health_policy.h\<close>): the crash streak. \<open>Ota_Fled\<close> and \<open>Ota_Guard\<close> (\<open>OTAUpdate.cpp\<close>, first half):
    the record of a release that was fled, and the boot guard, with the theorem that a device never switches back
    to the image it left. \<open>Ota_Fetch\<close> (second half): redirects, manifest, download, flash and check, with the
    theorems that only verified images are installed and that the ranged download ends and is exact.
  \<^item> \<open>Cli_Authz\<close> (\<open>cli_authz_policy.h\<close>, \<open>secret_keymap.h\<close>): what a password session may do.
  \<^item> \<open>Mqtt_Topics\<close>, \<open>Mqtt_Sub\<close> (\<open>mqtt_topic_policy.h\<close>, \<open>cli_topics.h\<close>, \<open>cli_payload.h\<close>, \<open>mqtt_sub_table.h\<close>): topics, the
    filter against MQTT levels, the subscription table against a list. \<open>Mqtt_Queue\<close>, \<open>Mqtt_Rollback\<close>
    (\<open>MQTTClient.cpp\<close>): the publish queue under any interleaving, and the rollback of broker settings.
  \<^item> \<open>Login_Rate\<close>, \<open>Secret_Store\<close>, \<open>Http_Auth\<close>, \<open>Http_Io\<close>: the web interface's rate limiter, secrets, tokens and
    grants (\<open>HttpServer.cpp\<close>), request bodies, and the fetch job shared between the shell and its task.
  \<^item> \<open>Shell_Core\<close> (\<open>shell_line_policy.h\<close>, \<open>shell_mode_policy.h\<close>, \<open>Shell.cpp\<close>): splitting, modes, deferred ring, console.
    \<open>Shell_Fs\<close> and \<open>Shell_Config\<close> (\<open>Shell.cpp\<close>): the mount table and the \<open>fs.*\<close> commands, with the theorem that a command changes only
    the files it names; the \<open>config.*\<close> commands, with set-then-get, failure and well-formedness theorems.
  \<^item> \<open>Cli_Page\<close> (\<open>cli_page_policy.h\<close>): sizing and paging of replies, which lose nothing. \<open>Cli_Run\<close> (\<open>MQTTClient.cpp\<close>, \<open>runCli\<close>): a command
    from the broker through envelope, gate, binary handlers and shell. It composes the gate, the shell's splitter, the
    secret and certificate stores and the \<open>config.set\<close> values: what a password session can change, and which port the
    client dials after a gated \<open>config.set\<close>. \<open>Cli_Cat\<close>: a file read range by range is the file.
  \<^item> \<open>Fs_Store\<close>, \<open>Cmd_Config\<close>, \<open>Config_Doc\<close> (\<open>config_write_policy.h\<close>, \<open>glob_policy.h\<close>, \<open>cmd_config_policy.h\<close>,
    \<open>Config.cpp\<close>): file replacement under faults, the scanner of a pushed configuration against a JSON grammar,
    and the configuration document.
  \<^item> \<open>Enroll_Policy\<close>, \<open>Cert_Store\<close>, \<open>Enroll_Flow\<close> (\<open>enroll_policy.h\<close>, \<open>device_identity_policy.h\<close>, \<open>ap_policy.h\<close>,
    \<open>setup_portal_policy.h\<close>, \<open>cert_policy.h\<close>, \<open>MQTTClient.cpp\<close>, \<open>Enroll.cpp\<close>): identities, the enrollment step
    machine as a step relation, and when a certificate may change.
  \<^item> \<open>Mesh_Frame\<close>, \<open>Lora_Module\<close> (\<open>meshtastic_frame.h\<close>, \<open>meshtastic_radio.h\<close>, \<open>lora_dedup_policy.h\<close> and the LoRa
    module): the codec and its round trip, the band of a transmission, and the publication of received texts.
  \<^item> \<open>Sd_Log\<close> (\<open>sd_log_policy.h\<close>, \<open>SDModule.cpp\<close>): log files on the card, which are only appended to over any boots and
    card failures.
  \<^item> \<open>Clock_Floor\<close> (\<open>clock_floor_policy.h\<close> and its calls in \<open>MQTTClient.cpp\<close>): the lower bound of the clock kept in NVS, with the
    calendar formula against counting days.
  \<^item> \<open>Cell_At\<close>, \<open>Cell_Link\<close> (\<open>Cellular.cpp\<close>, \<open>CellularModule.cpp\<close>, \<open>cell_recover_policy.h\<close>, \<open>cell_ntp_policy.h\<close>,
    \<open>boot_wait_policy.h\<close>): the line reader of the AT exchange against cutting the whole reply into lines, what the
    answers mean, the bring-up of the modem, its recovery ladder, and the hand-over of the session between WiFi and the modem.
  \<^item> \<open>Lua_Budget\<close>, \<open>Lua_Engine\<close>, \<open>Lua_Json\<close> (\<open>ScriptEngine.cpp\<close>, \<open>lua_budget_policy.h\<close>, \<open>lua_budget_hooks.h\<close>,
    \<open>lua_timer_policy.h\<close>, \<open>EventBus.cpp\<close>): the time a script may take, the life of the Lua state as a machine with an explicit stack,
    since a script can receive a message that calls a script, and what scripts see of JSON.
  \<^item> \<open>Wifi_Link\<close> (\<open>WiFiManager.cpp\<close>): scan, ranking, attempts and the fallback access point, which is never raised open or with a
    refused password, over any life of the manager; the networks are tried strongest first. \<open>Sleep_Wake\<close> (\<open>SleepManager.cpp\<close>): deep
    sleep, and the 32-bit microseconds that cut sleeps beyond 4294 seconds.
  \<^item> \<open>Tls_Client\<close> (\<open>TlsClient.cpp\<close>): a session is opened only with trust anchors and a name or after an explicit opt-in, and counts as
    verified exactly then; reads, peeks and writes keep it or close it.
  \<^item> \<open>Temp_Probe\<close> (\<open>temp_guard_policy.h\<close>, \<open>TemperatureModule.cpp\<close>): the plausibility guard against a description by a probe's whole
    history, the roster and its place in the configuration. \<open>Ads_Sample\<close> (\<open>ads_sample_policy.h\<close>, \<open>ADS1115Module.cpp\<close>): the sums of a
    sampling, their RMS against the standard deviation, clipping, the bounded wait, and when a chip counts as lost.

  \<^bold>\<open>Termination and bounds.\<close> Every definition is total. Loops over a buffer recurse on the rest of the list; the
  scanner of \<open>Cmd_Config\<close> has a measure on the text left; the download of \<open>Ota_Fetch\<close> one on the bytes left. No
  definition of the program uses fuel; the client \<open>catAll\<close> of \<open>Cli_Cat\<close> counts its requests, and one more than the bytes of the file is
  shown to be enough. A wait that ends by the clock is an input: the chunks that arrived before it ended.

  \<^bold>\<open>Not modelled.\<close> The modem's firmware, the Lua interpreter, the WiFi stack, mbedTLS, the sensor drivers and the
  card driver are hardware or libraries: what they answer is an input, or a parameter. Of \<open>float\<close> arithmetic only what is exact is
  claimed: sums and differences; the rounding of printed sensor values is a parameter or left out. The printers (shell commands that
  report state, log lines, Home Assistant discovery texts, web pages) format text and change nothing.
  Watchdog feeding and yields have no effect on the state modelled. Tasks that share memory are modelled where the
  code hands data between them: the fetch job, the enrollment job and the deferred ring.
\<close>

end
